(* ===== verification/Prelude.thy ===== *)
theory Prelude
  imports Complex_Main "HOL-Library.Multiset"
begin

text \<open>
  Shared vocabulary of the development: the exceptions the modelled code raises, the result type
  that carries them, Python's \<open>or\<close> on optional values, exact sums over lists, lookup by key in a
  tuple of records, and the generic facts about them that the components use.

  An exception is a value of \<open>py_error\<close>; a function that can raise returns \<open>py_error + 'a\<close>, with
  \<open>Inl\<close> for the exception and \<open>Inr\<close> for the returned value. Message texts are carried only where
  the code itself looks at them again.
\<close>

section \<open>Exceptions and results\<close>

datatype py_error =
    ValueError
  | PyTypeError
  | ZeroDivision
  | InexactError
  | OverflowError
  | UnderflowError
  | ValidationError
  | OrderStateError
  | JournalError
  | ConfigError
  | KeyError
  | SequenceGap int int
  | CircuitOpen rat
  | CalendarOutOfRange
  | RiskRejected string
  | KillSwitchEngaged string
  | IndexError
  | NotSupported
  | VenueException

type_synonym 'a result = "py_error + 'a"

definition bind_result :: "'e + 'a \<Rightarrow> ('a \<Rightarrow> 'e + 'b) \<Rightarrow> 'e + 'b" where
  "bind_result r f = (case r of Inl e \<Rightarrow> Inl e | Inr x \<Rightarrow> f x)"

definition is_ok :: "'e + 'a \<Rightarrow> bool" where
  "is_ok r = (case r of Inl _ \<Rightarrow> False | Inr _ \<Rightarrow> True)"

named_theorems result_simps \<open>rules for exceptions as values\<close>

lemma bind_result_Inl [simp, result_simps]: "bind_result (Inl e) f = Inl e"
  by (simp add: bind_result_def)

lemma bind_result_Inr [simp, result_simps]: "bind_result (Inr x) f = f x"
  by (simp add: bind_result_def)

lemma bind_result_eq_Inr [result_simps]:
  "bind_result r f = Inr y \<longleftrightarrow> (\<exists>x. r = Inr x \<and> f x = Inr y)"
  by (cases r) auto

lemma is_ok_simps [simp, result_simps]: "is_ok (Inl e) = False" "is_ok (Inr x) = True"
  by (simp_all add: is_ok_def)

lemma is_ok_iff: "is_ok r \<longleftrightarrow> (\<exists>x. r = Inr x)"
  by (cases r) auto

section \<open>Optional values\<close>

text \<open>
  Python's \<open>a or b\<close> on an optional string: the empty string counts as missing too.
\<close>

definition or_string :: "string option \<Rightarrow> string option \<Rightarrow> string option" where
  "or_string a b = (case a of None \<Rightarrow> b | Some s \<Rightarrow> if s = [] then b else a)"

text \<open>Python's \<open>a or b\<close> on an optional number: zero counts as missing.\<close>

definition or_number :: "rat option \<Rightarrow> rat option \<Rightarrow> rat option" where
  "or_number a b = (case a of None \<Rightarrow> b | Some x \<Rightarrow> if x = 0 then b else a)"

definition or_else :: "'a option \<Rightarrow> 'a option \<Rightarrow> 'a option" where
  "or_else a b = (case a of None \<Rightarrow> b | Some x \<Rightarrow> Some x)"

lemma or_else_simps [simp]: "or_else None b = b" "or_else (Some x) b = Some x"
  by (simp_all add: or_else_def)

lemma or_else_idem [simp]: "or_else a (or_else a b) = or_else a b"
  by (cases a) simp_all

lemma or_string_simps [simp]:
  "or_string None b = b" "s \<noteq> [] \<Longrightarrow> or_string (Some s) b = Some s" "or_string (Some []) b = b"
  by (simp_all add: or_string_def)

lemma or_number_simps [simp]:
  "or_number None b = b" "x \<noteq> 0 \<Longrightarrow> or_number (Some x) b = Some x" "or_number (Some 0) b = b"
  by (simp_all add: or_number_def)

lemma or_string_same: "or_string a (or_string a b) = or_string a b"
  by (cases a) (auto simp: or_string_def)

section \<open>Sums, lookups and updates over lists\<close>

definition sum_by :: "('a \<Rightarrow> rat) \<Rightarrow> 'a list \<Rightarrow> rat" where
  "sum_by f xs = sum_list (map f xs)"

named_theorems list_sums \<open>rules for exact sums over lists\<close>

lemma sum_by_Nil [simp, list_sums]: "sum_by f [] = 0"
  by (simp add: sum_by_def)

lemma sum_by_Cons [simp, list_sums]: "sum_by f (x # xs) = f x + sum_by f xs"
  by (simp add: sum_by_def)

lemma sum_by_append [simp, list_sums]: "sum_by f (xs @ ys) = sum_by f xs + sum_by f ys"
  by (simp add: sum_by_def)

lemma sum_by_mset: "mset xs = mset ys \<Longrightarrow> sum_by f xs = sum_by f ys"
  unfolding sum_by_def by (metis mset_map sum_mset_sum_list)

lemma sum_by_nonneg: "(\<And>x. x \<in> set xs \<Longrightarrow> 0 \<le> f x) \<Longrightarrow> 0 \<le> sum_by f xs"
  unfolding sum_by_def by (rule sum_list_nonneg) auto

lemma sum_by_cong: "(\<And>x. x \<in> set xs \<Longrightarrow> f x = g x) \<Longrightarrow> sum_by f xs = sum_by g xs"
  unfolding sum_by_def by (metis map_cong)

lemma sum_by_scale: "sum_by (\<lambda>x. c * f x) xs = c * sum_by f xs"
  by (induction xs) (simp_all add: algebra_simps)

text \<open>The loop \<open>result = add(result, f x)\<close> is the sum.\<close>

lemma foldl_sum_by: "foldl (\<lambda>acc x. acc + f x) a xs = a + sum_by f xs"
  by (induction xs arbitrary: a) simp_all

text \<open>Replacing the element at one position, as \<open>items[index] = value\<close> does.\<close>

lemma sum_by_list_update:
  assumes "i < length xs"
  shows "sum_by f (xs[i := y]) = sum_by f xs - f (xs ! i) + f y"
proof -
  have "xs[i := y] = take i xs @ y # drop (Suc i) xs"
    using assms by (rule upd_conv_take_nth_drop)
  moreover have "sum_by f xs = sum_by f (take i xs) + f (xs ! i) + sum_by f (drop (Suc i) xs)"
    by (metis (no_types, lifting) add.assoc assms id_take_nth_drop sum_by_Cons sum_by_append)
  ultimately show ?thesis by simp
qed

text \<open>\<open>next((x for x in xs if key(x) == k), None)\<close> is \<open>find\<close>.\<close>

definition find_by :: "('a \<Rightarrow> 'k) \<Rightarrow> 'k \<Rightarrow> 'a list \<Rightarrow> 'a option" where
  "find_by key k xs = find (\<lambda>x. key x = k) xs"

lemma find_by_Nil [simp]: "find_by key k [] = None"
  by (simp add: find_by_def)

lemma find_by_Cons [simp]:
  "find_by key k (x # xs) = (if key x = k then Some x else find_by key k xs)"
  by (simp add: find_by_def)

lemma find_by_None_iff: "find_by key k xs = None \<longleftrightarrow> k \<notin> key ` set xs"
  by (induction xs) auto

lemma find_by_SomeD: "find_by key k xs = Some x \<Longrightarrow> x \<in> set xs \<and> key x = k"
  by (induction xs) (auto split: if_splits)

lemma find_by_append:
  "find_by key k (xs @ ys) = (case find_by key k xs of None \<Rightarrow> find_by key k ys | Some x \<Rightarrow> Some x)"
  by (induction xs) auto

lemma find_by_distinct:
  "distinct (map key xs) \<Longrightarrow> x \<in> set xs \<Longrightarrow> find_by key (key x) xs = Some x"
  by (induction xs) force+

text \<open>Replace the first record with key \<open>k\<close>, leaving the rest and the order as they are.\<close>

fun replace_by :: "('a \<Rightarrow> 'k) \<Rightarrow> 'k \<Rightarrow> 'a \<Rightarrow> 'a list \<Rightarrow> 'a list" where
  "replace_by key k y [] = []"
| "replace_by key k y (x # xs) = (if key x = k then y # xs else x # replace_by key k y xs)"

lemma map_replace_by: "key y = k \<Longrightarrow> map key (replace_by key k y xs) = map key xs"
  by (induction xs) auto

lemma sum_by_replace_by:
  "find_by key k xs = Some x \<Longrightarrow> f y = f x \<Longrightarrow> sum_by f (replace_by key k y xs) = sum_by f xs"
  by (induction xs) (auto split: if_splits)

lemma length_replace_by [simp]: "length (replace_by key k y xs) = length xs"
  by (induction xs) auto

lemma find_by_replace_by:
  "key y = k \<Longrightarrow> find_by key k xs = Some x \<Longrightarrow> find_by key k (replace_by key k y xs) = Some y"
  by (induction xs) (auto split: if_splits)

lemma set_replace_by: "set (replace_by key k y xs) \<subseteq> insert y (set xs)"
  by (induction xs) auto

lemma replace_by_same: "find_by key k xs = Some x \<Longrightarrow> replace_by key k x xs = xs"
  by (induction xs) (auto split: if_splits)

lemma find_by_replace_by_other:
  "key y = k \<Longrightarrow> j \<noteq> k \<Longrightarrow> find_by key j (replace_by key k y xs) = find_by key j xs"
  by (induction xs) auto

lemma filter_key_absent [simp]: "k \<notin> key ` set xs \<Longrightarrow> filter (\<lambda>z. key z \<noteq> k) xs = xs"
  by (induction xs) auto

text \<open>Removing the record with one key from a list whose keys are distinct removes that record.\<close>

lemma sum_by_remove_key:
  "distinct (map key xs) \<Longrightarrow> find_by key k xs = Some x \<Longrightarrow>
    sum_by f (filter (\<lambda>z. key z \<noteq> k) xs) = sum_by f xs - f x"
proof (induction xs)
  case Nil
  then show ?case by simp
next
  case (Cons a xs)
  show ?case
  proof (cases "key a = k")
    case True
    with Cons.prems have "k \<notin> key ` set xs" and "a = x" by auto
    then have "filter (\<lambda>z. key z \<noteq> k) xs = xs"
      by (auto simp: filter_id_conv)
    with True \<open>a = x\<close> show ?thesis by simp
  next
    case False
    with Cons show ?thesis by auto
  qed
qed

section \<open>Rounding half to even\<close>

text \<open>Python's \<open>ROUND_HALF_EVEN\<close> to an integer, on an exact value.\<close>

definition round_half_even :: "rat \<Rightarrow> int" where
  "round_half_even x =
     (let f = \<lfloor>x\<rfloor>; d = x - of_int f
      in if d < 1/2 then f else if 1/2 < d then f + 1 else if even f then f else f + 1)"

lemma round_half_even_of_int [simp]: "round_half_even (of_int n) = n"
  by (simp add: round_half_even_def)

lemma round_half_even_error: "\<bar>of_int (round_half_even x) - x\<bar> \<le> 1/2"
proof -
  have a: "of_int \<lfloor>x\<rfloor> \<le> x" and b: "x < of_int \<lfloor>x\<rfloor> + 1" by linarith+
  show ?thesis
    unfolding round_half_even_def Let_def using a b by (simp only: abs_le_iff split: if_split) (auto; linarith)
qed

lemma round_half_even_bounds: "\<lfloor>x\<rfloor> \<le> round_half_even x \<and> round_half_even x \<le> \<lfloor>x\<rfloor> + 1"
  by (simp add: round_half_even_def Let_def)

end
