(* ===== verification/Decimals.thy ===== *)
theory Decimals
  imports Prelude
begin

text \<open>
  \<open>models/decimals.py\<close> and the admission test of \<open>models/types.py\<close>.

  A finite \<open>Decimal\<close> is \<open>Dec c e\<close>, the value \<open>c * 10 ^ e\<close>. The private context \<open>_EXACT\<close> (512
  digits, traps \<open>Inexact\<close>, \<open>Overflow\<close>, \<open>Underflow\<close>) is \<open>fix_exact\<close>: an operation computes the exact
  coefficient, and raises if it does not fit. \<open>to_decimal\<close> admits what has at most 64 significant
  digits and an adjusted exponent within 64, and the lemmas of this theory show that the arithmetic
  on admitted values returns the exact value and never raises, also when many are accumulated. That
  is why the other theories of the development compute with exact rationals (\<open>rat\<close>) where the code
  computes with \<open>Decimal\<close>.

  The sign of a zero is not represented: \<open>-0\<close> and \<open>0\<close> compare equal in the code. \<open>ratio\<close>, the one
  rounding operation, and the rounding to a step act on values, so they are stated on \<open>rat\<close>.
\<close>

section \<open>Finite decimals\<close>

datatype dec = Dec int int

fun dval :: "dec \<Rightarrow> rat" where
  "dval (Dec c e) = of_int c * 10 powi e"

fun ndigits :: "nat \<Rightarrow> nat" where
  "ndigits n = (if n < 10 then 1 else Suc (ndigits (n div 10)))"

declare ndigits.simps [simp del]

definition coeff_digits :: "int \<Rightarrow> nat" where
  "coeff_digits c = ndigits (nat \<bar>c\<bar>)"

fun adjusted :: "dec \<Rightarrow> int" where
  "adjusted (Dec c e) = e + int (coeff_digits c) - 1"

definition MAX_SIGNIFICANT_DIGITS :: nat where
  "MAX_SIGNIFICANT_DIGITS = 64"

definition MAX_ADJUSTED_EXPONENT :: int where
  "MAX_ADJUSTED_EXPONENT = 64"

definition PREC :: nat where
  "PREC = 512"

definition EMAX :: int where
  "EMAX = 999999"

definition ETOP :: int where
  "ETOP = EMAX - int PREC + 1"

definition ETINY :: int where
  "ETINY = - 999999 - int PREC + 1"

section \<open>The exact context\<close>

text \<open>
  The end of every operation in the context: a coefficient of more than 512 digits drops its last
  digits, which is exact only when they are zeros.
\<close>

definition fix_exact :: "dec \<Rightarrow> dec result" where
  "fix_exact d = (case d of Dec c e \<Rightarrow>
     if c = 0 then Inr (Dec 0 (max ETINY (min EMAX e)))
     else
       (let exp_min = int (coeff_digits c) + e - int PREC in
        if exp_min > ETOP then Inl OverflowError
        else
          (let subnormal = exp_min < ETINY; low = max exp_min ETINY in
           if e < low then
             (let k = nat (low - e) in
              if 10 ^ k dvd c then Inr (Dec (c div 10 ^ k) low)
              else Inl (if subnormal then UnderflowError else InexactError))
           else Inr d)))"

fun add_raw :: "dec \<Rightarrow> dec \<Rightarrow> dec" where
  "add_raw (Dec a ea) (Dec b eb) =
     (let e = min ea eb in Dec (a * 10 ^ nat (ea - e) + b * 10 ^ nat (eb - e)) e)"

fun mul_raw :: "dec \<Rightarrow> dec \<Rightarrow> dec" where
  "mul_raw (Dec a ea) (Dec b eb) = Dec (a * b) (ea + eb)"

fun neg_raw :: "dec \<Rightarrow> dec" where
  "neg_raw (Dec a ea) = Dec (- a) ea"

definition add_dec :: "dec \<Rightarrow> dec \<Rightarrow> dec result" where
  "add_dec a b = fix_exact (add_raw a b)"

definition sub_dec :: "dec \<Rightarrow> dec \<Rightarrow> dec result" where
  "sub_dec a b = fix_exact (add_raw a (neg_raw b))"

definition mul_dec :: "dec \<Rightarrow> dec \<Rightarrow> dec result" where
  "mul_dec a b = fix_exact (mul_raw a b)"

definition neg_dec :: "dec \<Rightarrow> dec result" where
  "neg_dec a = fix_exact (neg_raw a)"

fun absolute_dec :: "dec \<Rightarrow> dec" where
  "absolute_dec (Dec c e) = Dec \<bar>c\<bar> e"

fun total_from :: "dec \<Rightarrow> dec list \<Rightarrow> dec result" where
  "total_from acc [] = Inr acc"
| "total_from acc (v # vs) = bind_result (add_dec acc v) (\<lambda>r. total_from r vs)"

definition total_dec :: "dec list \<Rightarrow> dec result" where
  "total_dec vs = total_from (Dec 0 0) vs"

text \<open>Division by two is exact in decimal: an odd coefficient gains one digit, a five.\<close>

fun halve_raw :: "dec \<Rightarrow> dec" where
  "halve_raw (Dec c e) = (if even c then Dec (c div 2) e else Dec (5 * c) (e - 1))"

definition midpoint_dec :: "dec \<Rightarrow> dec \<Rightarrow> dec result" where
  "midpoint_dec a b = bind_result (add_dec a b) (\<lambda>s. fix_exact (halve_raw s))"

section \<open>Admission\<close>

definition admitted :: "dec \<Rightarrow> bool" where
  "admitted d = (case d of Dec c e \<Rightarrow>
     coeff_digits c \<le> MAX_SIGNIFICANT_DIGITS \<and> \<bar>adjusted d\<bar> \<le> MAX_ADJUSTED_EXPONENT)"

datatype dec_text = FiniteText dec | SpecialText

definition is_digit :: "char \<Rightarrow> bool" where
  "is_digit ch = (48 \<le> (of_char ch :: nat) \<and> (of_char ch :: nat) \<le> 57)"

definition digit_val :: "char \<Rightarrow> int" where
  "digit_val ch = of_char ch - 48"

definition digits_val :: "string \<Rightarrow> int" where
  "digits_val s = foldl (\<lambda>acc ch. 10 * acc + digit_val ch) 0 s"

definition ascii_lower :: "char \<Rightarrow> char" where
  "ascii_lower ch = (let n = (of_char ch :: nat) in
     if 65 \<le> n \<and> n \<le> 90 then char_of (n + 32) else ch)"

definition ascii_space :: "char \<Rightarrow> bool" where
  "ascii_space ch = (let n = (of_char ch :: nat) in n = 32 \<or> 9 \<le> n \<and> n \<le> 13 \<or> 28 \<le> n \<and> n \<le> 31)"

definition strip :: "string \<Rightarrow> string" where
  "strip s = rev (dropWhile ascii_space (rev (dropWhile ascii_space s)))"

fun split_sign :: "string \<Rightarrow> int \<times> string" where
  "split_sign [] = (1, [])"
| "split_sign (ch # s) =
     (if ch = CHR ''-'' then (- 1, s) else if ch = CHR ''+'' then (1, s) else (1, ch # s))"

text \<open>The exponent part \<open>(?:[eE][+-]?\\d+)?\<close> up to the end of the text.\<close>

fun parse_exponent :: "string \<Rightarrow> int option" where
  "parse_exponent [] = Some 0"
| "parse_exponent (ch # s) =
     (if ascii_lower ch = CHR ''e'' then
        (case split_sign s of (sg, ds) \<Rightarrow>
           if ds \<noteq> [] \<and> list_all is_digit ds then Some (sg * digits_val ds) else None)
      else None)"

text \<open>\<open>\\d+(?:\\.\\d*)?|\\.\\d+\<close> followed by the exponent: at least one digit on either side of the point.\<close>

definition parse_number :: "int \<Rightarrow> string \<Rightarrow> dec option" where
  "parse_number sg s =
     (let ip = takeWhile is_digit s; r = dropWhile is_digit s;
          dotted = (case r of [] \<Rightarrow> False | ch # _ \<Rightarrow> ch = CHR ''.'');
          fp = (if dotted then takeWhile is_digit (tl r) else []);
          r' = (if dotted then dropWhile is_digit (tl r) else r)
      in if ip = [] \<and> fp = [] then None
         else (case parse_exponent r' of None \<Rightarrow> None
               | Some x \<Rightarrow> Some (Dec (sg * digits_val (ip @ fp)) (x - int (length fp)))))"

definition parse_decimal_text :: "string \<Rightarrow> dec_text option" where
  "parse_decimal_text s =
     (case split_sign s of (sg, r) \<Rightarrow>
        if map ascii_lower r \<in> set [''nan'', ''snan'', ''inf'', ''infinity'']
        then Some SpecialText
        else map_option FiniteText (parse_number sg r))"

datatype py_value =
    PyBool bool
  | PyFloat
  | PyDecimal dec
  | PyDecimalSpecial
  | PyInt int
  | PyStr string
  | PyOther

definition check_admitted :: "dec \<Rightarrow> dec result" where
  "check_admitted d =
     (case d of Dec c e \<Rightarrow>
        if coeff_digits c > MAX_SIGNIFICANT_DIGITS then Inl ValueError
        else if \<bar>adjusted d\<bar> > MAX_ADJUSTED_EXPONENT then Inl ValueError
        else Inr d)"

fun to_decimal :: "py_value \<Rightarrow> dec result" where
  "to_decimal (PyBool _) = Inl PyTypeError"
| "to_decimal PyFloat = Inl PyTypeError"
| "to_decimal (PyDecimal d) = check_admitted d"
| "to_decimal PyDecimalSpecial = Inl ValueError"
| "to_decimal (PyInt n) = check_admitted (Dec n 0)"
| "to_decimal (PyStr s) =
     (case parse_decimal_text (strip s) of
        None \<Rightarrow> Inl ValueError
      | Some SpecialText \<Rightarrow> Inl ValueError
      | Some (FiniteText d) \<Rightarrow> check_admitted d)"
| "to_decimal PyOther = Inl PyTypeError"

text \<open>The pydantic validators turn a \<open>TypeError\<close> into a \<open>ValueError\<close> and narrow the domain.\<close>

definition validate_decimal :: "py_value \<Rightarrow> dec result" where
  "validate_decimal v = (case to_decimal v of Inl PyTypeError \<Rightarrow> Inl ValueError | r \<Rightarrow> r)"

definition positive_dec :: "dec \<Rightarrow> dec result" where
  "positive_dec d = (if dval d \<le> 0 then Inl ValueError else Inr d)"

definition non_negative_dec :: "dec \<Rightarrow> dec result" where
  "non_negative_dec d = (if dval d < 0 then Inl ValueError else Inr d)"

section \<open>Digits\<close>

lemma ndigits_pos [simp]: "0 < ndigits n"
  by (subst ndigits.simps) simp

lemma ndigits_le_iff: "0 < k \<Longrightarrow> ndigits n \<le> k \<longleftrightarrow> n < 10 ^ k"
proof (induction n arbitrary: k rule: ndigits.induct)
  case (1 n)
  obtain j where k: "k = Suc j" using "1.prems" by (cases k) auto
  show ?case
  proof (cases "n < 10")
    case True
    have "n < 10 * 10 ^ j"
      using True by (metis less_le_trans mult.right_neutral mult_le_mono2 one_le_numeral one_le_power)
    with True k show ?thesis by (simp add: ndigits.simps [of n])
  next
    case False
    show ?thesis
    proof (cases "j = 0")
      case True
      with False k show ?thesis by (simp add: ndigits.simps [of n])
    next
      case j: False
      then have "ndigits (n div 10) \<le> j \<longleftrightarrow> n div 10 < 10 ^ j"
        using "1.IH" False by simp
      also have "\<dots> \<longleftrightarrow> n < 10 ^ k"
        using k by (simp add: less_mult_imp_div_less div_less_iff_less_mult mult.commute)
      finally show ?thesis using False k by (simp add: ndigits.simps [of n])
    qed
  qed
qed

lemma coeff_digits_le_iff: "0 < k \<Longrightarrow> coeff_digits c \<le> k \<longleftrightarrow> \<bar>c\<bar> < 10 ^ k"
  by (simp add: coeff_digits_def ndigits_le_iff nat_less_iff)

lemma PREC_pos: "0 < PREC"
  by (simp add: PREC_def)

lemma coeff_digits_pos [simp]: "0 < coeff_digits c"
  by (simp add: coeff_digits_def)

lemma coeff_digits_neg [simp]: "coeff_digits (- c) = coeff_digits c" "coeff_digits \<bar>c\<bar> = coeff_digits c"
  by (simp_all add: coeff_digits_def)

section \<open>The context returns the exact value\<close>

lemma ten_powi_pos [simp]: "(0::rat) < 10 powi e" "(10::rat) powi e \<noteq> 0"
  by simp_all

lemma dval_shift: "low = e + int k \<Longrightarrow> 10 ^ k dvd c \<Longrightarrow> dval (Dec (c div 10 ^ k) low) = dval (Dec c e)"
  by (auto simp: power_int_add elim!: dvdE)

lemma fix_exact_value: "fix_exact d = Inr r \<Longrightarrow> dval r = dval d"
proof (cases d)
  case (Dec c e)
  assume fx: "fix_exact d = Inr r"
  show ?thesis
  proof (cases "c = 0")
    case True
    with fx Dec show ?thesis by (auto simp: fix_exact_def)
  next
    case False
    with fx Dec show ?thesis
      by (auto simp: fix_exact_def Let_def simp del: dval.simps intro: dval_shift split: if_splits)
  qed
qed

lemma fix_exact_fits:
  assumes "coeff_digits c \<le> PREC" and "- 100000 \<le> e" and "e \<le> 100000"
  shows "fix_exact (Dec c e) = Inr (Dec c e)"
  using assms by (auto simp: fix_exact_def Let_def PREC_def ETOP_def ETINY_def EMAX_def)

lemma dval_add_raw: "dval (add_raw a b) = dval a + dval b"
proof (cases a; cases b)
  fix c e c' e'
  assume ab: "a = Dec c e" "b = Dec c' e'"
  have sh: "(10::rat) ^ nat (x - m) * 10 powi m = 10 powi x" if "m \<le> x" for x m :: int
  proof -
    have "(10::rat) ^ nat (x - m) = 10 powi (x - m)"
      using that by (simp add: power_int_def)
    then show ?thesis by (simp add: power_int_diff)
  qed
  show ?thesis
    unfolding ab add_raw.simps Let_def dval.simps of_int_add of_int_mult of_int_power of_int_numeral
    by (simp add: distrib_right mult.assoc sh)
qed

lemma dval_mul_raw: "dval (mul_raw a b) = dval a * dval b"
  by (cases a; cases b) (simp add: power_int_add)

lemma dval_neg_raw: "dval (neg_raw a) = - dval a"
  by (cases a) simp

lemma dval_absolute: "dval (absolute_dec a) = \<bar>dval a\<bar>"
  by (cases a) (simp add: abs_mult)

lemma dval_halve_raw: "dval (halve_raw d) = dval d / 2"
  by (cases d) (auto simp: power_int_diff elim!: evenE)

lemma add_dec_value: "add_dec a b = Inr r \<Longrightarrow> dval r = dval a + dval b"
  unfolding add_dec_def by (drule fix_exact_value) (simp add: dval_add_raw)

lemma sub_dec_value: "sub_dec a b = Inr r \<Longrightarrow> dval r = dval a - dval b"
  unfolding sub_dec_def by (drule fix_exact_value) (simp add: dval_add_raw dval_neg_raw)

lemma mul_dec_value: "mul_dec a b = Inr r \<Longrightarrow> dval r = dval a * dval b"
  unfolding mul_dec_def by (drule fix_exact_value) (simp add: dval_mul_raw)

lemma neg_dec_value: "neg_dec a = Inr r \<Longrightarrow> dval r = - dval a"
  unfolding neg_dec_def by (drule fix_exact_value) (simp add: dval_neg_raw)

lemma total_from_value: "total_from acc vs = Inr r \<Longrightarrow> dval r = dval acc + sum_by dval vs"
  by (induction vs arbitrary: acc) (auto simp: bind_result_eq_Inr dest: add_dec_value)

lemma total_dec_value: "total_dec vs = Inr r \<Longrightarrow> dval r = sum_by dval vs"
  unfolding total_dec_def by (drule total_from_value) simp

lemma midpoint_dec_value: "midpoint_dec a b = Inr r \<Longrightarrow> dval r = (dval a + dval b) / 2"
  unfolding midpoint_dec_def bind_result_eq_Inr
  by (auto dest!: add_dec_value fix_exact_value simp: dval_halve_raw)

section \<open>Arithmetic on admitted values never raises\<close>

text \<open>
  \<open>bounded L k d\<close>: the exponent is at least \<open>-L\<close> (and not absurdly large) and the value is below
  \<open>10 ^ k\<close>. Every bound that fits in the 512 digits of the context passes through it unchanged.
\<close>

definition bounded :: "nat \<Rightarrow> nat \<Rightarrow> dec \<Rightarrow> bool" where
  "bounded L k d = (case d of Dec c e \<Rightarrow> - int L \<le> e \<and> e \<le> 1000 \<and> \<bar>dval d\<bar> < 10 ^ k)"

lemma powi_nat: "0 \<le> e \<Longrightarrow> (10::rat) powi e = 10 ^ nat e"
  by (simp add: power_int_def)

lemma bounded_coeff:
  assumes "bounded L k (Dec c e)"
  shows "\<bar>c\<bar> < 10 ^ (k + L)"
proof -
  have e: "- int L \<le> e" and v: "\<bar>of_int c * 10 powi e\<bar> < (10::rat) ^ k"
    using assms by (simp_all add: bounded_def)
  have pos: "(0::rat) < 10 powi (int L)" by simp
  have one: "(1::rat) \<le> 10 powi (e + int L)"
    using e by (simp add: powi_nat)
  have "of_int \<bar>c\<bar> \<le> of_int \<bar>c\<bar> * (10::rat) powi (e + int L)"
    using one mult_left_mono [of 1 "(10::rat) powi (e + int L)" "of_int \<bar>c\<bar>"] by simp
  also have "\<dots> = \<bar>of_int c * 10 powi e\<bar> * 10 powi (int L)"
    by (simp add: power_int_add abs_mult)
  also have "\<dots> < 10 ^ k * 10 powi (int L)"
    using v pos by (rule mult_strict_right_mono)
  also have "\<dots> = of_int (10 ^ (k + L))"
    by (simp add: power_add)
  finally show ?thesis by (simp only: of_int_less_iff)
qed

lemma fix_exact_bounded:
  assumes "bounded L k d" and "k + L \<le> PREC" and "0 < k"
  shows "fix_exact d = Inr d"
proof (cases d)
  case (Dec c e)
  have "\<bar>c\<bar> < 10 ^ (k + L)"
    using assms(1) bounded_coeff Dec by blast
  also have "(10::int) ^ (k + L) \<le> 10 ^ PREC"
    using assms(2) by (intro power_increasing) auto
  finally have c: "coeff_digits c \<le> PREC"
    using coeff_digits_le_iff [OF PREC_pos] by blast
  have "- 100000 \<le> e" "e \<le> 100000"
    using assms(1,2) Dec by (auto simp: bounded_def PREC_def)
  with c show ?thesis unfolding Dec by (rule fix_exact_fits)
qed

lemma admitted_exponent:
  assumes "admitted (Dec c e)"
  shows "- 127 \<le> e \<and> e \<le> 64"
proof -
  have "coeff_digits c \<le> 64" and "\<bar>e + int (coeff_digits c) - 1\<bar> \<le> 64"
    using assms by (auto simp: admitted_def MAX_SIGNIFICANT_DIGITS_def MAX_ADJUSTED_EXPONENT_def)
  moreover have "1 \<le> coeff_digits c" using coeff_digits_pos [of c] by linarith
  ultimately show ?thesis by linarith
qed

lemma admitted_bounded:
  assumes "admitted d"
  shows "bounded 127 65 d"
proof (cases d)
  case (Dec c e)
  have n: "coeff_digits c \<le> 64" and adj: "\<bar>e + int (coeff_digits c) - 1\<bar> \<le> 64"
    using assms Dec by (auto simp: admitted_def MAX_SIGNIFICANT_DIGITS_def MAX_ADJUSTED_EXPONENT_def)
  have p: "1 \<le> coeff_digits c" using coeff_digits_pos [of c] by linarith
  have "\<bar>c\<bar> < 10 ^ coeff_digits c"
    using coeff_digits_le_iff [of "coeff_digits c" c] p by simp
  then have "of_int \<bar>c\<bar> < (10::rat) ^ coeff_digits c"
    by (metis of_int_less_iff of_int_numeral of_int_power)
  then have "of_int \<bar>c\<bar> * 10 powi e < (10::rat) ^ coeff_digits c * 10 powi e"
    by (rule mult_strict_right_mono) simp
  also have "\<dots> = 10 powi (int (coeff_digits c) + e)"
    by (simp add: power_int_add)
  also have "\<dots> \<le> 10 powi 65"
    using adj by (intro power_int_increasing) auto
  finally have "\<bar>dval d\<bar> < 10 ^ 65"
    using Dec by (simp add: abs_mult)
  with Dec admitted_exponent [of c e] assms show ?thesis by (simp add: bounded_def)
qed

lemma bounded_mono: "bounded L k d \<Longrightarrow> L \<le> L' \<Longrightarrow> k \<le> k' \<Longrightarrow> bounded L' k' d"
proof -
  assume a: "bounded L k d" "L \<le> L'" "k \<le> k'"
  have "(10::rat) ^ k \<le> 10 ^ k'"
    using a(3) by (intro power_increasing) auto
  with a(1,2) show ?thesis by (auto simp: bounded_def split: dec.splits elim: less_le_trans)
qed

lemma bounded_add_raw:
  assumes "bounded L k a" and "bounded L j b" and "k \<le> n" and "j \<le> n"
  shows "bounded L (Suc n) (add_raw a b)"
proof -
  have "(10::rat) ^ k \<le> 10 ^ n" "(10::rat) ^ j \<le> 10 ^ n"
    using assms(3,4) by (auto intro: power_increasing)
  moreover have "\<bar>dval a\<bar> < 10 ^ k" "\<bar>dval b\<bar> < 10 ^ j"
    using assms(1,2) by (auto simp: bounded_def split: dec.splits)
  moreover have "(0::rat) < 10 ^ n" by simp
  ultimately have "\<bar>dval (add_raw a b)\<bar> < 10 * 10 ^ n"
    unfolding dval_add_raw using abs_triangle_ineq [of "dval a" "dval b"] by linarith
  moreover have "\<exists>c e. add_raw a b = Dec c e \<and> - int L \<le> e \<and> e \<le> 1000"
    using assms(1,2) by (cases a; cases b) (auto simp: bounded_def Let_def)
  ultimately show ?thesis by (auto simp: bounded_def)
qed

lemma bounded_mul_raw:
  assumes "admitted a" and "admitted b"
  shows "bounded 254 130 (mul_raw a b)"
proof -
  have a: "bounded 127 65 a" and b: "bounded 127 65 b"
    using assms by (simp_all add: admitted_bounded)
  have "\<bar>dval a\<bar> * \<bar>dval b\<bar> < 10 ^ 65 * 10 ^ 65"
    using a b by (intro mult_strict_mono) (auto simp: bounded_def split: dec.splits)
  then have v: "\<bar>dval (mul_raw a b)\<bar> < 10 ^ 130"
    by (simp add: dval_mul_raw abs_mult)
  obtain c e c' e' where ab: "a = Dec c e" "b = Dec c' e'" by (cases a; cases b)
  have "e \<le> 64" "e' \<le> 64"
    using assms ab admitted_exponent by blast+
  with a b v ab show ?thesis by (simp add: bounded_def)
qed

lemma bounded_neg_raw: "bounded L k a \<Longrightarrow> bounded L k (neg_raw a)"
  by (cases a) (simp add: bounded_def)

lemma add_dec_admitted:
  assumes "admitted a" and "admitted b"
  shows "add_dec a b = Inr (add_raw a b)"
  unfolding add_dec_def
  by (rule fix_exact_bounded [of 127 66])
    (use assms in \<open>auto simp: PREC_def intro!: bounded_add_raw [where n = 65, simplified] admitted_bounded\<close>)

lemma sub_dec_admitted:
  assumes "admitted a" and "admitted b"
  shows "sub_dec a b = Inr (add_raw a (neg_raw b))"
  unfolding sub_dec_def
  by (rule fix_exact_bounded [of 127 66])
    (use assms in \<open>auto simp: PREC_def intro!: bounded_add_raw [where n = 65, simplified] admitted_bounded bounded_neg_raw\<close>)

lemma mul_dec_admitted: "admitted a \<Longrightarrow> admitted b \<Longrightarrow> mul_dec a b = Inr (mul_raw a b)"
  unfolding mul_dec_def
  by (rule fix_exact_bounded [OF bounded_mul_raw]) (auto simp: PREC_def)

lemma neg_dec_admitted: "admitted a \<Longrightarrow> neg_dec a = Inr (neg_raw a)"
  unfolding neg_dec_def
  by (rule fix_exact_bounded [OF bounded_neg_raw [OF admitted_bounded]]) (auto simp: PREC_def)

lemma midpoint_dec_admitted:
  assumes "admitted a" and "admitted b"
  shows "midpoint_dec a b = Inr (halve_raw (add_raw a b))"
proof -
  have s: "bounded 127 66 (add_raw a b)"
    using bounded_add_raw [OF admitted_bounded admitted_bounded, of a b 65] assms by simp
  then have "bounded 128 66 (halve_raw (add_raw a b))"
    unfolding bounded_def dval_halve_raw by (cases "add_raw a b") (auto simp: abs_if split: if_splits)
  then have "fix_exact (halve_raw (add_raw a b)) = Inr (halve_raw (add_raw a b))"
    by (rule fix_exact_bounded) (auto simp: PREC_def)
  then show ?thesis by (simp add: midpoint_dec_def add_dec_admitted assms)
qed

section \<open>Accumulation never raises\<close>

text \<open>
  A running total, of admitted values or of products of two admitted values, stays exact for as many
  as \<open>10 ^ 100\<close> terms: more than any process can book.
\<close>

definition summand :: "dec \<Rightarrow> bool" where
  "summand d \<longleftrightarrow> (admitted d \<or> (\<exists>p q. admitted p \<and> admitted q \<and> mul_dec p q = Inr d))"

lemma summand_bounded: "summand d \<Longrightarrow> bounded 254 130 d"
  unfolding summand_def
  by (auto simp: mul_dec_admitted intro: bounded_mono [OF admitted_bounded] bounded_mul_raw)

definition running :: "nat \<Rightarrow> dec \<Rightarrow> bool" where
  "running n d = (case d of Dec c e \<Rightarrow> - 254 \<le> e \<and> e \<le> 1000 \<and> \<bar>dval d\<bar> \<le> of_nat n * 10 ^ 130)"

lemma running_bounded:
  assumes "running n d" and "n \<le> 10 ^ 100"
  shows "bounded 254 231 d"
proof -
  have "of_nat n \<le> (10::rat) ^ 100"
    using assms(2) by (metis of_nat_le_iff of_nat_numeral of_nat_power)
  then have "of_nat n * (10::rat) ^ 130 \<le> 10 ^ 100 * 10 ^ 130"
    by (rule mult_right_mono) simp
  also have "\<dots> < (10::rat) ^ 231" by (simp add: power_add [symmetric])
  finally have "of_nat n * (10::rat) ^ 130 < 10 ^ 231" .
  with assms(1) show ?thesis by (cases d) (auto simp: running_def bounded_def)
qed

lemma running_add:
  assumes "running n a" and "summand b" and "n < 10 ^ 100"
  shows "add_dec a b = Inr (add_raw a b) \<and> running (Suc n) (add_raw a b)"
proof -
  have b: "bounded 254 130 b" using assms(2) by (rule summand_bounded)
  have v: "\<bar>dval (add_raw a b)\<bar> \<le> of_nat (Suc n) * 10 ^ 130"
    unfolding dval_add_raw using assms(1) b abs_triangle_ineq [of "dval a" "dval b"]
    by (auto simp: running_def bounded_def distrib_right split: dec.splits)
  have e: "\<exists>c e. add_raw a b = Dec c e \<and> - 254 \<le> e \<and> e \<le> 1000"
    using assms(1) b by (cases a; cases b) (auto simp: running_def bounded_def Let_def)
  from v e have r: "running (Suc n) (add_raw a b)" by (auto simp: running_def)
  moreover have "add_dec a b = Inr (add_raw a b)"
    unfolding add_dec_def
    by (rule fix_exact_bounded [OF running_bounded [OF r]]) (use assms(3) in \<open>auto simp: PREC_def\<close>)
  ultimately show ?thesis by blast
qed

lemma total_from_running:
  "running n acc \<Longrightarrow> \<forall>v \<in> set vs. summand v \<Longrightarrow> n + length vs \<le> 10 ^ 100 \<Longrightarrow>
    \<exists>r. total_from acc vs = Inr r"
proof (induction vs arbitrary: n acc)
  case Nil
  then show ?case by simp
next
  case (Cons v vs)
  have n: "n < 10 ^ 100" using Cons.prems(3) unfolding list.size by linarith
  have "running n acc" "summand v" using Cons.prems by auto
  from running_add [OF this n] have
    s: "add_dec acc v = Inr (add_raw acc v)" and r: "running (Suc n) (add_raw acc v)" by auto
  have "\<exists>r. total_from (add_raw acc v) vs = Inr r"
    by (rule Cons.IH [OF r]) (use Cons.prems in auto)
  with s show ?case by simp
qed

lemma total_dec_exact:
  assumes "\<forall>v \<in> set vs. summand v" and "length vs \<le> 10 ^ 100"
  shows "\<exists>r. total_dec vs = Inr r \<and> dval r = sum_by dval vs"
proof -
  have "running 0 (Dec 0 0)" by (simp add: running_def)
  then obtain r where "total_dec vs = Inr r"
    using total_from_running [of 0 "Dec 0 0" vs] assms by (auto simp: total_dec_def)
  with total_dec_value show ?thesis by blast
qed

section \<open>Properties\<close>

text \<open> However many values a program books (up to \<open>10 ^ 100\<close> of them), \<open>total\<close> neither raises nor
  rounds: a running total of admitted decimals, or of products of two admitted decimals such as
  price times quantity, is the exact sum.\<close>

theorem exact_totals:
  assumes "\<forall>v \<in> set vs. summand v" and "length vs \<le> 10 ^ 100"
  shows "\<exists>r. total_dec vs = Inr r \<and> dval r = sum_by dval vs"
  using assms by (rule total_dec_exact)

lemma exact_totals_witness:
  "\<exists>r. total_dec [Dec 1 (- 1), Dec 2 (- 1), Dec (-3) (- 1)] = Inr r \<and>
     dval r = sum_by dval [Dec 1 (- 1), Dec 2 (- 1), Dec (-3) (- 1)]"
  by (rule exact_totals)
    (simp_all add: summand_def admitted_def MAX_SIGNIFICANT_DIGITS_def MAX_ADJUSTED_EXPONENT_def
      coeff_digits_def ndigits.simps)

lemma check_admitted_admits: "check_admitted d = Inr r \<Longrightarrow> r = d \<and> admitted d"
  by (cases d) (auto simp: check_admitted_def admitted_def split: if_splits)

text \<open> The admission check of \<open>to_decimal\<close> is what makes arithmetic total: on two admitted values
  \<open>add\<close> and \<open>mul\<close> never raise \<open>Inexact\<close> or \<open>Overflow\<close>, and return the exact sum and product.\<close>

theorem admitted_arithmetic:
  assumes "check_admitted a = Inr a" and "check_admitted b = Inr b"
  shows "add_dec a b = Inr (add_raw a b) \<and> mul_dec a b = Inr (mul_raw a b) \<and>
    dval (add_raw a b) = dval a + dval b \<and> dval (mul_raw a b) = dval a * dval b"
  using assms [THEN check_admitted_admits] add_dec_admitted mul_dec_admitted
  by (simp add: dval_add_raw dval_mul_raw)

lemma admitted_arithmetic_witness:
  "add_dec (Dec 15 (- 1)) (Dec 5 (- 2)) = Inr (add_raw (Dec 15 (- 1)) (Dec 5 (- 2))) \<and>
   mul_dec (Dec 15 (- 1)) (Dec 5 (- 2)) = Inr (mul_raw (Dec 15 (- 1)) (Dec 5 (- 2))) \<and>
   dval (add_raw (Dec 15 (- 1)) (Dec 5 (- 2))) = dval (Dec 15 (- 1)) + dval (Dec 5 (- 2)) \<and>
   dval (mul_raw (Dec 15 (- 1)) (Dec 5 (- 2))) = dval (Dec 15 (- 1)) * dval (Dec 5 (- 2))"
  by (rule admitted_arithmetic)
    (simp_all add: check_admitted_def MAX_SIGNIFICANT_DIGITS_def MAX_ADJUSTED_EXPONENT_def coeff_digits_def ndigits.simps)

end
