(* ===== verification/Rounding.thy ===== *)
theory Rounding
  imports Decimals
begin

text \<open>
  The rounding half of \<open>models/decimals.py\<close>, on exact values: \<open>ratio\<close>, which rounds a quotient half
  to even to 50 significant digits, \<open>is_multiple\<close> and \<open>round_to_step\<close>. \<open>Decimal\<close>'s \<open>//\<close> truncates
  toward zero, so the directions toward the infinities are computed from the sign, as the code does;
  the lemmas show that they are the mathematical floor, ceiling and half-even rounding for values of
  either sign.
\<close>

section \<open>Quotients rounded to 50 digits\<close>

definition RATIO_PRECISION :: nat where
  "RATIO_PRECISION = 50"

text \<open>
  The decimal shifts that bring a positive value to exactly 50 digits before the point:
  multiplications by ten first, then divisions.
\<close>

lemma ceiling_tenth_less: "1 < (x::rat) \<Longrightarrow> \<lceil>x / 10\<rceil> < \<lceil>x\<rceil>"
proof -
  assume x: "1 < x"
  then have "2 \<le> \<lceil>x\<rceil>" by linarith
  then have "(2::rat) \<le> of_int \<lceil>x\<rceil>" by linarith
  moreover have "x \<le> of_int \<lceil>x\<rceil>" by simp
  ultimately have "x / 10 \<le> of_int (\<lceil>x\<rceil> - 1)"
    unfolding of_int_diff of_int_1 by linarith
  then show ?thesis by (metis ceiling_le_iff less_le_not_le zle_diff1_eq)
qed

lemma ceiling_shift_up_less:
  assumes "0 < x" and "x < (b::rat)"
  shows "\<lceil>b / (10 * x)\<rceil> < \<lceil>b / x\<rceil>"
proof -
  have "1 < b / x" using assms by simp
  then have "\<lceil>b / x / 10\<rceil> < \<lceil>b / x\<rceil>" by (rule ceiling_tenth_less)
  then show ?thesis by (simp add: mult.commute)
qed

function shift_up :: "rat \<Rightarrow> rat \<Rightarrow> nat" where
  "shift_up b x = (if 0 < x \<and> x < b then Suc (shift_up b (10 * x)) else 0)"
  by pat_completeness auto
termination
  by (relation "measure (\<lambda>(b, x). nat \<lceil>b / x\<rceil>)") (auto simp: ceiling_shift_up_less)

function shift_down :: "rat \<Rightarrow> rat \<Rightarrow> nat" where
  "shift_down b x = (if 1 < x \<and> b \<le> x then Suc (shift_down b (x / 10)) else 0)"
  by pat_completeness auto
termination
  by (relation "measure (\<lambda>(b, x). nat \<lceil>x\<rceil>)") (auto simp: ceiling_tenth_less)

declare shift_up.simps [simp del] shift_down.simps [simp del]

definition round_significant :: "nat \<Rightarrow> rat \<Rightarrow> rat" where
  "round_significant p x =
     (let u = shift_up (10 ^ (p - 1)) x; y = x * 10 ^ u;
          d = shift_down (10 ^ p) y; z = y / 10 ^ d
      in of_int (round_half_even z) * 10 ^ d / 10 ^ u)"

definition ratio :: "rat \<Rightarrow> rat \<Rightarrow> rat result" where
  "ratio numerator denominator =
     (if denominator = 0 then Inl ZeroDivision
      else
        (let q = numerator / denominator in
         if q = 0 then Inr 0 else Inr (sgn q * round_significant RATIO_PRECISION \<bar>q\<bar>)))"

text \<open>The quotient as a total function, for callers that have already excluded a zero denominator.\<close>

definition ratio_of :: "rat \<Rightarrow> rat \<Rightarrow> rat" where
  "ratio_of n d = (case ratio n d of Inl _ \<Rightarrow> 0 | Inr r \<Rightarrow> r)"

section \<open>Multiples and steps\<close>

datatype rounding = FLOOR | CEILING | TOWARD_ZERO | AWAY_FROM_ZERO | HALF_EVEN

definition trunc_div :: "rat \<Rightarrow> rat \<Rightarrow> int" where
  "trunc_div value s = (let q = value / s in if 0 \<le> q then \<lfloor>q\<rfloor> else \<lceil>q\<rceil>)"

definition is_multiple :: "rat \<Rightarrow> rat \<Rightarrow> bool result" where
  "is_multiple value s =
     (if s \<le> 0 then Inl ValueError else Inr (value - of_int (trunc_div value s) * s = 0))"

definition round_to_step :: "rat \<Rightarrow> rat \<Rightarrow> rounding \<Rightarrow> rat result" where
  "round_to_step value s r =
     (if s \<le> 0 then Inl ValueError
      else Inr
        (let quotient = trunc_div value s; remainder = value - of_int quotient * s in
         if remainder = 0 then of_int quotient * s
         else
           (let toward_zero = of_int quotient * s;
                away = toward_zero + (if 0 < value then s else - s)
            in case r of
                 TOWARD_ZERO \<Rightarrow> toward_zero
               | AWAY_FROM_ZERO \<Rightarrow> away
               | FLOOR \<Rightarrow> (if 0 < value then toward_zero else away)
               | CEILING \<Rightarrow> (if 0 < value then away else toward_zero)
               | HALF_EVEN \<Rightarrow>
                   (let twice = \<bar>remainder\<bar> * 2 in
                    if twice < s then toward_zero
                    else if s < twice then away
                    else if even quotient then toward_zero else away))))"

section \<open>What they compute\<close>

lemma shift_up_reaches: "0 < x \<Longrightarrow> b \<le> x * 10 ^ shift_up b x"
proof (induction b x rule: shift_up.induct)
  case (1 b x)
  show ?case
  proof (cases "x < b")
    case True
    with 1 have "b \<le> 10 * x * 10 ^ shift_up b (10 * x)" by simp
    with True 1 show ?thesis by (simp add: shift_up.simps [of b x] algebra_simps)
  next
    case False
    then show ?thesis by (simp add: shift_up.simps [of b x])
  qed
qed

lemma shift_down_keeps: "c \<le> x \<Longrightarrow> 10 * c \<le> b \<Longrightarrow> c \<le> x / 10 ^ shift_down b x"
proof (induction b x rule: shift_down.induct)
  case (1 b x)
  show ?case
  proof (cases "1 < x \<and> b \<le> x")
    case True
    with 1 have "c \<le> x / 10 / 10 ^ shift_down b (x / 10)" by simp
    with True show ?thesis by (simp add: shift_down.simps [of b x])
  next
    case False
    then have "shift_down b x = 0" by (subst shift_down.simps) simp
    with 1 show ?thesis by simp
  qed
qed

lemma round_significant_error:
  assumes "0 < x" and "0 < p"
  shows "\<bar>round_significant p x - x\<bar> \<le> x / (2 * 10 ^ (p - 1))"
proof -
  define u where "u = shift_up (10 ^ (p - 1)) x"
  define y where "y = x * 10 ^ u"
  define d where "d = shift_down (10 ^ p) y"
  define z where "z = y / 10 ^ d"
  define k :: rat where "k = 10 ^ d / 10 ^ u"
  have kpos: "0 < k" by (simp add: k_def)
  have xz: "x = z * k" by (simp add: z_def y_def k_def)
  have rs: "round_significant p x = of_int (round_half_even z) * k"
    by (simp add: round_significant_def Let_def u_def y_def d_def z_def k_def)
  have b: "(10::rat) * 10 ^ (p - 1) \<le> 10 ^ p" using assms(2) by (cases p) auto
  have "10 ^ (p - 1) \<le> y"
    unfolding y_def u_def by (rule shift_up_reaches) (rule assms)
  then have zb: "10 ^ (p - 1) \<le> z"
    unfolding z_def d_def using b by (rule shift_down_keeps)
  have "round_significant p x - x = (of_int (round_half_even z) - z) * k"
    unfolding rs by (subst xz) (simp add: algebra_simps)
  then have "\<bar>round_significant p x - x\<bar> = \<bar>of_int (round_half_even z) - z\<bar> * k"
    using kpos by (simp add: abs_mult)
  also have "\<dots> \<le> 1 / 2 * k"
    using round_half_even_error kpos by (intro mult_right_mono) auto
  also have "\<dots> \<le> z / (2 * 10 ^ (p - 1)) * k"
    using zb kpos by (intro mult_right_mono) (auto simp: field_simps)
  finally show ?thesis by (simp add: xz)
qed

lemma ratio_error:
  assumes "ratio n d = Inr r"
  shows "\<bar>r - n / d\<bar> \<le> \<bar>n / d\<bar> / (2 * 10 ^ 49)"
proof -
  define q where "q = n / d"
  show ?thesis
  proof (cases "q = 0")
    case True
    with assms show ?thesis by (auto simp: ratio_def q_def Let_def split: if_splits)
  next
    case False
    have r: "r = sgn q * round_significant 50 \<bar>q\<bar>"
      using assms False unfolding q_def by (auto simp: ratio_def Let_def RATIO_PRECISION_def split: if_splits)
    have "r - q = sgn q * (round_significant 50 \<bar>q\<bar> - \<bar>q\<bar>)"
      unfolding r by (simp add: right_diff_distrib sgn_mult_abs)
    then have "\<bar>r - q\<bar> = \<bar>round_significant 50 \<bar>q\<bar> - \<bar>q\<bar>\<bar>"
      using False by (simp add: abs_mult abs_sgn_eq)
    also have "\<dots> \<le> \<bar>q\<bar> / (2 * 10 ^ (50 - 1))"
      by (rule round_significant_error) (use False in auto)
    finally show ?thesis by (simp add: q_def)
  qed
qed

lemma ratio_defined: "d \<noteq> 0 \<Longrightarrow> ratio n d = Inr (ratio_of n d)"
  by (simp add: ratio_of_def ratio_def Let_def)

lemma ratio_zero_denominator: "ratio n 0 = Inl ZeroDivision"
  by (simp add: ratio_def)

lemma ratio_positive:
  assumes "ratio n d = Inr r"
  shows "(0 < r \<longleftrightarrow> 0 < n / d) \<and> (r = 0 \<longleftrightarrow> n / d = 0)"
proof -
  define q where "q = n / d"
  have e: "\<bar>r - q\<bar> \<le> \<bar>q\<bar> / (2 * 10 ^ 49)"
    unfolding q_def by (rule ratio_error) (rule assms)
  have "\<bar>q\<bar> / (2 * 10 ^ 49) \<le> \<bar>q\<bar> / 2" by (rule divide_left_mono) auto
  with e have "\<bar>r - q\<bar> \<le> \<bar>q\<bar> / 2" by linarith
  then have "(0 < r \<longleftrightarrow> 0 < q) \<and> (r = 0 \<longleftrightarrow> q = 0)"
    by (auto simp: abs_if split: if_splits)
  then show ?thesis by (simp add: q_def)
qed

text \<open>Truncation leaves a remainder smaller than the step, with the sign of the value.\<close>

lemma trunc_div_remainder:
  assumes "0 < s"
  shows "0 \<le> value \<Longrightarrow> 0 \<le> value - of_int (trunc_div value s) * s \<and> value - of_int (trunc_div value s) * s < s"
    and "value \<le> 0 \<Longrightarrow> value - of_int (trunc_div value s) * s \<le> 0 \<and> - s < value - of_int (trunc_div value s) * s"
proof -
  assume v: "0 \<le> value"
  have "of_int \<lfloor>value / s\<rfloor> \<le> value / s" and "value / s < of_int \<lfloor>value / s\<rfloor> + 1" by linarith+
  then have "of_int \<lfloor>value / s\<rfloor> * s \<le> value" and "value < of_int \<lfloor>value / s\<rfloor> * s + s"
    using assms by (simp_all only: pos_le_divide_eq pos_divide_less_eq) (simp_all add: distrib_right)
  then show "0 \<le> value - of_int (trunc_div value s) * s \<and> value - of_int (trunc_div value s) * s < s"
    using v assms by (simp add: trunc_div_def Let_def)
next
  assume v: "value \<le> 0"
  have "value / s \<le> of_int \<lceil>value / s\<rceil>" and "of_int \<lceil>value / s\<rceil> - 1 < value / s" by linarith+
  then have "value \<le> of_int \<lceil>value / s\<rceil> * s" and "of_int \<lceil>value / s\<rceil> * s - s < value"
    using assms by (simp_all only: pos_divide_le_eq pos_less_divide_eq) (simp_all add: left_diff_distrib)
  moreover have "trunc_div value s = \<lceil>value / s\<rceil>"
    using v assms by (auto simp: trunc_div_def Let_def zero_le_divide_iff)
  ultimately show "value - of_int (trunc_div value s) * s \<le> 0 \<and> - s < value - of_int (trunc_div value s) * s"
    by simp
qed

text \<open>The mathematical rounding each direction stands for, on the quotient \<open>value / step\<close>.\<close>

definition round_quotient :: "rat \<Rightarrow> rounding \<Rightarrow> int" where
  "round_quotient q r =
     (case r of
        FLOOR \<Rightarrow> \<lfloor>q\<rfloor>
      | CEILING \<Rightarrow> \<lceil>q\<rceil>
      | TOWARD_ZERO \<Rightarrow> (if 0 \<le> q then \<lfloor>q\<rfloor> else \<lceil>q\<rceil>)
      | AWAY_FROM_ZERO \<Rightarrow> (if 0 \<le> q then \<lceil>q\<rceil> else \<lfloor>q\<rfloor>)
      | HALF_EVEN \<Rightarrow> round_half_even q)"

text \<open>
  The code's computation in units of the step: \<open>t\<close> is the truncated quotient, and the result is \<open>t\<close>
  or its neighbour away from zero.
\<close>

lemma round_to_step_units:
  assumes "0 < s"
  shows "round_to_step (q * s) s r = Inr (of_int (
     (let t = (if 0 \<le> q then \<lfloor>q\<rfloor> else \<lceil>q\<rceil>); away = (if 0 < q then t + 1 else t - 1) in
      if q = of_int t then t
      else case r of
             TOWARD_ZERO \<Rightarrow> t
           | AWAY_FROM_ZERO \<Rightarrow> away
           | FLOOR \<Rightarrow> (if 0 < q then t else away)
           | CEILING \<Rightarrow> (if 0 < q then away else t)
           | HALF_EVEN \<Rightarrow>
               (if \<bar>q - of_int t\<bar> * 2 < 1 then t
                else if 1 < \<bar>q - of_int t\<bar> * 2 then away
                else if even t then t else away))) * s)"
proof -
  define t where "t = (if 0 \<le> q then \<lfloor>q\<rfloor> else \<lceil>q\<rceil>)"
  have t: "trunc_div (q * s) s = t"
    using assms by (simp add: trunc_div_def t_def)
  have rem: "q * s - of_int t * s = (q - of_int t) * s"
    by (simp add: left_diff_distrib)
  have zero: "(q - of_int t) * s = 0 \<longleftrightarrow> q = of_int t"
    using assms by simp
  have pos: "0 < q * s \<longleftrightarrow> 0 < q"
    using assms by (simp add: zero_less_mult_iff)
  have twice: "\<bar>(q - of_int t) * s\<bar> * 2 = \<bar>q - of_int t\<bar> * 2 * s"
    using assms by (simp add: abs_mult)
  have less: "\<bar>q - of_int t\<bar> * 2 * s < s \<longleftrightarrow> \<bar>q - of_int t\<bar> * 2 < 1"
    "s < \<bar>q - of_int t\<bar> * 2 * s \<longleftrightarrow> 1 < \<bar>q - of_int t\<bar> * 2"
    using assms mult_less_cancel_right_pos [of s "\<bar>q - of_int t\<bar> * 2" 1]
      mult_less_cancel_right_pos [of s 1 "\<bar>q - of_int t\<bar> * 2"] by simp_all
  show ?thesis
    unfolding round_to_step_def Let_def t rem zero pos twice less t_def [symmetric]
    using assms by (cases r) (simp_all add: distrib_right left_diff_distrib)
qed

lemma round_to_step_quotient:
  assumes "0 < s"
  shows "round_to_step value s r = Inr (of_int (round_quotient (value / s) r) * s)"
proof -
  define q where "q = value / s"
  have v: "value = q * s" using assms by (simp add: q_def)
  define f where "f = \<lfloor>q\<rfloor>"
  have f: "\<lfloor>q\<rfloor> = f" by (simp add: f_def)
  have fl: "of_int f \<le> q" "q < of_int f + 1" unfolding f_def by linarith+
  have ce: "\<lceil>q\<rceil> = (if q = of_int f then f else f + 1)"
    using f by (simp add: ceiling_altdef)
  have units: "(let t = (if 0 \<le> q then f else \<lceil>q\<rceil>); away = (if 0 < q then t + 1 else t - 1) in
      if q = of_int t then t
      else case r of
             TOWARD_ZERO \<Rightarrow> t
           | AWAY_FROM_ZERO \<Rightarrow> away
           | FLOOR \<Rightarrow> (if 0 < q then t else away)
           | CEILING \<Rightarrow> (if 0 < q then away else t)
           | HALF_EVEN \<Rightarrow>
               (if \<bar>q - of_int t\<bar> * 2 < 1 then t
                else if 1 < \<bar>q - of_int t\<bar> * 2 then away
                else if even t then t else away)) = round_quotient q r"
  proof (cases "q = of_int f")
    case True
    then show ?thesis by (cases r) (simp_all add: round_quotient_def)
  next
    case False
    then have c: "\<lceil>q\<rceil> = f + 1" and lt: "of_int f < q" using ce fl by auto
    show ?thesis
    proof (cases "0 < q")
      case True
      have "\<bar>q - of_int f\<bar> = q - of_int f" using lt by simp
      with True False c f show ?thesis
        by (cases r) (auto simp: round_quotient_def round_half_even_def Let_def)
    next
      case neg: False
      have "q \<noteq> 0" using False f by auto
      with neg have "\<not> 0 \<le> q" by simp
      moreover have "\<bar>q - of_int (f + 1)\<bar> = of_int f + 1 - q" using fl by simp
      moreover have "q \<noteq> of_int (f + 1)" using fl by auto
      ultimately show ?thesis using neg c f
        by (cases r) (auto simp: round_quotient_def round_half_even_def Let_def)
    qed
  qed
  show ?thesis
    unfolding q_def [symmetric] unfolding v round_to_step_units [OF assms] f units ..
qed

lemma is_multiple_iff:
  assumes "0 < s"
  shows "is_multiple value s = Inr (\<exists>k::int. value = of_int k * s)"
proof -
  have "value - of_int (trunc_div value s) * s = 0 \<longleftrightarrow> (\<exists>k::int. value = of_int k * s)"
  proof
    assume "\<exists>k::int. value = of_int k * s"
    then obtain k :: int where k: "value = of_int k * s" ..
    then have "trunc_div value s = k" using assms by (simp add: trunc_div_def Let_def)
    with k show "value - of_int (trunc_div value s) * s = 0" by simp
  qed auto
  with assms show ?thesis by (simp add: is_multiple_def)
qed

lemma round_to_step_multiple:
  assumes "round_to_step value s r = Inr v"
  shows "is_multiple v s = Inr True \<and> \<bar>v - value\<bar> < s"
proof -
  have s: "0 < s" using assms by (auto simp: round_to_step_def split: if_splits)
  define q where "q = value / s"
  have v: "v = of_int (round_quotient q r) * s"
    using assms by (simp add: round_to_step_quotient [OF s] q_def)
  have "\<bar>of_int (round_quotient q r) - q\<bar> < 1"
    using round_half_even_error [of q]
    by (cases r) (auto simp: round_quotient_def abs_if; linarith)+
  then have "\<bar>of_int (round_quotient q r) - q\<bar> * s < 1 * s"
    using s by (rule mult_strict_right_mono)
  also have "\<bar>of_int (round_quotient q r) - q\<bar> * s = \<bar>v - value\<bar>"
  proof -
    have "v - value = (of_int (round_quotient q r) - q) * s"
      using s by (simp add: v q_def left_diff_distrib)
    then show ?thesis using s by (simp add: abs_mult)
  qed
  finally show ?thesis using s v by (auto simp: is_multiple_iff)
qed

section \<open>Properties\<close>

text \<open> \<open>round_to_step\<close> with a positive step lands on a multiple of the step less than one step
  away, by the quotient its rounding mode names.\<close>

theorem round_to_step_lands:
  assumes "0 < s"
  shows "round_to_step value s r = Inr (of_int (round_quotient (value / s) r) * s) \<and>
    is_multiple (of_int (round_quotient (value / s) r) * s) s = Inr True \<and>
    \<bar>of_int (round_quotient (value / s) r) * s - value\<bar> < s"
  using round_to_step_quotient [OF assms] round_to_step_multiple by blast

lemma round_to_step_lands_witness:
  "round_to_step (37 / 10) (1 / 4) FLOOR = Inr (of_int (round_quotient (37 / 10 / (1 / 4)) FLOOR) * (1 / 4)) \<and>
   is_multiple (of_int (round_quotient (37 / 10 / (1 / 4)) FLOOR) * (1 / 4)) (1 / 4) = Inr True \<and>
   \<bar>of_int (round_quotient (37 / 10 / (1 / 4)) FLOOR) * (1 / 4) - (37 / 10 :: rat)\<bar> < 1 / 4"
  by (rule round_to_step_lands) simp

text \<open> \<open>ratio\<close> is the quotient to 50 significant digits: a relative error of at most half a unit
  in the fiftieth.\<close>

theorem ratio_accuracy:
  assumes "ratio n d = Inr r"
  shows "\<bar>r - n / d\<bar> \<le> \<bar>n / d\<bar> / (2 * 10 ^ 49)"
  using assms by (rule ratio_error)

lemma ratio_accuracy_witness: "\<bar>0 - 0 / (3 :: rat)\<bar> \<le> \<bar>0 / 3\<bar> / (2 * 10 ^ 49)"
  by (rule ratio_accuracy) (simp add: ratio_def round_significant_def)

end
