(* ===== verification/MarketData.thy ===== *)
theory MarketData
  imports Rounding
begin

text \<open>
  \<open>models/symbol.py\<close>, \<open>models/instrument.py\<close> and the quotes, bars and books of
  \<open>models/market_data.py\<close>, with the enumerations of \<open>models/types.py\<close> they use.

  A \<open>Symbol\<close> compares and hashes by \<open>(venue, ticker)\<close> only, so the record \<open>symbol\<close> holds the key and
  the record \<open>symbol_desc\<close> extends it with the identifiers that take no part in equality. Timestamps
  are whole microseconds (\<open>int\<close>), the resolution of \<open>datetime\<close>; dates are day ordinals. Prices,
  sizes and ticks are exact (\<open>rat\<close>, see \<open>Decimals\<close>).
\<close>

section \<open>Symbols\<close>

record symbol =
  venue :: string
  ticker :: string

record symbol_desc = symbol +
  isin :: "string option"
  figi :: "string option"
  cusip :: "string option"
  sedol :: "string option"
  vendor_codes :: "(string \<times> string) list"

definition symbol_str :: "symbol \<Rightarrow> string" where
  "symbol_str s = ticker s @ ''@'' @ venue s"

definition symbol_key :: "symbol_desc \<Rightarrow> string \<times> string" where
  "symbol_key s = (venue s, ticker s)"

definition symbol_eq :: "symbol_desc \<Rightarrow> symbol_desc \<Rightarrow> bool" where
  "symbol_eq a b = (symbol_key a = symbol_key b)"

definition same_identifiers :: "symbol_desc \<Rightarrow> symbol_desc \<Rightarrow> bool" where
  "same_identifiers a b =
     list_all (\<lambda>(mine, theirs).
       case (mine, theirs) of (Some x, Some y) \<Rightarrow> x = y | _ \<Rightarrow> True)
       [(isin a, isin b), (figi a, figi b), (cusip a, cusip b), (sedol a, sedol b)]"

definition ascii_upper :: "char \<Rightarrow> char" where
  "ascii_upper ch = (let n = (of_char ch :: nat) in
     if 97 \<le> n \<and> n \<le> 122 then char_of (n - 32) else ch)"

definition upper :: "string \<Rightarrow> string" where
  "upper s = map ascii_upper s"

text \<open>\<open>text.rpartition("@")\<close>: what precedes the last \<open>@\<close>, whether there is one, what follows it.\<close>

definition rpartition_at :: "string \<Rightarrow> string \<times> bool \<times> string" where
  "rpartition_at s =
     (let r = rev s; after = takeWhile (\<lambda>ch. ch \<noteq> CHR ''@'') r;
          rest = dropWhile (\<lambda>ch. ch \<noteq> CHR ''@'') r
      in if rest = [] then ([], False, s) else (rev (tl rest), True, rev after))"

text \<open>
  \<open>Symbol.parse\<close>. The constructor's own validation (the venue registry and the non-empty ticker) is
  the parameter \<open>mk\<close>, from venue and ticker.
\<close>

definition parse_symbol ::
    "(string \<Rightarrow> string \<Rightarrow> symbol result) \<Rightarrow> string \<Rightarrow> string option \<Rightarrow> symbol result" where
  "parse_symbol mk txt given =
     (case rpartition_at txt of (t0, sep0, v0) \<Rightarrow>
        (let whole = (\<not> sep0 \<or> (given \<noteq> None \<and> (t0 = [] \<or> length v0 \<noteq> 4)));
             t = (if whole then txt else t0);
             sep = (if whole then False else sep0);
             v = (if whole then [] else v0)
         in if sep then
              (case given of
                 Some g \<Rightarrow> if upper g \<noteq> upper v then Inl ValueError else mk v t
               | None \<Rightarrow> mk v t)
            else (case given of None \<Rightarrow> Inl ValueError | Some g \<Rightarrow> mk g t)))"

lemma rpartition_at_concat:
  assumes "CHR ''@'' \<notin> set v"
  shows "rpartition_at (t @ ''@'' @ v) = (t, True, v)"
proof -
  have "takeWhile (\<lambda>ch. ch \<noteq> CHR ''@'') (rev v @ CHR ''@'' # rev t) = rev v"
    and "dropWhile (\<lambda>ch. ch \<noteq> CHR ''@'') (rev v @ CHR ''@'' # rev t) = CHR ''@'' # rev t"
    using assms by (induction v rule: rev_induct) auto
  then show ?thesis by (simp add: rpartition_at_def Let_def)
qed

lemma parse_symbol_str:
  assumes "CHR ''@'' \<notin> set (venue s)" and "mk (venue s) (ticker s) = Inr s"
  shows "parse_symbol mk (symbol_str s) None = Inr s"
  using assms by (simp add: parse_symbol_def symbol_str_def rpartition_at_concat [simplified])

section \<open>Enumerations\<close>

datatype asset_class =
  EQUITY | ETF | INDEX | FUTURE | OPTION | FX | CRYPTO | BOND | FUND | ASSET_UNKNOWN

datatype book_state = BOOK_EMPTY | ONE_SIDED | NORMAL | LOCKED | CROSSED

datatype listing_status =
  ACTIVE | HALTED | SUSPENDED | DELISTED | PENDING | LISTING_UNKNOWN

datatype option_right = CALL | PUT

datatype interval = S1 | M1 | M5 | M15 | M30 | H1 | H4 | D1 | W1 | MO1

fun interval_seconds :: "interval \<Rightarrow> int option" where
  "interval_seconds S1 = Some 1"
| "interval_seconds M1 = Some 60"
| "interval_seconds M5 = Some 300"
| "interval_seconds M15 = Some 900"
| "interval_seconds M30 = Some 1800"
| "interval_seconds H1 = Some 3600"
| "interval_seconds H4 = Some 14400"
| "interval_seconds _ = None"

definition nominal_seconds :: "interval \<Rightarrow> int option" where
  "nominal_seconds i =
     (case i of D1 \<Rightarrow> Some 86400 | W1 \<Rightarrow> Some 604800 | _ \<Rightarrow> interval_seconds i)"

definition is_session_based :: "interval \<Rightarrow> bool" where
  "is_session_based i = (interval_seconds i = None)"

section \<open>Tick ladders and instruments\<close>

record tick_band =
  from_price :: rat
  tick :: rat

text \<open>\<open>bisect_right\<close> on an ascending list: how many elements are at most \<open>x\<close>.\<close>

definition bisect_right :: "rat list \<Rightarrow> rat \<Rightarrow> nat" where
  "bisect_right xs x = length (takeWhile (\<lambda>y. y \<le> x) xs)"

definition aligned :: "rat \<Rightarrow> rat \<Rightarrow> bool" where
  "aligned value s = (is_multiple value s = Inr True)"

fun boundaries_ok :: "tick_band list \<Rightarrow> bool" where
  "boundaries_ok (lo_band # hi_band # rest) =
     (aligned (from_price hi_band) (tick lo_band) \<and> aligned (from_price hi_band) (tick hi_band) \<and>
      boundaries_ok (hi_band # rest))"
| "boundaries_ok _ = True"

text \<open>\<open>TickLadder._valid\<close>, with the field type of \<open>tick\<close> (\<open>PositiveDecimal\<close>) in front.\<close>

definition ladder_valid :: "tick_band list \<Rightarrow> bool" where
  "ladder_valid bands \<longleftrightarrow>
     list_all (\<lambda>b. 0 < tick b) bands \<and>
     bands \<noteq> [] \<and> from_price (hd bands) = 0 \<and>
     sorted_wrt (<) (map from_price bands) \<and> boundaries_ok bands"

definition ladder_tick_at :: "tick_band list \<Rightarrow> rat \<Rightarrow> rat" where
  "ladder_tick_at bands price =
     (let i = bisect_right (map from_price bands) \<bar>price\<bar>
      in tick (if i = 0 then last bands else bands ! (i - 1)))"

record instrument =
  ins_symbol :: symbol
  ins_name :: string
  ins_asset_class :: asset_class
  ins_currency :: string
  tick_size :: rat
  tick_ladder :: "tick_band list option"
  lot_size :: rat
  multiplier :: rat
  min_quantity :: "rat option"
  max_quantity :: "rat option"
  min_notional :: "rat option"
  expiry :: "int option"
  underlying :: "symbol option"
  ins_option_right :: "option_right option"
  strike :: "rat option"
  listing_date :: "int option"
  delisting_date :: "int option"
  ins_status :: listing_status
  active :: bool

text \<open>\<open>Instrument._terms\<close> and the field types: what the constructor accepts.\<close>

definition instrument_valid :: "instrument \<Rightarrow> bool" where
  "instrument_valid i \<longleftrightarrow>
     0 < tick_size i \<and> 0 < lot_size i \<and> 0 < multiplier i \<and>
     (case tick_ladder i of None \<Rightarrow> True | Some bands \<Rightarrow> ladder_valid bands) \<and>
     (case min_quantity i of None \<Rightarrow> True | Some q \<Rightarrow> 0 \<le> q) \<and>
     (case max_quantity i of None \<Rightarrow> True | Some q \<Rightarrow> 0 \<le> q) \<and>
     (case min_notional i of None \<Rightarrow> True | Some q \<Rightarrow> 0 \<le> q) \<and>
     (if ins_asset_class i = OPTION
      then ins_option_right i \<noteq> None \<and> strike i \<noteq> None \<and> expiry i \<noteq> None \<and> underlying i \<noteq> None
      else ins_option_right i = None \<and> strike i = None) \<and>
     (case (min_quantity i, max_quantity i) of (Some lo, Some hi) \<Rightarrow> lo \<le> hi | _ \<Rightarrow> True) \<and>
     (ins_asset_class i = FUTURE \<longrightarrow> expiry i \<noteq> None) \<and>
     (case (listing_date i, delisting_date i) of (Some l, Some d) \<Rightarrow> l \<le> d | _ \<Rightarrow> True)"

definition tick_at :: "instrument \<Rightarrow> rat \<Rightarrow> rat" where
  "tick_at i price =
     (case tick_ladder i of Some bands \<Rightarrow> ladder_tick_at bands price | None \<Rightarrow> tick_size i)"

definition is_tick_aligned :: "instrument \<Rightarrow> rat \<Rightarrow> bool result" where
  "is_tick_aligned i price = is_multiple price (tick_at i price)"

definition is_lot_aligned :: "instrument \<Rightarrow> rat \<Rightarrow> bool result" where
  "is_lot_aligned i quantity = is_multiple quantity (lot_size i)"

definition round_price :: "instrument \<Rightarrow> rat \<Rightarrow> rounding \<Rightarrow> rat result" where
  "round_price i price r = round_to_step price (tick_at i price) r"

definition round_quantity :: "instrument \<Rightarrow> rat \<Rightarrow> rat result" where
  "round_quantity i quantity = round_to_step quantity (lot_size i) TOWARD_ZERO"

section \<open>Quotes, bars and books\<close>

definition book_state_of :: "rat option \<Rightarrow> rat option \<Rightarrow> book_state" where
  "book_state_of best_bid best_ask =
     (case (best_bid, best_ask) of
        (None, None) \<Rightarrow> BOOK_EMPTY
      | (Some b, Some a) \<Rightarrow> (if b < a then NORMAL else if b = a then LOCKED else CROSSED)
      | _ \<Rightarrow> ONE_SIDED)"

record quote =
  q_symbol :: symbol
  q_exchange_ts :: int
  q_received_ts :: int
  bid :: "rat option"
  ask :: "rat option"
  last_price :: "rat option"

definition quote_book_state :: "quote \<Rightarrow> book_state" where
  "quote_book_state q = book_state_of (bid q) (ask q)"

definition quote_mid :: "quote \<Rightarrow> rat option" where
  "quote_mid q = (case (bid q, ask q) of (Some b, Some a) \<Rightarrow> Some ((b + a) / 2) | _ \<Rightarrow> None)"

definition quote_spread :: "quote \<Rightarrow> rat option" where
  "quote_spread q = (case (bid q, ask q) of (Some b, Some a) \<Rightarrow> Some (a - b) | _ \<Rightarrow> None)"

record bar =
  bar_open :: rat
  bar_high :: rat
  bar_low :: rat
  bar_close :: rat
  bar_volume :: rat

definition bar_valid :: "bar \<Rightarrow> bool" where
  "bar_valid b \<longleftrightarrow>
     bar_low b \<le> bar_open b \<and> bar_open b \<le> bar_high b \<and>
     bar_low b \<le> bar_close b \<and> bar_close b \<le> bar_high b"

record level =
  lvl_price :: rat
  lvl_size :: rat

record order_book =
  ob_symbol :: symbol
  ob_sequence :: int
  bids :: "level list"
  asks :: "level list"

text \<open>\<open>OrderBook._sorted\<close>: the prices equal the sorted set of themselves, so they are strictly ordered.\<close>

definition order_book_valid :: "order_book \<Rightarrow> bool" where
  "order_book_valid b \<longleftrightarrow>
     sorted_wrt (>) (map lvl_price (bids b)) \<and> sorted_wrt (<) (map lvl_price (asks b))"

definition order_book_state :: "order_book \<Rightarrow> book_state" where
  "order_book_state b =
     book_state_of (case bids b of [] \<Rightarrow> None | l # _ \<Rightarrow> Some (lvl_price l))
                   (case asks b of [] \<Rightarrow> None | l # _ \<Rightarrow> Some (lvl_price l))"

section \<open>A rounded price is on the ladder\<close>

lemma aligned_iff: "0 < s \<Longrightarrow> aligned value s \<longleftrightarrow> (\<exists>k::int. value = of_int k * s)"
  by (simp add: aligned_def is_multiple_iff)

lemma aligned_abs: "0 < s \<Longrightarrow> aligned \<bar>value\<bar> s \<longleftrightarrow> aligned value s"
proof -
  assume s: "0 < s"
  have "\<exists>k::int. - x = of_int k * s" if "\<exists>k::int. x = of_int k * s" for x
    using that by (metis minus_mult_left of_int_minus)
  then have "(\<exists>k::int. - value = of_int k * s) \<longleftrightarrow> (\<exists>k::int. value = of_int k * s)"
    by (metis minus_minus)
  with s show ?thesis by (simp add: aligned_iff abs_if)
qed

text \<open>
  Two values on a grid of width \<open>s\<close> that are closer than \<open>s\<close> are equal; so a rounded value cannot
  jump over a grid point that lies between it and the original.
\<close>

lemma grid_no_jump:
  assumes "0 < s" and "aligned v s" and "aligned b s" and "\<bar>v - x\<bar> < s"
  shows "x < b \<Longrightarrow> v \<le> b" and "b \<le> x \<Longrightarrow> b \<le> v"
proof -
  obtain i j :: int where v: "v = of_int i * s" and b: "b = of_int j * s"
    using assms(1,2,3) by (auto simp: aligned_iff)
  have less: "of_int k * s < of_int l * s + s \<longleftrightarrow> k \<le> l" for k l :: int
  proof -
    have "of_int k * s < of_int l * s + s \<longleftrightarrow> (of_int k :: rat) * s < of_int (l + 1) * s"
      by (simp add: distrib_right)
    also have "\<dots> \<longleftrightarrow> k < l + 1" using assms(1) by (simp only: mult_less_cancel_right_pos of_int_less_iff)
    finally show ?thesis by simp
  qed
  show "v \<le> b" if "x < b"
  proof -
    have "of_int i * s < of_int j * s + s" using that assms(4) v b by linarith
    then have "i \<le> j" by (simp only: less)
    then show ?thesis unfolding v b using assms(1) by (intro mult_right_mono) auto
  qed
  show "b \<le> v" if "b \<le> x"
  proof -
    have "of_int j * s < of_int i * s + s" using that assms(4) v b by linarith
    then have "j \<le> i" by (simp only: less)
    then show ?thesis unfolding v b using assms(1) by (intro mult_right_mono) auto
  qed
qed

text \<open>
  Where a price lies on the ladder: its band is the last one that starts at or below its absolute
  value.
\<close>

lemma bisect_right_append:
  "list_all (\<lambda>y. y \<le> x) xs \<Longrightarrow> list_all (\<lambda>y. x < y) ys \<Longrightarrow> bisect_right (xs @ ys) x = length xs"
proof -
  assume "list_all (\<lambda>y. y \<le> x) xs" and "list_all (\<lambda>y. x < y) ys"
  then have "takeWhile (\<lambda>y. y \<le> x) (xs @ ys) = xs"
    by (cases ys) (auto simp: takeWhile_append2 list_all_iff)
  then show ?thesis by (simp add: bisect_right_def)
qed

lemma ladder_split:
  assumes "ladder_valid bands"
  shows "\<exists>pre b post. bands = pre @ b # post \<and> from_price b \<le> \<bar>p\<bar> \<and>
    list_all (\<lambda>c. \<bar>p\<bar> < from_price c) post \<and> list_all (\<lambda>c. from_price c \<le> \<bar>p\<bar>) pre"
proof -
  let ?low = "\<lambda>c. from_price c \<le> \<bar>p\<bar>"
  define pre where "pre = takeWhile ?low bands"
  have ne: "bands \<noteq> []" and z: "from_price (hd bands) = 0"
    and so: "sorted_wrt (<) (map from_price bands)"
    using assms by (auto simp: ladder_valid_def)
  have "pre \<noteq> []" unfolding pre_def using ne z by (cases bands) auto
  then have split: "bands = butlast pre @ last pre # dropWhile ?low bands"
    by (metis append_assoc append_Cons append_Nil append_butlast_last_id pre_def takeWhile_dropWhile_id)
  have low: "\<forall>c \<in> set pre. ?low c"
    unfolding pre_def by (auto dest: set_takeWhileD)
  have high: "list_all (\<lambda>c. \<bar>p\<bar> < from_price c) (dropWhile ?low bands)"
  proof (cases "dropWhile ?low bands")
    case Nil
    show ?thesis unfolding Nil by simp
  next
    case (Cons c cs)
    then have "\<not> ?low c" by (metis hd_dropWhile list.distinct(1) list.sel(1))
    moreover have "sorted_wrt (<) (map from_price (c # cs))"
      using so split Cons by (metis map_append sorted_wrt_append list.simps(9) sorted_wrt.simps(2))
    ultimately show ?thesis unfolding Cons by (auto simp: list_all_iff)
  qed
  have "?low (last pre)" and "list_all ?low (butlast pre)"
    using low \<open>pre \<noteq> []\<close> by (auto simp: list_all_iff dest: in_set_butlastD)
  with split high show ?thesis by blast
qed

lemma ladder_tick_at_split:
  assumes "bands = pre @ b # post" and "from_price b \<le> \<bar>p\<bar>"
    and "list_all (\<lambda>c. \<bar>p\<bar> < from_price c) post" and "list_all (\<lambda>c. from_price c \<le> \<bar>p\<bar>) pre"
  shows "ladder_tick_at bands p = tick b"
proof -
  have "bisect_right (map from_price ((pre @ [b]) @ post)) \<bar>p\<bar> = length (pre @ [b])"
    unfolding map_append
    using bisect_right_append [of "\<bar>p\<bar>" "map from_price (pre @ [b])" "map from_price post"] assms(2,3,4)
    by (auto simp: list_all_iff)
  then show ?thesis
    by (simp add: ladder_tick_at_def Let_def assms(1) nth_append)
qed

lemma boundaries_ok_split:
  "boundaries_ok (pre @ b # c # post) \<Longrightarrow> aligned (from_price c) (tick b) \<and> aligned (from_price c) (tick c)"
  by (induction pre rule: boundaries_ok.induct) auto

text \<open>The lower boundary of a band is on the band's own grid: zero, or by the ladder's validation.\<close>

lemma band_start_aligned:
  assumes "ladder_valid (pre @ b # post)"
  shows "aligned (from_price b) (tick b)"
proof (cases pre rule: rev_cases)
  case Nil
  then have "from_price b = 0" "0 < tick b" using assms by (auto simp: ladder_valid_def)
  then show ?thesis by (auto simp: aligned_iff intro: exI [of _ 0])
next
  case (snoc pre' a)
  then have "boundaries_ok (pre' @ a # b # post)" using assms by (simp add: ladder_valid_def)
  then show ?thesis by (simp add: boundaries_ok_split)
qed

lemma ladder_round_aligned:
  assumes L: "ladder_valid bands" and r: "round_to_step p (ladder_tick_at bands p) rd = Inr v"
  shows "aligned v (ladder_tick_at bands v)"
proof -
  obtain pre b post where bands: "bands = pre @ b # post" and lo: "from_price b \<le> \<bar>p\<bar>"
    and hi: "list_all (\<lambda>c. \<bar>p\<bar> < from_price c) post" and pre: "list_all (\<lambda>c. from_price c \<le> \<bar>p\<bar>) pre"
    using ladder_split [OF L, of p] by blast
  have t: "ladder_tick_at bands p = tick b"
    using bands lo hi pre by (rule ladder_tick_at_split)
  have pos: "0 < tick b" and so: "sorted_wrt (<) (map from_price bands)"
    using L bands by (auto simp: ladder_valid_def)
  have al: "aligned v (tick b)" and near: "\<bar>v - p\<bar> < tick b"
    using round_to_step_multiple [of p "tick b" rd v] r t by (auto simp: aligned_def)
  have av: "aligned \<bar>v\<bar> (tick b)" using al pos by (simp add: aligned_abs)
  have near': "\<bar>\<bar>v\<bar> - \<bar>p\<bar>\<bar> < tick b" using near by linarith
  have start: "aligned (from_price b) (tick b)"
    using L bands band_start_aligned by blast
  have lov: "from_price b \<le> \<bar>v\<bar>"
    using grid_no_jump(2) [OF pos av start near'] lo by blast
  have prev: "list_all (\<lambda>c. from_price c \<le> \<bar>v\<bar>) pre"
    using so bands lov by (fastforce simp: list_all_iff sorted_wrt_append)
  show ?thesis
  proof (cases post)
    case Nil
    then have "ladder_tick_at bands v = tick b"
      using ladder_tick_at_split [OF bands lov _ prev] by simp
    with al show ?thesis by simp
  next
    case (Cons c cs)
    have "boundaries_ok (pre @ b # c # cs)" using L bands Cons by (simp add: ladder_valid_def)
    then have cb: "aligned (from_price c) (tick b)" and cc: "aligned (from_price c) (tick c)"
      using boundaries_ok_split by auto
    have c: "\<bar>p\<bar> < from_price c" using hi Cons by simp
    have vc: "\<bar>v\<bar> \<le> from_price c"
      using grid_no_jump(1) [OF pos av cb near'] c by blast
    have cs: "list_all (\<lambda>d. from_price c < from_price d) cs"
      using so bands Cons by (auto simp: list_all_iff sorted_wrt_append)
    show ?thesis
    proof (cases "\<bar>v\<bar> = from_price c")
      case True
      have "ladder_tick_at bands v = tick c"
        by (rule ladder_tick_at_split [of bands "pre @ [b]" c cs])
          (use bands Cons True cs prev lov in \<open>auto simp: list_all_iff\<close>)
      moreover have "0 < tick c" using L bands Cons by (auto simp: ladder_valid_def)
      moreover have "aligned \<bar>v\<bar> (tick c)" using cc True by simp
      ultimately show ?thesis by (simp add: aligned_abs)
    next
      case False
      then have "list_all (\<lambda>c. \<bar>v\<bar> < from_price c) post"
        using vc cs Cons by (auto simp: list_all_iff)
      then have "ladder_tick_at bands v = tick b"
        using ladder_tick_at_split [OF bands lov _ prev] by simp
      with al show ?thesis by simp
    qed
  qed
qed

lemma round_price_aligned:
  assumes "instrument_valid i" and "round_price i p rd = Inr v"
  shows "is_tick_aligned i v = Inr True"
proof (cases "tick_ladder i")
  case None
  with assms(2) show ?thesis
    by (auto simp: round_price_def tick_at_def is_tick_aligned_def dest: round_to_step_multiple)
next
  case (Some bands)
  with assms have "ladder_valid bands" and "round_to_step p (ladder_tick_at bands p) rd = Inr v"
    by (simp_all add: instrument_valid_def round_price_def tick_at_def)
  then have "aligned v (ladder_tick_at bands v)" by (rule ladder_round_aligned)
  with Some show ?thesis by (simp add: is_tick_aligned_def tick_at_def aligned_def)
qed

lemma round_price_total:
  assumes "instrument_valid i"
  shows "\<exists>v. round_price i p rd = Inr v"
proof -
  have "0 < tick_at i p"
  proof (cases "tick_ladder i")
    case None
    with assms show ?thesis by (simp add: tick_at_def instrument_valid_def)
  next
    case (Some bands)
    then have L: "ladder_valid bands" using assms by (simp add: instrument_valid_def)
    obtain pre b post where "bands = pre @ b # post" and "ladder_tick_at bands p = tick b"
      using ladder_split [OF L, of p] ladder_tick_at_split by metis
    with L Some show ?thesis by (simp add: tick_at_def ladder_valid_def)
  qed
  then show ?thesis by (simp add: round_price_def round_to_step_quotient)
qed

lemma round_quantity_down:
  assumes "0 < lot_size i" and "0 \<le> q" and "round_quantity i q = Inr v"
  shows "0 \<le> v \<and> v \<le> q \<and> q - v < lot_size i \<and> is_lot_aligned i v = Inr True"
proof -
  have v: "v = of_int \<lfloor>q / lot_size i\<rfloor> * lot_size i"
    using assms by (simp add: round_quantity_def round_to_step_quotient round_quotient_def)
  have "of_int \<lfloor>q / lot_size i\<rfloor> \<le> q / lot_size i" by simp
  then have "v \<le> q" using assms(1) v by (simp only: pos_le_divide_eq)
  moreover have "0 \<le> v" unfolding v using assms(1,2) by simp
  moreover have "\<bar>v - q\<bar> < lot_size i \<and> is_lot_aligned i v = Inr True"
    using assms(3) round_to_step_multiple by (fastforce simp: round_quantity_def is_lot_aligned_def)
  ultimately show ?thesis by linarith
qed

lemma quote_mid_between:
  assumes "quote_mid q = Some m" and "bid q = Some b" and "ask q = Some a" and "b \<le> a"
  shows "b \<le> m \<and> m \<le> a"
  using assms by (auto simp: quote_mid_def)

section \<open>Properties\<close>

definition sample_symbol :: symbol where
  "sample_symbol = \<lparr>venue = ''XNAS'', ticker = ''AAPL''\<rparr>"

definition sample_instrument :: instrument where
  "sample_instrument =
     \<lparr>ins_symbol = sample_symbol, ins_name = ''Apple'', ins_asset_class = EQUITY,
      ins_currency = ''USD'', tick_size = 1 / 100,
      tick_ladder = Some [\<lparr>from_price = 0, tick = 1 / 10000\<rparr>, \<lparr>from_price = 1, tick = 1 / 100\<rparr>],
      lot_size = 1, multiplier = 1, min_quantity = None, max_quantity = None, min_notional = None,
      expiry = None, underlying = None, ins_option_right = None, strike = None, listing_date = None,
      delisting_date = None, ins_status = ACTIVE, active = True\<rparr>"

lemma sample_instrument_valid: "instrument_valid sample_instrument"
  by (simp add: sample_instrument_def instrument_valid_def ladder_valid_def aligned_def is_multiple_def
      trunc_div_def)

text \<open> Whatever the rounding mode and whatever ladder of tick bands the instrument has,
  \<open>round_price\<close> returns a price and that price is on the tick of the band it lands in, so the venue
  cannot refuse it as off tick.\<close>

theorem rounded_price_on_tick:
  assumes "instrument_valid i"
  shows "\<exists>v. round_price i p mode = Inr v \<and> is_tick_aligned i v = Inr True"
  using round_price_total [OF assms] round_price_aligned [OF assms] by blast

lemma rounded_price_on_tick_witness:
  "\<exists>v. round_price sample_instrument (1999 / 2000) CEILING = Inr v \<and>
     is_tick_aligned sample_instrument v = Inr True"
  by (rule rounded_price_on_tick) (rule sample_instrument_valid)

text \<open> \<open>Symbol.parse\<close> reads back what \<open>str\<close> writes, whatever the ticker, for every venue code
  without an \<open>@\<close>.\<close>

theorem symbol_roundtrip:
  assumes "CHR ''@'' \<notin> set (venue s)" and "mk (venue s) (ticker s) = Inr s"
  shows "parse_symbol mk (symbol_str s) None = Inr s"
  using assms by (rule parse_symbol_str)

lemma symbol_roundtrip_witness:
  "parse_symbol (\<lambda>v t. Inr \<lparr>venue = v, ticker = t\<rparr>) (symbol_str \<lparr>venue = ''XNAS'', ticker = ''BRK@B''\<rparr>) None
   = Inr \<lparr>venue = ''XNAS'', ticker = ''BRK@B''\<rparr>"
  by (rule symbol_roundtrip) simp_all

end
