(* ===== verification/Orders.thy ===== *)
theory Orders
  imports MarketData
begin

text \<open>
  \<open>models/orders.py\<close>: requests, fills, venue snapshots, trading rules and the events of an order's
  life. A pydantic model becomes a record; what its validators accept is a boolean predicate
  (\<open>valid_order_request\<close>, \<open>valid_fill\<close>, \<open>valid_event\<close>). An event is a record of the fields every
  event has (\<open>_Event\<close>) with a body, whose constructors are the event classes.
\<close>

section \<open>Identifiers and enumerations\<close>

text \<open>The pattern \<open>[A-Za-z0-9_.:-]{1,64}\<close>, matched against the whole string.\<close>

definition client_order_id_char :: "char \<Rightarrow> bool" where
  "client_order_id_char ch =
     (let n = (of_char ch :: nat)
      in (65 \<le> n \<and> n \<le> 90) \<or> (97 \<le> n \<and> n \<le> 122) \<or> (48 \<le> n \<and> n \<le> 57) \<or> ch \<in> set ''_.:-'')"

definition valid_client_order_id :: "string \<Rightarrow> bool" where
  "valid_client_order_id s \<longleftrightarrow>
     1 \<le> length s \<and> length s \<le> 64 \<and> list_all client_order_id_char s"

datatype environment = SIMULATED | PAPER | LIVE

datatype order_side = BUY | SELL

fun side_sign :: "order_side \<Rightarrow> rat" where
  "side_sign BUY = 1"
| "side_sign SELL = -1"

datatype order_type = MARKET | LIMIT | STOP | STOP_LIMIT

datatype time_in_force = DAY | GTC | IOC | FOK | GTD | OPG | CLS

datatype short_sale_mark = NOT_SHORT | SHORT | SHORT_EXEMPT

datatype liquidity = MAKER | TAKER | LIQUIDITY_UNKNOWN

datatype order_status =
    PENDING_SUBMIT | SUBMITTING | UNKNOWN | ACCEPTED | PARTIALLY_FILLED | PENDING_CANCEL
  | PENDING_REPLACE | FILLED | CANCELED | REJECTED | EXPIRED

fun is_terminal_status :: "order_status \<Rightarrow> bool" where
  "is_terminal_status FILLED = True"
| "is_terminal_status CANCELED = True"
| "is_terminal_status REJECTED = True"
| "is_terminal_status EXPIRED = True"
| "is_terminal_status _ = False"

datatype event_origin = OMS | VENUE | RECONCILE

section \<open>Requests, fills and reports\<close>

record order_request =
  req_cid :: string
  req_symbol :: symbol
  req_side :: order_side
  req_quantity :: rat
  req_type :: order_type
  req_tif :: time_in_force
  req_limit_price :: "rat option"
  req_stop_price :: "rat option"
  req_expire_at :: "int option"
  req_account :: "string option"
  req_strategy :: "string option"
  req_short_sale :: short_sale_mark
  req_post_only :: bool
  req_reduce_only :: bool

text \<open>\<open>OrderRequest._shape\<close>: the checks of the model validator, in its order, true when none raises.\<close>

definition request_shape :: "order_request \<Rightarrow> bool" where
  "request_shape r =
     (let needs_limit = req_type r \<in> {LIMIT, STOP_LIMIT};
          needs_stop = req_type r \<in> {STOP, STOP_LIMIT}
      in \<not> (needs_limit \<and> req_limit_price r = None) \<and>
         \<not> (\<not> needs_limit \<and> req_limit_price r \<noteq> None) \<and>
         \<not> (needs_stop \<and> req_stop_price r = None) \<and>
         \<not> (\<not> needs_stop \<and> req_stop_price r \<noteq> None) \<and>
         \<not> ((req_tif r = GTD) \<noteq> (req_expire_at r \<noteq> None)) \<and>
         \<not> (req_side r = BUY \<and> req_short_sale r \<noteq> NOT_SHORT) \<and>
         \<not> (req_post_only r \<and> req_type r \<noteq> LIMIT) \<and>
         \<not> (req_post_only r \<and> req_tif r \<in> {IOC, FOK}))"

definition valid_order_request :: "order_request \<Rightarrow> bool" where
  "valid_order_request r \<longleftrightarrow>
     valid_client_order_id (req_cid r) \<and> 0 < req_quantity r \<and> request_shape r"

record fill =
  fl_id :: string
  fl_cid :: string
  fl_symbol :: symbol
  fl_side :: order_side
  fl_price :: rat
  fl_quantity :: rat
  fl_ts :: int
  fl_venue_order_id :: "string option"
  fl_fee :: "rat option"
  fl_fee_currency :: "string option"
  fl_liquidity :: liquidity

definition valid_fill :: "fill \<Rightarrow> bool" where
  "valid_fill f \<longleftrightarrow> fl_id f \<noteq> [] \<and> valid_client_order_id (fl_cid f) \<and> 0 < fl_quantity f"

record order_ack =
  ack_cid :: string
  ack_venue_order_id :: string
  ack_ts :: int

record venue_order_snapshot =
  snap_cid :: string
  snap_venue_order_id :: "string option"
  snap_symbol :: symbol
  snap_side :: order_side
  snap_quantity :: rat
  snap_filled_quantity :: rat
  snap_status :: order_status
  snap_limit_price :: "rat option"
  snap_ts :: int

definition valid_snapshot :: "venue_order_snapshot \<Rightarrow> bool" where
  "valid_snapshot s \<longleftrightarrow>
     valid_client_order_id (snap_cid s) \<and> 0 < snap_quantity s \<and> 0 \<le> snap_filled_quantity s"

record position =
  pos_symbol :: symbol
  pos_quantity :: rat
  pos_average_price :: "rat option"
  pos_account :: "string option"

record balance =
  bal_currency :: string
  bal_total :: rat
  bal_available :: "rat option"
  bal_settled :: "rat option"
  bal_account :: "string option"

record trading_rules =
  rules_order_types :: "order_type list"
  rules_tif :: "time_in_force list"
  supports_amend :: bool
  supports_short :: bool
  supports_post_only :: bool
  supports_cancel_on_disconnect :: bool
  client_order_id_max_length :: nat

section \<open>Events\<close>

datatype event_body =
    SubmitIntent order_request
  | SendStarted "string option"
  | Acknowledged string
  | Rejected string "string option"
  | OutcomeUnknown string
  | Filled fill
  | FillBusted string string
  | CancelRequested
  | Canceled string
  | CancelRejected string "string option"
  | ReplaceRequested "rat option" "rat option"
  | Replaced "rat option" "rat option" "string option"
  | ReplaceRejected string "string option"
  | Expired
  | Restated order_status "string option" "rat option" string

record order_event =
  ev_cid :: string
  ev_ts :: int
  ev_origin :: event_origin
  ev_body :: event_body

text \<open>The \<open>kind\<close> tag of each event class, and \<open>event_kinds()\<close>.\<close>

datatype event_kind =
    K_intent | K_send_started | K_ack | K_reject | K_outcome_unknown | K_fill | K_bust
  | K_cancel_requested | K_canceled | K_cancel_rejected | K_replace_requested | K_replaced
  | K_replace_rejected | K_expired | K_restated

fun kind_of :: "event_body \<Rightarrow> event_kind" where
  "kind_of (SubmitIntent _) = K_intent"
| "kind_of (SendStarted _) = K_send_started"
| "kind_of (Acknowledged _) = K_ack"
| "kind_of (Rejected _ _) = K_reject"
| "kind_of (OutcomeUnknown _) = K_outcome_unknown"
| "kind_of (Filled _) = K_fill"
| "kind_of (FillBusted _ _) = K_bust"
| "kind_of CancelRequested = K_cancel_requested"
| "kind_of (Canceled _) = K_canceled"
| "kind_of (CancelRejected _ _) = K_cancel_rejected"
| "kind_of (ReplaceRequested _ _) = K_replace_requested"
| "kind_of (Replaced _ _ _) = K_replaced"
| "kind_of (ReplaceRejected _ _) = K_replace_rejected"
| "kind_of Expired = K_expired"
| "kind_of (Restated _ _ _ _) = K_restated"

definition event_kinds :: "event_kind list" where
  "event_kinds =
     [K_intent, K_send_started, K_ack, K_reject, K_outcome_unknown, K_fill, K_bust,
      K_cancel_requested, K_canceled, K_cancel_rejected, K_replace_requested, K_replaced,
      K_replace_rejected, K_expired, K_restated]"

definition positive_or_none :: "rat option \<Rightarrow> bool" where
  "positive_or_none q = (case q of None \<Rightarrow> True | Some x \<Rightarrow> 0 < x)"

text \<open>What the event classes' field types and validators accept.\<close>

fun valid_body :: "event_body \<Rightarrow> bool" where
  "valid_body (SubmitIntent r) = valid_order_request r"
| "valid_body (Filled f) = valid_fill f"
| "valid_body (ReplaceRequested q p) = (positive_or_none q \<and> \<not> (q = None \<and> p = None))"
| "valid_body (Replaced q p v) = positive_or_none q"
| "valid_body (Restated st v filled why) = (case filled of None \<Rightarrow> True | Some x \<Rightarrow> 0 \<le> x)"
| "valid_body _ = True"

definition valid_event :: "order_event \<Rightarrow> bool" where
  "valid_event e \<longleftrightarrow> valid_client_order_id (ev_cid e) \<and> valid_body (ev_body e)"

lemma kind_of_event_kinds: "kind_of b \<in> set event_kinds"
  by (cases b) (simp_all add: event_kinds_def)

lemma side_sign_square [simp]: "side_sign s * side_sign s = 1"
  by (cases s) simp_all

lemma side_sign_nonzero [simp]: "side_sign s \<noteq> 0"
  by (cases s) simp_all

lemma abs_side_sign [simp]: "\<bar>side_sign s\<bar> = 1"
  by (cases s) simp_all

lemma valid_fill_positive: "valid_fill f \<Longrightarrow> 0 < fl_quantity f"
  by (simp add: valid_fill_def)

lemma valid_order_request_positive: "valid_order_request r \<Longrightarrow> 0 < req_quantity r"
  by (simp add: valid_order_request_def)

text \<open>Which prices a valid request carries is a function of its type.\<close>

lemma request_shape_prices:
  assumes "request_shape r"
  shows "(req_limit_price r \<noteq> None) = (req_type r \<in> {LIMIT, STOP_LIMIT})"
    and "(req_stop_price r \<noteq> None) = (req_type r \<in> {STOP, STOP_LIMIT})"
    and "(req_expire_at r \<noteq> None) = (req_tif r = GTD)"
proof -
  note a = assms [unfolded request_shape_def Let_def]
  show "(req_limit_price r \<noteq> None) = (req_type r \<in> {LIMIT, STOP_LIMIT})" using a by argo
  show "(req_stop_price r \<noteq> None) = (req_type r \<in> {STOP, STOP_LIMIT})" using a by argo
  show "(req_expire_at r \<noteq> None) = (req_tif r = GTD)" using a by argo
qed

end
