(* ===== verification/OrderState.thy ===== *)
theory OrderState
  imports Orders
begin

text \<open>
  \<open>execution/state.py\<close>: the order state machine, a pure reducer from events to state. The
  transition table is the code's dictionary of dictionaries, as association lists; the dataclass
  \<open>OrderState\<close> is a record; an anomaly is a constructor that carries what its message is made of.
\<close>

section \<open>The transition table\<close>

datatype target = To order_status | WORKING | RESUMED

definition WORKING_STATUSES :: "order_status list" where
  "WORKING_STATUSES = [ACCEPTED, PARTIALLY_FILLED]"

definition PENDING_STATUSES :: "order_status list" where
  "PENDING_STATUSES = [PENDING_CANCEL, PENDING_REPLACE]"

definition ALL_LIVE :: "order_status list" where
  "ALL_LIVE = [SUBMITTING, UNKNOWN] @ WORKING_STATUSES @ PENDING_STATUSES"

fun transitions :: "event_kind \<Rightarrow> (order_status \<times> target) list" where
  "transitions K_send_started = [(PENDING_SUBMIT, To SUBMITTING)]"
| "transitions K_ack =
    [(SUBMITTING, WORKING), (UNKNOWN, WORKING), (ACCEPTED, To ACCEPTED),
     (PARTIALLY_FILLED, To PARTIALLY_FILLED), (PENDING_CANCEL, To PENDING_CANCEL),
     (PENDING_REPLACE, To PENDING_REPLACE), (FILLED, To FILLED), (CANCELED, To CANCELED),
     (EXPIRED, To EXPIRED)]"
| "transitions K_reject =
    [(PENDING_SUBMIT, To REJECTED), (SUBMITTING, To REJECTED), (UNKNOWN, To REJECTED),
     (REJECTED, To REJECTED), (ACCEPTED, To REJECTED), (PARTIALLY_FILLED, To REJECTED),
     (PENDING_CANCEL, To REJECTED), (PENDING_REPLACE, To REJECTED)]"
| "transitions K_outcome_unknown =
    [(SUBMITTING, To UNKNOWN), (UNKNOWN, To UNKNOWN), (ACCEPTED, To UNKNOWN),
     (PARTIALLY_FILLED, To UNKNOWN), (PENDING_CANCEL, To UNKNOWN), (PENDING_REPLACE, To UNKNOWN)]"
| "transitions K_cancel_requested =
    [(ACCEPTED, To PENDING_CANCEL), (PARTIALLY_FILLED, To PENDING_CANCEL),
     (PENDING_CANCEL, To PENDING_CANCEL), (PENDING_REPLACE, To PENDING_CANCEL),
     (SUBMITTING, To SUBMITTING), (UNKNOWN, To UNKNOWN)]"
| "transitions K_canceled =
    map (\<lambda>s. (s, To CANCELED)) ALL_LIVE @ [(CANCELED, To CANCELED)]"
| "transitions K_cancel_rejected =
    [(PENDING_CANCEL, RESUMED), (ACCEPTED, To ACCEPTED), (PARTIALLY_FILLED, To PARTIALLY_FILLED),
     (PENDING_REPLACE, To PENDING_REPLACE), (UNKNOWN, To UNKNOWN), (SUBMITTING, To SUBMITTING),
     (FILLED, To FILLED), (CANCELED, To CANCELED), (REJECTED, To REJECTED), (EXPIRED, To EXPIRED)]"
| "transitions K_replace_requested =
    [(ACCEPTED, To PENDING_REPLACE), (PARTIALLY_FILLED, To PENDING_REPLACE)]"
| "transitions K_replaced =
    [(PENDING_REPLACE, WORKING), (PENDING_CANCEL, To PENDING_CANCEL), (UNKNOWN, WORKING),
     (ACCEPTED, WORKING), (PARTIALLY_FILLED, WORKING)]"
| "transitions K_replace_rejected =
    [(PENDING_REPLACE, WORKING), (PENDING_CANCEL, To PENDING_CANCEL), (UNKNOWN, To UNKNOWN),
     (FILLED, To FILLED), (CANCELED, To CANCELED), (EXPIRED, To EXPIRED)]"
| "transitions K_expired =
    map (\<lambda>s. (s, To EXPIRED)) ALL_LIVE @ [(EXPIRED, To EXPIRED)]"
| "transitions _ = []"

section \<open>State\<close>

datatype anomaly =
    FillAfterBust string
  | FeeDispute string "rat option" "string option" "rat option" "string option"
  | FillDispute string
  | FillMismatch string order_side symbol order_side symbol
  | Overfill rat rat
  | FillBeforeSend string
  | FillAfterTerminal string order_status
  | BustUnknown string
  | RestatedTerminal order_status order_status
  | IllegalTransition event_kind order_status
  | DuplicateIntent

record order_state =
  st_request :: order_request
  st_status :: order_status
  st_quantity :: rat
  st_limit_price :: "rat option"
  st_venue_order_id :: "string option"
  st_filled_quantity :: rat
  st_filled_notional :: rat
  st_fills :: "fill list"
  st_pending_quantity :: "rat option"
  st_pending_limit_price :: "rat option"
  st_reject_reason :: "string option"
  st_reject_code :: "string option"
  st_anomalies :: "anomaly list"
  st_busted :: "string set"
  st_send_record_id :: "string option"

definition state_cid :: "order_state \<Rightarrow> string" where
  "state_cid s = req_cid (st_request s)"

definition is_terminal :: "order_state \<Rightarrow> bool" where
  "is_terminal s = is_terminal_status (st_status s)"

definition is_open :: "order_state \<Rightarrow> bool" where
  "is_open s = (\<not> is_terminal s)"

definition leaves_quantity :: "order_state \<Rightarrow> rat" where
  "leaves_quantity s =
     (if is_terminal s then 0
      else let quantity = (case st_pending_quantity s of
                             None \<Rightarrow> st_quantity s
                           | Some p \<Rightarrow> max (st_quantity s) p)
           in max (quantity - st_filled_quantity s) 0)"

definition average_price :: "order_state \<Rightarrow> rat option result" where
  "average_price s =
     (if st_filled_quantity s = 0 then Inr None
      else bind_result (ratio (st_filled_notional s) (st_filled_quantity s)) (\<lambda>x. Inr (Some x)))"

definition new_order :: "order_request \<Rightarrow> order_state" where
  "new_order r =
     \<lparr>st_request = r, st_status = PENDING_SUBMIT, st_quantity = req_quantity r,
      st_limit_price = req_limit_price r, st_venue_order_id = None, st_filled_quantity = 0,
      st_filled_notional = 0, st_fills = [], st_pending_quantity = None,
      st_pending_limit_price = None, st_reject_reason = None, st_reject_code = None,
      st_anomalies = [], st_busted = {}, st_send_record_id = None\<rparr>"

definition working_status :: "order_state \<Rightarrow> order_status" where
  "working_status s =
     (if st_quantity s \<le> st_filled_quantity s then FILLED
      else if 0 < st_filled_quantity s then PARTIALLY_FILLED else ACCEPTED)"

definition note_anomaly :: "order_state \<Rightarrow> anomaly \<Rightarrow> order_state" where
  "note_anomaly s a = s\<lparr>st_anomalies := st_anomalies s @ [a]\<rparr>"

definition fill_ceiling :: "order_state \<Rightarrow> rat" where
  "fill_ceiling s =
     (case st_pending_quantity s of None \<Rightarrow> st_quantity s | Some p \<Rightarrow> max (st_quantity s) p)"

section \<open>Fills and busts\<close>

definition fees_differ :: "fill \<Rightarrow> fill \<Rightarrow> bool" where
  "fees_differ known report =
     (let amounts_differ = (fl_fee known \<noteq> None \<and> fl_fee report \<noteq> None \<and> fl_fee known \<noteq> fl_fee report);
          currencies_differ = (fl_fee_currency known \<noteq> None \<and> fl_fee_currency report \<noteq> None \<and>
                               fl_fee_currency known \<noteq> fl_fee_currency report)
      in amounts_differ \<or> currencies_differ)"

definition same_execution :: "fill \<Rightarrow> fill \<Rightarrow> bool" where
  "same_execution a b =
     ((fl_symbol a, fl_side a, fl_price a, fl_quantity a) =
      (fl_symbol b, fl_side b, fl_price b, fl_quantity b))"

definition merged_fill :: "fill \<Rightarrow> fill \<Rightarrow> fill" where
  "merged_fill known report =
     (let m = known\<lparr>fl_venue_order_id := or_string (fl_venue_order_id known) (fl_venue_order_id report),
                   fl_liquidity := (if fl_liquidity known \<noteq> LIQUIDITY_UNKNOWN
                                    then fl_liquidity known else fl_liquidity report)\<rparr>
      in if \<not> fees_differ known report
         then m\<lparr>fl_fee := or_else (fl_fee known) (fl_fee report),
                fl_fee_currency := or_string (fl_fee_currency known) (fl_fee_currency report)\<rparr>
         else m)"

definition fill_adds_detail :: "order_state \<Rightarrow> fill \<Rightarrow> bool" where
  "fill_adds_detail s f =
     (case find_by fl_id (fl_id f) (st_fills s) of
        None \<Rightarrow> False
      | Some known \<Rightarrow> same_execution known f \<and> merged_fill known f \<noteq> known)"

definition fill_contradicts :: "order_state \<Rightarrow> fill \<Rightarrow> bool" where
  "fill_contradicts s f =
     (case find_by fl_id (fl_id f) (st_fills s) of
        None \<Rightarrow> False
      | Some known \<Rightarrow> \<not> same_execution known f)"

definition fill_disputes :: "order_state \<Rightarrow> fill \<Rightarrow> bool" where
  "fill_disputes s f =
     (case find_by fl_id (fl_id f) (st_fills s) of
        None \<Rightarrow> False
      | Some known \<Rightarrow> \<not> same_execution known f \<or> fees_differ known f)"

text \<open>
  A report of a fill the order already has: the branch of \<open>_apply_fill\<close>'s loop that returns.
\<close>

definition apply_known_fill :: "order_state \<Rightarrow> fill \<Rightarrow> fill \<Rightarrow> order_state" where
  "apply_known_fill s known f =
     (if known = f then s
      else if same_execution known f then
        (let merged = s\<lparr>st_fills := replace_by fl_id (fl_id f) (merged_fill known f) (st_fills s)\<rparr>
         in if fees_differ known f
            then note_anomaly merged
                   (FeeDispute (fl_id f) (fl_fee known) (fl_fee_currency known)
                      (fl_fee f) (fl_fee_currency f))
            else merged)
      else note_anomaly s (FillDispute (fl_id f)))"

text \<open>A report of a new fill: the rest of \<open>_apply_fill\<close>.\<close>

definition note_if :: "bool \<Rightarrow> anomaly \<Rightarrow> order_state \<Rightarrow> order_state" where
  "note_if c a s = (if c then note_anomaly s a else s)"

definition apply_new_fill :: "order_state \<Rightarrow> fill \<Rightarrow> order_state" where
  "apply_new_fill s f =
     (let request = st_request s;
          u1 = s\<lparr>st_fills := st_fills s @ [f],
                 st_filled_quantity := st_filled_quantity s + fl_quantity f,
                 st_filled_notional := st_filled_notional s + fl_price f * fl_quantity f\<rparr>;
          u2 = note_if (symbol_str (fl_symbol f) \<noteq> symbol_str (req_symbol request) \<or>
                        fl_side f \<noteq> req_side request)
                 (FillMismatch (fl_id f) (fl_side f) (fl_symbol f) (req_side request)
                    (req_symbol request)) u1;
          ceiling = fill_ceiling u2;
          u3 = note_if (ceiling < st_filled_quantity u2)
                 (Overfill (st_filled_quantity u2) ceiling) u2;
          u4 = (if st_status s = PENDING_SUBMIT then note_anomaly u3 (FillBeforeSend (fl_id f))
                else note_if (st_status s \<in> {CANCELED, EXPIRED, REJECTED})
                       (FillAfterTerminal (fl_id f) (st_status s)) u3)
      in if ceiling \<le> st_filled_quantity u4 then u4\<lparr>st_status := FILLED\<rparr>
         else if st_status s \<in> {ACCEPTED, SUBMITTING} then u4\<lparr>st_status := PARTIALLY_FILLED\<rparr>
         else u4)"

definition apply_fill :: "order_state \<Rightarrow> fill \<Rightarrow> order_state" where
  "apply_fill s f =
     (if fl_id f \<in> st_busted s then note_anomaly s (FillAfterBust (fl_id f))
      else case find_by fl_id (fl_id f) (st_fills s) of
             Some known \<Rightarrow> apply_known_fill s known f
           | None \<Rightarrow> apply_new_fill s f)"

definition apply_bust :: "order_state \<Rightarrow> string \<Rightarrow> order_state" where
  "apply_bust s fid =
     (if fid \<in> st_busted s then s
      else let busted = insert fid (st_busted s) in
        case find_by fl_id fid (st_fills s) of
          None \<Rightarrow> note_anomaly (s\<lparr>st_busted := busted\<rparr>) (BustUnknown fid)
        | Some t \<Rightarrow>
            (let u = s\<lparr>st_busted := busted,
                       st_fills := filter (\<lambda>f. fl_id f \<noteq> fid) (st_fills s),
                       st_filled_quantity := st_filled_quantity s - fl_quantity t,
                       st_filled_notional := st_filled_notional s - fl_price t * fl_quantity t\<rparr>
             in if st_status s = FILLED then u\<lparr>st_status := UNKNOWN\<rparr>
                else if st_status s = PARTIALLY_FILLED \<and> st_filled_quantity u = 0
                then u\<lparr>st_status := ACCEPTED\<rparr> else u))"

section \<open>Transitions and events\<close>

definition apply_restated :: "order_state \<Rightarrow> order_status \<Rightarrow> string option \<Rightarrow> order_state" where
  "apply_restated s status v =
     (let u = note_if (is_terminal s \<and> st_status s \<noteq> status)
                (RestatedTerminal (st_status s) status) s
      in u\<lparr>st_status := status, st_venue_order_id := or_string v (st_venue_order_id s)\<rparr>)"

definition has_pending_terms :: "order_state \<Rightarrow> bool" where
  "has_pending_terms s = (st_pending_quantity s \<noteq> None \<or> st_pending_limit_price s \<noteq> None)"

definition transition :: "order_state \<Rightarrow> event_kind \<Rightarrow> order_state" where
  "transition s k =
     (case map_of (transitions k) (st_status s) of
        None \<Rightarrow> note_anomaly s (IllegalTransition k (st_status s))
      | Some RESUMED \<Rightarrow>
          (if has_pending_terms s then s\<lparr>st_status := PENDING_REPLACE\<rparr>
           else s\<lparr>st_status := working_status s\<rparr>)
      | Some WORKING \<Rightarrow> s\<lparr>st_status := working_status s\<rparr>
      | Some (To t) \<Rightarrow> s\<lparr>st_status := t\<rparr>)"

definition clear_pending :: "order_state \<Rightarrow> order_state" where
  "clear_pending s = s\<lparr>st_pending_quantity := None, st_pending_limit_price := None\<rparr>"

definition note_exposed_overfill :: "order_state \<Rightarrow> order_state \<Rightarrow> order_state" where
  "note_exposed_overfill old after =
     (if fill_ceiling old < st_filled_quantity old then after
      else if st_filled_quantity after \<le> st_quantity after then after
      else note_anomaly after (Overfill (st_filled_quantity after) (st_quantity after)))"

definition apply_replaced ::
    "order_state \<Rightarrow> order_state \<Rightarrow> rat option \<Rightarrow> rat option \<Rightarrow> string option \<Rightarrow> order_state" where
  "apply_replaced s next_state q p v =
     (if map_of (transitions K_replaced) (st_status s) = None then next_state
      else
        let quantity = (case or_number q (or_number (st_pending_quantity s) (Some (st_quantity s))) of
                          Some x \<Rightarrow> x | None \<Rightarrow> st_quantity s);
            limit_price = or_else p (or_else (st_pending_limit_price s) (st_limit_price s));
            u = next_state\<lparr>st_quantity := quantity, st_limit_price := limit_price,
                   st_pending_quantity := None, st_pending_limit_price := None,
                   st_venue_order_id := or_string v (st_venue_order_id s)\<rparr>;
            u' = note_exposed_overfill s u
        in if st_status next_state \<in> set WORKING_STATUSES \<or> st_status next_state = FILLED
           then u'\<lparr>st_status := working_status u'\<rparr> else u')"

definition apply_body :: "order_state \<Rightarrow> event_body \<Rightarrow> order_state" where
  "apply_body s b =
     (case b of
        SubmitIntent r \<Rightarrow> note_anomaly s DuplicateIntent
      | Filled f \<Rightarrow> apply_fill s f
      | FillBusted fid _ \<Rightarrow> apply_bust s fid
      | Restated st v _ _ \<Rightarrow> apply_restated s st v
      | Acknowledged v \<Rightarrow> (transition s K_ack)\<lparr>st_venue_order_id := Some v\<rparr>
      | Rejected reason code \<Rightarrow>
          (transition s K_reject)\<lparr>st_reject_reason := Some reason, st_reject_code := code\<rparr>
      | SendStarted rid \<Rightarrow> (transition s K_send_started)\<lparr>st_send_record_id := rid\<rparr>
      | ReplaceRequested q p \<Rightarrow>
          (if map_of (transitions K_replace_requested) (st_status s) = None
           then transition s K_replace_requested
           else (transition s K_replace_requested)
                  \<lparr>st_pending_quantity := q, st_pending_limit_price := p\<rparr>)
      | Replaced q p v \<Rightarrow> apply_replaced s (transition s K_replaced) q p v
      | ReplaceRejected _ _ \<Rightarrow>
          note_exposed_overfill s (clear_pending (transition s K_replace_rejected))
      | CancelRejected reason code \<Rightarrow>
          (transition s K_cancel_rejected)\<lparr>st_reject_reason := Some reason, st_reject_code := code\<rparr>
      | OutcomeUnknown _ \<Rightarrow> transition s K_outcome_unknown
      | CancelRequested \<Rightarrow> transition s K_cancel_requested
      | Canceled _ \<Rightarrow> transition s K_canceled
      | Expired \<Rightarrow> transition s K_expired)"

text \<open>\<open>_apply\<close>: an event for another order raises \<open>OrderStateError\<close>.\<close>

definition apply_inner :: "order_state \<Rightarrow> order_event \<Rightarrow> order_state result" where
  "apply_inner s e =
     (if ev_cid e \<noteq> state_cid s then Inl OrderStateError else Inr (apply_body s (ev_body e)))"

definition apply_event :: "order_state \<Rightarrow> order_event \<Rightarrow> order_state result" where
  "apply_event s e =
     bind_result (apply_inner s e) (\<lambda>u.
       if st_status u \<in> set PENDING_STATUSES \<or> st_status u = UNKNOWN \<or> \<not> has_pending_terms u
       then Inr u else Inr (clear_pending u))"

text \<open>\<open>replay\<close>: the orders are a dictionary from client order id to state.\<close>

type_synonym orders = "string \<rightharpoonup> order_state"

definition replay_step :: "orders \<Rightarrow> order_event \<Rightarrow> orders result" where
  "replay_step m e =
     (case m (ev_cid e) of
        Some s \<Rightarrow> bind_result (apply_event s e) (\<lambda>s'. Inr (m(ev_cid e \<mapsto> s')))
      | None \<Rightarrow> (case ev_body e of
                  SubmitIntent r \<Rightarrow> Inr (m(ev_cid e \<mapsto> new_order r))
                | _ \<Rightarrow> Inl OrderStateError))"

fun replay_from :: "orders \<Rightarrow> order_event list \<Rightarrow> orders result" where
  "replay_from m [] = Inr m"
| "replay_from m (e # es) = bind_result (replay_step m e) (\<lambda>m'. replay_from m' es)"

definition replay :: "order_event list \<Rightarrow> orders result" where
  "replay es = replay_from Map.empty es"

section \<open>What one event can do to each field\<close>

lemmas state_defs =
  note_anomaly_def note_if_def clear_pending_def has_pending_terms_def note_exposed_overfill_def

lemma note_anomaly_fields [simp]:
  "st_request (note_anomaly s a) = st_request s" "st_status (note_anomaly s a) = st_status s"
  "st_quantity (note_anomaly s a) = st_quantity s" "st_fills (note_anomaly s a) = st_fills s"
  "st_filled_quantity (note_anomaly s a) = st_filled_quantity s"
  "st_filled_notional (note_anomaly s a) = st_filled_notional s"
  "st_busted (note_anomaly s a) = st_busted s"
  "st_pending_quantity (note_anomaly s a) = st_pending_quantity s"
  "st_pending_limit_price (note_anomaly s a) = st_pending_limit_price s"
  "st_anomalies (note_anomaly s a) = st_anomalies s @ [a]"
  "fill_ceiling (note_anomaly s a) = fill_ceiling s"
  by (simp_all add: note_anomaly_def fill_ceiling_def split: option.split)

lemma note_if_fields [simp]:
  "st_request (note_if c a s) = st_request s" "st_status (note_if c a s) = st_status s"
  "st_quantity (note_if c a s) = st_quantity s" "st_fills (note_if c a s) = st_fills s"
  "st_filled_quantity (note_if c a s) = st_filled_quantity s"
  "st_filled_notional (note_if c a s) = st_filled_notional s"
  "st_busted (note_if c a s) = st_busted s"
  "st_pending_quantity (note_if c a s) = st_pending_quantity s"
  "st_pending_limit_price (note_if c a s) = st_pending_limit_price s"
  "fill_ceiling (note_if c a s) = fill_ceiling s"
  by (simp_all add: note_if_def)

lemma transition_fields [simp]:
  "st_request (transition s k) = st_request s" "st_fills (transition s k) = st_fills s"
  "st_quantity (transition s k) = st_quantity s" "st_busted (transition s k) = st_busted s"
  "st_filled_quantity (transition s k) = st_filled_quantity s"
  "st_filled_notional (transition s k) = st_filled_notional s"
  "st_pending_quantity (transition s k) = st_pending_quantity s"
  "st_pending_limit_price (transition s k) = st_pending_limit_price s"
  by (auto simp: transition_def split: option.splits target.splits)

lemma note_exposed_fields [simp]:
  "st_request (note_exposed_overfill b a) = st_request a"
  "st_status (note_exposed_overfill b a) = st_status a"
  "st_fills (note_exposed_overfill b a) = st_fills a"
  "st_quantity (note_exposed_overfill b a) = st_quantity a"
  "st_busted (note_exposed_overfill b a) = st_busted a"
  "st_filled_quantity (note_exposed_overfill b a) = st_filled_quantity a"
  "st_filled_notional (note_exposed_overfill b a) = st_filled_notional a"
  "st_pending_quantity (note_exposed_overfill b a) = st_pending_quantity a"
  "st_pending_limit_price (note_exposed_overfill b a) = st_pending_limit_price a"
  by (simp_all add: note_exposed_overfill_def)

lemma clear_pending_fields [simp]:
  "st_request (clear_pending s) = st_request s" "st_status (clear_pending s) = st_status s"
  "st_quantity (clear_pending s) = st_quantity s" "st_fills (clear_pending s) = st_fills s"
  "st_filled_quantity (clear_pending s) = st_filled_quantity s"
  "st_filled_notional (clear_pending s) = st_filled_notional s"
  "st_busted (clear_pending s) = st_busted s" "st_anomalies (clear_pending s) = st_anomalies s"
  "st_pending_quantity (clear_pending s) = None" "st_pending_limit_price (clear_pending s) = None"
  by (simp_all add: clear_pending_def)

lemma apply_replaced_fields [simp]:
  "st_request (apply_replaced s n q p v) = st_request n"
  "st_fills (apply_replaced s n q p v) = st_fills n"
  "st_busted (apply_replaced s n q p v) = st_busted n"
  "st_filled_quantity (apply_replaced s n q p v) = st_filled_quantity n"
  "st_filled_notional (apply_replaced s n q p v) = st_filled_notional n"
  by (simp_all add: apply_replaced_def Let_def)

lemma apply_new_fill_fields [simp]:
  "st_request (apply_new_fill s f) = st_request s" "st_fills (apply_new_fill s f) = st_fills s @ [f]"
  "st_busted (apply_new_fill s f) = st_busted s" "st_quantity (apply_new_fill s f) = st_quantity s"
  "st_filled_quantity (apply_new_fill s f) = st_filled_quantity s + fl_quantity f"
  "st_filled_notional (apply_new_fill s f) = st_filled_notional s + fl_price f * fl_quantity f"
  "st_pending_quantity (apply_new_fill s f) = st_pending_quantity s"
  "st_pending_limit_price (apply_new_fill s f) = st_pending_limit_price s"
  by (simp_all add: apply_new_fill_def Let_def)

lemma apply_known_fill_fields [simp]:
  "st_request (apply_known_fill s k f) = st_request s" "st_status (apply_known_fill s k f) = st_status s"
  "st_busted (apply_known_fill s k f) = st_busted s" "st_quantity (apply_known_fill s k f) = st_quantity s"
  "st_filled_quantity (apply_known_fill s k f) = st_filled_quantity s"
  "st_filled_notional (apply_known_fill s k f) = st_filled_notional s"
  "st_pending_quantity (apply_known_fill s k f) = st_pending_quantity s"
  "st_pending_limit_price (apply_known_fill s k f) = st_pending_limit_price s"
  by (simp_all add: apply_known_fill_def Let_def)

lemma apply_bust_fields [simp]:
  "st_request (apply_bust s i) = st_request s" "st_quantity (apply_bust s i) = st_quantity s"
  "st_busted (apply_bust s i) = insert i (st_busted s)"
  "st_pending_quantity (apply_bust s i) = st_pending_quantity s"
  "st_pending_limit_price (apply_bust s i) = st_pending_limit_price s"
  by (auto simp: apply_bust_def Let_def split: option.splits)

lemma apply_restated_fields [simp]:
  "st_request (apply_restated s t v) = st_request s" "st_fills (apply_restated s t v) = st_fills s"
  "st_busted (apply_restated s t v) = st_busted s" "st_quantity (apply_restated s t v) = st_quantity s"
  "st_status (apply_restated s t v) = t"
  "st_filled_quantity (apply_restated s t v) = st_filled_quantity s"
  "st_filled_notional (apply_restated s t v) = st_filled_notional s"
  "st_pending_quantity (apply_restated s t v) = st_pending_quantity s"
  "st_pending_limit_price (apply_restated s t v) = st_pending_limit_price s"
  by (simp_all add: apply_restated_def Let_def)

lemma merged_fill_fields [simp]:
  "fl_id (merged_fill k f) = fl_id k" "fl_cid (merged_fill k f) = fl_cid k"
  "fl_symbol (merged_fill k f) = fl_symbol k" "fl_side (merged_fill k f) = fl_side k"
  "fl_price (merged_fill k f) = fl_price k" "fl_quantity (merged_fill k f) = fl_quantity k"
  "fl_ts (merged_fill k f) = fl_ts k"
  by (simp_all add: merged_fill_def Let_def)

lemma request_apply_body [simp]: "st_request (apply_body s b) = st_request s"
  by (cases b) (simp_all add: apply_body_def apply_fill_def split: option.splits)

text \<open>The outcome of \<open>apply_event\<close> in one equation, which the invariants below work from.\<close>

definition settle :: "order_state \<Rightarrow> order_state" where
  "settle u = (if st_status u \<in> {PENDING_CANCEL, PENDING_REPLACE, UNKNOWN} then u else clear_pending u)"

lemma clear_pending_id: "\<not> has_pending_terms u \<Longrightarrow> clear_pending u = u"
  by (simp add: clear_pending_def has_pending_terms_def)

lemma apply_event_settle:
  "apply_event s e =
     (if ev_cid e = state_cid s then Inr (settle (apply_body s (ev_body e))) else Inl OrderStateError)"
  by (auto simp: apply_event_def apply_inner_def settle_def PENDING_STATUSES_def clear_pending_id)

lemma settle_fields [simp]:
  "st_request (settle s) = st_request s" "st_status (settle s) = st_status s"
  "st_quantity (settle s) = st_quantity s" "st_fills (settle s) = st_fills s"
  "st_filled_quantity (settle s) = st_filled_quantity s"
  "st_filled_notional (settle s) = st_filled_notional s"
  "st_busted (settle s) = st_busted s" "st_anomalies (settle s) = st_anomalies s"
  by (simp_all add: settle_def)

lemma apply_event_cid: "apply_event s e = Inr s' \<Longrightarrow> state_cid s' = state_cid s"
  by (auto simp: apply_event_settle state_cid_def split: if_splits)

section \<open>The money of an order\<close>

text \<open>
  The invariant of an order: what it says was filled is exactly what its fills say, each execution
  is counted once, a busted one never, and requested terms are kept only while the outcome of the
  request is open.
\<close>

definition order_wf :: "order_state \<Rightarrow> bool" where
  "order_wf s \<longleftrightarrow>
     distinct (map fl_id (st_fills s)) \<and>
     st_filled_quantity s = sum_by fl_quantity (st_fills s) \<and>
     st_filled_notional s = sum_by (\<lambda>f. fl_price f * fl_quantity f) (st_fills s) \<and>
     fl_id ` set (st_fills s) \<inter> st_busted s = {} \<and>
     (\<forall>f \<in> set (st_fills s). 0 < fl_quantity f) \<and>
     0 < st_quantity s \<and> positive_or_none (st_pending_quantity s) \<and>
     (has_pending_terms s \<longrightarrow> st_status s \<in> {PENDING_CANCEL, PENDING_REPLACE, UNKNOWN})"

definition money_wf :: "order_state \<Rightarrow> bool" where
  "money_wf s \<longleftrightarrow>
     distinct (map fl_id (st_fills s)) \<and>
     st_filled_quantity s = sum_by fl_quantity (st_fills s) \<and>
     st_filled_notional s = sum_by (\<lambda>f. fl_price f * fl_quantity f) (st_fills s) \<and>
     fl_id ` set (st_fills s) \<inter> st_busted s = {} \<and>
     (\<forall>f \<in> set (st_fills s). 0 < fl_quantity f)"

lemma order_wf_money:
  "order_wf s \<longleftrightarrow> money_wf s \<and> 0 < st_quantity s \<and> positive_or_none (st_pending_quantity s) \<and>
     (has_pending_terms s \<longrightarrow> st_status s \<in> {PENDING_CANCEL, PENDING_REPLACE, UNKNOWN})"
  by (auto simp: order_wf_def money_wf_def)

lemma money_wf_cong:
  "st_fills t = st_fills s \<Longrightarrow> st_filled_quantity t = st_filled_quantity s \<Longrightarrow>
   st_filled_notional t = st_filled_notional s \<Longrightarrow> st_busted t = st_busted s \<Longrightarrow>
   money_wf t = money_wf s"
  by (simp add: money_wf_def)

lemma new_order_wf: "0 < req_quantity r \<Longrightarrow> order_wf (new_order r)"
  by (simp add: order_wf_def new_order_def positive_or_none_def has_pending_terms_def)

lemma apply_known_fill_money:
  assumes "money_wf s" and k: "find_by fl_id (fl_id f) (st_fills s) = Some k"
  shows "money_wf (apply_known_fill s k f)"
proof -
  let ?fs = "replace_by fl_id (fl_id f) (merged_fill k f) (st_fills s)"
  have kid: "k \<in> set (st_fills s)" "fl_id k = fl_id f" using find_by_SomeD [OF k] by auto
  have "map fl_id ?fs = map fl_id (st_fills s)" using kid by (intro map_replace_by) simp
  then have ids: "map fl_id ?fs = map fl_id (st_fills s)" "fl_id ` set ?fs = fl_id ` set (st_fills s)"
    by (metis, metis list.set_map)
  have sums: "sum_by fl_quantity ?fs = sum_by fl_quantity (st_fills s)"
    "sum_by (\<lambda>g. fl_price g * fl_quantity g) ?fs = sum_by (\<lambda>g. fl_price g * fl_quantity g) (st_fills s)"
    using k by (simp_all add: sum_by_replace_by)
  have pos: "0 < fl_quantity g" if "g \<in> set ?fs" for g
    using that set_replace_by [of fl_id "fl_id f" "merged_fill k f" "st_fills s"] assms(1) kid
    by (auto simp: money_wf_def)
  show ?thesis
    unfolding money_wf_def apply_known_fill_def Let_def
    using assms(1) ids sums pos by (auto simp: money_wf_def)
qed

lemma apply_new_fill_money:
  "money_wf s \<Longrightarrow> find_by fl_id (fl_id f) (st_fills s) = None \<Longrightarrow> fl_id f \<notin> st_busted s \<Longrightarrow>
   0 < fl_quantity f \<Longrightarrow> money_wf (apply_new_fill s f)"
  by (auto simp: money_wf_def find_by_None_iff)

lemma apply_fill_money: "money_wf s \<Longrightarrow> 0 < fl_quantity f \<Longrightarrow> money_wf (apply_fill s f)"
  using apply_known_fill_money apply_new_fill_money
  by (auto simp: apply_fill_def money_wf_cong [of "note_anomaly s a" for a] split: option.splits)

lemma apply_bust_fills:
  "i \<notin> st_busted s \<Longrightarrow> st_fills (apply_bust s i) = filter (\<lambda>f. fl_id f \<noteq> i) (st_fills s)"
  by (auto simp: apply_bust_def Let_def find_by_None_iff split: option.splits)

lemma apply_bust_money:
  assumes "money_wf s"
  shows "money_wf (apply_bust s i)"
proof (cases "i \<in> st_busted s")
  case True
  with assms show ?thesis by (simp add: apply_bust_def)
next
  case False
  let ?fs = "filter (\<lambda>f. fl_id f \<noteq> i) (st_fills s)"
  have "st_filled_quantity (apply_bust s i) = sum_by fl_quantity ?fs \<and>
        st_filled_notional (apply_bust s i) = sum_by (\<lambda>f. fl_price f * fl_quantity f) ?fs"
  proof (cases "find_by fl_id i (st_fills s)")
    case None
    then have "?fs = st_fills s" by (simp add: find_by_None_iff)
    with None False assms show ?thesis by (simp add: apply_bust_def money_wf_def)
  next
    case (Some t)
    have d: "distinct (map fl_id (st_fills s))" using assms by (simp add: money_wf_def)
    show ?thesis
      using False Some assms sum_by_remove_key [OF d Some]
      by (simp add: apply_bust_def Let_def money_wf_def)
  qed
  with False assms show ?thesis
    by (auto simp: money_wf_def apply_bust_fills distinct_map_filter)
qed

lemma apply_body_money: "money_wf s \<Longrightarrow> valid_body b \<Longrightarrow> money_wf (apply_body s b)"
  by (cases b)
    (simp_all add: apply_body_def apply_fill_money apply_bust_money valid_fill_def,
     simp_all add: money_wf_def)

lemma apply_body_terms:
  assumes "0 < st_quantity s" and "positive_or_none (st_pending_quantity s)" and "valid_body b"
  shows "0 < st_quantity (apply_body s b) \<and> positive_or_none (st_pending_quantity (apply_body s b))"
  using assms
  by (cases b)
    (auto simp: apply_body_def apply_fill_def apply_replaced_def Let_def positive_or_none_def
        or_number_def split: option.splits)

lemma settle_wf:
  "money_wf u \<Longrightarrow> 0 < st_quantity u \<Longrightarrow> positive_or_none (st_pending_quantity u) \<Longrightarrow>
   order_wf (settle u)"
  by (auto simp: order_wf_money settle_def positive_or_none_def has_pending_terms_def
      money_wf_cong [of "clear_pending u" u])

lemma apply_event_wf:
  assumes w: "order_wf s" and e: "valid_event e" and r: "apply_event s e = Inr s'"
  shows "order_wf s'"
proof -
  let ?u = "apply_body s (ev_body e)"
  have m: "money_wf s" "0 < st_quantity s" "positive_or_none (st_pending_quantity s)"
    using w by (simp_all add: order_wf_money)
  have b: "valid_body (ev_body e)" using e by (simp add: valid_event_def)
  have "order_wf (settle ?u)"
    using apply_body_money [OF m(1) b] apply_body_terms [OF m(2,3) b] by (intro settle_wf) auto
  with r show ?thesis by (simp add: apply_event_settle split: if_splits)
qed

section \<open>The executions of an order, as an abstract ledger\<close>

text \<open>
  What the reducer promises about money does not mention status: an execution is counted when it is
  first reported, never twice, and never once it is busted. The abstract ledger says just that, and
  the reducer refines it whatever the status of the order.
\<close>

type_synonym ledger = "(string \<rightharpoonup> symbol \<times> order_side \<times> rat \<times> rat) \<times> string set"

definition exec_terms :: "fill \<Rightarrow> symbol \<times> order_side \<times> rat \<times> rat" where
  "exec_terms f = (fl_symbol f, fl_side f, fl_price f, fl_quantity f)"

definition ledger_of :: "order_state \<Rightarrow> ledger" where
  "ledger_of s = (\<lambda>i. map_option exec_terms (find_by fl_id i (st_fills s)), st_busted s)"

definition ledger_step :: "ledger \<Rightarrow> event_body \<Rightarrow> ledger" where
  "ledger_step L b = (case L of (execs, busted) \<Rightarrow> (case b of
       Filled f \<Rightarrow> if fl_id f \<in> busted \<or> execs (fl_id f) \<noteq> None then L
                   else (execs(fl_id f \<mapsto> exec_terms f), busted)
     | FillBusted i _ \<Rightarrow> (execs(i := None), insert i busted)
     | _ \<Rightarrow> L))"

lemma find_by_filter_key:
  "find_by key j (filter (\<lambda>x. key x \<noteq> k) xs) = (if j = k then None else find_by key j xs)"
  by (induction xs) auto

lemma ledger_apply_fill: "ledger_of (apply_fill s f) = ledger_step (ledger_of s) (Filled f)"
proof (cases "find_by fl_id (fl_id f) (st_fills s)")
  case None
  then show ?thesis
    by (auto simp: apply_fill_def ledger_of_def ledger_step_def find_by_append fun_eq_iff
        split: option.splits)
next
  case (Some k)
  then have "fl_id k = fl_id f" by (auto dest: find_by_SomeD)
  moreover have "exec_terms (merged_fill k f) = exec_terms k" by (simp add: exec_terms_def)
  ultimately have "map_option exec_terms (find_by fl_id i
      (replace_by fl_id (fl_id f) (merged_fill k f) (st_fills s))) =
      map_option exec_terms (find_by fl_id i (st_fills s))" for i
    using Some by (cases "i = fl_id f") (simp_all add: find_by_replace_by find_by_replace_by_other)
  moreover obtain a b c d where "exec_terms k = (a, b, c, d)"
    by (cases "exec_terms k") blast
  ultimately show ?thesis
    using Some by (auto simp: apply_fill_def apply_known_fill_def Let_def ledger_of_def ledger_step_def)
qed

lemma ledger_apply_bust:
  assumes "money_wf s"
  shows "ledger_of (apply_bust s i) = ledger_step (ledger_of s) (FillBusted i why)"
proof (cases "i \<in> st_busted s")
  case True
  then have "find_by fl_id i (st_fills s) = None"
    using assms by (auto simp: money_wf_def find_by_None_iff)
  with True show ?thesis
    by (auto simp: apply_bust_def ledger_of_def ledger_step_def fun_eq_iff)
next
  case False
  then show ?thesis
    by (auto simp: ledger_of_def ledger_step_def apply_bust_fills find_by_filter_key fun_eq_iff)
qed

lemma ledger_apply_body:
  assumes "money_wf s"
  shows "ledger_of (apply_body s b) = ledger_step (ledger_of s) b"
proof (cases b)
  case (Filled f)
  then show ?thesis by (simp add: apply_body_def ledger_apply_fill)
next
  case (FillBusted i why)
  then show ?thesis using assms by (simp add: apply_body_def ledger_apply_bust [of s i why])
qed (simp_all add: apply_body_def ledger_of_def ledger_step_def)

lemma ledger_settle [simp]: "ledger_of (settle u) = ledger_of u"
  by (simp add: ledger_of_def)

lemma ledger_new_order: "ledger_of (new_order r) = (Map.empty, {})"
  by (simp add: ledger_of_def new_order_def)

section \<open>Replaying a history\<close>

definition events_of :: "string \<Rightarrow> order_event list \<Rightarrow> order_event list" where
  "events_of c es = filter (\<lambda>e. ev_cid e = c) es"

lemma events_of_simps [simp]:
  "events_of c [] = []"
  "events_of c (e # es) = (if ev_cid e = c then e # events_of c es else events_of c es)"
  "events_of c (es @ fs) = events_of c es @ events_of c fs"
  by (simp_all add: events_of_def)

lemma replay_step_other: "replay_step m e = Inr m' \<Longrightarrow> ev_cid e \<noteq> c \<Longrightarrow> m' c = m c"
  by (auto simp: replay_step_def bind_result_eq_Inr split: option.splits event_body.splits)

lemma replay_step_cases:
  assumes "replay_step m e = Inr m'"
  obtains (existing) s s' where "m (ev_cid e) = Some s" "apply_event s e = Inr s'"
      "m' = m(ev_cid e \<mapsto> s')"
  | (created) r where "m (ev_cid e) = None" "ev_body e = SubmitIntent r"
      "m' = m(ev_cid e \<mapsto> new_order r)"
  using assms by (auto simp: replay_step_def bind_result_eq_Inr split: option.splits event_body.splits)

lemma replay_from_append:
  "replay_from m (es @ fs) = bind_result (replay_from m es) (\<lambda>m'. replay_from m' fs)"
proof (induction es arbitrary: m)
  case Nil
  then show ?case by simp
next
  case (Cons e es)
  then show ?case by (cases "replay_step m e") simp_all
qed

lemma replay_from_invariant:
  assumes "replay_from m es = Inr m'" and "\<And>c s. m c = Some s \<Longrightarrow> P s"
    and "\<And>e. e \<in> set es \<Longrightarrow> valid_event e"
    and new: "\<And>r. valid_order_request r \<Longrightarrow> P (new_order r)"
    and step: "\<And>s e s'. P s \<Longrightarrow> valid_event e \<Longrightarrow> apply_event s e = Inr s' \<Longrightarrow> P s'"
  shows "m' c = Some s \<Longrightarrow> P s"
  using assms(1,2,3)
proof (induction es arbitrary: m)
  case Nil
  then show ?case by simp
next
  case (Cons e es)
  then obtain m1 where m1: "replay_step m e = Inr m1" and r: "replay_from m1 es = Inr m'"
    by (auto simp: bind_result_eq_Inr)
  have e: "valid_event e" using Cons.prems by simp
  have "P t" if "m1 d = Some t" for d t
    using m1
  proof (cases rule: replay_step_cases)
    case (existing s s')
    then have "P s'" using Cons.prems(3) step e by blast
    with existing that Cons.prems(3) show ?thesis by (auto split: if_splits)
  next
    case (created req)
    moreover have "valid_order_request req" using e created by (simp add: valid_event_def)
    ultimately show ?thesis using that Cons.prems(3) new by (auto split: if_splits)
  qed
  with Cons r show ?case by simp
qed

lemma replay_money_wf:
  assumes "replay es = Inr m" and "\<And>e. e \<in> set es \<Longrightarrow> valid_event e" and "m c = Some s"
  shows "order_wf s"
proof (rule replay_from_invariant [where P = order_wf])
  show "replay_from Map.empty es = Inr m" using assms(1) by (simp add: replay_def)
  show "order_wf (new_order r)" if "valid_order_request r" for r
    using that by (simp add: new_order_wf valid_order_request_def)
  show "order_wf s'" if "order_wf s" "valid_event e" "apply_event s e = Inr s'" for s e s'
    using that by (rule apply_event_wf)
qed (use assms in auto)

text \<open>An order's state depends only on its own events: the others can be left out of the history.\<close>

lemma replay_from_project:
  assumes "replay_from m es = Inr M" and "m' c = m c"
  shows "\<exists>M'. replay_from m' (events_of c es) = Inr M' \<and> M' c = M c"
  using assms
proof (induction es arbitrary: m m')
  case Nil
  then show ?case by simp
next
  case (Cons e es)
  then obtain m1 where m1: "replay_step m e = Inr m1" and r: "replay_from m1 es = Inr M"
    by (auto simp: bind_result_eq_Inr)
  show ?case
  proof (cases "ev_cid e = c")
    case False
    then have "m1 c = m c" using m1 replay_step_other by metis
    with False Cons r show ?thesis by simp
  next
    case True
    have "\<exists>m1'. replay_step m' e = Inr m1' \<and> m1' c = m1 c"
      using m1 by (cases rule: replay_step_cases) (auto simp: replay_step_def True Cons.prems(2))
    with True Cons.IH r show ?thesis by auto
  qed
qed

lemma replay_ledger_from:
  assumes "replay_from m es = Inr M" and "M c = Some s"
    and "\<And>d t. m d = Some t \<Longrightarrow> order_wf t" and "\<And>e. e \<in> set es \<Longrightarrow> valid_event e"
  shows "ledger_of s =
    fold (\<lambda>e L. ledger_step L (ev_body e)) (events_of c es)
      (case m c of None \<Rightarrow> (Map.empty, {}) | Some t \<Rightarrow> ledger_of t)"
  using assms
proof (induction es arbitrary: m)
  case Nil
  then show ?case by simp
next
  case (Cons e es)
  then obtain m1 where m1: "replay_step m e = Inr m1" and r: "replay_from m1 es = Inr M"
    by (auto simp: bind_result_eq_Inr)
  have e: "valid_event e" using Cons.prems by simp
  let ?L = "\<lambda>m. case m c of None \<Rightarrow> (Map.empty, {}) | Some t \<Rightarrow> ledger_of t"
  have wf: "order_wf t" if "m1 d = Some t" for d t
    using m1
  proof (cases rule: replay_step_cases)
    case (existing s s')
    then have "order_wf s'" using Cons.prems(3) apply_event_wf e by blast
    with existing that Cons.prems(3) show ?thesis by (auto split: if_splits)
  next
    case (created req)
    then have "0 < req_quantity req" using e by (simp add: valid_event_def valid_order_request_def)
    with created that Cons.prems(3) new_order_wf show ?thesis by (auto split: if_splits)
  qed
  have "?L m1 = (if ev_cid e = c then ledger_step (?L m) (ev_body e) else ?L m)"
    using m1
  proof (cases rule: replay_step_cases)
    case (existing s s')
    then have "money_wf s" using Cons.prems(3) by (auto simp: order_wf_money)
    then have "ledger_of s' = ledger_step (ledger_of s) (ev_body e)"
      using existing by (auto simp: apply_event_settle ledger_apply_body split: if_splits)
    with existing show ?thesis by auto
  next
    case (created req)
    then show ?thesis by (auto simp: ledger_new_order ledger_step_def)
  qed
  moreover have "ledger_of s = fold (\<lambda>e L. ledger_step L (ev_body e)) (events_of c es) (?L m1)"
    using Cons.prems(2,4) r wf by (intro Cons.IH) auto
  ultimately show ?case by simp
qed

section \<open>Statuses\<close>

lemma transitions_terminal:
  "is_terminal_status st \<Longrightarrow> map_of (transitions k) st = None \<or> map_of (transitions k) st = Some (To st)"
  by (cases st; cases k) (simp_all add: ALL_LIVE_def WORKING_STATUSES_def PENDING_STATUSES_def)

lemma transition_terminal: "is_terminal s \<Longrightarrow> st_status (transition s k) = st_status s"
  using transitions_terminal [of "st_status s" k]
  by (auto simp: transition_def is_terminal_def)

text \<open>
  An order that has ended stays ended, whatever is reported about it: only the venue's own
  restatement of its status, or the bust of one of its executions, can open it again.
\<close>

lemma apply_fill_terminal: "is_terminal s \<Longrightarrow> is_terminal (apply_fill s f)"
  by (auto simp: apply_fill_def apply_new_fill_def Let_def is_terminal_def split: option.splits)

lemma terminal_absorbing:
  assumes "is_terminal s" and "apply_event s e = Inr s'"
    and "kind_of (ev_body e) \<notin> {K_restated, K_bust}"
  shows "is_terminal s' \<and> (kind_of (ev_body e) \<noteq> K_fill \<longrightarrow> st_status s' = st_status s)"
proof -
  have t: "st_status (transition s k) = st_status s" for k
    using assms(1) by (rule transition_terminal)
  have r: "st_status (apply_replaced s (transition s K_replaced) q p v) = st_status s" for q p v
  proof -
    have "map_of (transitions K_replaced) (st_status s) = None"
      using assms(1) by (cases "st_status s") (simp_all add: is_terminal_def)
    then show ?thesis by (simp add: apply_replaced_def t)
  qed
  have "is_terminal (apply_body s (ev_body e)) \<and>
    (kind_of (ev_body e) \<noteq> K_fill \<longrightarrow> st_status (apply_body s (ev_body e)) = st_status s)"
    using assms(1,3) apply_fill_terminal t r
    by (cases "ev_body e") (simp_all add: apply_body_def is_terminal_def)
  with assms(2) show ?thesis by (auto simp: apply_event_settle is_terminal_def split: if_splits)
qed

text \<open>The events that can end the certainty that the venue never saw an order.\<close>

lemma pending_submit_exit:
  assumes "st_status s = PENDING_SUBMIT" and "apply_event s e = Inr s'"
    and "st_status s' \<noteq> PENDING_SUBMIT"
  shows "kind_of (ev_body e) \<in> {K_send_started, K_reject, K_fill, K_restated}"
proof (rule ccontr)
  assume c: "\<not> ?thesis"
  have n: "map_of (transitions k) PENDING_SUBMIT = None" if "k \<notin> {K_send_started, K_reject}" for k
    using that by (cases k) (simp_all add: ALL_LIVE_def WORKING_STATUSES_def PENDING_STATUSES_def)
  have t: "st_status (transition s k) = PENDING_SUBMIT" if "k \<notin> {K_send_started, K_reject}" for k
    using n [OF that] assms(1) by (simp add: transition_def)
  have "st_status (apply_body s (ev_body e)) = PENDING_SUBMIT"
    using c assms(1) t n
    by (cases "ev_body e")
      (auto simp: apply_body_def apply_bust_def apply_replaced_def Let_def split: option.splits)
  with assms(2,3) show False by (auto simp: apply_event_settle split: if_splits)
qed

text \<open>Nothing the reducer is told is forgotten: the anomalies of an order only grow.\<close>

lemma note_if_anomalies: "\<exists>xs. st_anomalies (note_if c a s) = st_anomalies s @ xs"
  by (auto simp: note_if_def)

lemma transition_anomalies:
  "st_anomalies (transition s k) = st_anomalies s @
     (if map_of (transitions k) (st_status s) = None then [IllegalTransition k (st_status s)] else [])"
  by (auto simp: transition_def split: option.splits target.splits)

lemma note_exposed_anomalies: "\<exists>xs. st_anomalies (note_exposed_overfill b a) = st_anomalies a @ xs"
  by (auto simp: note_exposed_overfill_def)

lemma apply_fill_anomalies: "\<exists>xs. st_anomalies (apply_fill s f) = st_anomalies s @ xs"
  by (auto simp: apply_fill_def apply_known_fill_def apply_new_fill_def note_if_def Let_def
      split: option.splits)

lemma apply_replaced_anomalies:
  "\<exists>xs. st_anomalies (apply_replaced s n q p v) = st_anomalies n @ xs"
  by (auto simp: apply_replaced_def note_exposed_overfill_def Let_def)

lemma apply_body_anomalies: "\<exists>xs. st_anomalies (apply_body s b) = st_anomalies s @ xs"
proof (cases b)
  case (Replaced q p v)
  then show ?thesis
    using apply_replaced_anomalies [of s "transition s K_replaced" q p v]
    by (auto simp: apply_body_def transition_anomalies)
next
  case (ReplaceRejected r c)
  then show ?thesis
    using note_exposed_anomalies [of s "clear_pending (transition s K_replace_rejected)"]
    by (auto simp: apply_body_def transition_anomalies)
next
  case (Filled f)
  then show ?thesis by (simp add: apply_body_def apply_fill_anomalies)
qed (auto simp: apply_body_def transition_anomalies apply_bust_def apply_restated_def note_if_def
    Let_def split: option.splits)

section \<open>A report delivered twice\<close>

lemma merged_fill_idem: "merged_fill (merged_fill k f) f = merged_fill k f"
  by (cases "fl_fee k"; cases "fl_fee f"; cases "fl_fee_currency k"; cases "fl_fee_currency f")
    (auto simp: merged_fill_def fees_differ_def Let_def or_string_same or_string_def split: option.splits)

lemma same_execution_merged: "same_execution (merged_fill k f) f = same_execution k f"
  by (simp add: same_execution_def)

definition drop_anomalies :: "order_state \<Rightarrow> order_state" where
  "drop_anomalies s = s\<lparr>st_anomalies := []\<rparr>"

lemma apply_fill_twice:
  "drop_anomalies (apply_fill (apply_fill s f) f) = drop_anomalies (apply_fill s f)"
proof (cases "fl_id f \<in> st_busted s")
  case True
  then show ?thesis by (simp add: apply_fill_def drop_anomalies_def note_anomaly_def)
next
  case nb: False
  show ?thesis
  proof (cases "find_by fl_id (fl_id f) (st_fills s)")
    case None
    then have "find_by fl_id (fl_id f) (st_fills (apply_new_fill s f)) = Some f"
      by (simp add: find_by_append)
    with nb None show ?thesis by (simp add: apply_fill_def apply_known_fill_def)
  next
    case (Some k)
    let ?s = "apply_known_fill s k f"
    have one: "apply_fill s f = ?s" using nb Some by (simp add: apply_fill_def)
    have k: "fl_id k = fl_id f" using Some by (auto dest: find_by_SomeD)
    show ?thesis
    proof (cases "k \<noteq> f \<and> same_execution k f")
      case True
      let ?fs = "replace_by fl_id (fl_id f) (merged_fill k f) (st_fills s)"
      have fs: "st_fills ?s = ?fs" using True by (simp add: apply_known_fill_def Let_def)
      have look: "find_by fl_id (fl_id f) ?fs = Some (merged_fill k f)"
        using Some k by (intro find_by_replace_by) simp_all
      then have "replace_by fl_id (fl_id f) (merged_fill k f) ?fs = ?fs"
        by (rule replace_by_same)
      then have "drop_anomalies (apply_known_fill ?s (merged_fill k f) f) = drop_anomalies ?s"
        using True fs
        by (simp add: apply_known_fill_def [of ?s] Let_def merged_fill_idem same_execution_merged
            drop_anomalies_def note_anomaly_def)
      then show ?thesis
        using nb look fs by (simp add: one apply_fill_def [of ?s])
    next
      case False
      then have "st_fills ?s = st_fills s" "drop_anomalies (apply_known_fill ?s k f) = drop_anomalies ?s"
        by (auto simp: apply_known_fill_def drop_anomalies_def note_anomaly_def)
      with nb Some show ?thesis by (simp add: one apply_fill_def [of ?s])
    qed
  qed
qed

section \<open>What may still execute\<close>

lemma leaves_nonneg: "0 \<le> leaves_quantity s"
  by (simp add: leaves_quantity_def Let_def)

lemma leaves_covers:
  assumes "is_open s"
  shows "st_quantity s - st_filled_quantity s \<le> leaves_quantity s \<and>
    (\<forall>p. st_pending_quantity s = Some p \<longrightarrow> p - st_filled_quantity s \<le> leaves_quantity s)"
  using assms by (auto simp: leaves_quantity_def is_open_def Let_def split: option.splits)

section \<open>Properties\<close>

definition sample_request :: order_request where
  "sample_request =
     \<lparr>req_cid = ''A1'', req_symbol = sample_symbol, req_side = BUY, req_quantity = 10,
      req_type = LIMIT, req_tif = DAY, req_limit_price = Some 5, req_stop_price = None,
      req_expire_at = None, req_account = None, req_strategy = None, req_short_sale = NOT_SHORT,
      req_post_only = False, req_reduce_only = False\<rparr>"

definition sample_fill :: fill where
  "sample_fill =
     \<lparr>fl_id = ''f1'', fl_cid = ''A1'', fl_symbol = sample_symbol, fl_side = BUY, fl_price = 5,
      fl_quantity = 4, fl_ts = 0, fl_venue_order_id = None, fl_fee = None, fl_fee_currency = None,
      fl_liquidity = LIQUIDITY_UNKNOWN\<rparr>"

definition sample_event :: "event_body \<Rightarrow> order_event" where
  "sample_event b = \<lparr>ev_cid = ''A1'', ev_ts = 0, ev_origin = VENUE, ev_body = b\<rparr>"

definition sample_history :: "order_event list" where
  "sample_history = map sample_event
     [SubmitIntent sample_request, SendStarted None, Filled sample_fill, Acknowledged ''v1'']"

lemma sample_request_valid: "valid_order_request sample_request"
  by (simp add: sample_request_def valid_order_request_def valid_client_order_id_def
      client_order_id_char_def request_shape_def)

lemma sample_history_valid: "e \<in> set sample_history \<Longrightarrow> valid_event e"
  by (auto simp: sample_history_def sample_event_def valid_event_def valid_client_order_id_def
      client_order_id_char_def sample_request_valid sample_fill_def valid_fill_def)

lemmas sample_simps =
  sample_history_def sample_event_def sample_request_def sample_fill_def sample_symbol_def
  replay_def replay_step_def new_order_def apply_event_def apply_inner_def apply_body_def
  state_cid_def transition_def apply_fill_def apply_new_fill_def fill_ceiling_def
  working_status_def has_pending_terms_def PENDING_STATUSES_def

lemma sample_history_replays:
  "\<exists>m s. replay sample_history = Inr m \<and> m ''A1'' = Some s \<and> st_filled_quantity s = 4 \<and>
     st_status s = PARTIALLY_FILLED"
  by (simp add: sample_simps note_if_def)

text \<open>C16: Whatever history of valid events is replayed, every order is well formed: its filled
  quantity and notional are the exact sums over its fills, no fill is counted twice, none counted is
  busted, and requested terms are kept only while their outcome is open.\<close>

theorem replayed_orders_well_formed:
  assumes "replay es = Inr m" and "\<And>e. e \<in> set es \<Longrightarrow> valid_event e" and "m c = Some s"
  shows "order_wf s"
  using assms by (rule replay_money_wf)

lemma replayed_orders_well_formed_witness:
  "\<exists>m s. replay sample_history = Inr m \<and> m ''A1'' = Some s \<and> order_wf s"
  using sample_history_replays replayed_orders_well_formed sample_history_valid by blast

text \<open>C17: Refinement: whatever the statuses on the way, the executions an order holds after a replay
  are those of the abstract ledger, in which an execution counts when first reported, never twice and
  never once it is busted, and only the order's own events matter.\<close>

theorem reducer_refines_ledger:
  assumes "replay es = Inr M" and "M c = Some s" and "\<And>e. e \<in> set es \<Longrightarrow> valid_event e"
  shows "ledger_of s = fold (\<lambda>e L. ledger_step L (ev_body e)) (events_of c es) (Map.empty, {})"
  using replay_ledger_from [of Map.empty es M c s] assms by (simp add: replay_def)

lemma reducer_refines_ledger_witness:
  "\<exists>M s. replay sample_history = Inr M \<and> M ''A1'' = Some s \<and>
     ledger_of s = fold (\<lambda>e L. ledger_step L (ev_body e)) (events_of ''A1'' sample_history) (Map.empty, {})"
  using sample_history_replays reducer_refines_ledger sample_history_valid by blast

text \<open> A terminal order stays terminal under every event but a bust or a venue restatement, and
  only a fill can still change its status, to filled.\<close>

theorem terminal_orders_stay:
  assumes "is_terminal s" and "apply_event s e = Inr s'"
    and "kind_of (ev_body e) \<notin> {K_restated, K_bust}"
  shows "is_terminal s' \<and> (kind_of (ev_body e) \<noteq> K_fill \<longrightarrow> st_status s' = st_status s)"
  using assms by (rule terminal_absorbing)

lemma terminal_orders_stay_witness:
  "is_terminal ((new_order sample_request)\<lparr>st_status := CANCELED,
     st_anomalies := [IllegalTransition K_ack CANCELED], st_venue_order_id := Some ''v1''\<rparr>)"
  using terminal_orders_stay [of "(new_order sample_request)\<lparr>st_status := CANCELED\<rparr>"
      "sample_event (Acknowledged ''v1'')"
      "(new_order sample_request)\<lparr>st_status := CANCELED, st_anomalies := [IllegalTransition K_ack CANCELED],
       st_venue_order_id := Some ''v1''\<rparr>"]
  by (simp add: sample_simps is_terminal_def note_anomaly_def)

text \<open> While an order is open, \<open>leaves_quantity\<close> covers all that can still execute: what is left of
  its present quantity and what would be left under the quantity of a replace in flight.\<close>

theorem leaves_cover_exposure:
  assumes "is_open s"
  shows "0 \<le> leaves_quantity s \<and> st_quantity s - st_filled_quantity s \<le> leaves_quantity s \<and>
    (\<forall>p. st_pending_quantity s = Some p \<longrightarrow> p - st_filled_quantity s \<le> leaves_quantity s)"
  using leaves_covers [OF assms] leaves_nonneg by simp

lemma leaves_cover_exposure_witness:
  "0 \<le> leaves_quantity (new_order sample_request) \<and> 10 \<le> leaves_quantity (new_order sample_request)"
  using leaves_cover_exposure [of "new_order sample_request"]
  by (simp add: is_open_def is_terminal_def new_order_def sample_request_def)

text \<open> A fill delivered again, on any channel, changes nothing but the list of anomalies.\<close>

theorem repeated_fill_is_absorbed:
  "drop_anomalies (apply_fill (apply_fill s f) f) = drop_anomalies (apply_fill s f)"
  by (rule apply_fill_twice)

end
