(* ===== verification/Accounting.thy ===== *)
theory Accounting
  imports OrderState "HOL-Library.AList"
begin

text \<open>
  \<open>accounting/__init__.py\<close>: tax lots, realized and unrealized P\&L, fees, conversion and slippage.
  The mutable \<open>PositionLedger\<close> is a record passed through its operations. An operation that can
  raise after it has changed the ledger returns the ledger it leaves behind together with its
  result. The dictionary of fees is an association list, because \<open>value_books\<close> iterates over it.
\<close>

section \<open>The books of one instrument\<close>

datatype lot_method = FIFO | LIFO | AVERAGE

record lot =
  lot_quantity :: rat
  lot_price :: rat
  lot_opened_by :: string

record realized_trade =
  rt_quantity :: rat
  rt_open_price :: rat
  rt_close_price :: rat
  rt_pnl :: rat
  rt_opened_by :: string
  rt_closed_by :: string

record position_ledger =
  pl_method :: lot_method
  pl_multiplier :: rat
  pl_lots :: "lot list"
  pl_trades :: "realized_trade list"
  pl_fees :: "(string \<times> rat) list"
  pl_unknown_fees :: int
  pl_symbol :: "symbol option"
  pl_seen :: "string \<times> string \<rightharpoonup> fill"

definition empty_ledger :: "lot_method \<Rightarrow> rat \<Rightarrow> position_ledger" where
  "empty_ledger m k =
     \<lparr>pl_method = m, pl_multiplier = k, pl_lots = [], pl_trades = [], pl_fees = [],
      pl_unknown_fees = 0, pl_symbol = None, pl_seen = Map.empty\<rparr>"

definition net_quantity :: "position_ledger \<Rightarrow> rat" where
  "net_quantity L = foldl (\<lambda>acc l. acc + lot_quantity l) 0 (pl_lots L)"

definition realized_pnl :: "position_ledger \<Rightarrow> rat" where
  "realized_pnl L = foldl (\<lambda>acc t. acc + rt_pnl t) 0 (pl_trades L)"

definition cost_basis :: "position_ledger \<Rightarrow> rat" where
  "cost_basis L = foldl (\<lambda>acc l. acc + lot_quantity l * lot_price l) 0 (pl_lots L)"

definition average_open_price :: "position_ledger \<Rightarrow> rat option result" where
  "average_open_price L =
     (if net_quantity L = 0 then Inr None
      else bind_result (ratio (cost_basis L) (net_quantity L)) (\<lambda>x. Inr (Some x)))"

definition unrealized_pnl :: "position_ledger \<Rightarrow> rat \<Rightarrow> rat" where
  "unrealized_pnl L mark = (net_quantity L * mark - cost_basis L) * pl_multiplier L"

section \<open>Booking a fill\<close>

definition opposes :: "lot list \<Rightarrow> rat \<Rightarrow> bool" where
  "opposes lots signed = ((0 < lot_quantity (hd lots)) \<noteq> (0 < signed))"

text \<open>The lot at the method's index, and the lots with it popped or replaced.\<close>

definition pick_lot :: "lot_method \<Rightarrow> lot list \<Rightarrow> lot" where
  "pick_lot m lots = (if m = LIFO then last lots else hd lots)"

definition pop_lot :: "lot_method \<Rightarrow> lot list \<Rightarrow> lot list" where
  "pop_lot m lots = (if m = LIFO then butlast lots else tl lots)"

definition set_lot :: "lot_method \<Rightarrow> lot list \<Rightarrow> lot \<Rightarrow> lot list" where
  "set_lot m lots l = (if m = LIFO then butlast lots @ [l] else l # tl lots)"

definition lot_sign :: "lot \<Rightarrow> rat" where
  "lot_sign l = (if 0 < lot_quantity l then 1 else -1)"

definition close_trade :: "rat \<Rightarrow> fill \<Rightarrow> lot \<Rightarrow> rat \<Rightarrow> realized_trade" where
  "close_trade k f l matched =
     \<lparr>rt_quantity = matched, rt_open_price = lot_price l, rt_close_price = fl_price f,
      rt_pnl = lot_sign l * matched * (fl_price f - lot_price l) * k,
      rt_opened_by = lot_opened_by l, rt_closed_by = fl_id f\<rparr>"

text \<open>The \<open>while\<close> loop of \<open>apply\<close>: the lots, what remains of the fill, and the closing matches.\<close>

function match_loop ::
    "lot_method \<Rightarrow> rat \<Rightarrow> fill \<Rightarrow> lot list \<Rightarrow> rat \<Rightarrow> realized_trade list \<Rightarrow>
     lot list \<times> rat \<times> realized_trade list" where
  "match_loop m k f lots remaining closing =
     (if remaining \<noteq> 0 \<and> lots \<noteq> [] \<and> opposes lots remaining then
        let l = pick_lot m lots;
            matched = min \<bar>remaining\<bar> \<bar>lot_quantity l\<bar>;
            left = \<bar>lot_quantity l\<bar> - matched;
            lots' = (if left = 0 then pop_lot m lots
                     else set_lot m lots (l\<lparr>lot_quantity := lot_sign l * left\<rparr>))
        in match_loop m k f lots'
             (if remaining < 0 then remaining + matched else remaining - matched)
             (closing @ [close_trade k f l matched])
      else (lots, remaining, closing))"
  by auto

lemma length_pop_lot: "lots \<noteq> [] \<Longrightarrow> length (pop_lot m lots) < length lots"
  by (simp add: pop_lot_def)

lemma length_set_lot: "lots \<noteq> [] \<Longrightarrow> length (set_lot m lots l) = length lots"
  by (simp add: set_lot_def)

text \<open>Every turn either uses up a lot or uses up the fill, so the loop ends.\<close>

termination match_loop
proof (relation "measures [\<lambda>(m, k, f, lots, r, c). length lots,
    \<lambda>(m, k, f, lots, r, c). if r = 0 then 0 else 1]", goal_cases)
  case 1
  then show ?case by simp
next
  case (2 m k f lots remaining closing l matched left lots')
  then show ?case
    by (cases "left = 0") (auto simp: length_pop_lot length_set_lot)
qed

declare match_loop.simps [simp del]

definition check_fee_has_currency :: "fill \<Rightarrow> unit result" where
  "check_fee_has_currency f =
     (if fl_fee f \<noteq> None \<and> fl_fee f \<noteq> Some 0 \<and> fl_fee_currency f = None
      then Inl ValidationError else Inr ())"

definition book_fee :: "position_ledger \<Rightarrow> fill \<Rightarrow> position_ledger" where
  "book_fee L f =
     (case (fl_fee f, fl_fee_currency f) of
        (Some fee, Some ccy) \<Rightarrow>
          L\<lparr>pl_fees := AList.update ccy
              ((case map_of (pl_fees L) ccy of None \<Rightarrow> 0 | Some x \<Rightarrow> x) + fee) (pl_fees L)\<rparr>
      | _ \<Rightarrow> L)"

definition collapse_to_average :: "position_ledger \<Rightarrow> position_ledger" where
  "collapse_to_average L =
     (if net_quantity L = 0 \<or> length (pl_lots L) = 1 then L
      else L\<lparr>pl_lots := [\<lparr>lot_quantity = net_quantity L,
                         lot_price = ratio_of (cost_basis L) (net_quantity L),
                         lot_opened_by = lot_opened_by (hd (pl_lots L))\<rparr>]\<rparr>)"

definition fill_key :: "fill \<Rightarrow> string \<times> string" where
  "fill_key f = (fl_cid f, fl_id f)"

definition merge_report ::
    "position_ledger \<Rightarrow> fill \<Rightarrow> fill \<Rightarrow> position_ledger \<times> unit result" where
  "merge_report L known report =
     (if \<not> same_execution known report then (L, Inl ValidationError)
      else if fees_differ known report then (L, Inl ValidationError)
      else let merged = merged_fill known report in
        case check_fee_has_currency merged of
          Inl e \<Rightarrow> (L, Inl e)
        | Inr _ \<Rightarrow>
            (let L1 = L\<lparr>pl_seen := (pl_seen L)(fill_key report \<mapsto> merged)\<rparr>
             in if fl_fee known = None \<and> fl_fee merged \<noteq> None
                then (book_fee (L1\<lparr>pl_unknown_fees := pl_unknown_fees L1 - 1\<rparr>) merged, Inr ())
                else (L1, Inr ())))"

definition note_fee :: "position_ledger \<Rightarrow> fill \<Rightarrow> position_ledger" where
  "note_fee L f =
     (if fl_fee f = None then L\<lparr>pl_unknown_fees := pl_unknown_fees L + 1\<rparr> else book_fee L f)"

definition signed_quantity :: "fill \<Rightarrow> rat" where
  "signed_quantity f = side_sign (fl_side f) * fl_quantity f"

text \<open>The lots and the trades after matching \<open>f\<close>: from the collapse to the end of \<open>apply\<close>.\<close>

definition book_lots :: "position_ledger \<Rightarrow> fill \<Rightarrow> position_ledger \<times> realized_trade list" where
  "book_lots L f =
     (let L1 = (if pl_method L = AVERAGE \<and> pl_lots L \<noteq> [] then collapse_to_average L else L)
      in case match_loop (pl_method L) (pl_multiplier L) f (pl_lots L1) (signed_quantity f) [] of
           (lots, remaining, closing) \<Rightarrow>
             (L1\<lparr>pl_lots := (if remaining \<noteq> 0
                             then lots @ [\<lparr>lot_quantity = remaining, lot_price = fl_price f,
                                          lot_opened_by = fl_id f\<rparr>]
                             else lots),
                 pl_trades := pl_trades L1 @ closing\<rparr>, closing))"

definition apply_to_ledger ::
    "position_ledger \<Rightarrow> fill \<Rightarrow> position_ledger \<times> realized_trade list result" where
  "apply_to_ledger L f =
     (case pl_seen L (fill_key f) of
        Some known \<Rightarrow> (case merge_report L known f of
                         (L', Inl e) \<Rightarrow> (L', Inl e)
                       | (L', Inr _) \<Rightarrow> (L', Inr []))
      | None \<Rightarrow>
          (case (case pl_symbol L of
                   None \<Rightarrow> Inr (L\<lparr>pl_symbol := Some (fl_symbol f)\<rparr>)
                 | Some s \<Rightarrow> if fl_symbol f \<noteq> s then Inl ValidationError else Inr L) of
             Inl e \<Rightarrow> (L, Inl e)
           | Inr L1 \<Rightarrow>
               (case check_fee_has_currency f of
                  Inl e \<Rightarrow> (L1, Inl e)
                | Inr _ \<Rightarrow>
                    (let L2 = note_fee (L1\<lparr>pl_seen := (pl_seen L1)(fill_key f \<mapsto> f)\<rparr>) f
                     in case book_lots L2 f of (L3, closing) \<Rightarrow> (L3, Inr closing)))))"

fun apply_all :: "position_ledger \<Rightarrow> fill list \<Rightarrow> position_ledger result" where
  "apply_all L [] = Inr L"
| "apply_all L (f # fs) =
     (case apply_to_ledger L f of
        (L', Inl e) \<Rightarrow> Inl e
      | (L', Inr _) \<Rightarrow> apply_all L' fs)"

definition build_ledger :: "lot_method \<Rightarrow> rat \<Rightarrow> fill list \<Rightarrow> position_ledger result" where
  "build_ledger m k fs = apply_all (empty_ledger m k) (sort_key fl_ts fs)"

section \<open>Valuation\<close>

record valuation =
  val_currency :: string
  val_realized :: rat
  val_unrealized :: rat
  val_fees :: rat
  val_rates :: "(string \<times> rat) list"
  val_unknown_fees :: int

definition valuation_net :: "valuation \<Rightarrow> rat" where
  "valuation_net v = (val_realized v + val_unrealized v) - val_fees v"

definition convert :: "rat \<Rightarrow> string \<Rightarrow> string \<Rightarrow> (string \<times> rat) list \<Rightarrow> rat result" where
  "convert amount src dst rates =
     (if src = dst then Inr amount
      else case map_of rates (src @ dst) of
             Some r \<Rightarrow> Inr (amount * r)
           | None \<Rightarrow> (case map_of rates (dst @ src) of
                        Some r \<Rightarrow> ratio amount r
                      | None \<Rightarrow> Inl ValidationError))"

fun convert_fees ::
    "(string \<times> rat) list \<Rightarrow> string \<Rightarrow> (string \<times> rat) list \<Rightarrow> rat \<Rightarrow> rat result" where
  "convert_fees [] currency rates acc = Inr acc"
| "convert_fees ((ccy, amount) # rest) currency rates acc =
     bind_result (convert amount ccy currency rates) (\<lambda>x. convert_fees rest currency rates (acc + x))"

type_synonym book_entry = "string \<times> position_ledger \<times> string \<times> rat option"

definition value_book :: "string \<Rightarrow> (string \<times> rat) list \<Rightarrow> book_entry \<Rightarrow> valuation \<Rightarrow> valuation result" where
  "value_book currency rates entry v =
     (case entry of (nm, L, quote_currency, mark) \<Rightarrow>
        if mark = None \<and> net_quantity L \<noteq> 0 then Inl ValidationError
        else bind_result (convert (realized_pnl L) quote_currency currency rates) (\<lambda>r.
             bind_result (convert_fees (pl_fees L) currency rates (val_fees v)) (\<lambda>fees.
             bind_result (case mark of
                            None \<Rightarrow> Inr (val_unrealized v)
                          | Some m \<Rightarrow> bind_result (convert (unrealized_pnl L m) quote_currency currency rates)
                                        (\<lambda>u. Inr (val_unrealized v + u))) (\<lambda>unreal.
             Inr (v\<lparr>val_realized := val_realized v + r, val_unrealized := unreal, val_fees := fees,
                    val_unknown_fees := val_unknown_fees v + pl_unknown_fees L\<rparr>)))))"

fun value_books_from ::
    "string \<Rightarrow> (string \<times> rat) list \<Rightarrow> book_entry list \<Rightarrow> valuation \<Rightarrow> valuation result" where
  "value_books_from currency rates [] v = Inr v"
| "value_books_from currency rates (b # bs) v =
     bind_result (value_book currency rates b v) (value_books_from currency rates bs)"

definition value_books :: "book_entry list \<Rightarrow> string \<Rightarrow> (string \<times> rat) list \<Rightarrow> valuation result" where
  "value_books bs currency rates =
     value_books_from currency rates bs
       \<lparr>val_currency = currency, val_realized = 0, val_unrealized = 0, val_fees = 0,
        val_rates = rates, val_unknown_fees = 0\<rparr>"

definition slippage_bps :: "order_side \<Rightarrow> rat \<Rightarrow> rat \<Rightarrow> rat result" where
  "slippage_bps side arrival average =
     (if arrival = 0 then Inl ValidationError
      else ratio (side_sign side * (average - arrival) * 10000) \<bar>arrival\<bar>)"

section \<open>Net quantity and profit are what the fills say\<close>

lemma net_quantity_sum: "net_quantity L = sum_by lot_quantity (pl_lots L)"
  by (simp add: net_quantity_def foldl_sum_by)

lemma realized_pnl_sum: "realized_pnl L = sum_by rt_pnl (pl_trades L)"
  by (simp add: realized_pnl_def foldl_sum_by)

lemma cost_basis_sum: "cost_basis L = sum_by (\<lambda>l. lot_quantity l * lot_price l) (pl_lots L)"
  by (simp add: cost_basis_def foldl_sum_by)

text \<open>Open lots are all long or all short, and none is empty.\<close>

definition lots_ok :: "lot list \<Rightarrow> bool" where
  "lots_ok lots \<longleftrightarrow> list_all (\<lambda>l. 0 < lot_quantity l) lots \<or> list_all (\<lambda>l. lot_quantity l < 0) lots"

lemma sum_by_pop_lot:
  "lots \<noteq> [] \<Longrightarrow> sum_by g (pop_lot m lots) = sum_by g lots - g (pick_lot m lots)"
  by (cases "m = LIFO", cases lots rule: rev_cases, simp_all add: pop_lot_def pick_lot_def,
      cases lots, simp_all)

lemma sum_by_set_lot:
  "lots \<noteq> [] \<Longrightarrow> sum_by g (set_lot m lots l) = sum_by g lots - g (pick_lot m lots) + g l"
  by (cases "m = LIFO", cases lots rule: rev_cases, simp_all add: set_lot_def pick_lot_def,
      cases lots, simp_all)

lemma pick_lot_in: "lots \<noteq> [] \<Longrightarrow> pick_lot m lots \<in> set lots"
  by (simp add: pick_lot_def)

lemma lots_ok_sub: "lots_ok lots \<Longrightarrow> set lots' \<subseteq> set lots \<Longrightarrow> lots_ok lots'"
  by (auto simp: lots_ok_def list_all_iff)

lemma set_pop_lot: "set (pop_lot m lots) \<subseteq> set lots"
  by (cases lots) (auto simp: pop_lot_def dest: in_set_butlastD)

lemma set_set_lot: "set (set_lot m lots l) \<subseteq> insert l (set lots)"
  by (cases lots) (auto simp: set_lot_def dest: in_set_butlastD)

text \<open>
  One turn of the loop, as numbers: \<open>s\<close> the sign of the lot, \<open>k\<close> the quantity matched. The lot, the
  remainder of the fill and the realized trade move together.
\<close>

lemma turn_signs:
  assumes "lots_ok lots" and "lots \<noteq> []" and "opposes lots r" and "r \<noteq> 0"
  shows "lot_quantity (pick_lot m lots) = lot_sign (pick_lot m lots) * \<bar>lot_quantity (pick_lot m lots)\<bar>"
    and "r = - lot_sign (pick_lot m lots) * \<bar>r\<bar>" and "lot_quantity (pick_lot m lots) \<noteq> 0"
proof -
  let ?l = "pick_lot m lots"
  have i: "?l \<in> set lots" "hd lots \<in> set lots" using assms(2) pick_lot_in by auto
  have same: "0 < lot_quantity ?l \<longleftrightarrow> 0 < lot_quantity (hd lots)" and nz: "lot_quantity ?l \<noteq> 0"
    using assms(1) i by (fastforce simp: lots_ok_def list_all_iff)+
  show "lot_quantity ?l = lot_sign ?l * \<bar>lot_quantity ?l\<bar>" by (simp add: lot_sign_def)
  show "r = - lot_sign ?l * \<bar>r\<bar>"
    using assms(3,4) same by (auto simp: opposes_def lot_sign_def)
  show "lot_quantity ?l \<noteq> 0" by (rule nz)
qed

definition lots_value :: "rat \<Rightarrow> lot list \<Rightarrow> rat" where
  "lots_value mark lots = sum_by (\<lambda>l. lot_quantity l * (mark - lot_price l)) lots"

text \<open>
  The loop keeps three things: the lots stay on one side, quantity is conserved, and so is profit at
  any mark, realized and unrealized together with what remains of the fill at its own price.
\<close>

definition turn_lots :: "lot_method \<Rightarrow> lot list \<Rightarrow> rat \<Rightarrow> lot list" where
  "turn_lots m lots r =
     (let l = pick_lot m lots; matched = min \<bar>r\<bar> \<bar>lot_quantity l\<bar>; left = \<bar>lot_quantity l\<bar> - matched
      in if left = 0 then pop_lot m lots else set_lot m lots (l\<lparr>lot_quantity := lot_sign l * left\<rparr>))"

lemma turn_conserves:
  fixes m :: lot_method
  assumes "lots_ok lots" and "lots \<noteq> []" and "opposes lots r" and "r \<noteq> 0"
  defines "l \<equiv> pick_lot m lots"
  defines "k \<equiv> min \<bar>r\<bar> \<bar>lot_quantity l\<bar>"
  shows "lots_ok (turn_lots m lots r)"
    and "sum_by lot_quantity (turn_lots m lots r) = sum_by lot_quantity lots - lot_sign l * k"
    and "lots_value mark (turn_lots m lots r) = lots_value mark lots - lot_sign l * k * (mark - lot_price l)"
    and "(if r < 0 then r + k else r - k) = r + lot_sign l * k"
proof -
  have q: "lot_quantity l = lot_sign l * \<bar>lot_quantity l\<bar>" "r = - lot_sign l * \<bar>r\<bar>" "lot_quantity l \<noteq> 0"
    unfolding l_def using turn_signs [OF assms(1-4)] by auto
  have left: "k \<le> \<bar>lot_quantity l\<bar>" by (simp add: k_def)
  let ?l' = "l\<lparr>lot_quantity := lot_sign l * (\<bar>lot_quantity l\<bar> - k)\<rparr>"
  have t: "turn_lots m lots r =
    (if \<bar>lot_quantity l\<bar> - k = 0 then pop_lot m lots else set_lot m lots ?l')"
    by (simp add: turn_lots_def Let_def l_def k_def)
  have mem: "l \<in> set lots" using assms(2) pick_lot_in by (simp add: l_def)
  show "lots_ok (turn_lots m lots r)"
  proof (cases "\<bar>lot_quantity l\<bar> - k = 0")
    case True
    then show ?thesis using t assms(1) lots_ok_sub set_pop_lot by metis
  next
    case False
    then have pos: "0 < \<bar>lot_quantity l\<bar> - k" using left by linarith
    have "0 < lot_quantity l \<longleftrightarrow> 0 < lot_quantity ?l'" and "lot_quantity l < 0 \<longleftrightarrow> lot_quantity ?l' < 0"
      using pos q(3) by (auto simp: lot_sign_def)
    then have "lots_ok (?l' # lots)" using assms(1) mem by (auto simp: lots_ok_def list_all_iff)
    then show ?thesis
      using t False lots_ok_sub [of "?l' # lots"] set_set_lot [of m lots ?l'] by simp
  qed
  have gone: "lot_quantity l = lot_sign l * k" if "\<bar>lot_quantity l\<bar> - k = 0"
    using that q(1) by simp
  show "sum_by lot_quantity (turn_lots m lots r) = sum_by lot_quantity lots - lot_sign l * k"
    using assms(2) gone q(1)
    by (simp add: t sum_by_pop_lot sum_by_set_lot right_diff_distrib flip: l_def)
  show "lots_value mark (turn_lots m lots r) = lots_value mark lots - lot_sign l * k * (mark - lot_price l)"
    using assms(2) gone q(1)
    by (simp add: t lots_value_def sum_by_pop_lot sum_by_set_lot right_diff_distrib left_diff_distrib
        flip: l_def)
  show "(if r < 0 then r + k else r - k) = r + lot_sign l * k"
    using q(2) assms(4) by (auto simp: lot_sign_def split: if_splits)
qed

lemma match_loop_step:
  "match_loop m k f lots r c =
     (if r \<noteq> 0 \<and> lots \<noteq> [] \<and> opposes lots r then
        let l = pick_lot m lots; matched = min \<bar>r\<bar> \<bar>lot_quantity l\<bar>
        in match_loop m k f (turn_lots m lots r) (if r < 0 then r + matched else r - matched)
             (c @ [close_trade k f l matched])
      else (lots, r, c))"
  by (subst match_loop.simps) (simp add: turn_lots_def Let_def)

lemma match_loop_conserves:
  assumes "match_loop m k f lots r c = (lots', r', c')" and "lots_ok lots"
  shows "lots_ok lots' \<and> (r' = 0 \<or> lots' = [] \<or> \<not> opposes lots' r') \<and>
    sum_by lot_quantity lots' + r' = sum_by lot_quantity lots + r \<and>
    sum_by rt_pnl c' + k * (lots_value mark lots' + r' * (mark - fl_price f)) =
    sum_by rt_pnl c + k * (lots_value mark lots + r * (mark - fl_price f))"
  using assms
proof (induction m k f lots r c rule: match_loop.induct)
  case (1 m k f lots r c)
  show ?case
  proof (cases "r \<noteq> 0 \<and> lots \<noteq> [] \<and> opposes lots r")
    case False
    then have "match_loop m k f lots r c = (lots, r, c)"
      by (subst match_loop_step) auto
    with 1(2,3) False show ?thesis by auto
  next
    case True
    define l where "l = pick_lot m lots"
    define x where "x = min \<bar>r\<bar> \<bar>lot_quantity l\<bar>"
    note t = turn_conserves [where m = m and lots = lots and r = r, folded l_def, folded x_def]
    have "match_loop m k f lots r c = match_loop m k f (turn_lots m lots r)
        (if r < 0 then r + x else r - x) (c @ [close_trade k f l x])"
      by (subst match_loop_step) (simp add: True Let_def l_def x_def)
    then have nx: "match_loop m k f (turn_lots m lots r) (r + lot_sign l * x)
        (c @ [close_trade k f l x]) = (lots', r', c')"
      using 1(2,3) True t(4) by simp
    have tl: "(if \<bar>lot_quantity l\<bar> - x = 0 then pop_lot m lots
         else set_lot m lots (l\<lparr>lot_quantity := lot_sign l * (\<bar>lot_quantity l\<bar> - x)\<rparr>)) =
       turn_lots m lots r"
      by (simp add: turn_lots_def Let_def l_def x_def)
    have t4: "(if r < 0 then r + x else r - x) = r + lot_sign l * x" using t(4) 1(3) True by simp
    note IH = 1(1) [OF True l_def x_def refl refl, unfolded tl t4, OF nx]
    have "rt_pnl (close_trade k f l x) = lot_sign l * x * (fl_price f - lot_price l) * k"
      by (simp add: close_trade_def)
    then show ?thesis
      using IH t(1,2,3) 1(3) True by (simp add: algebra_simps)
  qed
qed

definition profit :: "position_ledger \<Rightarrow> rat \<Rightarrow> rat" where
  "profit L mark = realized_pnl L + unrealized_pnl L mark"

lemma unrealized_value: "unrealized_pnl L mark = pl_multiplier L * lots_value mark (pl_lots L)"
proof -
  have "lots_value mark xs = sum_by lot_quantity xs * mark - sum_by (\<lambda>l. lot_quantity l * lot_price l) xs"
    for xs by (induction xs) (simp_all add: lots_value_def algebra_simps)
  then show ?thesis
    by (simp add: unrealized_pnl_def net_quantity_sum cost_basis_sum)
qed

lemma lots_ok_snoc:
  assumes "lots_ok lots" and "lots = [] \<or> \<not> opposes lots r" and "r \<noteq> 0"
  shows "lots_ok (lots @ [\<lparr>lot_quantity = r, lot_price = p, lot_opened_by = i\<rparr>])"
  using assms by (cases lots) (auto simp: lots_ok_def opposes_def)

lemma collapse_keeps:
  assumes "lots_ok (pl_lots L)"
  shows "lots_ok (pl_lots (collapse_to_average L))" and "net_quantity (collapse_to_average L) = net_quantity L"
    and "pl_trades (collapse_to_average L) = pl_trades L" "pl_method (collapse_to_average L) = pl_method L"
    and "pl_multiplier (collapse_to_average L) = pl_multiplier L" "pl_seen (collapse_to_average L) = pl_seen L"
  using assms by (auto simp: collapse_to_average_def lots_ok_def net_quantity_def)

lemma book_lots_conserves:
  assumes ok: "lots_ok (pl_lots L)" and b: "book_lots L f = (L', closing)"
  shows "lots_ok (pl_lots L')" and "net_quantity L' = net_quantity L + signed_quantity f"
    and "pl_method L' = pl_method L" and "pl_multiplier L' = pl_multiplier L" and "pl_seen L' = pl_seen L"
    and "pl_method L \<noteq> AVERAGE \<Longrightarrow>
      profit L' mark = profit L mark + pl_multiplier L * signed_quantity f * (mark - fl_price f)"
proof -
  define L1 where "L1 = (if pl_method L = AVERAGE \<and> pl_lots L \<noteq> [] then collapse_to_average L else L)"
  obtain lots r c where m: "match_loop (pl_method L) (pl_multiplier L) f (pl_lots L1) (signed_quantity f) []
      = (lots, r, c)" by (cases "match_loop (pl_method L) (pl_multiplier L) f (pl_lots L1) (signed_quantity f) []")
  have L': "L' = L1\<lparr>pl_lots := (if r \<noteq> 0 then lots @ [\<lparr>lot_quantity = r, lot_price = fl_price f,
      lot_opened_by = fl_id f\<rparr>] else lots), pl_trades := pl_trades L1 @ c\<rparr>"
    using b unfolding book_lots_def Let_def L1_def [symmetric] m by auto
  have k: "lots_ok (pl_lots L1)" "net_quantity L1 = net_quantity L" "pl_trades L1 = pl_trades L"
    "pl_method L1 = pl_method L" "pl_multiplier L1 = pl_multiplier L" "pl_seen L1 = pl_seen L"
    unfolding L1_def using collapse_keeps [OF ok] ok by simp_all
  note c = match_loop_conserves [OF m k(1), of mark]
  show "lots_ok (pl_lots L')" using c by (auto simp: L' intro!: lots_ok_snoc)
  show "net_quantity L' = net_quantity L + signed_quantity f"
    using c k(2) by (simp add: L' net_quantity_sum)
  show "pl_method L' = pl_method L" "pl_multiplier L' = pl_multiplier L" "pl_seen L' = pl_seen L"
    using k by (simp_all add: L')
  show "profit L' mark = profit L mark + pl_multiplier L * signed_quantity f * (mark - fl_price f)"
    if "pl_method L \<noteq> AVERAGE"
  proof -
    have same: "L1 = L" using that by (simp add: L1_def)
    have "realized_pnl L' = realized_pnl L + sum_by rt_pnl c"
      by (simp add: L' realized_pnl_sum same)
    moreover have "unrealized_pnl L' mark =
        pl_multiplier L * (lots_value mark lots + r * (mark - fl_price f))"
      by (simp add: unrealized_value L' same lots_value_def)
    moreover have "sum_by rt_pnl c + pl_multiplier L * (lots_value mark lots + r * (mark - fl_price f)) =
        pl_multiplier L * (lots_value mark (pl_lots L) + signed_quantity f * (mark - fl_price f))"
      using c same by simp
    ultimately show ?thesis
      by (simp add: profit_def unrealized_value distrib_left mult.assoc)
  qed
qed

text \<open>The fee bookkeeping touches neither lots nor trades.\<close>

lemma book_fee_keeps [simp]:
  "pl_lots (book_fee L f) = pl_lots L" "pl_trades (book_fee L f) = pl_trades L"
  "pl_method (book_fee L f) = pl_method L" "pl_multiplier (book_fee L f) = pl_multiplier L"
  "pl_seen (book_fee L f) = pl_seen L"
  by (simp_all add: book_fee_def split: option.splits)

lemma note_fee_keeps [simp]:
  "pl_lots (note_fee L f) = pl_lots L" "pl_trades (note_fee L f) = pl_trades L"
  "pl_method (note_fee L f) = pl_method L" "pl_multiplier (note_fee L f) = pl_multiplier L"
  "pl_seen (note_fee L f) = pl_seen L"
  by (simp_all add: note_fee_def)

lemma same_lots_same_profit:
  "pl_lots L' = pl_lots L \<Longrightarrow> pl_trades L' = pl_trades L \<Longrightarrow> pl_multiplier L' = pl_multiplier L \<Longrightarrow>
   profit L' mark = profit L mark \<and> net_quantity L' = net_quantity L"
  by (simp add: profit_def realized_pnl_sum unrealized_value net_quantity_sum)

lemma apply_known_report:
  assumes "pl_seen L (fill_key f) = Some known" and "apply_to_ledger L f = (L', Inr ts)"
  shows "ts = [] \<and> pl_lots L' = pl_lots L \<and> pl_trades L' = pl_trades L \<and> pl_method L' = pl_method L \<and>
    pl_multiplier L' = pl_multiplier L \<and> pl_seen L' = (pl_seen L)(fill_key f \<mapsto> merged_fill known f)"
  using assms
  by (auto simp: apply_to_ledger_def merge_report_def Let_def split: if_splits sum.splits prod.splits)

lemma apply_new_report:
  assumes "pl_seen L (fill_key f) = None" and "apply_to_ledger L f = (L', Inr ts)"
  obtains L2 where "book_lots L2 f = (L', ts)" "pl_lots L2 = pl_lots L" "pl_trades L2 = pl_trades L"
    "pl_method L2 = pl_method L" "pl_multiplier L2 = pl_multiplier L"
    "pl_seen L2 = (pl_seen L)(fill_key f \<mapsto> f)" "check_fee_has_currency f = Inr ()"
  using assms
  by (auto simp: apply_to_ledger_def Let_def split: option.splits if_splits sum.splits prod.splits)

lemma apply_to_ledger_conserves:
  assumes "apply_to_ledger L f = (L', Inr ts)" and "lots_ok (pl_lots L)"
  shows "lots_ok (pl_lots L') \<and> pl_method L' = pl_method L \<and> pl_multiplier L' = pl_multiplier L \<and>
    dom (pl_seen L') = insert (fill_key f) (dom (pl_seen L)) \<and>
    net_quantity L' = net_quantity L +
      (if fill_key f \<in> dom (pl_seen L) then 0 else signed_quantity f) \<and>
    (pl_method L \<noteq> AVERAGE \<longrightarrow> profit L' mark = profit L mark +
      (if fill_key f \<in> dom (pl_seen L) then 0
       else pl_multiplier L * signed_quantity f * (mark - fl_price f)))"
proof (cases "pl_seen L (fill_key f)")
  case (Some known)
  note k = apply_known_report [OF Some assms(1)]
  with Some assms(2) show ?thesis
    using same_lots_same_profit [of L' L mark] by (auto simp: domIff)
next
  case None
  obtain L2 where b: "book_lots L2 f = (L', ts)" and e: "pl_lots L2 = pl_lots L" "pl_trades L2 = pl_trades L"
    "pl_method L2 = pl_method L" "pl_multiplier L2 = pl_multiplier L"
    "pl_seen L2 = (pl_seen L)(fill_key f \<mapsto> f)"
    using apply_new_report [OF None assms(1)] by blast
  have ok: "lots_ok (pl_lots L2)" using e assms(2) by simp
  note c = book_lots_conserves [OF ok b]
  show ?thesis
    using c(1-5) c(6) [of mark] e None same_lots_same_profit [of L2 L mark] by auto
qed

text \<open>The first report of each execution, in order: what the books should count.\<close>

fun first_reports :: "(string \<times> string) set \<Rightarrow> fill list \<Rightarrow> fill list" where
  "first_reports seen [] = []"
| "first_reports seen (f # fs) =
     (if fill_key f \<in> seen then first_reports seen fs
      else f # first_reports (insert (fill_key f) seen) fs)"

lemma apply_all_conserves:
  assumes "apply_all L fs = Inr L'" and "lots_ok (pl_lots L)"
  shows "lots_ok (pl_lots L') \<and> pl_multiplier L' = pl_multiplier L \<and>
    net_quantity L' = net_quantity L + sum_by signed_quantity (first_reports (dom (pl_seen L)) fs) \<and>
    (pl_method L \<noteq> AVERAGE \<longrightarrow> profit L' mark = profit L mark + pl_multiplier L *
       sum_by (\<lambda>f. signed_quantity f * (mark - fl_price f)) (first_reports (dom (pl_seen L)) fs))"
  using assms
proof (induction fs arbitrary: L)
  case Nil
  then show ?case by simp
next
  case (Cons f fs)
  then obtain L1 ts where a: "apply_to_ledger L f = (L1, Inr ts)" and r: "apply_all L1 fs = Inr L'"
    by (auto split: prod.splits sum.splits)
  note c = apply_to_ledger_conserves [OF a Cons.prems(2), of mark]
  have "lots_ok (pl_lots L') \<and> pl_multiplier L' = pl_multiplier L1 \<and>
    net_quantity L' = net_quantity L1 + sum_by signed_quantity (first_reports (dom (pl_seen L1)) fs) \<and>
    (pl_method L1 \<noteq> AVERAGE \<longrightarrow> profit L' mark = profit L1 mark + pl_multiplier L1 *
       sum_by (\<lambda>f. signed_quantity f * (mark - fl_price f)) (first_reports (dom (pl_seen L1)) fs))"
    using r c by (intro Cons.IH) auto
  with c show ?case by (auto simp: insert_absorb algebra_simps)
qed

section \<open>A repeated report changes nothing\<close>

lemma merged_fee:
  "\<not> fees_differ k f \<Longrightarrow> fl_fee (merged_fill k f) = or_else (fl_fee k) (fl_fee f)"
  by (simp add: merged_fill_def Let_def)

lemma fees_differ_merged: "\<not> fees_differ k f \<Longrightarrow> \<not> fees_differ (merged_fill k f) f"
  by (cases "fl_fee k"; cases "fl_fee f"; cases "fl_fee_currency k"; cases "fl_fee_currency f")
    (auto simp: merged_fill_def fees_differ_def Let_def or_string_def)

lemma fees_differ_self: "\<not> fees_differ f f"
  by (simp add: fees_differ_def)

lemma merged_fill_self: "merged_fill f f = f"
  by (cases "fl_venue_order_id f"; cases "fl_fee f"; cases "fl_fee_currency f")
    (simp_all add: merged_fill_def fees_differ_def Let_def or_string_def)

lemma apply_to_ledger_merged:
  assumes "pl_seen L (fill_key f) = Some g" and "same_execution g f" and "\<not> fees_differ g f"
    and "merged_fill g f = g" and "check_fee_has_currency g = Inr ()"
  shows "apply_to_ledger L f = (L, Inr [])"
proof -
  have "(pl_seen L)(fill_key f \<mapsto> g) = pl_seen L" using assms(1) by (simp add: map_upd_triv)
  then have "L\<lparr>pl_seen := (pl_seen L)(fill_key f \<mapsto> g)\<rparr> = L" by simp
  with assms show ?thesis
    by (cases "fl_fee g") (simp_all add: apply_to_ledger_def merge_report_def Let_def)
qed

lemma apply_to_ledger_twice:
  assumes ok: "lots_ok (pl_lots L)" and a: "apply_to_ledger L f = (L', Inr ts)"
  shows "apply_to_ledger L' f = (L', Inr [])"
proof (cases "pl_seen L (fill_key f)")
  case (Some k)
  have m: "same_execution k f" "\<not> fees_differ k f" "check_fee_has_currency (merged_fill k f) = Inr ()"
    using Some a
    by (auto simp: apply_to_ledger_def merge_report_def Let_def split: if_splits sum.splits prod.splits)
  show ?thesis
    using apply_known_report [OF Some a] m fees_differ_merged merged_fill_idem
    by (intro apply_to_ledger_merged [of L' f "merged_fill k f"]) (simp_all add: same_execution_merged)
next
  case None
  obtain L2 where b: "book_lots L2 f = (L', ts)" and e: "pl_lots L2 = pl_lots L"
    "pl_seen L2 = (pl_seen L)(fill_key f \<mapsto> f)" and c: "check_fee_has_currency f = Inr ()"
    using apply_new_report [OF None a] by blast
  have "pl_seen L' = (pl_seen L)(fill_key f \<mapsto> f)"
    using book_lots_conserves(5) [of L2 f L' ts] b e ok by simp
  then show ?thesis
    using c by (intro apply_to_ledger_merged [of L' f f])
      (simp_all add: same_execution_def fees_differ_self merged_fill_self)
qed

section \<open>Conversion and slippage\<close>

lemma convert_fees_sum:
  "convert_fees fees currency rates acc = Inr r \<Longrightarrow>
   \<exists>xs. list_all2 (\<lambda>(ccy, amount) x. convert amount ccy currency rates = Inr x) fees xs \<and>
     r = acc + sum_list xs"
proof (induction fees currency rates acc arbitrary: r rule: convert_fees.induct)
  case (1 currency rates acc)
  then show ?case by simp
next
  case (2 ccy amount rest currency rates acc)
  then obtain x where x: "convert amount ccy currency rates = Inr x"
    and r: "convert_fees rest currency rates (acc + x) = Inr r"
    by (auto simp: bind_result_eq_Inr)
  obtain xs where "list_all2 (\<lambda>(ccy, amount) x. convert amount ccy currency rates = Inr x) rest xs"
    and "r = acc + x + sum_list xs"
    using "2.IH" [OF r] by blast
  with x show ?case by (intro exI [of _ "x # xs"]) simp
qed

lemma slippage_sign:
  assumes "slippage_bps side arrival avg = Inr s"
  shows "(0 < s \<longleftrightarrow> 0 < side_sign side * (avg - arrival)) \<and> (s = 0 \<longleftrightarrow> avg = arrival)"
proof -
  have a: "arrival \<noteq> 0" and r: "ratio (side_sign side * (avg - arrival) * 10000) \<bar>arrival\<bar> = Inr s"
    using assms by (auto simp: slippage_bps_def split: if_splits)
  have p: "0 < \<bar>arrival\<bar>" using a by simp
  show ?thesis using ratio_positive [OF r] a p by (auto simp: zero_less_divide_iff)
qed

section \<open>Properties\<close>

definition fill_of :: "string \<Rightarrow> order_side \<Rightarrow> rat \<Rightarrow> rat \<Rightarrow> int \<Rightarrow> fill" where
  "fill_of i sd p q ts = sample_fill\<lparr>fl_id := i, fl_side := sd, fl_price := p, fl_quantity := q, fl_ts := ts\<rparr>"

definition sample_fills :: "fill list" where
  "sample_fills = [fill_of ''f1'' BUY 5 4 0, fill_of ''f2'' SELL 7 1 1, fill_of ''f1'' BUY 5 4 2]"

lemma sample_fills_build: "is_ok (build_ledger FIFO 10 sample_fills)"
  by (simp add: build_ledger_def sample_fills_def fill_of_def sample_fill_def sample_symbol_def
      empty_ledger_def apply_to_ledger_def fill_key_def check_fee_has_currency_def note_fee_def
      book_lots_def match_loop.simps opposes_def signed_quantity_def lot_sign_def pick_lot_def
      set_lot_def pop_lot_def close_trade_def merge_report_def fees_differ_def same_execution_def
      merged_fill_def Let_def)

text \<open>C18: Conservation: books built from any fills in any order of arrival hold the signed sum of the
  first report of each execution, on lots of one sign, and (for lots matched first-in or last-in)
  realized and unrealized profit together are what each execution gained against the mark; nothing is
  created or lost by matching.\<close>

theorem built_books_conserve:
  assumes "build_ledger m k fs = Inr L"
  shows "lots_ok (pl_lots L) \<and>
    net_quantity L = sum_by signed_quantity (first_reports {} (sort_key fl_ts fs)) \<and>
    (m \<noteq> AVERAGE \<longrightarrow> realized_pnl L + unrealized_pnl L mark =
       k * sum_by (\<lambda>f. signed_quantity f * (mark - fl_price f)) (first_reports {} (sort_key fl_ts fs)))"
proof -
  have "profit (empty_ledger m k) mark = 0" "net_quantity (empty_ledger m k) = 0"
    "lots_ok (pl_lots (empty_ledger m k))"
    by (simp_all add: empty_ledger_def lots_ok_def net_quantity_def profit_def realized_pnl_def
        unrealized_pnl_def cost_basis_def)
  moreover have "dom (pl_seen (empty_ledger m k)) = {}" "pl_method (empty_ledger m k) = m"
    "pl_multiplier (empty_ledger m k) = k"
    by (simp_all add: empty_ledger_def)
  ultimately show ?thesis
    using apply_all_conserves [of "empty_ledger m k" "sort_key fl_ts fs" L mark] assms
    by (simp add: build_ledger_def profit_def)
qed

lemma built_books_conserve_witness:
  "\<exists>L. build_ledger FIFO 10 sample_fills = Inr L \<and> lots_ok (pl_lots L) \<and>
     net_quantity L = sum_by signed_quantity (first_reports {} (sort_key fl_ts sample_fills))"
  using sample_fills_build built_books_conserve [of FIFO 10 sample_fills] unfolding is_ok_iff by blast

text \<open> A fill the ledger has booked may be delivered again without effect: the second application
  returns the same ledger and no trades.\<close>

theorem fill_booked_once:
  assumes "lots_ok (pl_lots L)" and "apply_to_ledger L f = (L', Inr ts)"
  shows "apply_to_ledger L' f = (L', Inr [])"
  using assms by (rule apply_to_ledger_twice)

lemma fill_booked_once_witness:
  "\<exists>L ts. apply_to_ledger (empty_ledger FIFO 1) sample_fill = (L, Inr ts) \<and>
     apply_to_ledger L sample_fill = (L, Inr [])"
proof -
  have "\<exists>L ts. apply_to_ledger (empty_ledger FIFO 1) sample_fill = (L, Inr ts)"
    by (auto simp: apply_to_ledger_def empty_ledger_def sample_fill_def fill_key_def
        check_fee_has_currency_def note_fee_def Let_def split: prod.splits)
  moreover have "lots_ok (pl_lots (empty_ledger FIFO 1))" by (simp add: empty_ledger_def lots_ok_def)
  ultimately show ?thesis using fill_booked_once by blast
qed

end
