(* ===== verification/Book.thy ===== *)
theory Book
  imports Orders
begin

text \<open>
  \<open>marketdata/book.py\<close>: an order book built from a snapshot and sequenced deltas. A side keeps, as
  the code does, a dictionary from price to size and a sorted list of keys (negated prices on the
  bid side). Prices and sizes are exact values; that they are finite \<open>Decimal\<close>s within the admitted
  range is checked by \<open>Decimals.check_admitted\<close> where vendor text enters.
\<close>

section \<open>One side of the book\<close>

record book_side =
  sd_descending :: bool
  sd_levels :: "rat \<rightharpoonup> rat"
  sd_keys :: "rat list"

definition empty_side :: "bool \<Rightarrow> book_side" where
  "empty_side descending = \<lparr>sd_descending = descending, sd_levels = Map.empty, sd_keys = []\<rparr>"

definition side_key :: "book_side \<Rightarrow> rat \<Rightarrow> rat" where
  "side_key s price = (if sd_descending s then - price else price)"

definition bisect_left :: "rat list \<Rightarrow> rat \<Rightarrow> nat" where
  "bisect_left xs x = length (takeWhile (\<lambda>y. y < x) xs)"

definition insort_right :: "rat \<Rightarrow> rat list \<Rightarrow> rat list" where
  "insort_right x xs = takeWhile (\<lambda>y. y \<le> x) xs @ x # dropWhile (\<lambda>y. y \<le> x) xs"

definition delete_at :: "nat \<Rightarrow> 'a list \<Rightarrow> 'a list" where
  "delete_at i xs = take i xs @ drop (Suc i) xs"

definition set_level :: "book_side \<Rightarrow> rat \<Rightarrow> rat \<Rightarrow> book_side" where
  "set_level s price qty =
     (let key = side_key s price
      in if qty = 0 then
           (if sd_levels s price \<noteq> None
            then s\<lparr>sd_levels := (sd_levels s)(price := None),
                   sd_keys := delete_at (bisect_left (sd_keys s) key) (sd_keys s)\<rparr>
            else s)
         else
           (let s' = (if sd_levels s price = None
                      then s\<lparr>sd_keys := insort_right key (sd_keys s)\<rparr> else s)
            in s'\<lparr>sd_levels := (sd_levels s)(price \<mapsto> qty)\<rparr>))"

text \<open>\<open>top\<close>: a price that has a key but no size would raise \<open>KeyError\<close>.\<close>

fun levels_at :: "(rat \<rightharpoonup> rat) \<Rightarrow> rat list \<Rightarrow> level list result" where
  "levels_at m [] = Inr []"
| "levels_at m (p # ps) =
     (case m p of
        None \<Rightarrow> Inl KeyError
      | Some z \<Rightarrow> bind_result (levels_at m ps) (\<lambda>ls. Inr (\<lparr>lvl_price = p, lvl_size = z\<rparr> # ls)))"

definition side_top :: "book_side \<Rightarrow> nat option \<Rightarrow> level list result" where
  "side_top s depth =
     (let keys = (case depth of None \<Rightarrow> sd_keys s | Some n \<Rightarrow> take n (sd_keys s))
      in levels_at (sd_levels s) (map (side_key s) keys))"

section \<open>Deltas\<close>

record book_delta =
  bd_side :: order_side
  bd_price :: rat
  bd_size :: rat
  bd_sequence :: int
  bd_first :: "int option"

definition check_level :: "rat \<Rightarrow> rat \<Rightarrow> unit result" where
  "check_level price qty = (if qty < 0 then Inl ValidationError else Inr ())"

definition delta_valid :: "book_delta \<Rightarrow> bool" where
  "delta_valid d \<longleftrightarrow>
     is_ok (check_level (bd_price d) (bd_size d)) \<and>
     (case bd_first d of None \<Rightarrow> True | Some f \<Rightarrow> f \<le> bd_sequence d)"

definition delta_start :: "book_delta \<Rightarrow> int" where
  "delta_start d = (case bd_first d of None \<Rightarrow> bd_sequence d | Some f \<Rightarrow> f)"

section \<open>The builder\<close>

record book_builder =
  bb_symbol :: symbol
  bb_bids :: book_side
  bb_asks :: book_side
  bb_last :: "int option"
  bb_synced :: bool
  bb_buffer :: "book_delta list"
  bb_max_buffered :: nat
  bb_gaps :: nat
  bb_stale_deltas :: nat
  bb_stale_snapshots :: nat
  bb_batch :: "(int \<times> int) option"
  bb_dropped_through :: "int option"

definition new_builder :: "symbol \<Rightarrow> nat \<Rightarrow> book_builder result" where
  "new_builder inst max_buffered =
     (if max_buffered < 1 then Inl ValidationError
      else Inr \<lparr>bb_symbol = inst, bb_bids = empty_side True, bb_asks = empty_side False,
        bb_last = None, bb_synced = False, bb_buffer = [], bb_max_buffered = max_buffered,
        bb_gaps = 0, bb_stale_deltas = 0, bb_stale_snapshots = 0, bb_batch = None,
        bb_dropped_through = None\<rparr>)"

definition overflowed :: "book_builder \<Rightarrow> bool" where
  "overflowed b = (bb_dropped_through b \<noteq> None)"

definition buffer_delta :: "book_builder \<Rightarrow> book_delta \<Rightarrow> book_builder" where
  "buffer_delta b d =
     (let b' = (if bb_max_buffered b \<le> length (bb_buffer b)
                then b\<lparr>bb_buffer := tl (bb_buffer b),
                       bb_dropped_through :=
                         Some (max (case bb_dropped_through b of None \<Rightarrow> 0 | Some n \<Rightarrow> n)
                                   (bd_sequence (hd (bb_buffer b))))\<rparr>
                else b)
      in b'\<lparr>bb_buffer := bb_buffer b' @ [d]\<rparr>)"

text \<open>
  \<open>apply_delta\<close>. The code asserts that a synced book has a last sequence; \<open>builder_inv\<close> below shows
  the assertion cannot fail.
\<close>

definition last_or_zero :: "book_builder \<Rightarrow> int" where
  "last_or_zero b = (case bb_last b of None \<Rightarrow> 0 | Some n \<Rightarrow> n)"

definition set_on_side :: "book_builder \<Rightarrow> book_delta \<Rightarrow> book_builder" where
  "set_on_side b d =
     (if bd_side d = BUY then b\<lparr>bb_bids := set_level (bb_bids b) (bd_price d) (bd_size d)\<rparr>
      else b\<lparr>bb_asks := set_level (bb_asks b) (bd_price d) (bd_size d)\<rparr>)"

definition apply_delta :: "book_builder \<Rightarrow> book_delta \<Rightarrow> book_builder \<times> bool" where
  "apply_delta b d =
     (if \<not> bb_synced b then (buffer_delta b d, False)
      else
        let batch = (delta_start d, bd_sequence d)
        in if bd_sequence d \<le> last_or_zero b \<and> Some batch \<noteq> bb_batch b
           then (b\<lparr>bb_stale_deltas := bb_stale_deltas b + 1\<rparr>, False)
           else if last_or_zero b + 1 < delta_start d
           then (buffer_delta (b\<lparr>bb_gaps := bb_gaps b + 1, bb_synced := False\<rparr>) d, False)
           else ((set_on_side b d)\<lparr>bb_last := Some (bd_sequence d), bb_batch := Some batch\<rparr>, True))"

fun side_from :: "book_side \<Rightarrow> (rat \<times> rat) list \<Rightarrow> book_side result" where
  "side_from s [] = Inr s"
| "side_from s ((price, qty) # rows) =
     bind_result (check_level price qty) (\<lambda>_. side_from (set_level s price qty) rows)"

definition replay_buffer :: "book_builder \<Rightarrow> int \<Rightarrow> book_delta list \<Rightarrow> book_builder" where
  "replay_buffer b sequence ds =
     foldl (\<lambda>b d. if sequence < bd_sequence d then fst (apply_delta b d) else b) b ds"

definition apply_snapshot ::
    "book_builder \<Rightarrow> int \<Rightarrow> (rat \<times> rat) list \<Rightarrow> (rat \<times> rat) list \<Rightarrow> (book_builder \<times> bool) result" where
  "apply_snapshot b sequence bid_rows ask_rows =
     (let rolls_back = (bb_synced b \<and> (case bb_last b of None \<Rightarrow> False | Some n \<Rightarrow> sequence < n));
          misses_dropped = (case bb_dropped_through b of None \<Rightarrow> False | Some n \<Rightarrow> sequence < n)
      in if rolls_back \<or> misses_dropped
         then Inr (b\<lparr>bb_stale_snapshots := bb_stale_snapshots b + 1\<rparr>, False)
         else
           bind_result (side_from (empty_side True) bid_rows) (\<lambda>new_bids.
           bind_result (side_from (empty_side False) ask_rows) (\<lambda>new_asks.
             let b' = b\<lparr>bb_bids := new_bids, bb_asks := new_asks, bb_last := Some sequence,
                        bb_synced := True, bb_dropped_through := None, bb_batch := None,
                        bb_buffer := []\<rparr>
             in Inr (replay_buffer b' sequence (bb_buffer b), True))))"

text \<open>
  \<open>snapshot\<close>. The \<open>OrderBook\<close> constructor validates what it is given, so an unordered book would
  raise there.
\<close>

definition book_snapshot :: "book_builder \<Rightarrow> int option \<Rightarrow> order_book result" where
  "book_snapshot b depth =
     (if (case depth of None \<Rightarrow> False | Some d \<Rightarrow> d < 1) then Inl ValidationError
      else if \<not> bb_synced b \<or> bb_last b = None then
        (let expected = (case bb_last b of None \<Rightarrow> 0 | Some n \<Rightarrow> n + 1);
             newest = (if bb_buffer b = [] then expected else bd_sequence (last (bb_buffer b)))
         in Inl (SequenceGap expected newest))
      else
        bind_result (side_top (bb_bids b) (map_option nat depth)) (\<lambda>bs.
        bind_result (side_top (bb_asks b) (map_option nat depth)) (\<lambda>as.
          let ob = \<lparr>ob_symbol = bb_symbol b, ob_sequence = last_or_zero b, bids = bs, asks = as\<rparr>
          in if order_book_valid ob then Inr ob else Inl ValidationError)))"

definition depth_counts :: "book_builder \<Rightarrow> nat \<times> nat" where
  "depth_counts b = (card (dom (sd_levels (bb_bids b))), card (dom (sd_levels (bb_asks b))))"

section \<open>A side is a sorted map\<close>

definition side_inv :: "book_side \<Rightarrow> bool" where
  "side_inv s \<longleftrightarrow> sorted_wrt (<) (sd_keys s) \<and> set (sd_keys s) = side_key s ` dom (sd_levels s)"

lemma side_key_inject [simp]: "side_key s p = side_key s q \<longleftrightarrow> p = q"
  by (simp add: side_key_def)

lemma side_key_key [simp]: "side_key s (side_key s p) = p"
  by (simp add: side_key_def)

lemma sorted_take_drop:
  assumes "sorted_wrt (<) xs"
  shows "takeWhile (\<lambda>y. y \<le> x) xs = filter (\<lambda>y. y \<le> x) xs"
    and "dropWhile (\<lambda>y. y \<le> x) xs = filter (\<lambda>y. x < y) (xs :: rat list)"
proof -
  have "takeWhile (\<lambda>y. y \<le> x) xs = filter (\<lambda>y. y \<le> x) xs \<and>
    dropWhile (\<lambda>y. y \<le> x) xs = filter (\<lambda>y. x < y) xs"
    using assms
  proof (induction xs)
    case (Cons a xs)
    show ?case
    proof (cases "a \<le> x")
      case False
      then have all: "\<forall>y \<in> set xs. x < y" using Cons.prems by auto
      then have "filter (\<lambda>y. y \<le> x) xs = []" by (auto simp: filter_empty_conv)
      with all False show ?thesis by (simp add: filter_id_conv)
    qed (use Cons in auto)
  qed simp
  then show "takeWhile (\<lambda>y. y \<le> x) xs = filter (\<lambda>y. y \<le> x) xs"
    and "dropWhile (\<lambda>y. y \<le> x) xs = filter (\<lambda>y. x < y) xs" by simp_all
qed

lemma insort_right_sorted:
  assumes "sorted_wrt (<) xs" and "x \<notin> set xs"
  shows "sorted_wrt (<) (insort_right x xs) \<and> set (insort_right x xs) = insert x (set xs)"
  using assms
  by (auto simp: insort_right_def sorted_take_drop sorted_wrt_append sorted_wrt_filter order.strict_iff_order)

lemma delete_at_bisect:
  "sorted_wrt (<) xs \<Longrightarrow> x \<in> set xs \<Longrightarrow> delete_at (bisect_left xs x) xs = filter (\<lambda>y. y \<noteq> x) xs"
proof (induction xs)
  case Nil
  then show ?case by simp
next
  case (Cons a xs)
  show ?case
  proof (cases "a < x")
    case True
    then have "delete_at (bisect_left (a # xs) x) (a # xs) = a # delete_at (bisect_left xs x) xs"
      by (simp add: delete_at_def bisect_left_def)
    with True Cons show ?thesis by auto
  next
    case False
    then have "a = x" "\<forall>y \<in> set xs. y \<noteq> x" using Cons.prems by auto
    then show ?thesis by (simp add: delete_at_def bisect_left_def filter_id_conv)
  qed
qed

lemma set_level_lookup:
  "sd_levels (set_level s p q) = (sd_levels s)(p := if q = 0 then None else Some q)"
  by (auto simp: set_level_def Let_def fun_eq_iff)

lemma set_level_descending [simp]: "sd_descending (set_level s p q) = sd_descending s"
  by (simp add: set_level_def Let_def)

lemma side_key_cong: "sd_descending t = sd_descending s \<Longrightarrow> side_key t = side_key s"
  by (simp add: side_key_def fun_eq_iff)

lemma set_level_inv:
  assumes "side_inv s"
  shows "side_inv (set_level s p q)"
proof -
  have so: "sorted_wrt (<) (sd_keys s)" and st: "set (sd_keys s) = side_key s ` dom (sd_levels s)"
    using assms by (auto simp: side_inv_def)
  have k: "side_key (set_level s p q) = side_key s" by (rule side_key_cong) simp
  have mem: "side_key s p \<in> set (sd_keys s) \<longleftrightarrow> sd_levels s p \<noteq> None"
    unfolding st by (auto simp: image_iff)
  show ?thesis
  proof (cases "sd_levels s p = None")
    case True
    then have "side_key s p \<notin> set (sd_keys s)" using mem by simp
    note i = insort_right_sorted [OF so this]
    show ?thesis
      unfolding side_inv_def k set_level_lookup
      using True so st i by (auto simp: set_level_def Let_def)
  next
    case False
    then have "side_key s p \<in> set (sd_keys s)" using mem by simp
    note d = delete_at_bisect [OF so this]
    show ?thesis
      unfolding side_inv_def k set_level_lookup
      using False so st by (auto simp: set_level_def Let_def d sorted_wrt_filter image_iff dom_def)
  qed
qed

lemma empty_side_inv: "side_inv (empty_side desc)"
  by (simp add: side_inv_def empty_side_def)

text \<open>The interface of a level store: a map from price to size that a level is set in.\<close>

locale level_store =
  fixes put :: "'s \<Rightarrow> 'k \<Rightarrow> rat \<Rightarrow> 's"
    and look :: "'s \<Rightarrow> 'k \<rightharpoonup> rat"
    and ok :: "'s \<Rightarrow> bool"
  assumes look_put: "look (put s p q) = (look s)(p := if q = 0 then None else Some q)"
    and ok_put: "ok s \<Longrightarrow> ok (put s p q)"
begin

definition put_all :: "'s \<Rightarrow> ('k \<times> rat) list \<Rightarrow> 's" where
  "put_all s rows = foldl (\<lambda>s (p, q). put s p q) s rows"

lemma put_all_simps [simp]:
  "put_all s [] = s" "put_all s ((p, q) # rows) = put_all (put s p q) rows"
  by (simp_all add: put_all_def)

lemma ok_put_all: "ok s \<Longrightarrow> ok (put_all s rows)"
  by (induction rows arbitrary: s) (auto simp: ok_put)

text \<open>What a price holds after a run of levels: the last one set, or what was there.\<close>

lemma look_put_all:
  "look (put_all s rows) p =
     (case map_of (rev rows) p of None \<Rightarrow> look s p | Some q \<Rightarrow> if q = 0 then None else Some q)"
  by (induction rows arbitrary: s) (auto simp: look_put map_add_def split: option.splits)

text \<open>So setting the same levels again changes nothing that can be looked up.\<close>

lemma put_all_again: "look (put_all (put_all s rows) rows) = look (put_all s rows)"
  by (rule ext) (simp add: look_put_all split: option.splits)

lemma put_all_cong: "look s = look t \<Longrightarrow> look (put_all s rows) = look (put_all t rows)"
  by (rule ext) (simp add: look_put_all fun_eq_iff split: option.split)

end

interpretation sd: level_store set_level sd_levels side_inv
  by unfold_locales (simp_all add: set_level_lookup set_level_inv)

lemma levels_at_ok:
  "\<forall>p \<in> set ps. m p \<noteq> None \<Longrightarrow>
   levels_at m ps = Inr (map (\<lambda>p. \<lparr>lvl_price = p, lvl_size = the (m p)\<rparr>) ps)"
  by (induction ps) auto

lemma side_top_ok:
  assumes "side_inv s"
  shows "\<exists>ls. side_top s depth = Inr ls \<and>
    sorted_wrt (if sd_descending s then (>) else (<)) (map lvl_price ls) \<and>
    (\<forall>l \<in> set ls. sd_levels s (lvl_price l) = Some (lvl_size l)) \<and>
    (depth = None \<longrightarrow> set (map lvl_price ls) = dom (sd_levels s))"
proof -
  define keys where "keys = (case depth of None \<Rightarrow> sd_keys s | Some n \<Rightarrow> take n (sd_keys s))"
  have so: "sorted_wrt (<) keys"
    using assms by (auto simp: keys_def side_inv_def sorted_wrt_take split: option.split)
  have sub: "set keys \<subseteq> side_key s ` dom (sd_levels s)"
    using assms set_take_subset by (fastforce simp: keys_def side_inv_def split: option.splits)
  then have mem: "\<forall>p \<in> set (map (side_key s) keys). sd_levels s p \<noteq> None" by auto
  let ?ls = "map (\<lambda>p. \<lparr>lvl_price = p, lvl_size = the (sd_levels s p)\<rparr>) (map (side_key s) keys)"
  have t: "side_top s depth = Inr ?ls"
    using levels_at_ok [OF mem] by (simp add: side_top_def keys_def Let_def)
  have prices: "map lvl_price ?ls = map (side_key s) keys" by (simp add: comp_def)
  have "sorted_wrt (if sd_descending s then (>) else (<)) (map (side_key s) keys)"
    using so by (auto simp: sorted_wrt_map side_key_def elim: sorted_wrt_mono_rel [rotated])
  moreover have "depth = None \<longrightarrow> set (map (side_key s) keys) = dom (sd_levels s)"
    using assms by (auto simp: keys_def side_inv_def image_image)
  moreover have "\<forall>l \<in> set ?ls. sd_levels s (lvl_price l) = Some (lvl_size l)" using mem by auto
  ultimately show ?thesis using t prices by metis
qed

section \<open>The builder serves only well-formed books\<close>

definition builder_inv :: "book_builder \<Rightarrow> bool" where
  "builder_inv b \<longleftrightarrow> side_inv (bb_bids b) \<and> side_inv (bb_asks b) \<and>
     sd_descending (bb_bids b) \<and> \<not> sd_descending (bb_asks b) \<and>
     (bb_synced b \<longrightarrow> bb_last b \<noteq> None) \<and> length (bb_buffer b) \<le> bb_max_buffered b \<and>
     1 \<le> bb_max_buffered b"

lemma buffer_delta_fields [simp]:
  "bb_bids (buffer_delta b d) = bb_bids b" "bb_asks (buffer_delta b d) = bb_asks b"
  "bb_last (buffer_delta b d) = bb_last b" "bb_synced (buffer_delta b d) = bb_synced b"
  "bb_max_buffered (buffer_delta b d) = bb_max_buffered b" "bb_batch (buffer_delta b d) = bb_batch b"
  "bb_symbol (buffer_delta b d) = bb_symbol b"
  by (simp_all add: buffer_delta_def Let_def)

lemma set_on_side_fields [simp]:
  "bb_last (set_on_side b d) = bb_last b" "bb_synced (set_on_side b d) = bb_synced b"
  "bb_max_buffered (set_on_side b d) = bb_max_buffered b" "bb_buffer (set_on_side b d) = bb_buffer b"
  "bb_symbol (set_on_side b d) = bb_symbol b" "bb_dropped_through (set_on_side b d) = bb_dropped_through b"
  by (simp_all add: set_on_side_def)

lemma set_on_side_sides [simp]:
  "bb_bids (set_on_side b d) =
     (if bd_side d = BUY then set_level (bb_bids b) (bd_price d) (bd_size d) else bb_bids b)"
  "bb_asks (set_on_side b d) =
     (if bd_side d = BUY then bb_asks b else set_level (bb_asks b) (bd_price d) (bd_size d))"
  by (simp_all add: set_on_side_def)

lemma buffer_delta_length:
  "length (bb_buffer b) \<le> bb_max_buffered b \<Longrightarrow> 1 \<le> bb_max_buffered b \<Longrightarrow>
   length (bb_buffer (buffer_delta b d)) \<le> bb_max_buffered b"
  by (auto simp: buffer_delta_def Let_def)

lemma buffer_delta_inv: "builder_inv b \<Longrightarrow> builder_inv (buffer_delta b d)"
  by (simp add: builder_inv_def buffer_delta_length)

lemma set_on_side_inv:
  "builder_inv b \<Longrightarrow> builder_inv ((set_on_side b d)\<lparr>bb_last := Some n, bb_batch := Some c\<rparr>)"
  by (simp add: builder_inv_def set_level_inv)

lemma apply_delta_inv:
  assumes "builder_inv b"
  shows "builder_inv (fst (apply_delta b d))"
proof -
  have "builder_inv (b\<lparr>bb_gaps := bb_gaps b + 1, bb_synced := False\<rparr>)"
    and "builder_inv (b\<lparr>bb_stale_deltas := bb_stale_deltas b + 1\<rparr>)"
    using assms by (simp_all add: builder_inv_def)
  then show ?thesis
    using assms by (simp add: apply_delta_def Let_def buffer_delta_inv set_on_side_inv)
qed

lemma side_from_puts: "side_from s rows = Inr t \<Longrightarrow> sd.put_all s rows = t"
proof (induction rows arbitrary: s)
  case Nil
  then show ?case by simp
next
  case (Cons row rows)
  obtain p q where row: "row = (p, q)" by fastforce
  have "side_from (set_level s p q) rows = Inr t"
    using Cons.prems by (cases "check_level p q") (simp_all add: row)
  then show ?case using Cons.IH by (simp add: row)
qed

lemma put_all_descending: "sd_descending (sd.put_all s rows) = sd_descending s"
proof (induction rows arbitrary: s)
  case (Cons row rows)
  obtain p q where row: "row = (p, q)" by fastforce
  show ?case using Cons.IH [of "set_level s p q"] by (simp add: row)
qed simp

lemma side_from_inv: "side_from s rows = Inr t \<Longrightarrow> side_inv s \<Longrightarrow>
   side_inv t \<and> sd_descending t = sd_descending s"
  using side_from_puts sd.ok_put_all put_all_descending by metis

lemma replay_buffer_inv: "builder_inv b \<Longrightarrow> builder_inv (replay_buffer b n ds)"
  by (induction ds arbitrary: b) (auto simp: replay_buffer_def apply_delta_inv)

lemma apply_snapshot_cases:
  assumes "apply_snapshot b n bs as = Inr (b', ok)"
  obtains (stale) "\<not> ok" "b' = b\<lparr>bb_stale_snapshots := bb_stale_snapshots b + 1\<rparr>"
  | (applied) nb na where "ok" "side_from (empty_side True) bs = Inr nb"
      "side_from (empty_side False) as = Inr na"
      "b' = replay_buffer (b\<lparr>bb_bids := nb, bb_asks := na, bb_last := Some n, bb_synced := True,
              bb_dropped_through := None, bb_batch := None, bb_buffer := []\<rparr>) n (bb_buffer b)"
      "case bb_dropped_through b of None \<Rightarrow> True | Some m \<Rightarrow> m \<le> n"
      "bb_synced b \<longrightarrow> (case bb_last b of None \<Rightarrow> True | Some m \<Rightarrow> m \<le> n)"
proof (cases "(bb_synced b \<and> (case bb_last b of None \<Rightarrow> False | Some m \<Rightarrow> n < m)) \<or>
    (case bb_dropped_through b of None \<Rightarrow> False | Some m \<Rightarrow> n < m)")
  case True
  with assms have "b' = b\<lparr>bb_stale_snapshots := bb_stale_snapshots b + 1\<rparr>" "\<not> ok"
    by (simp_all add: apply_snapshot_def Let_def)
  then show thesis by (intro stale)
next
  case False
  then obtain nb na where r: "side_from (empty_side True) bs = Inr nb"
      "side_from (empty_side False) as = Inr na" "ok"
      "b' = replay_buffer (b\<lparr>bb_bids := nb, bb_asks := na, bb_last := Some n, bb_synced := True,
              bb_dropped_through := None, bb_batch := None, bb_buffer := []\<rparr>) n (bb_buffer b)"
    using assms by (simp only: apply_snapshot_def Let_def if_False bind_result_eq_Inr) blast
  have "case bb_dropped_through b of None \<Rightarrow> True | Some m \<Rightarrow> m \<le> n"
    and "bb_synced b \<longrightarrow> (case bb_last b of None \<Rightarrow> True | Some m \<Rightarrow> m \<le> n)"
    using False by (auto split: option.splits)
  with r show thesis by (intro applied)
qed

lemma apply_snapshot_inv:
  assumes "apply_snapshot b n bs as = Inr (b', ok)" and "builder_inv b"
  shows "builder_inv b'"
  using assms(1)
proof (cases rule: apply_snapshot_cases)
  case stale
  with assms(2) show ?thesis by (simp add: builder_inv_def)
next
  case (applied nb na)
  have "side_inv nb \<and> sd_descending nb" "side_inv na \<and> \<not> sd_descending na"
    using side_from_inv [OF applied(2) empty_side_inv] side_from_inv [OF applied(3) empty_side_inv]
    by (simp_all add: empty_side_def)
  then have "builder_inv (b\<lparr>bb_bids := nb, bb_asks := na, bb_last := Some n, bb_synced := True,
      bb_dropped_through := None, bb_batch := None, bb_buffer := []\<rparr>)"
    using assms(2) by (simp add: builder_inv_def)
  then show ?thesis unfolding applied(4) by (rule replay_buffer_inv)
qed

lemma new_builder_inv: "new_builder inst n = Inr b \<Longrightarrow> builder_inv b"
  by (auto simp: new_builder_def builder_inv_def empty_side_inv split: if_splits)
    (simp_all add: empty_side_def)

lemma book_snapshot_ok:
  assumes "builder_inv b" and "bb_synced b" and "case depth of None \<Rightarrow> True | Some d \<Rightarrow> 1 \<le> d"
  shows "\<exists>ob. book_snapshot b depth = Inr ob \<and> order_book_valid ob \<and> ob_sequence ob = the (bb_last b) \<and>
    (\<forall>l \<in> set (bids ob). sd_levels (bb_bids b) (lvl_price l) = Some (lvl_size l)) \<and>
    (\<forall>l \<in> set (asks ob). sd_levels (bb_asks b) (lvl_price l) = Some (lvl_size l)) \<and>
    (depth = None \<longrightarrow> set (map lvl_price (bids ob)) = dom (sd_levels (bb_bids b)) \<and>
       set (map lvl_price (asks ob)) = dom (sd_levels (bb_asks b)))"
proof -
  have i: "side_inv (bb_bids b)" "side_inv (bb_asks b)" "sd_descending (bb_bids b)"
    "\<not> sd_descending (bb_asks b)" "bb_last b \<noteq> None"
    using assms(1,2) by (auto simp: builder_inv_def)
  let ?d = "map_option nat depth"
  obtain bs where b: "side_top (bb_bids b) ?d = Inr bs" "sorted_wrt (>) (map lvl_price bs)"
      "\<forall>l \<in> set bs. sd_levels (bb_bids b) (lvl_price l) = Some (lvl_size l)"
      "?d = None \<longrightarrow> set (map lvl_price bs) = dom (sd_levels (bb_bids b))"
    using side_top_ok [OF i(1), of ?d] i(3) by auto
  obtain as where a: "side_top (bb_asks b) ?d = Inr as" "sorted_wrt (<) (map lvl_price as)"
      "\<forall>l \<in> set as. sd_levels (bb_asks b) (lvl_price l) = Some (lvl_size l)"
      "?d = None \<longrightarrow> set (map lvl_price as) = dom (sd_levels (bb_asks b))"
    using side_top_ok [OF i(2), of ?d] i(4) by auto
  obtain n where n: "bb_last b = Some n" using i(5) by auto
  have "book_snapshot b depth = Inr \<lparr>ob_symbol = bb_symbol b, ob_sequence = n, bids = bs, asks = as\<rparr>"
    using assms(2,3) a(1,2) b(1,2) n
    by (auto simp: book_snapshot_def Let_def order_book_valid_def last_or_zero_def split: option.splits)
  with a b n show ?thesis by (auto simp: order_book_valid_def)
qed

lemma book_snapshot_unsynced: "\<not> bb_synced b \<Longrightarrow> \<not> is_ok (book_snapshot b depth)"
  by (auto simp: book_snapshot_def Let_def split: option.split)

section \<open>The builder never serves a wrong book\<close>

text \<open>
  The venue's side of the protocol: a feed is a list of updates, each with the contiguous range of
  sequence numbers it covers and the levels it sets. The true book at a sequence number is the
  initial one with every update up to it applied.
\<close>

type_synonym abstract_book = "order_side \<times> rat \<rightharpoonup> rat"

record feed_update =
  fu_first :: int
  fu_last :: int
  fu_changes :: "((order_side \<times> rat) \<times> rat) list"

definition put_level :: "abstract_book \<Rightarrow> order_side \<times> rat \<Rightarrow> rat \<Rightarrow> abstract_book" where
  "put_level m k q = m(k := if q = 0 then None else Some q)"

interpretation ab: level_store put_level "\<lambda>m. m" "\<lambda>m. True"
  by unfold_locales (simp_all add: put_level_def)

fun feed_ok :: "int \<Rightarrow> feed_update list \<Rightarrow> bool" where
  "feed_ok n [] = True"
| "feed_ok n (u # us) =
     (fu_first u = n + 1 \<and> fu_first u \<le> fu_last u \<and> fu_changes u \<noteq> [] \<and> feed_ok (fu_last u) us)"

definition true_book :: "abstract_book \<Rightarrow> feed_update list \<Rightarrow> int \<Rightarrow> abstract_book" where
  "true_book B us n = foldl (\<lambda>B u. ab.put_all B (fu_changes u)) B (filter (\<lambda>u. fu_last u \<le> n) us)"

definition boundary :: "int \<Rightarrow> feed_update list \<Rightarrow> int \<Rightarrow> bool" where
  "boundary n0 us n \<longleftrightarrow> n = n0 \<or> n \<in> fu_last ` set us"

definition deltas_of :: "feed_update \<Rightarrow> book_delta list" where
  "deltas_of u = map (\<lambda>((sd, p), q). \<lparr>bd_side = sd, bd_price = p, bd_size = q, bd_sequence = fu_last u,
      bd_first = (if fu_first u = fu_last u then None else Some (fu_first u))\<rparr>) (fu_changes u)"

definition builder_book :: "book_builder \<Rightarrow> abstract_book" where
  "builder_book b =
     (\<lambda>k. case fst k of BUY \<Rightarrow> sd_levels (bb_bids b) (snd k) | SELL \<Rightarrow> sd_levels (bb_asks b) (snd k))"

definition deliver :: "book_builder \<Rightarrow> book_delta list \<Rightarrow> book_builder" where
  "deliver b ds = foldl (\<lambda>b d. fst (apply_delta b d)) b ds"

definition rows_show :: "abstract_book \<Rightarrow> (rat \<times> rat) list \<Rightarrow> (rat \<times> rat) list \<Rightarrow> bool" where
  "rows_show m bs as \<longleftrightarrow>
     sd_levels (sd.put_all (empty_side True) bs) = (\<lambda>p. m (BUY, p)) \<and>
     sd_levels (sd.put_all (empty_side False) as) = (\<lambda>p. m (SELL, p))"

text \<open>
  What may reach the client: updates in any order, any number of times or never, and snapshots of
  the true book at any boundary, whenever they come.
\<close>

inductive feed_reaches ::
    "int \<Rightarrow> abstract_book \<Rightarrow> feed_update list \<Rightarrow> symbol \<Rightarrow> nat \<Rightarrow> book_builder \<Rightarrow> bool"
  for n0 B us inst k where
  start: "new_builder inst k = Inr b \<Longrightarrow> feed_reaches n0 B us inst k b"
| update: "feed_reaches n0 B us inst k b \<Longrightarrow> u \<in> set us \<Longrightarrow>
    feed_reaches n0 B us inst k (deliver b (deltas_of u))"
| snapshot: "feed_reaches n0 B us inst k b \<Longrightarrow> boundary n0 us n \<Longrightarrow> rows_show (true_book B us n) bs as \<Longrightarrow>
    apply_snapshot b n bs as = Inr (b', ok) \<Longrightarrow> feed_reaches n0 B us inst k b'"

lemma feed_bounds: "feed_ok n us \<Longrightarrow> u \<in> set us \<Longrightarrow> n < fu_first u \<and> fu_first u \<le> fu_last u \<and> fu_changes u \<noteq> []"
  by (induction us arbitrary: n) fastforce+

lemma feed_split:
  assumes "feed_ok n us" and "u \<in> set us"
  obtains pre post where "us = pre @ u # post" "\<forall>v \<in> set pre. fu_last v < fu_first u"
    "\<forall>v \<in> set post. fu_last u < fu_last v" "boundary n us (fu_first u - 1)"
    "boundary n pre (fu_first u - 1)"
proof -
  have "\<exists>pre post. us = pre @ u # post \<and> (\<forall>v \<in> set pre. fu_last v < fu_first u) \<and>
    (\<forall>v \<in> set post. fu_last u < fu_last v) \<and> boundary n pre (fu_first u - 1)"
    using assms
  proof (induction us arbitrary: n)
    case (Cons a us)
    show ?case
    proof (cases "u = a")
      case True
      have "\<forall>v \<in> set us. fu_last u < fu_last v"
        using Cons.prems True feed_bounds [of "fu_last a" us] by fastforce
      then show ?thesis using Cons.prems True
        by (intro exI [of _ "[]"] exI [of _ us]) (simp add: boundary_def)
    next
      case False
      then have u: "u \<in> set us" and f: "feed_ok (fu_last a) us" using Cons.prems by auto
      obtain pre post where s: "us = pre @ u # post" "\<forall>v \<in> set pre. fu_last v < fu_first u"
        "\<forall>v \<in> set post. fu_last u < fu_last v" "boundary (fu_last a) pre (fu_first u - 1)"
        using Cons.IH [OF f u] by blast
      moreover have "fu_last a < fu_first u" using feed_bounds [OF f u] by simp
      ultimately show ?thesis
        by (intro exI [of _ "a # pre"] exI [of _ post]) (auto simp: boundary_def)
    qed
  qed simp
  then obtain pre post where "us = pre @ u # post" "\<forall>v \<in> set pre. fu_last v < fu_first u"
    "\<forall>v \<in> set post. fu_last u < fu_last v" "boundary n pre (fu_first u - 1)" by blast
  moreover from this have "boundary n us (fu_first u - 1)" by (auto simp: boundary_def)
  ultimately show thesis by (intro that)
qed

text \<open>No boundary lies strictly inside an update's range, and an update advances the true book.\<close>

lemma boundary_outside:
  assumes "feed_ok n0 us" and "u \<in> set us" and "boundary n0 us n" and "n < fu_last u"
  shows "n \<le> fu_first u - 1"
proof -
  obtain pre post where s: "us = pre @ u # post" "\<forall>v \<in> set pre. fu_last v < fu_first u"
    "\<forall>v \<in> set post. fu_last u < fu_last v"
    by (rule feed_split [OF assms(1,2)])
  have "n0 < fu_first u" using feed_bounds [OF assms(1,2)] by simp
  then show ?thesis using assms(3,4) s by (auto simp: boundary_def)
qed

lemma true_book_update:
  assumes "feed_ok n0 us" and "u \<in> set us"
  shows "true_book B us (fu_last u) = ab.put_all (true_book B us (fu_first u - 1)) (fu_changes u)"
proof -
  obtain pre post where s: "us = pre @ u # post" "\<forall>v \<in> set pre. fu_last v < fu_first u"
    "\<forall>v \<in> set post. fu_last u < fu_last v"
    by (rule feed_split [OF assms])
  have le: "fu_first u \<le> fu_last u" using feed_bounds [OF assms] by simp
  have "filter (\<lambda>v. fu_last v \<le> fu_last u) pre = pre" "filter (\<lambda>v. fu_last v \<le> fu_last u) post = []"
    "filter (\<lambda>v. fu_last v \<le> fu_first u - 1) pre = pre" "filter (\<lambda>v. fu_last v \<le> fu_first u - 1) post = []"
    using s(2,3) le by (fastforce intro!: filter_True filter_False)+
  then have "filter (\<lambda>v. fu_last v \<le> fu_last u) us = pre @ [u]"
    and "filter (\<lambda>v. fu_last v \<le> fu_first u - 1) us = pre"
    using le by (simp_all add: s(1))
  then show ?thesis by (simp add: true_book_def)
qed

lemma feed_last_inject:
  assumes "feed_ok n0 us" and "u \<in> set us" "v \<in> set us" and "fu_last u = fu_last v"
  shows "u = v"
proof -
  obtain pre post where s: "us = pre @ u # post" "\<forall>v \<in> set pre. fu_last v < fu_first u"
    "\<forall>v \<in> set post. fu_last u < fu_last v"
    by (rule feed_split [OF assms(1,2)])
  have "fu_first u \<le> fu_last u" using feed_bounds [OF assms(1,2)] by simp
  then show ?thesis using assms(3,4) s by auto
qed

lemma deltas_of_fields:
  "d \<in> set (deltas_of u) \<Longrightarrow> bd_sequence d = fu_last u \<and> delta_start d = fu_first u"
  by (auto simp: deltas_of_def delta_start_def)

lemma set_on_side_book:
  "builder_book (set_on_side b d) = put_level (builder_book b) (bd_side d, bd_price d) (bd_size d)"
  by (cases "bd_side d")
    (auto simp: builder_book_def put_level_def set_level_lookup fun_eq_iff split: order_side.splits)

lemma builder_book_cong [simp]:
  "builder_book (b\<lparr>bb_last := x\<rparr>) = builder_book b" "builder_book (b\<lparr>bb_batch := y\<rparr>) = builder_book b"
  "builder_book (b\<lparr>bb_stale_deltas := k\<rparr>) = builder_book b"
  "builder_book (b\<lparr>bb_synced := z\<rparr>) = builder_book b"
  "builder_book (b\<lparr>bb_stale_snapshots := k\<rparr>) = builder_book b"
  by (simp_all add: builder_book_def fun_eq_iff split: order_side.splits)

text \<open>A whole update that applies: every delta of it applies, and the book advances by its changes.\<close>

lemma deliver_applied:
  assumes "\<forall>d \<in> set ds. bd_sequence d = l \<and> delta_start d = f" and "bb_synced b"
    and "(bb_last b = Some l \<and> bb_batch b = Some (f, l)) \<or> (\<exists>n. bb_last b = Some n \<and> f \<le> n + 1 \<and> n < l)"
    and "f \<le> l" and "ds \<noteq> []"
  shows "bb_synced (deliver b ds) \<and> bb_last (deliver b ds) = Some l \<and>
    bb_batch (deliver b ds) = Some (f, l) \<and> bb_buffer (deliver b ds) = bb_buffer b \<and>
    bb_dropped_through (deliver b ds) = bb_dropped_through b \<and>
    builder_book (deliver b ds) =
      ab.put_all (builder_book b) (map (\<lambda>d. ((bd_side d, bd_price d), bd_size d)) ds)"
  using assms
proof (induction ds arbitrary: b)
  case Nil
  then show ?case by simp
next
  case (Cons d ds)
  have d: "bd_sequence d = l" "delta_start d = f" using Cons.prems by auto
  define b1 where "b1 = fst (apply_delta b d)"
  have b1: "b1 = (set_on_side b d)\<lparr>bb_last := Some l, bb_batch := Some (f, l)\<rparr>"
    using Cons.prems(2,3,4) d by (auto simp: b1_def apply_delta_def Let_def last_or_zero_def)
  have st: "bb_synced b1" "bb_last b1 = Some l" "bb_batch b1 = Some (f, l)" "bb_buffer b1 = bb_buffer b"
    "bb_dropped_through b1 = bb_dropped_through b"
    "builder_book b1 = put_level (builder_book b) (bd_side d, bd_price d) (bd_size d)"
    using Cons.prems(2) by (simp_all add: b1 set_on_side_book)
  have dl: "deliver b (d # ds) = deliver b1 ds" by (simp add: deliver_def b1_def)
  show ?case
  proof (cases "ds = []")
    case True
    then show ?thesis using st dl by (simp add: deliver_def)
  next
    case False
    then show ?thesis using Cons.IH [of b1] Cons.prems st dl by simp
  qed
qed

lemma deliver_stale:
  assumes "\<forall>d \<in> set ds. bd_sequence d = l \<and> delta_start d = f" and "bb_synced b"
    and "bb_last b = Some n" "l \<le> n" "bb_batch b \<noteq> Some (f, l)"
  shows "\<exists>k. deliver b ds = b\<lparr>bb_stale_deltas := k\<rparr>"
  using assms
proof (induction ds arbitrary: b)
  case Nil
  then show ?case by (auto simp: deliver_def intro: exI [of _ "bb_stale_deltas b"])
next
  case (Cons d ds)
  have "fst (apply_delta b d) = b\<lparr>bb_stale_deltas := bb_stale_deltas b + 1\<rparr>"
    using Cons.prems by (auto simp: apply_delta_def Let_def last_or_zero_def)
  then have dl: "deliver b (d # ds) = deliver (b\<lparr>bb_stale_deltas := bb_stale_deltas b + 1\<rparr>) ds"
    by (simp add: deliver_def)
  obtain k where "deliver (b\<lparr>bb_stale_deltas := bb_stale_deltas b + 1\<rparr>) ds =
      b\<lparr>bb_stale_deltas := bb_stale_deltas b + 1\<rparr>\<lparr>bb_stale_deltas := k\<rparr>"
    using Cons.IH [of "b\<lparr>bb_stale_deltas := bb_stale_deltas b + 1\<rparr>"] Cons.prems by auto
  with dl show ?case by auto
qed

text \<open>
  What is buffered: beyond what the bounded buffer has dropped, only whole updates of the feed. While
  an update is being buffered, its deltas so far come last.
\<close>

definition newer :: "int option \<Rightarrow> int \<Rightarrow> bool" where
  "newer dropped n = (case dropped of None \<Rightarrow> True | Some m \<Rightarrow> m < n)"

definition whole_updates :: "feed_update list \<Rightarrow> book_delta list \<Rightarrow> bool" where
  "whole_updates us ds \<longleftrightarrow> (\<exists>ws. set ws \<subseteq> set us \<and> ds = concat (map deltas_of ws))"

definition buffered_ok :: "feed_update list \<Rightarrow> feed_update \<Rightarrow> book_delta list \<Rightarrow> book_builder \<Rightarrow> bool" where
  "buffered_ok us u q b \<longleftrightarrow> (\<exists>whole. whole_updates us whole \<and>
     filter (\<lambda>d. newer (bb_dropped_through b) (bd_sequence d)) (bb_buffer b) =
       whole @ (if newer (bb_dropped_through b) (fu_last u) then q else []))"

lemma filter_deltas_of:
  "filter (\<lambda>d. P (bd_sequence d)) (deltas_of u) = (if P (fu_last u) then deltas_of u else [])"
  using deltas_of_fields [of _ u] by (auto simp: filter_id_conv filter_empty_conv)

lemma whole_updates_Nil [simp]: "whole_updates us []"
  unfolding whole_updates_def by (rule exI [of _ "[]"]) simp

lemma whole_updates_filter:
  assumes "whole_updates us ds"
  shows "whole_updates us (filter (\<lambda>d. P (bd_sequence d)) ds)"
proof -
  obtain ws where ws: "set ws \<subseteq> set us" "ds = concat (map deltas_of ws)"
    using assms by (auto simp: whole_updates_def)
  have "filter (\<lambda>d. P (bd_sequence d)) (concat (map deltas_of ws)) =
    concat (map deltas_of (filter (\<lambda>w. P (fu_last w)) ws))"
    by (induction ws) (simp_all add: filter_deltas_of)
  with ws show ?thesis
    by (auto simp: whole_updates_def intro!: exI [of _ "filter (\<lambda>w. P (fu_last w)) ws"])
qed

lemma filter_newer_tl:
  assumes "xs \<noteq> []" and "m' = max (case m of None \<Rightarrow> 0 | Some k \<Rightarrow> k) (bd_sequence (hd xs))"
  shows "filter (\<lambda>d. newer (Some m') (bd_sequence d)) (tl xs) =
    filter (\<lambda>d. newer (Some m') (bd_sequence d)) (filter (\<lambda>d. newer m (bd_sequence d)) xs)"
proof -
  have "newer (Some m') n \<Longrightarrow> newer m n" for n using assms(2) by (auto simp: newer_def split: option.splits)
  then have "filter (\<lambda>d. newer (Some m') (bd_sequence d)) (filter (\<lambda>d. newer m (bd_sequence d)) xs) =
      filter (\<lambda>d. newer (Some m') (bd_sequence d)) xs" by (auto intro: filter_cong)
  moreover have "\<not> newer (Some m') (bd_sequence (hd xs))" using assms(2) by (simp add: newer_def)
  ultimately show ?thesis using assms(1) by (cases xs) simp_all
qed

lemma buffer_delta_ok:
  assumes b: "buffered_ok us u q b" and d: "bd_sequence d = fu_last u"
    and q: "\<forall>x \<in> set q. bd_sequence x = fu_last u" and k: "1 \<le> bb_max_buffered b"
  shows "buffered_ok us u (q @ [d]) (buffer_delta b d)"
proof -
  obtain whole where w: "whole_updates us whole"
    "filter (\<lambda>d. newer (bb_dropped_through b) (bd_sequence d)) (bb_buffer b) =
       whole @ (if newer (bb_dropped_through b) (fu_last u) then q else [])"
    using b by (auto simp: buffered_ok_def)
  show ?thesis
  proof (cases "bb_max_buffered b \<le> length (bb_buffer b)")
    case False
    then have "bb_dropped_through (buffer_delta b d) = bb_dropped_through b"
      "bb_buffer (buffer_delta b d) = bb_buffer b @ [d]" by (simp_all add: buffer_delta_def)
    then show ?thesis using w d by (auto simp: buffered_ok_def)
  next
    case True
    define m where "m = max (case bb_dropped_through b of None \<Rightarrow> 0 | Some k \<Rightarrow> k)
      (bd_sequence (hd (bb_buffer b)))"
    have ne: "bb_buffer b \<noteq> []" using True k by auto
    have f: "bb_dropped_through (buffer_delta b d) = Some m"
      "bb_buffer (buffer_delta b d) = tl (bb_buffer b) @ [d]"
      using True by (simp_all add: buffer_delta_def Let_def m_def)
    have imp: "newer (Some m) n \<Longrightarrow> newer (bb_dropped_through b) n" for n
      by (auto simp: newer_def m_def split: option.splits)
    let ?P = "\<lambda>d. newer (Some m) (bd_sequence d)"
    have "filter ?P (tl (bb_buffer b)) = filter ?P whole @ (if newer (Some m) (fu_last u) then q else [])"
      unfolding filter_newer_tl [OF ne m_def] w(2) using q imp
      by (auto simp: filter_id_conv filter_empty_conv)
    then have "filter ?P (tl (bb_buffer b) @ [d]) =
        filter ?P whole @ (if newer (Some m) (fu_last u) then q @ [d] else [])"
      using d by simp
    then show ?thesis
      unfolding buffered_ok_def f using whole_updates_filter [OF w(1)] by blast
  qed
qed

lemma deliver_unsynced:
  assumes "\<not> bb_synced b" and "buffered_ok us u q b" and "1 \<le> bb_max_buffered b"
    and "\<forall>x \<in> set (q @ ds). bd_sequence x = fu_last u"
  shows "\<not> bb_synced (deliver b ds) \<and> buffered_ok us u (q @ ds) (deliver b ds)"
  using assms
proof (induction ds arbitrary: b q)
  case Nil
  then show ?case by (simp add: deliver_def)
next
  case (Cons d ds)
  have "fst (apply_delta b d) = buffer_delta b d" using Cons.prems(1) by (simp add: apply_delta_def)
  then have dl: "deliver b (d # ds) = deliver (buffer_delta b d) ds" by (simp add: deliver_def)
  have "buffered_ok us u (q @ [d]) (buffer_delta b d)"
    using Cons.prems by (intro buffer_delta_ok) auto
  then show ?case using Cons.IH [of "buffer_delta b d" "q @ [d]"] Cons.prems dl by simp
qed

definition buffer_whole :: "feed_update list \<Rightarrow> book_builder \<Rightarrow> bool" where
  "buffer_whole us b \<longleftrightarrow>
     whole_updates us (filter (\<lambda>d. newer (bb_dropped_through b) (bd_sequence d)) (bb_buffer b))"

lemma buffered_ok_whole:
  assumes "u \<in> set us" and "buffered_ok us u (deltas_of u) b"
  shows "buffer_whole us b"
proof -
  obtain ws where "set ws \<subseteq> set us" and
    "filter (\<lambda>d. newer (bb_dropped_through b) (bd_sequence d)) (bb_buffer b) =
       concat (map deltas_of ws) @ (if newer (bb_dropped_through b) (fu_last u) then deltas_of u else [])"
    using assms(2) by (auto simp: buffered_ok_def whole_updates_def)
  with assms(1) show ?thesis
    unfolding buffer_whole_def whole_updates_def
    by (intro exI [of _ "if newer (bb_dropped_through b) (fu_last u) then ws @ [u] else ws"]) auto
qed

text \<open>The invariant, and that one whole update keeps it.\<close>

definition serves_truth ::
    "int \<Rightarrow> abstract_book \<Rightarrow> feed_update list \<Rightarrow> book_builder \<Rightarrow> bool" where
  "serves_truth n0 B us b \<longleftrightarrow> 1 \<le> bb_max_buffered b \<and> buffer_whole us b \<and>
     (bb_synced b \<longrightarrow> (\<exists>n. bb_last b = Some n \<and> boundary n0 us n \<and> builder_book b = true_book B us n \<and>
        (bb_batch b = None \<or> (\<exists>u \<in> set us. fu_last u = n \<and> bb_batch b = Some (fu_first u, fu_last u)))))"

lemma map_changes: "map (\<lambda>d. ((bd_side d, bd_price d), bd_size d)) (deltas_of u) = fu_changes u"
  by (simp add: deltas_of_def comp_def case_prod_unfold)

lemma deliver_gap:
  assumes u: "u \<in> set us" and s: "bb_synced b" "bb_last b = Some n" "n + 1 < fu_first u"
    and le: "fu_first u \<le> fu_last u" "fu_changes u \<noteq> []"
    and b: "buffer_whole us b" "1 \<le> bb_max_buffered b"
  shows "\<not> bb_synced (deliver b (deltas_of u)) \<and> buffer_whole us (deliver b (deltas_of u))"
proof -
  obtain d ds where ds: "deltas_of u = d # ds" using le(2) by (cases "deltas_of u") (auto simp: deltas_of_def)
  have f: "bd_sequence d = fu_last u" "delta_start d = fu_first u"
    using deltas_of_fields [of d u] ds by auto
  define b0 where "b0 = b\<lparr>bb_gaps := bb_gaps b + 1, bb_synced := False\<rparr>"
  have "fst (apply_delta b d) = buffer_delta b0 d"
    using s f le(1) by (auto simp: apply_delta_def Let_def last_or_zero_def b0_def)
  moreover have "fst (apply_delta b0 d) = buffer_delta b0 d" by (simp add: apply_delta_def b0_def)
  ultimately have dl: "deliver b (deltas_of u) = deliver b0 (deltas_of u)"
    by (simp add: deliver_def ds)
  have "buffered_ok us u [] b0"
    using b(1) by (auto simp: buffered_ok_def buffer_whole_def b0_def)
  then have "\<not> bb_synced (deliver b0 (deltas_of u)) \<and> buffered_ok us u (deltas_of u) (deliver b0 (deltas_of u))"
    using deliver_unsynced [of b0 us u "[]" "deltas_of u"] b(2) deltas_of_fields
    by (simp add: b0_def)
  with u dl show ?thesis using buffered_ok_whole by simp
qed

lemma deliver_max [simp]: "bb_max_buffered (deliver b ds) = bb_max_buffered b"
proof (induction ds arbitrary: b)
  case (Cons d ds)
  have "deliver b (d # ds) = deliver (fst (apply_delta b d)) ds" by (simp add: deliver_def)
  moreover have "bb_max_buffered (fst (apply_delta b d)) = bb_max_buffered b"
    by (simp add: apply_delta_def Let_def)
  ultimately show ?case using Cons.IH by simp
qed (simp add: deliver_def)

lemma deliver_truth:
  assumes ok: "feed_ok n0 us" and u: "u \<in> set us" and t: "serves_truth n0 B us b"
  shows "serves_truth n0 B us (deliver b (deltas_of u))"
proof (cases "bb_synced b")
  case False
  have "buffered_ok us u [] b" and k: "1 \<le> bb_max_buffered b"
    using t by (auto simp: serves_truth_def buffered_ok_def buffer_whole_def)
  then have "\<not> bb_synced (deliver b (deltas_of u)) \<and> buffered_ok us u (deltas_of u) (deliver b (deltas_of u))"
    using deliver_unsynced [of b us u "[]" "deltas_of u"] False deltas_of_fields by simp
  with u k show ?thesis using buffered_ok_whole by (simp add: serves_truth_def)
next
  case True
  obtain n where n: "bb_last b = Some n" "boundary n0 us n" "builder_book b = true_book B us n"
    "bb_batch b = None \<or> (\<exists>v \<in> set us. fu_last v = n \<and> bb_batch b = Some (fu_first v, fu_last v))"
    using t True by (auto simp: serves_truth_def)
  have k: "1 \<le> bb_max_buffered b" "buffer_whole us b" using t by (auto simp: serves_truth_def)
  have le: "fu_first u \<le> fu_last u" "fu_changes u \<noteq> []" using feed_bounds [OF ok u] by auto
  have ds: "\<forall>d \<in> set (deltas_of u). bd_sequence d = fu_last u \<and> delta_start d = fu_first u"
    "deltas_of u \<noteq> []" using deltas_of_fields le(2) by (auto simp: deltas_of_def)
  consider (again) "bb_batch b = Some (fu_first u, fu_last u)"
    | (stale) "fu_last u \<le> n" "bb_batch b \<noteq> Some (fu_first u, fu_last u)"
    | (new) "n < fu_last u" "fu_first u \<le> n + 1" | (gap) "n + 1 < fu_first u" "n < fu_last u"
    by linarith
  then show ?thesis
  proof cases
    case again
    then have l: "fu_last u = n" using n(4) by auto
    then have "bb_last b = Some (fu_last u)" using n(1) by simp
    note d = deliver_applied [OF ds(1) True _ le(1) ds(2)]
    have e: "builder_book (deliver b (deltas_of u)) = true_book B us n"
      using d again \<open>bb_last b = Some (fu_last u)\<close> n(3) l true_book_update [OF ok u, of B]
      by (simp add: map_changes ab.put_all_again)
    then show ?thesis
      using d again \<open>bb_last b = Some (fu_last u)\<close> n(2) l k u
      by (auto simp: serves_truth_def buffer_whole_def)
  next
    case stale
    obtain c where "deliver b (deltas_of u) = b\<lparr>bb_stale_deltas := c\<rparr>"
      using deliver_stale [OF ds(1) True n(1) stale] by blast
    then show ?thesis using n k True by (auto simp: serves_truth_def buffer_whole_def)
  next
    case new
    then have "n = fu_first u - 1" using boundary_outside [OF ok u n(2)] by linarith
    moreover have "boundary n0 us (fu_last u)" using u by (simp add: boundary_def)
    moreover note d = deliver_applied [OF ds(1) True _ le(1) ds(2)]
    ultimately show ?thesis
      using new n(1,3) true_book_update [OF ok u, of B] k u
      by (auto simp: serves_truth_def buffer_whole_def map_changes)
  next
    case gap
    then show ?thesis
      using deliver_gap [OF u True n(1) gap(1) le k(2) k(1)] k by (simp add: serves_truth_def)
  qed
qed

lemma deliver_append: "deliver b (xs @ ys) = deliver (deliver b xs) ys"
  by (simp add: deliver_def)

lemma deliver_updates_truth:
  "feed_ok n0 us \<Longrightarrow> set ws \<subseteq> set us \<Longrightarrow> serves_truth n0 B us b \<Longrightarrow>
   serves_truth n0 B us (deliver b (concat (map deltas_of ws)))"
proof (induction ws arbitrary: b)
  case (Cons w ws)
  then show ?case using deliver_truth [of n0 us w B b] by (simp add: deliver_append)
qed (simp add: deliver_def)

lemma replay_buffer_deliver:
  "replay_buffer b n ds = deliver b (filter (\<lambda>d. n < bd_sequence d) ds)"
  by (induction ds arbitrary: b) (simp_all add: replay_buffer_def deliver_def)

lemma snapshot_truth:
  assumes ok: "feed_ok n0 us" and n: "boundary n0 us n" and r: "rows_show (true_book B us n) bs as"
    and a: "apply_snapshot b n bs as = Inr (b', app)" and t: "serves_truth n0 B us b"
  shows "serves_truth n0 B us b'"
  using a
proof (cases rule: apply_snapshot_cases)
  case stale
  with t show ?thesis by (simp add: serves_truth_def buffer_whole_def)
next
  case (applied nb na)
  define b0 where "b0 = b\<lparr>bb_bids := nb, bb_asks := na, bb_last := Some n, bb_synced := True,
      bb_dropped_through := None, bb_batch := None, bb_buffer := []\<rparr>"
  have "nb = sd.put_all (empty_side True) bs" "na = sd.put_all (empty_side False) as"
    using side_from_puts [OF applied(2)] side_from_puts [OF applied(3)] by simp_all
  then have "builder_book b0 = true_book B us n"
    using r by (auto simp: b0_def builder_book_def rows_show_def fun_eq_iff split: order_side.splits)
  then have t0: "serves_truth n0 B us b0"
    using t n by (auto simp: serves_truth_def b0_def buffer_whole_def)
  let ?new = "\<lambda>d. newer (bb_dropped_through b) (bd_sequence d)"
  have "filter (\<lambda>d. n < bd_sequence d) (bb_buffer b) = filter (\<lambda>d. n < bd_sequence d) (filter ?new (bb_buffer b))"
    using applied(5) by (auto simp: newer_def intro!: filter_cong split: option.splits)
  moreover have "whole_updates us (filter ?new (bb_buffer b))"
    using t by (simp add: serves_truth_def buffer_whole_def)
  ultimately have "whole_updates us (filter (\<lambda>d. n < bd_sequence d) (bb_buffer b))"
    using whole_updates_filter by metis
  then obtain ws where "set ws \<subseteq> set us"
    "filter (\<lambda>d. n < bd_sequence d) (bb_buffer b) = concat (map deltas_of ws)"
    by (auto simp: whole_updates_def)
  then show ?thesis
    using deliver_updates_truth [OF ok _ t0] applied(4) by (simp add: replay_buffer_deliver b0_def)
qed

lemma feed_reaches_truth:
  assumes "feed_ok n0 us" and "feed_reaches n0 B us inst k b"
  shows "serves_truth n0 B us b \<and> builder_inv b"
  using assms(2)
proof (induction rule: feed_reaches.induct)
  case (start b)
  then have "1 \<le> bb_max_buffered b" "bb_buffer b = []" "\<not> bb_synced b"
    by (auto simp: new_builder_def split: if_splits)
  then show ?case
    using new_builder_inv [OF start] by (simp add: serves_truth_def buffer_whole_def)
next
  case (update b u)
  have "builder_inv (deliver b ds)" if "builder_inv b" for b ds
    using that by (induction ds arbitrary: b) (simp_all add: deliver_def apply_delta_inv)
  with update deliver_truth [OF assms(1)] show ?case by simp
next
  case (snapshot b n bs as b' ok)
  then show ?case using snapshot_truth [OF assms(1)] apply_snapshot_inv by blast
qed

section \<open>Properties\<close>

text \<open>C10: The builder never serves a wrong book. Let the venue's updates arrive in any order, repeated
  or lost, with snapshots of the true book at any time: whenever the builder agrees to serve, the book
  it serves is well formed, carries the sequence number of a point of the feed, and shows exactly the
  levels of the venue's true book at that point.\<close>

theorem served_book_is_the_true_book:
  assumes "feed_ok n0 us" and "feed_reaches n0 B us inst k b" and "book_snapshot b None = Inr ob"
  shows "order_book_valid ob \<and> boundary n0 us (ob_sequence ob) \<and>
    (\<forall>p. true_book B us (ob_sequence ob) (BUY, p) =
       map_of (map (\<lambda>l. (lvl_price l, lvl_size l)) (bids ob)) p) \<and>
    (\<forall>p. true_book B us (ob_sequence ob) (SELL, p) =
       map_of (map (\<lambda>l. (lvl_price l, lvl_size l)) (asks ob)) p)"
proof -
  have s: "serves_truth n0 B us b" "builder_inv b" using feed_reaches_truth assms(1,2) by blast+
  have sy: "bb_synced b" using assms(3) book_snapshot_unsynced [of b None] by (auto simp: is_ok_def)
  obtain ob' where "book_snapshot b None = Inr ob'" and o': "order_book_valid ob'"
      "ob_sequence ob' = the (bb_last b)"
      "\<forall>l \<in> set (bids ob'). sd_levels (bb_bids b) (lvl_price l) = Some (lvl_size l)"
      "\<forall>l \<in> set (asks ob'). sd_levels (bb_asks b) (lvl_price l) = Some (lvl_size l)"
      "set (map lvl_price (bids ob')) = dom (sd_levels (bb_bids b))"
      "set (map lvl_price (asks ob')) = dom (sd_levels (bb_asks b))"
    using book_snapshot_ok [OF s(2) sy, of None] by auto
  with assms(3) have o: "ob' = ob" by simp
  have shown: "map_of (map (\<lambda>l. (lvl_price l, lvl_size l)) ls) p = m p"
    if "\<forall>l \<in> set ls. m (lvl_price l) = Some (lvl_size l)" "set (map lvl_price ls) = dom m"
    for ls :: "level list" and m :: "rat \<rightharpoonup> rat" and p
  proof (cases "m p")
    case None
    then have "p \<notin> set (map lvl_price ls)" using that(2) by auto
    with None show ?thesis by (auto simp: map_of_eq_None_iff image_iff)
  next
    case (Some q)
    then have "p \<in> fst ` set (map (\<lambda>l. (lvl_price l, lvl_size l)) ls)" using that(2) by (force simp: image_iff)
    then obtain q' where q': "map_of (map (\<lambda>l. (lvl_price l, lvl_size l)) ls) p = Some q'"
      by (metis map_of_eq_None_iff not_None_eq)
    then have "m p = Some q'" using that(1) by (auto dest!: map_of_SomeD)
    with q' show ?thesis by simp
  qed
  obtain n where n: "bb_last b = Some n" "boundary n0 us n" "builder_book b = true_book B us n"
    using s(1) sy by (auto simp: serves_truth_def)
  have "sd_levels (bb_bids b) p = true_book B us n (BUY, p)" "sd_levels (bb_asks b) p = true_book B us n (SELL, p)" for p
    unfolding n(3) [symmetric] by (simp_all add: builder_book_def)
  then show ?thesis
    using shown [OF o'(3,5)] shown [OF o'(4,6)] o'(1,2) n(1,2) unfolding o by simp
qed

lemma served_book_is_the_true_book_witness:
  "\<exists>b ob. feed_reaches 0 Map.empty [\<lparr>fu_first = 1, fu_last = 1, fu_changes = [((BUY, 5), 2)]\<rparr>]
      sample_symbol 10 b \<and> book_snapshot b None = Inr ob \<and> ob_sequence ob = 1 \<and> bids ob \<noteq> [] \<and>
     order_book_valid ob"
proof -
  let ?u = "\<lparr>fu_first = 1, fu_last = 1, fu_changes = [((BUY, 5), 2)]\<rparr>"
  let ?R = "feed_reaches 0 Map.empty [?u] sample_symbol 10"
  obtain b0 where b0: "new_builder sample_symbol 10 = Inr b0" by (simp add: new_builder_def)
  obtain b1 ok where b1: "apply_snapshot b0 0 [] [] = Inr (b1, ok)"
    using b0 by (auto simp: apply_snapshot_def new_builder_def replay_buffer_def Let_def)
  have r1: "?R b1"
    by (rule feed_reaches.snapshot [OF feed_reaches.start [OF b0] _ _ b1])
      (simp_all add: boundary_def rows_show_def true_book_def empty_side_def sd.put_all_def)
  have r2: "?R (deliver b1 (deltas_of ?u))" by (rule feed_reaches.update [OF r1]) simp
  have "\<exists>ob. book_snapshot (deliver b1 (deltas_of ?u)) None = Inr ob \<and> ob_sequence ob = 1 \<and> bids ob \<noteq> []"
    using b0 b1
    by (auto simp: apply_snapshot_def new_builder_def replay_buffer_def Let_def deliver_def
        deltas_of_def apply_delta_def delta_start_def last_or_zero_def set_on_side_def set_level_def
        empty_side_def side_key_def bisect_left_def insort_right_def book_snapshot_def side_top_def
        order_book_valid_def)
  with r2 served_book_is_the_true_book [of 0 "[?u]" Map.empty sample_symbol 10] show ?thesis by auto
qed

end
