(* ===== verification/Calendars.thy ===== *)
theory Calendars
  imports Prelude
begin

text \<open>
  \<open>calendars/__init__.py\<close>: sessions, holidays, special hours, business-day arithmetic and what a venue
  is doing at an instant. A date is its proleptic ordinal (\<open>date.toordinal\<close>), a time of day is in
  microseconds since midnight, and an instant is microseconds of UTC counted from ordinal zero. The
  time-zone database is not under \<open>src/\<close>: a zone is a pair of functions, from local date and time to
  the instant and from the instant to the local date.
\<close>

definition DAY_MICROS :: int where
  "DAY_MICROS = 86400000000"

definition TIME_MAX :: int where
  "TIME_MAX = 86399999999"

record zone =
  zone_at :: "int \<Rightarrow> int \<Rightarrow> int"
  zone_date :: "int \<Rightarrow> int"

definition utc :: zone where
  "utc = \<lparr>zone_at = (\<lambda>d t. d * DAY_MICROS + t), zone_date = (\<lambda>i. i div DAY_MICROS)\<rparr>"

datatype market_phase = PHASE_CLOSED | PHASE_OPEN | PHASE_BREAK

record hours =
  h_open :: int
  h_close :: int
  h_break_start :: "int option"
  h_break_end :: "int option"

record session =
  ses_date :: int
  ses_open :: int
  ses_close :: int
  ses_break_start :: "int option"
  ses_break_end :: "int option"
  ses_early_close :: bool
  ses_late_open :: bool

definition session_phase :: "session \<Rightarrow> int \<Rightarrow> market_phase" where
  "session_phase s instant =
     (if \<not> (ses_open s \<le> instant \<and> instant < ses_close s) then PHASE_CLOSED
      else case (ses_break_start s, ses_break_end s) of
             (Some b, Some e) \<Rightarrow> if b \<le> instant \<and> instant < e then PHASE_BREAK else PHASE_OPEN
           | _ \<Rightarrow> PHASE_OPEN)"

text \<open>\<open>cal_continuous\<close> marks an \<open>AlwaysOpenCalendar\<close>, whose two overridden methods are below.\<close>

record calendar =
  cal_venue :: string
  cal_zone :: zone
  cal_first :: int
  cal_last :: int
  cal_eras :: "(int \<times> hours) list"
  cal_closed :: "int set"
  cal_extra :: "int set"
  cal_special :: "int \<rightharpoonup> hours"
  cal_continuous :: bool

definition weekday :: "int \<Rightarrow> int" where
  "weekday d = (d + 6) mod 7"

definition check_range :: "calendar \<Rightarrow> int \<Rightarrow> unit result" where
  "check_range c day =
     (if cal_first c \<le> day \<and> day \<le> cal_last c then Inr () else Inl CalendarOutOfRange)"

definition with_closure :: "calendar \<Rightarrow> int \<Rightarrow> calendar result" where
  "with_closure c day =
     bind_result (check_range c day) (\<lambda>_.
       Inr (c\<lparr>cal_closed := insert day (cal_closed c), cal_extra := cal_extra c - {day},
              cal_special := (cal_special c)(day := None)\<rparr>))"

definition with_hours ::
    "calendar \<Rightarrow> int \<Rightarrow> int \<Rightarrow> int \<Rightarrow> int option \<Rightarrow> int option \<Rightarrow> calendar result" where
  "with_hours c day open_time close_time break_start break_end =
     bind_result (check_range c day) (\<lambda>_.
       if \<not> open_time < close_time then Inl ValidationError
       else if (break_start = None) \<noteq> (break_end = None) then Inl ValidationError
       else if (case (break_start, break_end) of
                  (Some b, Some e) \<Rightarrow> \<not> (open_time < b \<and> b < e \<and> e < close_time)
                | _ \<Rightarrow> False) then Inl ValidationError
       else Inr (c\<lparr>cal_closed := cal_closed c - {day},
                   cal_extra := (if 5 \<le> weekday day then insert day (cal_extra c) else cal_extra c),
                   cal_special := (cal_special c)(day \<mapsto>
                     \<lparr>h_open = open_time, h_close = close_time, h_break_start = break_start,
                      h_break_end = break_end\<rparr>)\<rparr>))"

section \<open>Dates\<close>

definition is_session_unchecked :: "calendar \<Rightarrow> int \<Rightarrow> bool" where
  "is_session_unchecked c day =
     (if cal_continuous c then day \<notin> cal_closed c
      else if 5 \<le> weekday day then day \<in> cal_extra c else day \<notin> cal_closed c)"

definition is_session :: "calendar \<Rightarrow> int \<Rightarrow> bool result" where
  "is_session c day = bind_result (check_range c day) (\<lambda>_. Inr (is_session_unchecked c day))"

fun era_from :: "hours \<Rightarrow> (int \<times> hours) list \<Rightarrow> int \<Rightarrow> hours" where
  "era_from best [] day = best"
| "era_from best ((start, h) # rest) day = (if day < start then best else era_from h rest day)"

definition era_hours :: "calendar \<Rightarrow> int \<Rightarrow> hours" where
  "era_hours c day = era_from (snd (hd (cal_eras c))) (cal_eras c) day"

definition hours_on :: "calendar \<Rightarrow> int \<Rightarrow> hours" where
  "hours_on c day = (case cal_special c day of Some h \<Rightarrow> h | None \<Rightarrow> era_hours c day)"

definition base_session :: "calendar \<Rightarrow> int \<Rightarrow> session option result" where
  "base_session c day =
     bind_result (is_session c day) (\<lambda>trades.
       if \<not> trades then Inr None
       else
         (let regular = era_hours c day; h = hours_on c day; moment = zone_at (cal_zone c) day
          in Inr (Some \<lparr>ses_date = day, ses_open = moment (h_open h), ses_close = moment (h_close h),
               ses_break_start = map_option moment (h_break_start h),
               ses_break_end = map_option moment (h_break_end h),
               ses_early_close = (h_close h < h_close regular),
               ses_late_open = (h_open regular < h_open h)\<rparr>)))"

text \<open>\<open>session\<close>, with the override that runs a full day to the next midnight.\<close>

definition session_on :: "calendar \<Rightarrow> int \<Rightarrow> session option result" where
  "session_on c day =
     (if \<not> cal_continuous c then base_session c day
      else bind_result (base_session c day) (\<lambda>found. case found of
             None \<Rightarrow> Inr None
           | Some s \<Rightarrow> if ses_close s mod DAY_MICROS \<noteq> TIME_MAX then Inr (Some s)
                       else Inr (Some (s\<lparr>ses_close := ses_close s + 1\<rparr>))))"

function sessions_from :: "calendar \<Rightarrow> int \<Rightarrow> int \<Rightarrow> session list result" where
  "sessions_from c day end_day =
     (if end_day < day then Inr []
      else bind_result (session_on c day) (\<lambda>found.
           bind_result (sessions_from c (day + 1) end_day) (\<lambda>rest.
             Inr (case found of None \<Rightarrow> rest | Some s \<Rightarrow> s # rest))))"
  by auto
termination by (relation "measure (\<lambda>(c, day, end_day). nat (end_day + 1 - day))") auto

definition sessions_between :: "calendar \<Rightarrow> int \<Rightarrow> int \<Rightarrow> session list result" where
  "sessions_between c start end_day =
     bind_result (check_range c start) (\<lambda>_. bind_result (check_range c end_day) (\<lambda>_.
       sessions_from c start end_day))"

definition closed_weekdays :: "calendar \<Rightarrow> int \<Rightarrow> int \<Rightarrow> int list result" where
  "closed_weekdays c start end_day =
     bind_result (check_range c start) (\<lambda>_. bind_result (check_range c end_day) (\<lambda>_.
       Inr (filter (\<lambda>d. weekday d < 5 \<and> d \<in> cal_closed c) [start..end_day])))"

function next_from :: "calendar \<Rightarrow> int \<Rightarrow> int result" where
  "next_from c candidate =
     (if is_session c candidate = Inr False then next_from c (candidate + 1)
      else bind_result (is_session c candidate) (\<lambda>_. Inr candidate))"
  by auto
termination
  by (relation "measure (\<lambda>(c, d). nat (cal_last c + 1 - d))")
    (auto simp: is_session_def check_range_def split: if_splits)

function previous_from :: "calendar \<Rightarrow> int \<Rightarrow> int result" where
  "previous_from c candidate =
     (if is_session c candidate = Inr False then previous_from c (candidate - 1)
      else bind_result (is_session c candidate) (\<lambda>_. Inr candidate))"
  by auto
termination
  by (relation "measure (\<lambda>(c, d). nat (d + 1 - cal_first c))")
    (auto simp: is_session_def check_range_def split: if_splits)

declare sessions_from.simps [simp del] next_from.simps [simp del] previous_from.simps [simp del]

definition next_session_date :: "calendar \<Rightarrow> int \<Rightarrow> int result" where
  "next_session_date c day = next_from c (day + 1)"

definition previous_session_date :: "calendar \<Rightarrow> int \<Rightarrow> int result" where
  "previous_session_date c day = previous_from c (day - 1)"

fun repeat_step :: "(int \<Rightarrow> int result) \<Rightarrow> nat \<Rightarrow> int \<Rightarrow> int result" where
  "repeat_step f 0 d = Inr d"
| "repeat_step f (Suc n) d = bind_result (f d) (repeat_step f n)"

definition add_sessions :: "calendar \<Rightarrow> int \<Rightarrow> int \<Rightarrow> int result" where
  "add_sessions c day n =
     (if n = 0 then
        bind_result (is_session c day) (\<lambda>s. if s then Inr day else Inl ValidationError)
      else repeat_step (if 0 < n then next_session_date c else previous_session_date c) (nat \<bar>n\<bar>) day)"

definition settlement_date :: "calendar \<Rightarrow> int \<Rightarrow> int \<Rightarrow> int result" where
  "settlement_date c trade_date cycle_days =
     (if cycle_days < 0 then Inl ValidationError else add_sessions c trade_date cycle_days)"

section \<open>Instants\<close>

definition local_date :: "calendar \<Rightarrow> int \<Rightarrow> int" where
  "local_date c instant = zone_date (cal_zone c) instant"

definition session_of :: "calendar \<Rightarrow> int \<Rightarrow> session option result" where
  "session_of c instant =
     bind_result (session_on c (local_date c instant)) (\<lambda>found. Inr (case found of
       Some s \<Rightarrow> if ses_open s \<le> instant \<and> instant < ses_close s then Some s else None
     | None \<Rightarrow> None))"

definition phase_at :: "calendar \<Rightarrow> int \<Rightarrow> market_phase result" where
  "phase_at c instant =
     bind_result (session_on c (local_date c instant)) (\<lambda>found. Inr (case found of
       None \<Rightarrow> PHASE_CLOSED | Some s \<Rightarrow> session_phase s instant))"

definition calendar_open :: "calendar \<Rightarrow> int \<Rightarrow> bool result" where
  "calendar_open c instant = bind_result (phase_at c instant) (\<lambda>p. Inr (p = PHASE_OPEN))"

definition later :: "int option \<Rightarrow> int \<Rightarrow> int option" where
  "later t instant = (case t of Some x \<Rightarrow> if instant < x then Some x else None | None \<Rightarrow> None)"

definition open_after :: "session option \<Rightarrow> int \<Rightarrow> int option" where
  "open_after found instant =
     (case found of
        None \<Rightarrow> None
      | Some s \<Rightarrow> (case later (Some (ses_open s)) instant of
                     Some t \<Rightarrow> Some t | None \<Rightarrow> later (ses_break_end s) instant))"

definition close_after :: "session option \<Rightarrow> int \<Rightarrow> int option" where
  "close_after found instant =
     (case found of
        None \<Rightarrow> None
      | Some s \<Rightarrow> (case later (ses_break_start s) instant of
                     Some t \<Rightarrow> Some t | None \<Rightarrow> later (Some (ses_close s)) instant))"

text \<open>The loops of \<open>next_open\<close> and \<open>next_close\<close>, which end at the last date the data covers.\<close>

function search_from :: "(session option \<Rightarrow> int \<Rightarrow> int option) \<Rightarrow> calendar \<Rightarrow> int \<Rightarrow> int \<Rightarrow> int result" where
  "search_from pick c day instant =
     (case session_on c day of
        Inl e \<Rightarrow> Inl e
      | Inr found \<Rightarrow> (case pick found instant of
                         Some t \<Rightarrow> Inr t
                       | None \<Rightarrow> search_from pick c (day + 1) instant))"
  by auto

lemma session_on_in_range:
  "session_on c day = Inr found \<Longrightarrow> cal_first c \<le> day \<and> day \<le> cal_last c"
  by (auto simp: session_on_def base_session_def is_session_def check_range_def bind_result_eq_Inr
      split: if_splits)

termination search_from
  by (relation "measure (\<lambda>(pick, c, day, instant). nat (cal_last c + 1 - day))")
    (auto dest: session_on_in_range)

declare search_from.simps [simp del]

definition next_open :: "calendar \<Rightarrow> int \<Rightarrow> int result" where
  "next_open c instant = search_from open_after c (local_date c instant) instant"

definition next_close :: "calendar \<Rightarrow> int \<Rightarrow> int result" where
  "next_close c instant = search_from close_after c (local_date c instant) instant"

section \<open>Continuous markets and the registry\<close>

definition always_open_calendar :: "string \<Rightarrow> calendar" where
  "always_open_calendar v =
     \<lparr>cal_venue = v, cal_zone = utc, cal_first = 733410, cal_last = 803168,
      cal_eras = [(733410, \<lparr>h_open = 0, h_close = TIME_MAX, h_break_start = None, h_break_end = None\<rparr>)],
      cal_closed = {}, cal_extra = {}, cal_special = Map.empty, cal_continuous = True\<rparr>"

text \<open>\<open>get_calendar\<close> over the registered calendars and the bundled data, read by \<open>bundled\<close>.\<close>

type_synonym calendar_registry = "string \<rightharpoonup> calendar"

definition register_calendar :: "calendar_registry \<Rightarrow> calendar \<Rightarrow> calendar_registry" where
  "register_calendar reg c = reg(cal_venue c \<mapsto> c)"

definition initial_registry :: calendar_registry where
  "initial_registry =
     foldl register_calendar Map.empty
       (map always_open_calendar [''XMOK'', ''ZSIM'', ''BNCX'', ''ZCBS''])"

definition get_calendar ::
    "(string \<Rightarrow> string) \<Rightarrow> (string \<rightharpoonup> calendar) \<Rightarrow> calendar_registry \<Rightarrow> string \<Rightarrow> calendar result" where
  "get_calendar strip_upper bundled reg v =
     (let code = strip_upper v in
      case reg code of
        Some c \<Rightarrow> Inr c
      | None \<Rightarrow> (case bundled code of Some c \<Rightarrow> Inr c | None \<Rightarrow> Inl ValidationError))"

section \<open>Announced changes\<close>

lemma with_closure_effect:
  assumes "with_closure c day = Inr c'"
  shows "is_session c' day = Inr False" and "d \<noteq> day \<Longrightarrow> is_session c' d = is_session c d \<and> hours_on c' d = hours_on c d"
  using assms
  by (auto simp: with_closure_def is_session_def check_range_def is_session_unchecked_def hours_on_def
      era_hours_def bind_result_eq_Inr split: if_splits option.splits)

lemma with_hours_form:
  assumes "with_hours c day o' cl b e = Inr c'"
  shows "c' = c\<lparr>cal_closed := cal_closed c - {day},
      cal_extra := (if 5 \<le> weekday day then insert day (cal_extra c) else cal_extra c),
      cal_special := (cal_special c)(day \<mapsto> \<lparr>h_open = o', h_close = cl, h_break_start = b, h_break_end = e\<rparr>)\<rparr>"
    and "cal_first c \<le> day \<and> day \<le> cal_last c \<and> o' < cl"
  using assms by (simp_all add: with_hours_def check_range_def split: if_splits)

lemma with_hours_effect:
  assumes "with_hours c day o' cl b e = Inr c'"
  shows "is_session c' day = Inr True \<and>
      hours_on c' day = \<lparr>h_open = o', h_close = cl, h_break_start = b, h_break_end = e\<rparr> \<and> o' < cl"
    and "d \<noteq> day \<Longrightarrow> is_session c' d = is_session c d \<and> hours_on c' d = hours_on c d"
  using with_hours_form [OF assms]
  by (simp_all add: is_session_def check_range_def is_session_unchecked_def hours_on_def era_hours_def
      split: option.split)

section \<open>Business days\<close>

definition trades :: "calendar \<Rightarrow> int \<Rightarrow> bool" where
  "trades c d \<longleftrightarrow> is_session c d = Inr True"

lemma is_session_cases:
  "is_session c d = (if cal_first c \<le> d \<and> d \<le> cal_last c then Inr (trades c d) else Inl CalendarOutOfRange)"
  by (auto simp: trades_def is_session_def check_range_def)

lemma trades_range: "trades c d \<Longrightarrow> cal_first c \<le> d \<and> d \<le> cal_last c"
  by (auto simp: trades_def is_session_def check_range_def split: if_splits)

lemma not_session: "is_session c d = Inr False \<Longrightarrow> \<not> trades c d \<and> cal_first c \<le> d \<and> d \<le> cal_last c"
  by (auto simp: trades_def is_session_def check_range_def split: if_splits)

lemma next_from_spec:
  "next_from c d = Inr x \<longleftrightarrow> cal_first c \<le> d \<and> d \<le> x \<and> trades c x \<and> (\<forall>y. d \<le> y \<and> y < x \<longrightarrow> \<not> trades c y)"
proof (induction c d rule: next_from.induct)
  case (1 c d)
  note t = trades_range [of c]
  show ?case
  proof (cases "is_session c d = Inr False")
    case True
    then have nt: "\<not> trades c d" and f: "cal_first c \<le> d"
      using not_session by auto
    have "next_from c d = next_from c (d + 1)" using True by (simp add: next_from.simps [of c d])
    then have e: "next_from c d = Inr x \<longleftrightarrow> cal_first c \<le> d + 1 \<and> d + 1 \<le> x \<and> trades c x \<and>
        (\<forall>y. d + 1 \<le> y \<and> y < x \<longrightarrow> \<not> trades c y)"
      using "1.IH" [OF True] by simp
    have "(\<forall>y. d \<le> y \<and> y < x \<longrightarrow> \<not> trades c y) \<longleftrightarrow> (\<forall>y. d + 1 \<le> y \<and> y < x \<longrightarrow> \<not> trades c y)"
      using nt by (metis add1_zle_eq order.order_iff_strict)
    moreover have "trades c x \<Longrightarrow> d \<le> x \<longleftrightarrow> d + 1 \<le> x" using nt by (cases "d = x") auto
    ultimately show ?thesis using e f by auto
  next
    case False
    then have n: "next_from c d = bind_result (is_session c d) (\<lambda>_. Inr d)"
      by (simp add: next_from.simps [of c d])
    show ?thesis
    proof (cases "trades c d")
      case True
      then have "next_from c d = Inr d" using n by (simp add: trades_def)
      moreover have "d \<le> x \<Longrightarrow> \<forall>y. d \<le> y \<and> y < x \<longrightarrow> \<not> trades c y \<Longrightarrow> d = x"
        using True by (metis order.order_iff_strict order.refl)
      ultimately show ?thesis using True t [OF True] by auto
    next
      case nt: False
      then have o: "\<not> (cal_first c \<le> d \<and> d \<le> cal_last c)" using False by (auto simp: is_session_cases)
      then have "next_from c d = Inl CalendarOutOfRange" using n by (simp add: is_session_cases)
      moreover have "\<not> (cal_first c \<le> d \<and> d \<le> x \<and> trades c x)" using o t [of x] by linarith
      ultimately show ?thesis by auto
    qed
  qed
qed

lemma previous_from_spec:
  "previous_from c d = Inr x \<longleftrightarrow> d \<le> cal_last c \<and> x \<le> d \<and> trades c x \<and> (\<forall>y. x < y \<and> y \<le> d \<longrightarrow> \<not> trades c y)"
proof (induction c d rule: previous_from.induct)
  case (1 c d)
  note t = trades_range [of c]
  show ?case
  proof (cases "is_session c d = Inr False")
    case True
    then have nt: "\<not> trades c d" and f: "d \<le> cal_last c"
      using not_session by auto
    have "previous_from c d = previous_from c (d - 1)" using True by (simp add: previous_from.simps [of c d])
    then have e: "previous_from c d = Inr x \<longleftrightarrow> d - 1 \<le> cal_last c \<and> x \<le> d - 1 \<and> trades c x \<and>
        (\<forall>y. x < y \<and> y \<le> d - 1 \<longrightarrow> \<not> trades c y)"
      using "1.IH" [OF True] by simp
    have "(\<forall>y. x < y \<and> y \<le> d \<longrightarrow> \<not> trades c y) \<longleftrightarrow> (\<forall>y. x < y \<and> y \<le> d - 1 \<longrightarrow> \<not> trades c y)"
      using nt by (metis zle_diff1_eq order.order_iff_strict)
    moreover have "trades c x \<Longrightarrow> x \<le> d \<longleftrightarrow> x \<le> d - 1" using nt by (cases "d = x") auto
    ultimately show ?thesis using e f by auto
  next
    case False
    then have n: "previous_from c d = bind_result (is_session c d) (\<lambda>_. Inr d)"
      by (simp add: previous_from.simps [of c d])
    show ?thesis
    proof (cases "trades c d")
      case True
      then have "previous_from c d = Inr d" using n by (simp add: trades_def)
      moreover have "x \<le> d \<Longrightarrow> \<forall>y. x < y \<and> y \<le> d \<longrightarrow> \<not> trades c y \<Longrightarrow> d = x"
        using True by (metis order.order_iff_strict order.refl)
      ultimately show ?thesis using True t [OF True] by auto
    next
      case nt: False
      then have o: "\<not> (cal_first c \<le> d \<and> d \<le> cal_last c)" using False by (auto simp: is_session_cases)
      then have "previous_from c d = Inl CalendarOutOfRange" using n by (simp add: is_session_cases)
      moreover have "\<not> (d \<le> cal_last c \<and> x \<le> d \<and> trades c x)" using o t [of x] by linarith
      ultimately show ?thesis by auto
    qed
  qed
qed

lemma previous_next:
  assumes "trades c d" and "next_session_date c d = Inr e"
  shows "previous_session_date c e = Inr d"
proof -
  have e: "d + 1 \<le> e" "trades c e" "\<forall>y. d + 1 \<le> y \<and> y < e \<longrightarrow> \<not> trades c y"
    using assms(2) by (auto simp: next_session_date_def next_from_spec)
  have "e \<le> cal_last c" using e(2) trades_range by blast
  moreover have "\<not> trades c y" if "d < y \<and> y \<le> e - 1" for y using e(3) that by simp
  ultimately show ?thesis
    using assms(1) e(1) unfolding previous_session_date_def previous_from_spec by simp
qed

lemma repeat_step_snoc: "repeat_step f (Suc n) d = bind_result (repeat_step f n d) f"
proof (induction n arbitrary: d)
  case 0
  show ?case by (cases "f d") simp_all
next
  case (Suc n)
  show ?case using Suc by (cases "f d") simp_all
qed

lemma repeat_inverse:
  assumes "\<And>x y. P x \<Longrightarrow> f x = Inr y \<Longrightarrow> P y \<and> g y = Inr x"
  shows "P d \<Longrightarrow> repeat_step f n d = Inr e \<Longrightarrow> P e \<and> repeat_step g n e = Inr d"
proof (induction n arbitrary: e)
  case 0
  then show ?case by simp
next
  case (Suc n)
  then obtain x where x: "repeat_step f n d = Inr x" "f x = Inr e"
    by (auto simp only: repeat_step_snoc bind_result_eq_Inr)
  with Suc assms have "P e" "g e = Inr x" "repeat_step g n x = Inr d" by blast+
  then show ?case by simp
qed

lemma repeat_next_count:
  "repeat_step (next_session_date c) n d = Inr e \<Longrightarrow>
   d \<le> e \<and> card {x. d < x \<and> x \<le> e \<and> trades c x} = n \<and> (0 < n \<longrightarrow> trades c e)"
proof (induction n arbitrary: e)
  case 0
  then have "{x. d < x \<and> x \<le> e \<and> trades c x} = {}" by auto
  with 0 show ?case by (simp only: repeat_step.simps) auto
next
  case (Suc n)
  then obtain m where m: "repeat_step (next_session_date c) n d = Inr m" "next_session_date c m = Inr e"
    by (auto simp only: repeat_step_snoc bind_result_eq_Inr)
  note IH = Suc.IH [OF m(1)]
  have e: "m + 1 \<le> e" "trades c e" "\<forall>y. m + 1 \<le> y \<and> y < e \<longrightarrow> \<not> trades c y"
    using m(2) by (auto simp: next_session_date_def next_from_spec)
  have "{x. d < x \<and> x \<le> e \<and> trades c x} = insert e {x. d < x \<and> x \<le> m \<and> trades c x}"
  proof -
    have "x \<le> m" if "trades c x" "x < e" for x
    proof (rule ccontr)
      assume "\<not> x \<le> m"
      then have "m + 1 \<le> x" by simp
      with e(3) that show False by blast
    qed
    then show ?thesis using IH e(1,2) by (auto simp: order.order_iff_strict)
  qed
  moreover have "finite {x. d < x \<and> x \<le> m \<and> trades c x}" by (rule finite_subset [of _ "{d..m}"]) auto
  ultimately show ?case using IH e by simp
qed

section \<open>Instants\<close>

lemma calendar_open_iff:
  "calendar_open c t = Inr True \<longleftrightarrow>
   (\<exists>s. session_on c (local_date c t) = Inr (Some s) \<and> ses_open s \<le> t \<and> t < ses_close s \<and>
      \<not> (\<exists>b e. ses_break_start s = Some b \<and> ses_break_end s = Some e \<and> b \<le> t \<and> t < e))"
  by (auto simp: calendar_open_def phase_at_def session_phase_def bind_result_eq_Inr
      split: option.splits if_splits)

lemma always_open:
  assumes "733410 * DAY_MICROS \<le> t" and "t < 803169 * DAY_MICROS"
  shows "calendar_open (always_open_calendar v) t = Inr True"
proof -
  let ?d = "t div DAY_MICROS"
  have d: "733410 \<le> ?d" "?d < 803169"
    using assms by (auto simp: DAY_MICROS_def)
  have t: "?d * DAY_MICROS \<le> t" "t < ?d * DAY_MICROS + DAY_MICROS"
    by (auto simp: DAY_MICROS_def)
  have m: "(?d * DAY_MICROS + TIME_MAX) mod DAY_MICROS = TIME_MAX"
    by (simp add: DAY_MICROS_def TIME_MAX_def)
  show ?thesis
    unfolding calendar_open_iff
    using d t m
    by (auto simp: session_on_def base_session_def is_session_def check_range_def is_session_unchecked_def
        always_open_calendar_def local_date_def utc_def hours_on_def era_hours_def)
      (simp_all add: DAY_MICROS_def TIME_MAX_def)
qed

text \<open>
  What the instant queries need of a calendar: each session is in order and falls, with the end of
  its break, on its own local date.
\<close>

definition session_ok :: "calendar \<Rightarrow> int \<Rightarrow> session \<Rightarrow> bool" where
  "session_ok c d s \<longleftrightarrow> ses_open s < ses_close s \<and> local_date c (ses_open s) = d \<and>
     (case (ses_break_start s, ses_break_end s) of
        (None, None) \<Rightarrow> True
      | (Some b, Some e) \<Rightarrow> ses_open s < b \<and> b < e \<and> e < ses_close s \<and> local_date c e = d
      | _ \<Rightarrow> False)"

lemma search_from_found:
  assumes "search_from pick c d i = Inr t" and "\<And>j. pick None j = None"
  shows "\<exists>day s. d \<le> day \<and> session_on c day = Inr (Some s) \<and> pick (Some s) i = Some t"
  using assms
proof (induction pick c d i rule: search_from.induct)
  case (1 pick c d i)
  show ?case
  proof (cases "session_on c d")
    case (Inl e)
    then show ?thesis using 1(2) by (simp add: search_from.simps [of pick c d i])
  next
    case (Inr found)
    show ?thesis
    proof (cases "pick found i")
      case None
      then have "search_from pick c (d + 1) i = Inr t"
        using 1(2) Inr by (simp add: search_from.simps [of pick c d i])
      then obtain day s where "d + 1 \<le> day" "session_on c day = Inr (Some s)" "pick (Some s) i = Some t"
        using 1(1) [OF Inr None] 1(3) by blast
      then show ?thesis by (intro exI [of _ day] exI [of _ s]) simp
    next
      case (Some x)
      then have "x = t" using 1(2) Inr by (simp add: search_from.simps [of pick c d i])
      show ?thesis
      proof (cases found)
        case None
        then show ?thesis using Some 1(3) by simp
      next
        case (Some s)
        then show ?thesis using Inr \<open>pick found i = Some x\<close> \<open>x = t\<close> by blast
      qed
    qed
  qed
qed

locale dated_calendar =
  fixes c :: calendar
  assumes ok: "session_on c d = Inr (Some s) \<Longrightarrow> session_ok c d s"
begin

lemma next_open_opens:
  assumes "next_open c i = Inr t"
  shows "i < t \<and> calendar_open c t = Inr True"
proof -
  obtain day s where s: "session_on c day = Inr (Some s)" "open_after (Some s) i = Some t"
    using search_from_found [of open_after c "local_date c i" i t] assms
    by (auto simp: next_open_def open_after_def)
  note k = ok [OF s(1)]
  have t: "i < t" "t = ses_open s \<or> ses_break_end s = Some t"
    using s(2) by (auto simp: open_after_def later_def split: option.splits if_splits)
  have "local_date c t = day" "ses_open s \<le> t" "t < ses_close s"
    using t(2) k by (auto simp: session_ok_def split: option.splits)
  moreover have "\<not> (b \<le> t \<and> t < e)" if "ses_break_start s = Some b" "ses_break_end s = Some e" for b e
    using t(2) k that by (auto simp: session_ok_def)
  ultimately show ?thesis using s(1) t(1) unfolding calendar_open_iff by blast
qed

end

lemma always_open_session:
  "session_on (always_open_calendar v) d =
     (if 733410 \<le> d \<and> d \<le> 803168
      then Inr (Some \<lparr>ses_date = d, ses_open = d * DAY_MICROS, ses_close = (d + 1) * DAY_MICROS,
        ses_break_start = None, ses_break_end = None, ses_early_close = False, ses_late_open = False\<rparr>)
      else Inl CalendarOutOfRange)"
  by (simp add: session_on_def base_session_def is_session_def check_range_def is_session_unchecked_def
      always_open_calendar_def utc_def hours_on_def era_hours_def TIME_MAX_def DAY_MICROS_def)

lemma local_date_continuous: "local_date (always_open_calendar v) i = i div DAY_MICROS"
  by (simp add: local_date_def always_open_calendar_def utc_def)

interpretation continuous: dated_calendar "always_open_calendar v" for v
proof
  fix d s
  assume "session_on (always_open_calendar v) d = Inr (Some s)"
  then have "ses_open s = d * DAY_MICROS" "ses_close s = (d + 1) * DAY_MICROS"
    "ses_break_start s = None" "ses_break_end s = None"
    unfolding always_open_session by (auto split: if_splits)
  then show "session_ok (always_open_calendar v) d s"
    by (simp add: session_ok_def local_date_continuous DAY_MICROS_def)
qed

text \<open>
  A continuous market never stops trading, yet \<open>next_close\<close> answers with the next midnight, at which
  it is open.
\<close>

lemma next_close_continuous:
  assumes "733410 * DAY_MICROS \<le> t" and "t < 803168 * DAY_MICROS"
  shows "next_close (always_open_calendar v) t = Inr ((t div DAY_MICROS + 1) * DAY_MICROS) \<and>
    calendar_open (always_open_calendar v) ((t div DAY_MICROS + 1) * DAY_MICROS) = Inr True"
proof -
  let ?d = "t div DAY_MICROS"
  have d: "733410 \<le> ?d" "?d < 803168" using assms by (auto simp: DAY_MICROS_def)
  have l: "local_date (always_open_calendar v) t = ?d"
    by (simp add: local_date_def always_open_calendar_def utc_def)
  have "t < (?d + 1) * DAY_MICROS" by (simp add: DAY_MICROS_def)
  then have "next_close (always_open_calendar v) t = Inr ((?d + 1) * DAY_MICROS)"
    using d unfolding next_close_def l
    by (subst search_from.simps) (simp add: always_open_session close_after_def later_def)
  moreover have "calendar_open (always_open_calendar v) ((?d + 1) * DAY_MICROS) = Inr True"
    by (rule always_open) (use d in \<open>simp_all add: DAY_MICROS_def\<close>)
  ultimately show ?thesis by simp
qed

section \<open>Properties\<close>

definition sample_calendar :: calendar where
  "sample_calendar =
     \<lparr>cal_venue = ''XTST'', cal_zone = utc, cal_first = 738158, cal_last = 738520,
      cal_eras = [(738158, \<lparr>h_open = 32400000000, h_close = 61200000000, h_break_start = None, h_break_end = None\<rparr>)],
      cal_closed = {738159}, cal_extra = {}, cal_special = Map.empty, cal_continuous = False\<rparr>"

text \<open> Settlement arithmetic: adding \<open>n\<close> sessions to a date ends on a session with exactly \<open>n\<close>
  trading days after the date and up to it, whatever closures and extra sessions lie between.\<close>

theorem added_sessions_counted:
  assumes "add_sessions c d n = Inr e" and "0 < n"
  shows "d < e \<and> trades c e \<and> int (card {x. d < x \<and> x \<le> e \<and> trades c x}) = n"
proof -
  have "repeat_step (next_session_date c) (nat n) d = Inr e"
    using assms by (simp add: add_sessions_def)
  then have r: "d \<le> e" "card {x. d < x \<and> x \<le> e \<and> trades c x} = nat n" "trades c e"
    using repeat_next_count [of c "nat n" d e] assms(2) by auto
  have "d \<noteq> e"
  proof
    assume "d = e"
    then have "{x. d < x \<and> x \<le> e \<and> trades c x} = {}" by auto
    with r(2) assms(2) show False by simp
  qed
  with r assms(2) show ?thesis by simp
qed

lemma sample_add: "add_sessions sample_calendar 738158 1 = Inr 738160"
  by (simp add: add_sessions_def next_session_date_def next_from.simps is_session_def check_range_def
      is_session_unchecked_def sample_calendar_def weekday_def)

lemma added_sessions_counted_witness:
  "trades sample_calendar 738160 \<and> card {x. 738158 < x \<and> x \<le> 738160 \<and> trades sample_calendar x} = 1"
  using added_sessions_counted [OF sample_add] by simp

text \<open> Sessions step back the way they stepped forward: from a trading day, \<open>add_sessions\<close> by \<open>-n\<close>
  undoes \<open>add_sessions\<close> by \<open>n\<close>.\<close>

theorem add_sessions_inverse:
  assumes "trades c d" and "add_sessions c d n = Inr e" and "0 \<le> n"
  shows "add_sessions c e (- n) = Inr d"
proof (cases "n = 0")
  case True
  with assms show ?thesis by (auto simp: add_sessions_def bind_result_eq_Inr split: if_splits)
next
  case False
  have step: "trades c y \<and> previous_session_date c y = Inr x"
    if "trades c x" "next_session_date c x = Inr y" for x y
    using that previous_next next_from_spec by (auto simp: next_session_date_def)
  have "repeat_step (next_session_date c) (nat n) d = Inr e"
    using assms False by (simp add: add_sessions_def)
  then have "repeat_step (previous_session_date c) (nat n) e = Inr d"
    using repeat_inverse [of "trades c" "next_session_date c" "previous_session_date c", OF step assms(1)] by blast
  then show ?thesis using assms(3) False by (simp add: add_sessions_def)
qed

lemma add_sessions_inverse_witness: "add_sessions sample_calendar 738160 (- 1) = Inr 738158"
  by (rule add_sessions_inverse [OF _ sample_add])
    (simp_all add: trades_def is_session_def check_range_def is_session_unchecked_def sample_calendar_def weekday_def)

text \<open> A market is open at an instant exactly when the session of its local date has opened, has not
  closed and is not in its break; opening is inclusive and closing exclusive.\<close>

theorem market_open_iff:
  "calendar_open c t = Inr True \<longleftrightarrow>
   (\<exists>s. session_on c (local_date c t) = Inr (Some s) \<and> ses_open s \<le> t \<and> t < ses_close s \<and>
      \<not> (\<exists>b e. ses_break_start s = Some b \<and> ses_break_end s = Some e \<and> b \<le> t \<and> t < e))"
  by (rule calendar_open_iff)

text \<open>C34: What \<open>next_close\<close> answers on a continuous market: the next midnight, at which the market is
  open.\<close>

theorem continuous_next_close_is_open:
  assumes "733410 * DAY_MICROS \<le> t" and "t < 803168 * DAY_MICROS"
  shows "next_close (always_open_calendar v) t = Inr ((t div DAY_MICROS + 1) * DAY_MICROS) \<and>
    calendar_open (always_open_calendar v) ((t div DAY_MICROS + 1) * DAY_MICROS) = Inr True"
  using assms by (rule next_close_continuous)

lemma continuous_next_close_is_open_witness:
  "calendar_open (always_open_calendar ''ZSIM'') (738001 * DAY_MICROS) = Inr True"
  using continuous_next_close_is_open [of "738000 * DAY_MICROS" "''ZSIM''"] by (simp add: DAY_MICROS_def)

end
