(* ===== verification/Risk.thy ===== *)
theory Risk
  imports OrderState Calendars
begin

text \<open>
  \<open>execution/risk.py\<close>: pre-trade risk checks. A decision is \<open>APPROVED\<close> or \<open>REJECTED\<close> with the name of the
  check; its message is not modelled. A check that raises is an \<open>Inl\<close>, which \<open>check_order\<close> turns into
  a rejection. Instants and windows are in microseconds, quantities and prices exact.
\<close>

section \<open>Configuration\<close>

record risk_limits =
  lim_order_quantity :: "rat option"
  lim_order_notional :: "rat option"
  lim_position :: "rat option"
  lim_gross_notional :: "rat option"
  lim_open_orders :: "nat option"
  lim_orders_per_second :: "nat option"
  lim_collar_bps :: "rat option"

record risk_config =
  cfg_default :: risk_limits
  cfg_per_account :: "(string \<times> risk_limits) list"
  cfg_per_strategy :: "(string \<times> risk_limits) list"
  cfg_per_symbol :: "(string \<times> risk_limits) list"
  cfg_restricted :: "string list"
  cfg_limit_currency :: "string option"
  cfg_max_reference_age :: rat
  cfg_duplicate_window :: rat
  cfg_allow_short :: bool
  cfg_enforce_session :: bool
  cfg_prevent_self_match :: bool
  cfg_block_while_unknown :: bool

definition no_position_limits_per_owner :: "(string \<times> risk_limits) list \<Rightarrow> unit result" where
  "no_position_limits_per_owner entries =
     (if list_ex (\<lambda>(nm, l). lim_position l \<noteq> None \<or> lim_gross_notional l \<noteq> None) entries
      then Inl ValueError else Inr ())"

text \<open>The symbol part of the validators; \<open>mk\<close> is the \<open>Symbol\<close> constructor, as in \<open>parse_symbol\<close>.\<close>

fun full_symbol_keys ::
    "(string \<Rightarrow> string \<Rightarrow> symbol result) \<Rightarrow> (string \<times> risk_limits) list \<Rightarrow>
     (string \<times> risk_limits) list \<Rightarrow> (string \<times> risk_limits) list result" where
  "full_symbol_keys mk [] normalized = Inr normalized"
| "full_symbol_keys mk ((key, l) # rest) normalized =
     (if CHR ''@'' \<notin> set key then Inl ValueError
      else bind_result (parse_symbol mk key None) (\<lambda>s.
        let k = upper (symbol_str s)
        in if map_of normalized k \<noteq> None then Inl ValueError
           else full_symbol_keys mk rest (normalized @ [(k, l)])))"

definition normalized_restriction ::
    "(string \<Rightarrow> string \<Rightarrow> symbol result) \<Rightarrow> string \<Rightarrow> string result" where
  "normalized_restriction mk entry =
     (if CHR ''@'' \<in> set entry
      then bind_result (parse_symbol mk entry None) (\<lambda>s. Inr (upper (symbol_str s)))
      else Inr (upper (strip entry)))"

definition limits_for :: "risk_config \<Rightarrow> order_request \<Rightarrow> (string \<times> risk_limits) list" where
  "limits_for cfg r =
     [(''default'', cfg_default cfg)] @
     (case req_account r of
        None \<Rightarrow> []
      | Some a \<Rightarrow> (case map_of (cfg_per_account cfg) a of
                     None \<Rightarrow> [] | Some l \<Rightarrow> [(''account:'' @ a, l)])) @
     (case req_strategy r of
        None \<Rightarrow> []
      | Some s \<Rightarrow> (case map_of (cfg_per_strategy cfg) s of
                     None \<Rightarrow> [] | Some l \<Rightarrow> [(''strategy:'' @ s, l)])) @
     (let key = upper (symbol_str (req_symbol r))
      in case map_of (cfg_per_symbol cfg) key of
           None \<Rightarrow> [] | Some l \<Rightarrow> [(''symbol:'' @ key, l)])"

section \<open>What a decision depends on\<close>

record risk_context =
  rc_request :: order_request
  rc_instrument :: "instrument option"
  rc_reference :: "quote option"
  rc_now :: int
  rc_open_orders :: "order_state list"
  rc_position :: "rat option"
  rc_calendar :: "calendar option"
  rc_rules :: "trading_rules option"
  rc_locate_available :: bool
  rc_gross_notional :: "rat option"

datatype risk_decision = APPROVED_ORDER | REJECTED_ORDER string

definition SECOND :: int where
  "SECOND = 1000000"

text \<open>\<open>timedelta(seconds=x)\<close>, rounded to whole microseconds.\<close>

definition seconds_delta :: "rat \<Rightarrow> int" where
  "seconds_delta x = round_half_even (x * of_int SECOND)"

definition reference_price :: "risk_context \<Rightarrow> rat option" where
  "reference_price ctx =
     (case rc_reference ctx of
        None \<Rightarrow> None
      | Some q \<Rightarrow>
          (let touch = (if req_side (rc_request ctx) = BUY then ask q else bid q)
           in if touch \<noteq> None then touch
              else if quote_mid q \<noteq> None then quote_mid q else last_price q))"

definition pricing_for_notional :: "risk_context \<Rightarrow> rat option" where
  "pricing_for_notional ctx =
     (let own = (if req_limit_price (rc_request ctx) = None then req_stop_price (rc_request ctx)
                 else req_limit_price (rc_request ctx));
          market = reference_price ctx
      in case (own, market) of
           (None, None) \<Rightarrow> None
         | (Some p, None) \<Rightarrow> if \<bar>p\<bar> \<noteq> 0 then Some \<bar>p\<bar> else None
         | (None, Some p) \<Rightarrow> if \<bar>p\<bar> \<noteq> 0 then Some \<bar>p\<bar> else None
         | (Some p, Some q) \<Rightarrow> if max \<bar>p\<bar> \<bar>q\<bar> \<noteq> 0 then Some (max \<bar>p\<bar> \<bar>q\<bar>) else None)"

definition sum_leaves :: "order_state list \<Rightarrow> symbol \<Rightarrow> order_side \<Rightarrow> rat" where
  "sum_leaves orders s sd =
     foldl (\<lambda>acc o'. if req_symbol (st_request o') = s \<and> req_side (st_request o') = sd
                    then acc + leaves_quantity o' else acc) 0 orders"

section \<open>The checks\<close>

definition check_supported :: "risk_context \<Rightarrow> risk_decision" where
  "check_supported ctx =
     (case rc_rules ctx of
        None \<Rightarrow> REJECTED_ORDER ''order_support''
      | Some rules \<Rightarrow>
          (let r = rc_request ctx in
           if req_type r \<notin> set (rules_order_types rules) then REJECTED_ORDER ''order_support''
           else if req_tif r \<notin> set (rules_tif rules) then REJECTED_ORDER ''order_support''
           else if req_post_only r \<and> \<not> supports_post_only rules then REJECTED_ORDER ''order_support''
           else if client_order_id_max_length rules < length (req_cid r)
           then REJECTED_ORDER ''order_support''
           else APPROVED_ORDER))"

definition listing_rejection :: "risk_context \<Rightarrow> instrument \<Rightarrow> bool" where
  "listing_rejection ctx i =
     (if delisting_date i \<noteq> None \<or> listing_date i \<noteq> None then
        (case rc_calendar ctx of
           None \<Rightarrow> True
         | Some c \<Rightarrow>
             (let today = local_date c (rc_now ctx)
              in (case delisting_date i of None \<Rightarrow> False | Some d \<Rightarrow> d \<le> today) \<or>
                 (case listing_date i of None \<Rightarrow> False | Some d \<Rightarrow> today < d)))
      else False)"

text \<open>The loop over the limit and the stop price: \<open>Inr False\<close> when a price is off its tick.\<close>

fun prices_aligned :: "instrument \<Rightarrow> rat option list \<Rightarrow> bool result" where
  "prices_aligned i [] = Inr True"
| "prices_aligned i (None # ps) = prices_aligned i ps"
| "prices_aligned i (Some p # ps) =
     bind_result (is_tick_aligned i p) (\<lambda>a. if a then prices_aligned i ps else Inr False)"

definition check_instrument :: "risk_context \<Rightarrow> risk_decision result" where
  "check_instrument ctx =
     (case rc_instrument ctx of
        None \<Rightarrow> Inr (REJECTED_ORDER ''instrument'')
      | Some i \<Rightarrow>
          (let r = rc_request ctx in
           if \<not> active i \<or> ins_status i \<in> {HALTED, SUSPENDED, DELISTED, PENDING}
           then Inr (REJECTED_ORDER ''instrument'')
           else if (case expiry i of None \<Rightarrow> False | Some e \<Rightarrow> e \<le> rc_now ctx)
           then Inr (REJECTED_ORDER ''instrument'')
           else if listing_rejection ctx i then Inr (REJECTED_ORDER ''instrument'')
           else if (case req_expire_at r of None \<Rightarrow> False | Some e \<Rightarrow> e \<le> rc_now ctx)
           then Inr (REJECTED_ORDER ''time_in_force'')
           else
             bind_result (prices_aligned i [req_limit_price r, req_stop_price r]) (\<lambda>on_tick.
             if \<not> on_tick then Inr (REJECTED_ORDER ''tick_size'')
             else
               bind_result (is_lot_aligned i (req_quantity r)) (\<lambda>on_lot.
               if \<not> on_lot then Inr (REJECTED_ORDER ''lot_size'')
               else if (case min_quantity i of None \<Rightarrow> False | Some m \<Rightarrow> req_quantity r < m)
               then Inr (REJECTED_ORDER ''min_quantity'')
               else if (case max_quantity i of None \<Rightarrow> False | Some m \<Rightarrow> m < req_quantity r)
               then Inr (REJECTED_ORDER ''max_quantity'')
               else Inr APPROVED_ORDER))))"

definition check_limit_currency :: "risk_context \<Rightarrow> risk_config \<Rightarrow> risk_decision" where
  "check_limit_currency ctx cfg =
     (case (cfg_limit_currency cfg, rc_instrument ctx) of
        (Some expected, Some i) \<Rightarrow>
          if ins_currency i = expected then APPROVED_ORDER else REJECTED_ORDER ''limit_currency''
      | _ \<Rightarrow> APPROVED_ORDER)"

definition check_session :: "risk_context \<Rightarrow> risk_config \<Rightarrow> risk_decision result" where
  "check_session ctx cfg =
     (let r = rc_request ctx;
          rests_for_later = (req_tif r \<in> {OPG, CLS} \<or>
            (req_tif r \<in> {GTC, GTD} \<and> req_type r \<in> {LIMIT, STOP_LIMIT}))
      in if \<not> cfg_enforce_session cfg \<or> rests_for_later then Inr APPROVED_ORDER
         else case rc_calendar ctx of
           None \<Rightarrow> Inr (REJECTED_ORDER ''session'')
         | Some c \<Rightarrow>
             (case calendar_open c (rc_now ctx) of
                Inl CalendarOutOfRange \<Rightarrow> Inr (REJECTED_ORDER ''session'')
              | Inl e \<Rightarrow> Inl e
              | Inr is_open' \<Rightarrow> if is_open' then Inr APPROVED_ORDER else Inr (REJECTED_ORDER ''session'')))"

definition check_restricted :: "risk_context \<Rightarrow> risk_config \<Rightarrow> risk_decision" where
  "check_restricted ctx cfg =
     (let s = req_symbol (rc_request ctx)
      in if upper (symbol_str s) \<in> set (cfg_restricted cfg) \<or> upper (ticker s) \<in> set (cfg_restricted cfg)
         then REJECTED_ORDER ''restricted'' else APPROVED_ORDER)"

definition check_reduce_only :: "risk_context \<Rightarrow> risk_decision" where
  "check_reduce_only ctx =
     (let r = rc_request ctx in
      if \<not> req_reduce_only r then APPROVED_ORDER
      else case rc_position ctx of
        None \<Rightarrow> REJECTED_ORDER ''reduce_only''
      | Some position \<Rightarrow>
          (let pending = sum_leaves (rc_open_orders ctx) (req_symbol r) (req_side r);
               resulting = position + side_sign (req_side r) * (pending + req_quantity r);
               closes = (position \<noteq> 0 \<and> (0 < position) = (req_side r = SELL));
               crosses = (resulting \<noteq> 0 \<and> (0 < resulting) \<noteq> (0 < position))
           in if \<not> closes \<or> crosses then REJECTED_ORDER ''reduce_only'' else APPROVED_ORDER))"

definition check_short_sale :: "risk_context \<Rightarrow> risk_config \<Rightarrow> risk_decision" where
  "check_short_sale ctx cfg =
     (let r = rc_request ctx in
      if req_side r \<noteq> SELL then APPROVED_ORDER
      else case rc_position ctx of
        None \<Rightarrow> REJECTED_ORDER ''short_sale''
      | Some position \<Rightarrow>
          (let pending_sells = sum_leaves (rc_open_orders ctx) (req_symbol r) SELL;
               resulting = position - pending_sells - req_quantity r;
               needs_locate = (case rc_instrument ctx of
                                 None \<Rightarrow> False
                               | Some i \<Rightarrow> ins_asset_class i \<in> {EQUITY, ETF} \<and> req_short_sale r = SHORT)
           in if 0 \<le> resulting then APPROVED_ORDER
              else if req_short_sale r = NOT_SHORT then REJECTED_ORDER ''short_sale''
              else if \<not> cfg_allow_short cfg then REJECTED_ORDER ''short_sale''
              else if (case rc_rules ctx of None \<Rightarrow> False | Some rules \<Rightarrow> \<not> supports_short rules)
              then REJECTED_ORDER ''short_sale''
              else if needs_locate \<and> \<not> rc_locate_available ctx then REJECTED_ORDER ''short_sale''
              else APPROVED_ORDER))"

definition MAX_FUTURE_QUOTE :: int where
  "MAX_FUTURE_QUOTE = 5 * SECOND"

definition check_reference :: "risk_context \<Rightarrow> risk_config \<Rightarrow> risk_decision" where
  "check_reference ctx cfg =
     (case rc_reference ctx of
        None \<Rightarrow> REJECTED_ORDER ''reference_price''
      | Some q \<Rightarrow>
          (let age = rc_now ctx - q_exchange_ts q;
               limit = seconds_delta (cfg_max_reference_age cfg);
               buying = (req_side (rc_request ctx) = BUY);
               touch = (if buying then ask q else bid q)
           in if age < - MAX_FUTURE_QUOTE then REJECTED_ORDER ''stale_data''
              else if limit < age then REJECTED_ORDER ''stale_data''
              else if req_type (rc_request ctx) \<in> {MARKET, STOP} \<and>
                      quote_book_state q \<in> {CROSSED, BOOK_EMPTY, ONE_SIDED}
              then REJECTED_ORDER ''reference_price''
              else case (req_stop_price (rc_request ctx), touch) of
                     (Some stop, Some t) \<Rightarrow>
                       if (if buying then stop \<le> t else t \<le> stop) then REJECTED_ORDER ''stop_price''
                       else APPROVED_ORDER
                   | _ \<Rightarrow> APPROVED_ORDER))"

definition price_diff_bps :: "rat \<Rightarrow> rat \<Rightarrow> rat option result" where
  "price_diff_bps price reference =
     (if reference = 0 then Inr None
      else bind_result (ratio (\<bar>price - reference\<bar> * 10000) \<bar>reference\<bar>) (\<lambda>x. Inr (Some x)))"

definition check_collar :: "risk_context \<Rightarrow> risk_limits \<Rightarrow> risk_decision result" where
  "check_collar ctx l =
     (case (lim_collar_bps l, req_limit_price (rc_request ctx)) of
        (Some collar, Some price) \<Rightarrow>
          (case reference_price ctx of
             None \<Rightarrow> Inr (REJECTED_ORDER ''price_collar'')
           | Some reference \<Rightarrow>
               (if \<not> (if req_side (rc_request ctx) = BUY then reference < price else price < reference)
                then Inr APPROVED_ORDER
                else bind_result (price_diff_bps price reference) (\<lambda>diff. case diff of
                       None \<Rightarrow> Inr (REJECTED_ORDER ''price_collar'')
                     | Some d \<Rightarrow> if collar < d then Inr (REJECTED_ORDER ''price_collar'')
                                 else Inr APPROVED_ORDER)))
      | _ \<Rightarrow> Inr APPROVED_ORDER)"

definition order_notional :: "risk_context \<Rightarrow> rat \<Rightarrow> rat" where
  "order_notional ctx price =
     \<bar>price * req_quantity (rc_request ctx) *
      (case rc_instrument ctx of None \<Rightarrow> 1 | Some i \<Rightarrow> multiplier i)\<bar>"

definition exceeds :: "rat option \<Rightarrow> rat \<Rightarrow> bool" where
  "exceeds limit x = (case limit of None \<Rightarrow> False | Some l \<Rightarrow> l < x)"

definition check_size :: "risk_context \<Rightarrow> risk_limits \<Rightarrow> risk_decision" where
  "check_size ctx l =
     (let floor_notional = (case rc_instrument ctx of None \<Rightarrow> None | Some i \<Rightarrow> min_notional i)
      in if exceeds (lim_order_quantity l) (req_quantity (rc_request ctx))
         then REJECTED_ORDER ''max_order_quantity''
         else if lim_order_notional l = None \<and> floor_notional = None then APPROVED_ORDER
         else case pricing_for_notional ctx of
           None \<Rightarrow> REJECTED_ORDER ''max_order_notional''
         | Some price \<Rightarrow>
             (let notional = order_notional ctx price
              in if exceeds (lim_order_notional l) notional then REJECTED_ORDER ''max_order_notional''
                 else if (case floor_notional of None \<Rightarrow> False | Some m \<Rightarrow> notional < m)
                 then REJECTED_ORDER ''min_notional'' else APPROVED_ORDER))"

definition worst_position :: "risk_context \<Rightarrow> rat \<Rightarrow> rat" where
  "worst_position ctx position =
     position + side_sign (req_side (rc_request ctx)) *
       (sum_leaves (rc_open_orders ctx) (req_symbol (rc_request ctx)) (req_side (rc_request ctx)) +
        req_quantity (rc_request ctx))"

definition check_position :: "risk_context \<Rightarrow> risk_limits \<Rightarrow> risk_decision" where
  "check_position ctx l =
     (case lim_position l of
        None \<Rightarrow> APPROVED_ORDER
      | Some limit \<Rightarrow>
          (case rc_position ctx of
             None \<Rightarrow> REJECTED_ORDER ''max_position''
           | Some position \<Rightarrow>
               (let worst = worst_position ctx position;
                    flips = ((0 < worst) \<noteq> (0 < position) \<and> worst \<noteq> 0 \<and> position \<noteq> 0);
                    grows = (\<bar>position\<bar> < \<bar>worst\<bar>)
                in if limit < \<bar>worst\<bar> \<and> (grows \<or> flips) then REJECTED_ORDER ''max_position''
                   else APPROVED_ORDER)))"

definition reduces_position :: "risk_context \<Rightarrow> bool" where
  "reduces_position ctx =
     (case rc_position ctx of
        None \<Rightarrow> False
      | Some position \<Rightarrow>
          (if position = 0 then False
           else let resulting = worst_position ctx position;
                    same_direction = (resulting = 0 \<or> (0 < resulting) = (0 < position))
                in same_direction \<and> \<bar>resulting\<bar> < \<bar>position\<bar>))"

definition check_gross :: "risk_context \<Rightarrow> risk_limits \<Rightarrow> risk_decision" where
  "check_gross ctx l =
     (case lim_gross_notional l of
        None \<Rightarrow> APPROVED_ORDER
      | Some limit \<Rightarrow>
          (if reduces_position ctx then APPROVED_ORDER
           else case rc_gross_notional ctx of
             None \<Rightarrow> REJECTED_ORDER ''max_gross_notional''
           | Some gross \<Rightarrow>
               (case pricing_for_notional ctx of
                  None \<Rightarrow> REJECTED_ORDER ''max_gross_notional''
                | Some price \<Rightarrow> if limit < gross + order_notional ctx price
                                then REJECTED_ORDER ''max_gross_notional'' else APPROVED_ORDER)))"

text \<open>\<open>scope.partition(":")\<close>.\<close>

definition partition_colon :: "string \<Rightarrow> string \<times> string" where
  "partition_colon s = (takeWhile (\<lambda>ch. ch \<noteq> CHR '':'') s, tl (dropWhile (\<lambda>ch. ch \<noteq> CHR '':'') s))"

definition in_scope :: "order_request \<Rightarrow> string \<Rightarrow> bool" where
  "in_scope r scope =
     (case partition_colon scope of (kind, nm) \<Rightarrow>
        if kind = ''account'' then req_account r = Some nm
        else if kind = ''strategy'' then req_strategy r = Some nm
        else if kind = ''symbol'' then upper (symbol_str (req_symbol r)) = nm
        else True)"

definition open_in_scope :: "risk_context \<Rightarrow> string \<Rightarrow> nat" where
  "open_in_scope ctx scope =
     length (filter (\<lambda>o'. in_scope (st_request o') scope) (rc_open_orders ctx))"

definition check_open_orders :: "risk_context \<Rightarrow> risk_limits \<Rightarrow> string \<Rightarrow> risk_decision" where
  "check_open_orders ctx l scope =
     (case lim_open_orders l of
        None \<Rightarrow> APPROVED_ORDER
      | Some m \<Rightarrow> if m \<le> open_in_scope ctx scope then REJECTED_ORDER ''max_open_orders''
                  else APPROVED_ORDER)"

definition check_unknown :: "risk_context \<Rightarrow> risk_config \<Rightarrow> risk_decision" where
  "check_unknown ctx cfg =
     (if \<not> cfg_block_while_unknown cfg then APPROVED_ORDER
      else if list_ex (\<lambda>o'. req_symbol (st_request o') = req_symbol (rc_request ctx) \<and> st_status o' = UNKNOWN)
                (rc_open_orders ctx)
      then REJECTED_ORDER ''unknown_order'' else APPROVED_ORDER)"

definition would_cross :: "order_request \<Rightarrow> order_state \<Rightarrow> bool" where
  "would_cross r o' \<longleftrightarrow>
     st_limit_price o' = None \<or> req_limit_price r = None \<or>
     list_ex (\<lambda>resting. case (resting, req_limit_price r) of
                (Some q, Some p) \<Rightarrow> (if req_side r = BUY then q \<le> p else p \<le> q)
              | _ \<Rightarrow> False)
       [st_limit_price o', st_pending_limit_price o']"

definition check_self_match :: "risk_context \<Rightarrow> risk_config \<Rightarrow> risk_decision" where
  "check_self_match ctx cfg =
     (if \<not> cfg_prevent_self_match cfg then APPROVED_ORDER
      else
        (let r = rc_request ctx in
         if list_ex (\<lambda>o'. \<not> (req_symbol (st_request o') \<noteq> req_symbol r \<or> req_side (st_request o') = req_side r)
                          \<and> would_cross r o') (rc_open_orders ctx)
         then REJECTED_ORDER ''self_match'' else APPROVED_ORDER))"

section \<open>The engine\<close>

type_synonym fingerprint =
  "(string \<times> string) \<times> order_side \<times> rat \<times> order_type \<times> rat option \<times> rat option \<times>
   string option \<times> string option"

definition fingerprint_of :: "order_request \<Rightarrow> fingerprint" where
  "fingerprint_of r =
     ((venue (req_symbol r), ticker (req_symbol r)), req_side r, req_quantity r, req_type r,
      req_limit_price r, req_stop_price r, req_account r, req_strategy r)"

record risk_engine =
  re_config :: risk_config
  re_sent :: "string \<Rightarrow> int list"
  re_recent :: "(int \<times> fingerprint) list"

definition new_engine :: "risk_config \<Rightarrow> risk_engine" where
  "new_engine cfg = \<lparr>re_config = cfg, re_sent = (\<lambda>_. []), re_recent = []\<rparr>"

definition update_config :: "risk_engine \<Rightarrow> risk_config \<Rightarrow> risk_engine" where
  "update_config e cfg = e\<lparr>re_config := cfg\<rparr>"

text \<open>\<open>_Throttle.count\<close>: the window is pruned from the left, then counted.\<close>

definition throttle_prune :: "risk_engine \<Rightarrow> string \<Rightarrow> int \<Rightarrow> risk_engine" where
  "throttle_prune e scope now =
     e\<lparr>re_sent := (re_sent e)(scope := dropWhile (\<lambda>t. t \<le> now - SECOND) (re_sent e scope))\<rparr>"

definition throttle_count :: "risk_engine \<Rightarrow> string \<Rightarrow> int \<Rightarrow> risk_engine \<times> nat" where
  "throttle_count e scope now =
     (let e' = throttle_prune e scope now in (e', length (re_sent e' scope)))"

definition throttle_record :: "risk_engine \<Rightarrow> string \<Rightarrow> int \<Rightarrow> risk_engine" where
  "throttle_record e scope now = e\<lparr>re_sent := (re_sent e)(scope := re_sent e scope @ [now])\<rparr>"

fun first_rejection :: "risk_decision result list \<Rightarrow> risk_decision result" where
  "first_rejection [] = Inr APPROVED_ORDER"
| "first_rejection (d # ds) = (if d = Inr APPROVED_ORDER then first_rejection ds else d)"

definition single_checks :: "risk_context \<Rightarrow> risk_config \<Rightarrow> risk_decision result list" where
  "single_checks ctx cfg =
     [Inr (check_supported ctx), check_instrument ctx, Inr (check_limit_currency ctx cfg),
      Inr (check_restricted ctx cfg), check_session ctx cfg, Inr (check_unknown ctx cfg),
      Inr (check_reference ctx cfg), Inr (check_reduce_only ctx), Inr (check_short_sale ctx cfg),
      Inr (check_self_match ctx cfg)]"

definition scoped_checks :: "risk_context \<Rightarrow> risk_limits \<Rightarrow> string \<Rightarrow> risk_decision result list" where
  "scoped_checks ctx l scope =
     [Inr (check_size ctx l), check_collar ctx l, Inr (check_position ctx l), Inr (check_gross ctx l),
      Inr (check_open_orders ctx l scope)]"

definition check_duplicate :: "risk_engine \<Rightarrow> risk_context \<Rightarrow> risk_engine \<times> risk_decision" where
  "check_duplicate e ctx =
     (let cutoff = rc_now ctx - seconds_delta (cfg_duplicate_window (re_config e));
          recent = dropWhile (\<lambda>(t, f). t \<le> cutoff) (re_recent e)
      in (e\<lparr>re_recent := recent\<rparr>,
          if list_ex (\<lambda>(t, f). f = fingerprint_of (rc_request ctx)) recent
          then REJECTED_ORDER ''duplicate_order'' else APPROVED_ORDER))"

fun check_scopes ::
    "risk_engine \<Rightarrow> risk_context \<Rightarrow> (string \<times> risk_limits) list \<Rightarrow> risk_engine \<times> risk_decision result" where
  "check_scopes e ctx [] = (e, Inr APPROVED_ORDER)"
| "check_scopes e ctx ((scope, l) # rest) =
     (let d = first_rejection (scoped_checks ctx l scope) in
      if d \<noteq> Inr APPROVED_ORDER then (e, d)
      else case lim_orders_per_second l of
        None \<Rightarrow> check_scopes e ctx rest
      | Some m \<Rightarrow>
          (case throttle_count e scope (rc_now ctx) of
             (e', sent) \<Rightarrow> if m \<le> sent then (e', Inr (REJECTED_ORDER ''order_rate''))
                           else check_scopes e' ctx rest))"

definition evaluate :: "risk_engine \<Rightarrow> risk_context \<Rightarrow> bool \<Rightarrow> risk_engine \<times> risk_decision result" where
  "evaluate e ctx is_amend =
     (let d = first_rejection (single_checks ctx (re_config e)) in
      if d \<noteq> Inr APPROVED_ORDER then (e, d)
      else
        (case (if is_amend then (e, APPROVED_ORDER) else check_duplicate e ctx) of
           (e', dup) \<Rightarrow>
             if dup \<noteq> APPROVED_ORDER then (e', Inr dup)
             else check_scopes e' ctx (limits_for (re_config e) (rc_request ctx))))"

definition record_order :: "risk_engine \<Rightarrow> risk_context \<Rightarrow> risk_engine" where
  "record_order e ctx =
     (let e' = foldl (\<lambda>e (scope, l). throttle_record e scope (rc_now ctx)) e
                 (limits_for (re_config e) (rc_request ctx))
      in if 0 < cfg_duplicate_window (re_config e)
         then e'\<lparr>re_recent := re_recent e' @ [(rc_now ctx, fingerprint_of (rc_request ctx))]\<rparr>
         else e')"

text \<open>\<open>RiskEngine.check\<close>: any exception is a rejection.\<close>

definition check_order :: "risk_engine \<Rightarrow> risk_context \<Rightarrow> bool \<Rightarrow> risk_engine \<times> risk_decision" where
  "check_order e ctx is_amend =
     (case evaluate e ctx is_amend of
        (e', Inl err) \<Rightarrow> (e', REJECTED_ORDER ''risk_engine_error'')
      | (e', Inr APPROVED_ORDER) \<Rightarrow> (record_order e' ctx, APPROVED_ORDER)
      | (e', Inr d) \<Rightarrow> (e', d))"

section \<open>An approval means that every check approved\<close>

lemma first_rejection_approved:
  "first_rejection ds = Inr APPROVED_ORDER \<longleftrightarrow> list_all (\<lambda>d. d = Inr APPROVED_ORDER) ds"
  by (induction ds) auto

lemma check_order_approved:
  assumes "check_order e ctx am = (e', APPROVED_ORDER)"
  obtains e1 where "evaluate e ctx am = (e1, Inr APPROVED_ORDER)" "e' = record_order e1 ctx"
  using assms by (auto simp: check_order_def split: prod.splits sum.splits risk_decision.splits)

lemma evaluate_approved:
  assumes "evaluate e ctx am = (e1, Inr APPROVED_ORDER)"
  obtains e0 where "list_all (\<lambda>d. d = Inr APPROVED_ORDER) (single_checks ctx (re_config e))"
    "(am \<and> e0 = e) \<or> (\<not> am \<and> check_duplicate e ctx = (e0, APPROVED_ORDER))"
    "check_scopes e0 ctx (limits_for (re_config e) (rc_request ctx)) = (e1, Inr APPROVED_ORDER)"
  using assms
  by (auto simp: evaluate_def Let_def first_rejection_approved [symmetric] split: if_splits prod.splits)

lemma check_scopes_approved:
  "check_scopes e ctx scopes = (e1, Inr APPROVED_ORDER) \<Longrightarrow> (scope, l) \<in> set scopes \<Longrightarrow>
   list_all (\<lambda>d. d = Inr APPROVED_ORDER) (scoped_checks ctx l scope)"
  by (induction e ctx scopes rule: check_scopes.induct)
    (auto simp: Let_def first_rejection_approved [symmetric] split: if_splits option.splits prod.splits)

lemma approved_single:
  assumes "check_order e ctx am = (e', APPROVED_ORDER)"
  shows "list_all (\<lambda>d. d = Inr APPROVED_ORDER) (single_checks ctx (re_config e))"
  using check_order_approved [OF assms] evaluate_approved by metis

lemma approved_scoped:
  assumes "check_order e ctx am = (e', APPROVED_ORDER)"
    and "(scope, l) \<in> set (limits_for (re_config e) (rc_request ctx))"
  shows "list_all (\<lambda>d. d = Inr APPROVED_ORDER) (scoped_checks ctx l scope)"
proof -
  obtain e1 where ev: "evaluate e ctx am = (e1, Inr APPROVED_ORDER)"
    using check_order_approved [OF assms(1)] by metis
  obtain e0 where "check_scopes e0 ctx (limits_for (re_config e) (rc_request ctx)) = (e1, Inr APPROVED_ORDER)"
    using evaluate_approved [OF ev] by metis
  then show ?thesis using check_scopes_approved assms(2) by blast
qed

lemma approved_size:
  assumes "check_size ctx l = APPROVED_ORDER"
  shows "(\<forall>m. lim_order_quantity l = Some m \<longrightarrow> req_quantity (rc_request ctx) \<le> m) \<and>
    (\<forall>m. lim_order_notional l = Some m \<longrightarrow>
       (\<exists>price. pricing_for_notional ctx = Some price \<and> order_notional ctx price \<le> m))"
  using assms by (auto simp: check_size_def exceeds_def Let_def split: if_splits option.splits)

lemma approved_position:
  assumes "check_position ctx l = APPROVED_ORDER" and "lim_position l = Some m"
  shows "\<exists>p. rc_position ctx = Some p \<and>
    (\<bar>worst_position ctx p\<bar> \<le> m \<or>
     (\<bar>worst_position ctx p\<bar> \<le> \<bar>p\<bar> \<and> 0 \<le> worst_position ctx p * p))"
proof -
  obtain p where p: "rc_position ctx = Some p"
    using assms by (auto simp: check_position_def split: option.splits)
  have "\<bar>worst_position ctx p\<bar> \<le> m \<or> (\<not> \<bar>p\<bar> < \<bar>worst_position ctx p\<bar> \<and>
      \<not> ((0 < worst_position ctx p) \<noteq> (0 < p) \<and> worst_position ctx p \<noteq> 0 \<and> p \<noteq> 0))"
    using assms p by (auto simp: check_position_def Let_def not_le split: if_splits)
  then show ?thesis using p by (auto simp: zero_le_mult_iff not_less)
qed

lemma approved_gross:
  assumes "check_gross ctx l = APPROVED_ORDER" and "lim_gross_notional l = Some m"
  shows "reduces_position ctx \<or> (\<exists>g price. rc_gross_notional ctx = Some g \<and>
    pricing_for_notional ctx = Some price \<and> g + order_notional ctx price \<le> m)"
  using assms by (auto simp: check_gross_def split: if_splits option.splits)

lemma approved_open_orders:
  "check_open_orders ctx l scope = APPROVED_ORDER \<Longrightarrow> lim_open_orders l = Some m \<Longrightarrow>
   open_in_scope ctx scope < m"
  by (auto simp: check_open_orders_def split: if_splits)

lemma approved_collar:
  assumes "check_collar ctx l = Inr APPROVED_ORDER" and "lim_collar_bps l = Some m"
    and "req_limit_price (rc_request ctx) = Some p"
  shows "\<exists>q. reference_price ctx = Some q \<and>
    ((if req_side (rc_request ctx) = BUY then p \<le> q else q \<le> p) \<or>
     (q \<noteq> 0 \<and> (\<exists>d. ratio (\<bar>p - q\<bar> * 10000) \<bar>q\<bar> = Inr d \<and> d \<le> m)))"
  using assms
  by (auto simp: check_collar_def price_diff_bps_def bind_result_eq_Inr not_less
      split: option.splits if_splits)

lemma sum_leaves_sum:
  "sum_leaves orders s sd =
     sum_by leaves_quantity (filter (\<lambda>o'. req_symbol (st_request o') = s \<and> req_side (st_request o') = sd) orders)"
proof -
  have "foldl (\<lambda>acc o'. if req_symbol (st_request o') = s \<and> req_side (st_request o') = sd
      then acc + leaves_quantity o' else acc) a orders =
    a + sum_by leaves_quantity (filter (\<lambda>o'. req_symbol (st_request o') = s \<and> req_side (st_request o') = sd) orders)"
    for a by (induction orders arbitrary: a) auto
  then show ?thesis by (simp add: sum_leaves_def)
qed

lemma sum_leaves_nonneg: "0 \<le> sum_leaves orders s sd"
  by (simp add: sum_leaves_sum sum_by_nonneg leaves_nonneg)

lemma approved_reduce_only:
  assumes "check_reduce_only ctx = APPROVED_ORDER" and "req_reduce_only (rc_request ctx)"
    and "0 < req_quantity (rc_request ctx)"
  shows "\<exists>p. rc_position ctx = Some p \<and>
    ((0 < p \<and> 0 \<le> worst_position ctx p \<and> worst_position ctx p < p) \<or>
     (p < 0 \<and> p < worst_position ctx p \<and> worst_position ctx p \<le> 0))"
proof -
  obtain p where p: "rc_position ctx = Some p"
    using assms by (auto simp: check_reduce_only_def Let_def split: option.splits)
  let ?w = "worst_position ctx p"
  let ?r = "rc_request ctx"
  have c: "p \<noteq> 0" "(0 < p) = (req_side ?r = SELL)" "?w = 0 \<or> (0 < ?w) = (0 < p)"
    using assms p by (auto simp: check_reduce_only_def worst_position_def Let_def split: if_splits)
  have pos: "0 < sum_leaves (rc_open_orders ctx) (req_symbol ?r) (req_side ?r) + req_quantity ?r"
    using sum_leaves_nonneg assms(3) by (simp add: add_nonneg_pos)
  show ?thesis
  proof (cases "req_side ?r")
    case BUY
    then have "p < ?w" using pos by (simp add: worst_position_def)
    moreover have "p < 0" using BUY c by auto
    ultimately show ?thesis using p c by auto
  next
    case SELL
    then have "?w < p" using pos by (simp add: worst_position_def)
    then show ?thesis using p c SELL by auto
  qed
qed

lemma approved_short_sale:
  assumes "check_short_sale ctx cfg = APPROVED_ORDER" and "req_side (rc_request ctx) = SELL"
  shows "\<exists>p. rc_position ctx = Some p \<and>
    (0 \<le> p - sum_leaves (rc_open_orders ctx) (req_symbol (rc_request ctx)) SELL - req_quantity (rc_request ctx) \<or>
     (cfg_allow_short cfg \<and> req_short_sale (rc_request ctx) \<noteq> NOT_SHORT \<and>
      (\<forall>i. rc_instrument ctx = Some i \<and> ins_asset_class i \<in> {EQUITY, ETF} \<and>
          req_short_sale (rc_request ctx) = SHORT \<longrightarrow> rc_locate_available ctx)))"
  using assms by (auto simp: check_short_sale_def Let_def split: option.splits if_splits)

lemma approved_self_match:
  assumes "check_self_match ctx cfg = APPROVED_ORDER" and "cfg_prevent_self_match cfg"
    and "o' \<in> set (rc_open_orders ctx)" and "req_symbol (st_request o') = req_symbol (rc_request ctx)"
    and "req_side (st_request o') \<noteq> req_side (rc_request ctx)"
  shows "\<not> would_cross (rc_request ctx) o'"
  using assms by (auto simp: check_self_match_def Let_def list_ex_iff split: if_splits)

text \<open>Missing information is a rejection.\<close>

lemma approved_information:
  assumes "check_order e ctx am = (e', APPROVED_ORDER)"
  shows "rc_rules ctx \<noteq> None \<and> rc_instrument ctx \<noteq> None \<and> rc_reference ctx \<noteq> None \<and>
    (req_side (rc_request ctx) = SELL \<longrightarrow> rc_position ctx \<noteq> None)"
proof -
  have "check_supported ctx = APPROVED_ORDER" "check_instrument ctx = Inr APPROVED_ORDER"
    "check_reference ctx (re_config e) = APPROVED_ORDER" "check_short_sale ctx (re_config e) = APPROVED_ORDER"
    using approved_single [OF assms] by (simp_all add: single_checks_def)
  then show ?thesis
    by (auto simp: check_supported_def check_instrument_def check_reference_def check_short_sale_def
        Let_def split: option.splits)
qed

section \<open>Limits over time\<close>

lemma dropWhile_suffix: "\<exists>pre. xs = pre @ dropWhile P xs \<and> (\<forall>x \<in> set pre. P x)"
  by (intro exI [of _ "takeWhile P xs"]) (auto dest: set_takeWhileD)

lemma check_scopes_config [simp]: "re_config (fst (check_scopes e ctx scopes)) = re_config e"
  by (induction e ctx scopes rule: check_scopes.induct)
    (auto simp: Let_def throttle_count_def throttle_prune_def split: option.splits)

lemma check_scopes_recent: "re_recent (fst (check_scopes e ctx scopes)) = re_recent e"
  by (induction e ctx scopes rule: check_scopes.induct)
    (auto simp: Let_def throttle_count_def throttle_prune_def split: option.splits)

text \<open>Checking only prunes a window, and only of what has left it.\<close>

definition pruned :: "int \<Rightarrow> int list \<Rightarrow> int list \<Rightarrow> bool" where
  "pruned now xs ys \<longleftrightarrow> (\<exists>pre. xs = pre @ ys \<and> (\<forall>t \<in> set pre. t \<le> now - SECOND))"

lemma pruned_refl [simp]: "pruned now xs xs"
  by (simp add: pruned_def)

lemma pruned_trans: "pruned now xs ys \<Longrightarrow> pruned now ys zs \<Longrightarrow> pruned now xs zs"
  unfolding pruned_def by (metis append.assoc UnE set_append)

lemma pruned_length: "pruned now xs ys \<Longrightarrow> length ys \<le> length xs"
  by (auto simp: pruned_def)

lemma throttle_prune_pruned: "pruned now (re_sent e s) (re_sent (throttle_prune e scope now) s)"
proof (cases "s = scope")
  case True
  then show ?thesis
    using dropWhile_suffix [of "re_sent e s" "\<lambda>t. t \<le> now - SECOND"]
    by (simp add: throttle_prune_def pruned_def)
qed (simp add: throttle_prune_def)

lemma check_scopes_pruned:
  "pruned (rc_now ctx) (re_sent e s) (re_sent (fst (check_scopes e ctx scopes)) s)"
proof (induction e ctx scopes rule: check_scopes.induct)
  case (1 e ctx)
  then show ?case by simp
next
  case (2 e ctx scope l rest)
  then show ?case
    using throttle_prune_pruned [of "rc_now ctx" e s scope]
    by (auto simp: Let_def throttle_count_def split: option.splits intro: pruned_trans)
qed

lemma check_scopes_rate:
  assumes "check_scopes e ctx scopes = (e1, Inr APPROVED_ORDER)" and "(s, l) \<in> set scopes"
    and "lim_orders_per_second l = Some m"
  shows "length (re_sent e1 s) < m"
  using assms
proof (induction e ctx scopes rule: check_scopes.induct)
  case (1 e ctx)
  then show ?case by simp
next
  case (2 e ctx scope l' rest)
  let ?e' = "throttle_prune e scope (rc_now ctx)"
  have d: "first_rejection (scoped_checks ctx l' scope) = Inr APPROVED_ORDER"
    using "2.prems"(1) by (auto simp: Let_def split: if_splits)
  show ?case
  proof (cases "(s, l) = (scope, l')")
    case True
    then have "length (re_sent ?e' s) < m" and e: "check_scopes ?e' ctx rest = (e1, Inr APPROVED_ORDER)"
      using "2.prems"(1,3) d by (auto simp: Let_def throttle_count_def split: if_splits)
    moreover have "length (re_sent e1 s) \<le> length (re_sent ?e' s)"
      using check_scopes_pruned [of ctx ?e' s rest] e by (auto dest: pruned_length)
    ultimately show ?thesis by simp
  next
    case False
    then have "(s, l) \<in> set rest" using "2.prems"(2) by auto
    then show ?thesis
      using "2.prems"(1,3) d "2.IH"
      by (auto simp: Let_def throttle_count_def split: option.splits if_splits)
  qed
qed

lemma limits_for_distinct: "distinct (map fst (limits_for cfg r))"
  by (auto simp: limits_for_def Let_def split: option.split)

lemma record_sent:
  "distinct (map fst scopes) \<Longrightarrow>
   re_sent (foldl (\<lambda>e (scope, l). throttle_record e scope now) e scopes) s =
     re_sent e s @ (if s \<in> fst ` set scopes then [now] else [])"
  by (induction scopes arbitrary: e) (auto simp: throttle_record_def, force)

lemma record_fields:
  "re_config (foldl (\<lambda>e (scope, l). throttle_record e scope now) e scopes) = re_config e"
  "re_recent (foldl (\<lambda>e (scope, l). throttle_record e scope now) e scopes) = re_recent e"
  by (induction scopes arbitrary: e) (auto simp: throttle_record_def)

text \<open>A run of the engine under one configuration, and what it accepted.\<close>

fun risk_run :: "risk_engine \<Rightarrow> (risk_context \<times> bool) list \<Rightarrow> risk_engine \<times> risk_context list" where
  "risk_run e [] = (e, [])"
| "risk_run e ((ctx, am) # rest) =
     (case check_order e ctx am of
        (e', d) \<Rightarrow> (case risk_run e' rest of
          (e'', accepted) \<Rightarrow> (e'', (if d = APPROVED_ORDER then [ctx] else []) @ accepted)))"

fun times_ascend :: "int \<Rightarrow> (risk_context \<times> bool) list \<Rightarrow> bool" where
  "times_ascend t [] = True"
| "times_ascend t ((ctx, am) # rest) = (t \<le> rc_now ctx \<and> times_ascend (rc_now ctx) rest)"

definition in_scope_times :: "risk_config \<Rightarrow> string \<Rightarrow> risk_context list \<Rightarrow> int list" where
  "in_scope_times cfg s accepted =
     map rc_now (filter (\<lambda>c. s \<in> fst ` set (limits_for cfg (rc_request c))) accepted)"

definition window_kept :: "risk_engine \<Rightarrow> int \<Rightarrow> risk_context list \<Rightarrow> bool" where
  "window_kept e now accepted \<longleftrightarrow>
     (\<forall>s. pruned now (in_scope_times (re_config e) s accepted) (re_sent e s))"

lemma evaluate_keeps:
  assumes "evaluate e ctx am = (e1, d)"
  shows "re_config e1 = re_config e \<and> pruned (rc_now ctx) (re_sent e s) (re_sent e1 s)"
proof (cases "first_rejection (single_checks ctx (re_config e)) = Inr APPROVED_ORDER")
  case False
  then show ?thesis using assms by (simp add: evaluate_def Let_def)
next
  case True
  define e0 where "e0 = (if am then e else fst (check_duplicate e ctx))"
  have e0: "re_config e0 = re_config e" "re_sent e0 = re_sent e"
    by (simp_all add: e0_def check_duplicate_def Let_def)
  let ?sc = "limits_for (re_config e) (rc_request ctx)"
  have "e1 = e0 \<or> e1 = fst (check_scopes e0 ctx ?sc)"
    using assms True by (auto simp: evaluate_def e0_def Let_def split: if_splits prod.splits)
  then show ?thesis using e0 check_scopes_pruned [of ctx e0 s ?sc] by auto
qed

lemma record_order_sent:
  "re_sent (record_order e ctx) s =
     re_sent e s @ (if s \<in> fst ` set (limits_for (re_config e) (rc_request ctx)) then [rc_now ctx] else [])"
  by (simp add: record_order_def Let_def record_sent [OF limits_for_distinct])

lemma record_order_config [simp]: "re_config (record_order e ctx) = re_config e"
  by (simp add: record_order_def Let_def record_fields)

lemma pruned_later: "pruned now xs ys \<Longrightarrow> now \<le> now' \<Longrightarrow> pruned now' xs ys"
  unfolding pruned_def by (elim exE conjE, rule exI, rule conjI, assumption) fastforce

lemma pruned_snoc: "pruned now xs ys \<Longrightarrow> pruned now (xs @ zs) (ys @ zs)"
  unfolding pruned_def by auto

lemma check_order_window:
  assumes w: "window_kept e now accepted" and t: "now \<le> rc_now ctx"
    and c: "check_order e ctx am = (e', d)"
  shows "re_config e' = re_config e \<and>
    window_kept e' (rc_now ctx) (accepted @ (if d = APPROVED_ORDER then [ctx] else []))"
proof -
  obtain e1 r where ev: "evaluate e ctx am = (e1, r)" by fastforce
  note k = evaluate_keeps [OF ev]
  have p: "pruned (rc_now ctx) (in_scope_times (re_config e) s accepted) (re_sent e1 s)" for s
    using w t k [of s] pruned_trans pruned_later unfolding window_kept_def by meson
  show ?thesis
  proof (cases "r = Inr APPROVED_ORDER")
    case True
    then have e': "e' = record_order e1 ctx" "d = APPROVED_ORDER"
      using c ev by (auto simp: check_order_def)
    then show ?thesis
      using k p pruned_snoc
      by (auto simp: window_kept_def record_order_sent in_scope_times_def)
  next
    case False
    then have "e' = e1" "d \<noteq> APPROVED_ORDER"
      using c ev by (auto simp: check_order_def split: sum.splits risk_decision.splits)
    then show ?thesis using k p by (auto simp: window_kept_def)
  qed
qed

lemma risk_run_window:
  assumes "window_kept e now accepted" and "times_ascend now steps" and "risk_run e steps = (e', latest)"
  shows "re_config e' = re_config e \<and>
    window_kept e' (if steps = [] then now else rc_now (fst (last steps))) (accepted @ latest)"
  using assms
proof (induction steps arbitrary: e now accepted latest)
  case Nil
  then show ?case by simp
next
  case (Cons x steps)
  obtain ctx am where x: "x = (ctx, am)" by fastforce
  obtain e1 d where c: "check_order e ctx am = (e1, d)" by fastforce
  obtain later' where r: "risk_run e1 steps = (e', later')"
      "latest = (if d = APPROVED_ORDER then [ctx] else []) @ later'"
    using Cons.prems(3) c by (auto simp: x split: prod.splits)
  have t: "now \<le> rc_now ctx" "times_ascend (rc_now ctx) steps" using Cons.prems(2) by (simp_all add: x)
  note w = check_order_window [OF Cons.prems(1) t(1) c]
  show ?case
    using Cons.IH [of e1 "rc_now ctx" _ later', OF _ t(2) r(1)] w r(2) by (fastforce simp: x)
qed

lemma new_engine_window: "window_kept (new_engine cfg) now []"
  by (simp add: window_kept_def new_engine_def in_scope_times_def)

lemma rate_limited:
  assumes run: "risk_run (new_engine cfg) steps = (e, accepted)" and t: "times_ascend t0 (steps @ [(ctx, am)])"
    and ok: "check_order e ctx am = (e', APPROVED_ORDER)"
    and l: "(s, l) \<in> set (limits_for cfg (rc_request ctx))" "lim_orders_per_second l = Some m"
  shows "length (filter (\<lambda>x. rc_now ctx - SECOND < x) (in_scope_times cfg s (accepted @ [ctx]))) \<le> m"
proof -
  have ta: "times_ascend t0 steps" "(if steps = [] then t0 else rc_now (fst (last steps))) \<le> rc_now ctx"
    using t by (induction steps arbitrary: t0) auto
  have w: "re_config e = cfg" "window_kept e (if steps = [] then t0 else rc_now (fst (last steps))) accepted"
    using risk_run_window [OF new_engine_window ta(1) run] by (simp_all add: new_engine_def)
  obtain e1 where ev: "evaluate e ctx am = (e1, Inr APPROVED_ORDER)"
    using check_order_approved [OF ok] by metis
  obtain e0 where "check_scopes e0 ctx (limits_for cfg (rc_request ctx)) = (e1, Inr APPROVED_ORDER)"
    using evaluate_approved [OF ev] w(1) by metis
  then have len: "length (re_sent e1 s) < m" using check_scopes_rate l by blast
  have "pruned (rc_now ctx) (in_scope_times cfg s accepted) (re_sent e1 s)"
    using w ta(2) evaluate_keeps [OF ev, of s] pruned_trans pruned_later unfolding window_kept_def by metis
  then obtain pre where pre: "in_scope_times cfg s accepted = pre @ re_sent e1 s"
      "\<forall>x \<in> set pre. x \<le> rc_now ctx - SECOND" by (auto simp: pruned_def)
  have "filter (\<lambda>x. rc_now ctx - SECOND < x) pre = []"
    using pre(2) by (auto simp: filter_empty_conv not_less)
  moreover have "in_scope_times cfg s (accepted @ [ctx]) = in_scope_times cfg s accepted @
      (if s \<in> fst ` set (limits_for cfg (rc_request ctx)) then [rc_now ctx] else [])"
    by (simp add: in_scope_times_def)
  ultimately have "length (filter (\<lambda>x. rc_now ctx - SECOND < x) (in_scope_times cfg s (accepted @ [ctx])))
      \<le> length (re_sent e1 s) + 1"
    using length_filter_le [of "\<lambda>x. rc_now ctx - SECOND < x" "re_sent e1 s"]
    by (auto simp: pre(1) intro: le_SucI)
  with len show ?thesis by simp
qed

text \<open>Identical orders: what the duplicate window has forgotten is older than the window.\<close>

definition stamp_of :: "risk_context \<Rightarrow> int \<times> fingerprint" where
  "stamp_of ctx = (rc_now ctx, fingerprint_of (rc_request ctx))"

definition duplicate_cutoff :: "risk_config \<Rightarrow> int \<Rightarrow> int" where
  "duplicate_cutoff cfg now = now - seconds_delta (cfg_duplicate_window cfg)"

definition recent_kept :: "risk_engine \<Rightarrow> int \<Rightarrow> risk_context list \<Rightarrow> bool" where
  "recent_kept e now accepted \<longleftrightarrow> (\<exists>pre. map stamp_of accepted = pre @ re_recent e \<and>
     (\<forall>x \<in> set pre. fst x \<le> duplicate_cutoff (re_config e) now))"

lemma evaluate_recent:
  assumes "evaluate e ctx am = (e1, d)" and "recent_kept e now accepted" and "now \<le> rc_now ctx"
  shows "recent_kept e1 (rc_now ctx) accepted"
proof -
  obtain pre where pre: "map stamp_of accepted = pre @ re_recent e"
      "\<forall>x \<in> set pre. fst x \<le> duplicate_cutoff (re_config e) (rc_now ctx)"
    using assms(2,3) by (fastforce simp: recent_kept_def duplicate_cutoff_def)
  have same: "recent_kept e' (rc_now ctx) accepted"
    if "re_recent e' = re_recent e" "re_config e' = re_config e" for e'
    using that pre by (auto simp: recent_kept_def)
  have cut: "recent_kept e' (rc_now ctx) accepted"
    if "re_recent e' = dropWhile (\<lambda>(t, f). t \<le> duplicate_cutoff (re_config e) (rc_now ctx)) (re_recent e)"
      "re_config e' = re_config e" for e'
  proof -
    have "\<exists>q. re_recent e = q @ re_recent e' \<and>
        (\<forall>x \<in> set q. case x of (t, f) \<Rightarrow> t \<le> duplicate_cutoff (re_config e) (rc_now ctx))"
      unfolding that(1) by (rule dropWhile_suffix)
    then obtain q where "re_recent e = q @ re_recent e'"
        "\<forall>x \<in> set q. fst x \<le> duplicate_cutoff (re_config e) (rc_now ctx)"
      by (auto simp: case_prod_beta)
    then show ?thesis unfolding recent_kept_def using pre that(2) by (intro exI [of _ "pre @ q"]) auto
  qed
  show ?thesis
  proof (cases "first_rejection (single_checks ctx (re_config e)) = Inr APPROVED_ORDER")
    case False
    then show ?thesis using assms(1) same by (simp add: evaluate_def Let_def)
  next
    case True
    let ?e0 = "if am then e else fst (check_duplicate e ctx)"
    let ?sc = "limits_for (re_config e) (rc_request ctx)"
    have e1: "e1 = ?e0 \<or> e1 = fst (check_scopes ?e0 ctx ?sc)"
      using assms(1) True by (auto simp: evaluate_def Let_def split: if_splits prod.splits)
    then have "re_recent e1 = re_recent ?e0" "re_config e1 = re_config ?e0"
      by (auto simp: check_scopes_recent)
    then show ?thesis
      using same [of e1] cut [of e1]
      by (cases am) (simp_all add: check_duplicate_def Let_def duplicate_cutoff_def)
  qed
qed

lemma check_order_recent:
  assumes w: "recent_kept e now accepted" and t: "now \<le> rc_now ctx"
    and c: "check_order e ctx am = (e', d)" and pos: "0 < cfg_duplicate_window (re_config e)"
  shows "recent_kept e' (rc_now ctx) (accepted @ (if d = APPROVED_ORDER then [ctx] else []))"
proof -
  obtain e1 r where ev: "evaluate e ctx am = (e1, r)" by fastforce
  have k: "recent_kept e1 (rc_now ctx) accepted" "re_config e1 = re_config e"
    using evaluate_recent [OF ev w t] evaluate_keeps [OF ev] by auto
  show ?thesis
  proof (cases "r = Inr APPROVED_ORDER")
    case True
    then have e': "e' = record_order e1 ctx" "d = APPROVED_ORDER"
      using c ev by (auto simp: check_order_def)
    have "re_recent e' = re_recent e1 @ [stamp_of ctx]"
      using pos k(2) by (simp add: e'(1) record_order_def Let_def record_fields stamp_of_def)
    then show ?thesis using k e' by (auto simp: recent_kept_def)
  next
    case False
    then have "e' = e1" "d \<noteq> APPROVED_ORDER"
      using c ev by (auto simp: check_order_def split: sum.splits risk_decision.splits)
    then show ?thesis using k by auto
  qed
qed

lemma risk_run_recent:
  assumes "recent_kept e now accepted" and "times_ascend now steps" and "risk_run e steps = (e', latest)"
    and "0 < cfg_duplicate_window (re_config e)"
  shows "recent_kept e' (if steps = [] then now else rc_now (fst (last steps))) (accepted @ latest)"
  using assms
proof (induction steps arbitrary: e now accepted latest)
  case Nil
  then show ?case by simp
next
  case (Cons x steps)
  obtain ctx am where x: "x = (ctx, am)" by fastforce
  obtain e1 d where c: "check_order e ctx am = (e1, d)" by fastforce
  obtain later' where r: "risk_run e1 steps = (e', later')"
      "latest = (if d = APPROVED_ORDER then [ctx] else []) @ later'"
    using Cons.prems(3) c by (auto simp: x split: prod.splits)
  have t: "now \<le> rc_now ctx" "times_ascend (rc_now ctx) steps" using Cons.prems(2) by (simp_all add: x)
  obtain r0 e0 where "evaluate e ctx am = (e0, r0)" by fastforce
  then have cfg: "re_config e1 = re_config e"
    using c evaluate_keeps by (auto simp: check_order_def split: sum.splits risk_decision.splits)
  note w = check_order_recent [OF Cons.prems(1) t(1) c Cons.prems(4)]
  show ?case
    using Cons.IH [OF w t(2) r(1)] cfg Cons.prems(4) r(2) by (fastforce simp: x)
qed

lemma not_duplicated:
  assumes run: "risk_run (new_engine cfg) steps = (e, accepted)" and t: "times_ascend t0 (steps @ [(ctx, False)])"
    and ok: "check_order e ctx False = (e', APPROVED_ORDER)" and pos: "0 < cfg_duplicate_window cfg"
    and c: "c \<in> set accepted" "fingerprint_of (rc_request c) = fingerprint_of (rc_request ctx)"
  shows "seconds_delta (cfg_duplicate_window cfg) \<le> rc_now ctx - rc_now c"
proof -
  have ta: "times_ascend t0 steps" "(if steps = [] then t0 else rc_now (fst (last steps))) \<le> rc_now ctx"
    using t by (induction steps arbitrary: t0) auto
  have w: "re_config e = cfg" "recent_kept e (if steps = [] then t0 else rc_now (fst (last steps))) accepted"
    using risk_run_window [OF new_engine_window ta(1) run] risk_run_recent [OF _ ta(1) run, of "[]"] pos
    by (simp_all add: new_engine_def recent_kept_def)
  obtain e1 where ev: "evaluate e ctx False = (e1, Inr APPROVED_ORDER)"
    using check_order_approved [OF ok] by metis
  obtain e0 where d: "check_duplicate e ctx = (e0, APPROVED_ORDER)"
    using evaluate_approved [OF ev] by metis
  let ?cut = "duplicate_cutoff cfg (rc_now ctx)"
  have none: "\<forall>x \<in> set (dropWhile (\<lambda>(t, f). t \<le> ?cut) (re_recent e)). snd x \<noteq> fingerprint_of (rc_request ctx)"
    using d w(1)
    by (auto simp: check_duplicate_def duplicate_cutoff_def Let_def list_ex_iff split: if_splits)
  obtain pre where pre: "map stamp_of accepted = pre @ re_recent e"
      "\<forall>x \<in> set pre. fst x \<le> ?cut"
    using w ta(2) by (fastforce simp: recent_kept_def duplicate_cutoff_def)
  have "\<exists>q. re_recent e = q @ dropWhile (\<lambda>(t, f). t \<le> ?cut) (re_recent e) \<and>
      (\<forall>x \<in> set q. case x of (t, f) \<Rightarrow> t \<le> ?cut)"
    by (rule dropWhile_suffix)
  then obtain q where q: "re_recent e = q @ dropWhile (\<lambda>(t, f). t \<le> ?cut) (re_recent e)"
      "\<forall>x \<in> set q. fst x \<le> ?cut"
    by (auto simp: case_prod_beta)
  have "stamp_of c \<in> set (map stamp_of accepted)" using c(1) by simp
  then have "stamp_of c \<in> set pre \<union> set q \<union> set (dropWhile (\<lambda>(t, f). t \<le> ?cut) (re_recent e))"
    unfolding pre(1) using q(1) by (metis UnE UnI1 UnI2 set_append)
  then have "fst (stamp_of c) \<le> ?cut"
    using none pre(2) q(2) c(2) by (auto simp: stamp_of_def)
  then show ?thesis by (simp add: stamp_of_def duplicate_cutoff_def)
qed

section \<open>Properties\<close>

definition sample_limits :: risk_limits where
  "sample_limits =
     \<lparr>lim_order_quantity = Some 100, lim_order_notional = Some 1000, lim_position = Some 50,
      lim_gross_notional = Some 500, lim_open_orders = Some 3, lim_orders_per_second = Some 1,
      lim_collar_bps = Some 100\<rparr>"

definition sample_config :: risk_config where
  "sample_config =
     \<lparr>cfg_default = sample_limits, cfg_per_account = [], cfg_per_strategy = [], cfg_per_symbol = [],
      cfg_restricted = [], cfg_limit_currency = None, cfg_max_reference_age = 5,
      cfg_duplicate_window = 1, cfg_allow_short = False, cfg_enforce_session = False,
      cfg_prevent_self_match = True, cfg_block_while_unknown = True\<rparr>"

definition sample_context :: "int \<Rightarrow> risk_context" where
  "sample_context now =
     \<lparr>rc_request = sample_request, rc_instrument = Some sample_instrument,
      rc_reference = Some \<lparr>q_symbol = sample_symbol, q_exchange_ts = now, q_received_ts = now,
        bid = Some 5, ask = Some 5, last_price = None\<rparr>,
      rc_now = now, rc_open_orders = [], rc_position = Some 0, rc_calendar = None,
      rc_rules = Some \<lparr>rules_order_types = [LIMIT], rules_tif = [DAY], supports_amend = True,
        supports_short = False, supports_post_only = False, supports_cancel_on_disconnect = False,
        client_order_id_max_length = 36\<rparr>,
      rc_locate_available = False, rc_gross_notional = Some 0\<rparr>"

lemmas sample_check_simps =
  sample_context_def sample_config_def sample_limits_def sample_instrument_def sample_request_def
  sample_symbol_def single_checks_def scoped_checks_def check_supported_def check_instrument_def
  check_limit_currency_def check_restricted_def check_session_def check_unknown_def
  check_reference_def check_reduce_only_def check_short_sale_def check_self_match_def
  check_size_def check_collar_def check_position_def check_gross_def check_open_orders_def
  listing_rejection_def is_tick_aligned_def tick_at_def ladder_tick_at_def bisect_right_def
  is_multiple_def trunc_div_def is_lot_aligned_def seconds_delta_def SECOND_def MAX_FUTURE_QUOTE_def
  round_half_even_def quote_book_state_def book_state_of_def upper_def reference_price_def
  exceeds_def order_notional_def pricing_for_notional_def worst_position_def sum_leaves_def
  reduces_position_def open_in_scope_def limits_for_def symbol_str_def

lemma sample_singles: "list_all (\<lambda>d. d = Inr APPROVED_ORDER) (single_checks (sample_context now) sample_config)"
  by (simp add: sample_check_simps)

lemma sample_scoped:
  "list_all (\<lambda>d. d = Inr APPROVED_ORDER) (scoped_checks (sample_context now) sample_limits scope)"
  by (simp add: sample_check_simps)

lemma sample_limits_for [simp]: "limits_for sample_config sample_request = [(''default'', sample_limits)]"
  by (simp add: limits_for_def sample_config_def sample_request_def Let_def)

lemma sample_context_fields [simp]:
  "rc_request (sample_context now) = sample_request" "rc_now (sample_context now) = now"
  by (simp_all add: sample_context_def)

lemma sample_approved: "\<exists>e. check_order (new_engine sample_config) (sample_context now) False = (e, APPROVED_ORDER)"
proof -
  have "first_rejection (single_checks (sample_context now) sample_config) = Inr APPROVED_ORDER"
    "first_rejection (scoped_checks (sample_context now) sample_limits ''default'') = Inr APPROVED_ORDER"
    using sample_singles sample_scoped by (simp_all add: first_rejection_approved)
  moreover have "lim_orders_per_second sample_limits = Some 1" by (simp add: sample_limits_def)
  ultimately show ?thesis
    by (simp add: check_order_def evaluate_def new_engine_def check_duplicate_def throttle_count_def
        throttle_prune_def Let_def)
qed

text \<open>C11: An approved order is within every limit of every scope it falls under (default, account,
  strategy, symbol): order size and notional, the worst position its open orders could still lead to,
  gross notional, the number of open orders, and the price collar; an order that only reduces the
  position is the one exception the code makes.\<close>

theorem approved_order_within_limits:
  assumes "check_order e ctx am = (e', APPROVED_ORDER)"
    and "(scope, l) \<in> set (limits_for (re_config e) (rc_request ctx))"
  shows "(\<forall>m. lim_order_quantity l = Some m \<longrightarrow> req_quantity (rc_request ctx) \<le> m) \<and>
    (\<forall>m. lim_order_notional l = Some m \<longrightarrow>
       (\<exists>price. pricing_for_notional ctx = Some price \<and> order_notional ctx price \<le> m)) \<and>
    (\<forall>m. lim_position l = Some m \<longrightarrow> (\<exists>p. rc_position ctx = Some p \<and>
       (\<bar>worst_position ctx p\<bar> \<le> m \<or>
        (\<bar>worst_position ctx p\<bar> \<le> \<bar>p\<bar> \<and> 0 \<le> worst_position ctx p * p)))) \<and>
    (\<forall>m. lim_gross_notional l = Some m \<longrightarrow> reduces_position ctx \<or> (\<exists>g price.
       rc_gross_notional ctx = Some g \<and> pricing_for_notional ctx = Some price \<and>
       g + order_notional ctx price \<le> m)) \<and>
    (\<forall>m. lim_open_orders l = Some m \<longrightarrow> open_in_scope ctx scope < m) \<and>
    (\<forall>m p. lim_collar_bps l = Some m \<and> req_limit_price (rc_request ctx) = Some p \<longrightarrow>
       (\<exists>q. reference_price ctx = Some q \<and>
         ((if req_side (rc_request ctx) = BUY then p \<le> q else q \<le> p) \<or>
          (q \<noteq> 0 \<and> (\<exists>d. ratio (\<bar>p - q\<bar> * 10000) \<bar>q\<bar> = Inr d \<and> d \<le> m)))))"
proof -
  have "list_all (\<lambda>d. d = Inr APPROVED_ORDER) (scoped_checks ctx l scope)"
    using assms by (rule approved_scoped)
  then have "check_size ctx l = APPROVED_ORDER" "check_collar ctx l = Inr APPROVED_ORDER"
    "check_position ctx l = APPROVED_ORDER" "check_gross ctx l = APPROVED_ORDER"
    "check_open_orders ctx l scope = APPROVED_ORDER"
    by (simp_all add: scoped_checks_def)
  then show ?thesis
    using approved_size [of ctx l] approved_position [of ctx l] approved_gross [of ctx l]
      approved_open_orders [of ctx l scope] approved_collar [of ctx l]
    by (intro conjI; blast)
qed

lemma approved_order_within_limits_witness:
  "\<exists>g price. rc_gross_notional (sample_context 7) = Some g \<and>
     pricing_for_notional (sample_context 7) = Some price \<and>
     g + order_notional (sample_context 7) price \<le> 500 \<or> reduces_position (sample_context 7)"
proof -
  obtain e where "check_order (new_engine sample_config) (sample_context 7) False = (e, APPROVED_ORDER)"
    using sample_approved by blast
  then show ?thesis
    using approved_order_within_limits [of "new_engine sample_config" "sample_context 7" False e "''default''" sample_limits]
    by (auto simp: new_engine_def sample_limits_def)
qed

text \<open> Fail closed: nothing is approved without the venue's rules, the instrument and a reference
  quote, and no sale without a known position.\<close>

theorem approval_needs_information:
  assumes "check_order e ctx am = (e', APPROVED_ORDER)"
  shows "rc_rules ctx \<noteq> None \<and> rc_instrument ctx \<noteq> None \<and> rc_reference ctx \<noteq> None \<and>
    (req_side (rc_request ctx) = SELL \<longrightarrow> rc_position ctx \<noteq> None)"
  using assms by (rule approved_information)

lemma approval_needs_information_witness:
  "rc_rules (sample_context 7) \<noteq> None \<and> rc_instrument (sample_context 7) \<noteq> None"
  using sample_approved [of 7] approval_needs_information by blast



text \<open> Over any run of the engine, a new order with the fingerprint of one accepted before (same
  symbol, side, quantity, type, prices, account and strategy) is accepted only once the duplicate
  window has passed.\<close>

theorem duplicates_are_refused:
  assumes "risk_run (new_engine cfg) steps = (e, accepted)" and "times_ascend t0 (steps @ [(ctx, False)])"
    and "check_order e ctx False = (e', APPROVED_ORDER)" and "0 < cfg_duplicate_window cfg"
    and "c \<in> set accepted" and "fingerprint_of (rc_request c) = fingerprint_of (rc_request ctx)"
  shows "seconds_delta (cfg_duplicate_window cfg) \<le> rc_now ctx - rc_now c"
  using assms by (rule not_duplicated)

lemma sample_approved_twice:
  "\<exists>e e'. risk_run (new_engine sample_config) [(sample_context 7, False)] = (e, [sample_context 7]) \<and>
     check_order e (sample_context 9000000) False = (e', APPROVED_ORDER)"
proof -
  have "first_rejection (single_checks (sample_context now) sample_config) = Inr APPROVED_ORDER"
    "first_rejection (scoped_checks (sample_context now) sample_limits ''default'') = Inr APPROVED_ORDER" for now
    using sample_singles sample_scoped by (simp_all add: first_rejection_approved)
  moreover have "lim_orders_per_second sample_limits = Some 1" by (simp add: sample_limits_def)
  moreover have "cfg_duplicate_window sample_config = 1" by (simp add: sample_config_def)
  ultimately show ?thesis
    by (simp add: check_order_def evaluate_def new_engine_def check_duplicate_def throttle_count_def
        throttle_prune_def throttle_record_def record_order_def SECOND_def seconds_delta_def
        round_half_even_def Let_def)
qed

lemma duplicates_are_refused_witness:
  "seconds_delta (cfg_duplicate_window sample_config) \<le> 9000000 - 7"
proof -
  obtain e e' where "risk_run (new_engine sample_config) [(sample_context 7, False)] = (e, [sample_context 7])"
      "check_order e (sample_context 9000000) False = (e', APPROVED_ORDER)"
    using sample_approved_twice by blast
  then show ?thesis
    using duplicates_are_refused [of sample_config "[(sample_context 7, False)]" e "[sample_context 7]" 7
        "sample_context 9000000" e' "sample_context 7"]
    by (simp add: sample_config_def)
qed

end
