(* ===== verification/Digits.thy ===== *)
theory Digits
  imports Decimals
begin

text \<open>
  Numbers as text: Python's \<open>str\<close> of an integer and \<open>int\<close> of a text of digits, which the hashed
  journal text and the FIX wire format both use.
\<close>

fun nat_str :: "nat \<Rightarrow> string" where
  "nat_str n = (if n < 10 then [char_of (48 + n)] else nat_str (n div 10) @ [char_of (48 + n mod 10)])"

declare nat_str.simps [simp del]

definition int_str :: "int \<Rightarrow> string" where
  "int_str i = (if i < 0 then CHR ''-'' # nat_str (nat (- i)) else nat_str (nat i))"

lemma nat_str_digits: "\<forall>ch \<in> set (nat_str n). 48 \<le> (of_char ch :: nat) \<and> (of_char ch :: nat) \<le> 57"
proof (induction n rule: nat_str.induct)
  case (1 n)
  then show ?case by (subst nat_str.simps) (auto simp: of_char_of)
qed

definition digits_value :: "string \<Rightarrow> nat" where
  "digits_value s = foldl (\<lambda>acc ch. acc * 10 + (of_char ch - 48)) 0 s"

lemma digits_value_nat_str: "digits_value (nat_str n) = n"
proof (induction n rule: nat_str.induct)
  case (1 n)
  then show ?case by (subst nat_str.simps) (auto simp: digits_value_def of_char_of)
qed

lemma nat_str_inject: "nat_str m = nat_str n \<longleftrightarrow> m = n"
  by (metis digits_value_nat_str)

lemma nat_str_nonempty: "nat_str n \<noteq> []"
  by (subst nat_str.simps) simp

lemma hd_nat_str: "hd (nat_str n) \<noteq> CHR ''-''"
proof -
  have "hd (nat_str n) \<in> set (nat_str n)" using nat_str_nonempty by simp
  then have "48 \<le> (of_char (hd (nat_str n)) :: nat)" using nat_str_digits by blast
  then show ?thesis by auto
qed

lemma int_str_inject: "int_str i = int_str j \<longleftrightarrow> i = j"
proof
  assume a: "int_str i = int_str j"
  show "i = j"
  proof (cases "i < 0 \<longleftrightarrow> j < 0")
    case True
    then show ?thesis using a by (auto simp: int_str_def nat_str_inject split: if_splits)
  next
    case False
    then have "CHR ''-'' = hd (nat_str (nat i)) \<or> CHR ''-'' = hd (nat_str (nat j))"
      using a by (auto simp: int_str_def split: if_splits) (metis list.sel(1))+
    then show ?thesis using hd_nat_str by metis
  qed
qed simp

lemma int_str_no_comma: "CHR '','' \<notin> set (int_str i)"
proof -
  have "CHR '','' \<notin> set (nat_str n)" for n
  proof
    assume "CHR '','' \<in> set (nat_str n)"
    then have "48 \<le> (of_char CHR '','' :: nat)" using nat_str_digits by blast
    then show False by simp
  qed
  then show ?thesis by (simp add: int_str_def)
qed

end
