(* ===== verification/Journal.thy ===== *)
theory Journal
  imports Orders Digits
begin

text \<open>
  \<open>execution/journal.py\<close>: the append-only, tamper-evident order journal. SHA-256 is the parameter
  \<open>sha\<close>, from the UTF-8 bytes of the hashed text to the hexadecimal digest; strings are those
  bytes. Everything the code does around it is modelled: the JSON text that is hashed, the chain
  check, both journals, the anchor file and the kill-switch state. Where a theorem is about
  tampering it does not assume that SHA-256 is injective, which it is not: it concludes that history
  is intact or that two different texts with one digest have been found.

  A record holds the ISO text of its timestamp and the \<open>value\<close> string of its kind, as a row of the
  SQLite table does.
\<close>

section \<open>The hashed text\<close>

definition hex_digit :: "nat \<Rightarrow> char" where
  "hex_digit n = (if n < 10 then char_of (48 + n) else char_of (87 + n))"

text \<open>\<open>json.dumps\<close> of a string with \<open>ensure_ascii=False\<close>.\<close>

definition json_escape :: "char \<Rightarrow> string" where
  "json_escape ch =
     (if ch = CHR 0x22 then [CHR 0x5C, CHR 0x22]
      else if ch = CHR 0x5C then [CHR 0x5C, CHR 0x5C]
      else if ch = CHR 0x0A then [CHR 0x5C, CHR ''n'']
      else if ch = CHR 0x0D then [CHR 0x5C, CHR ''r'']
      else if ch = CHR 0x09 then [CHR 0x5C, CHR ''t'']
      else if ch = CHR 0x08 then [CHR 0x5C, CHR ''b'']
      else if ch = CHR 0x0C then [CHR 0x5C, CHR ''f'']
      else if (of_char ch :: nat) < 32 then
        [CHR 0x5C, CHR ''u'', CHR ''0'', CHR ''0'', hex_digit (of_char ch div 16),
         hex_digit (of_char ch mod 16)]
      else [ch])"

definition json_string :: "string \<Rightarrow> string" where
  "json_string s = CHR 0x22 # concat (map json_escape s) @ [CHR 0x22]"

definition json_opt_string :: "string option \<Rightarrow> string" where
  "json_opt_string s = (case s of None \<Rightarrow> ''null'' | Some x \<Rightarrow> json_string x)"

text \<open>The text \<open>_record_hash\<close> hashes: a JSON list with separators \<open>,\<close> and no spaces.\<close>

definition hash_material ::
    "int \<Rightarrow> string \<Rightarrow> string \<Rightarrow> string option \<Rightarrow> string \<Rightarrow> string \<Rightarrow> bool \<Rightarrow> string" where
  "hash_material seq ts kind cid payload prev unique =
     ''['' @ int_str seq @ '','' @ json_string ts @ '','' @ json_string kind @ '','' @
     json_opt_string cid @ '','' @ json_string payload @ '','' @ json_string prev @ '','' @
     int_str (if unique then 1 else 0) @ '']''"

definition record_hash ::
    "(string \<Rightarrow> string) \<Rightarrow> int \<Rightarrow> string \<Rightarrow> string \<Rightarrow> string option \<Rightarrow> string \<Rightarrow> string \<Rightarrow> bool \<Rightarrow> string" where
  "record_hash sha seq ts kind cid payload prev unique =
     sha (hash_material seq ts kind cid payload prev unique)"

section \<open>Records and the chain\<close>

datatype record_kind =
    ORDER_EVENT | RISK_REJECT | KILL_ENGAGED | KILL_RELEASED | RECON_BREAK | POSITION_BASELINE
  | CONFIG_CHANGE | POSITION_ADJUSTED | SWEEP_MARK | ANOMALY

fun kind_value :: "record_kind \<Rightarrow> string" where
  "kind_value ORDER_EVENT = ''order_event''"
| "kind_value RISK_REJECT = ''risk_reject''"
| "kind_value KILL_ENGAGED = ''kill_engaged''"
| "kind_value KILL_RELEASED = ''kill_released''"
| "kind_value RECON_BREAK = ''recon_break''"
| "kind_value POSITION_BASELINE = ''position_baseline''"
| "kind_value CONFIG_CHANGE = ''config_change''"
| "kind_value POSITION_ADJUSTED = ''position_adjusted''"
| "kind_value SWEEP_MARK = ''sweep_mark''"
| "kind_value ANOMALY = ''anomaly''"

text \<open>A row as it is stored: \<open>unique_intent\<close> is an integer column.\<close>

record journal_row =
  jr_seq :: int
  jr_ts :: string
  jr_kind :: string
  jr_cid :: "string option"
  jr_payload :: string
  jr_prev :: string
  jr_hash :: string
  jr_unique :: int

definition GENESIS_HASH :: string where
  "GENESIS_HASH = replicate 64 (CHR ''0'')"

datatype verify_detail =
  VerifyOk | SequenceJump | PreviousMismatch | ContentAltered | AnchorTruncated | AnchorReplaced

record verify_result =
  vr_ok :: bool
  vr_records :: nat
  vr_head :: string
  vr_first_bad :: "int option"
  vr_detail :: verify_detail

definition bad_chain :: "nat \<Rightarrow> string \<Rightarrow> int \<Rightarrow> verify_detail \<Rightarrow> verify_result" where
  "bad_chain cnt prev seq why =
     \<lparr>vr_ok = False, vr_records = cnt, vr_head = prev, vr_first_bad = Some seq, vr_detail = why\<rparr>"

definition row_hash :: "(string \<Rightarrow> string) \<Rightarrow> journal_row \<Rightarrow> string" where
  "row_hash sha r =
     record_hash sha (jr_seq r) (jr_ts r) (jr_kind r) (jr_cid r) (jr_payload r) (jr_prev r)
       (jr_unique r \<noteq> 0)"

fun verify_from ::
    "(string \<Rightarrow> string) \<Rightarrow> string \<Rightarrow> int \<Rightarrow> nat \<Rightarrow> journal_row list \<Rightarrow> verify_result" where
  "verify_from sha prev expected cnt [] =
     \<lparr>vr_ok = True, vr_records = cnt, vr_head = prev, vr_first_bad = None, vr_detail = VerifyOk\<rparr>"
| "verify_from sha prev expected cnt (r # rs) =
     (if jr_seq r \<noteq> expected then bad_chain (cnt + 1) prev (jr_seq r) SequenceJump
      else if jr_prev r \<noteq> prev then bad_chain (cnt + 1) prev (jr_seq r) PreviousMismatch
      else if row_hash sha r \<noteq> jr_hash r then bad_chain (cnt + 1) prev (jr_seq r) ContentAltered
      else verify_from sha (jr_hash r) (expected + 1) (cnt + 1) rs)"

definition verify_chain :: "(string \<Rightarrow> string) \<Rightarrow> journal_row list \<Rightarrow> verify_result" where
  "verify_chain sha rows = verify_from sha GENESIS_HASH 1 0 rows"

definition head_hash :: "journal_row list \<Rightarrow> string" where
  "head_hash rows = (if rows = [] then GENESIS_HASH else jr_hash (last rows))"

definition chain_contains :: "journal_row list \<Rightarrow> string \<Rightarrow> bool" where
  "chain_contains rows h \<longleftrightarrow> h = GENESIS_HASH \<or> list_ex (\<lambda>r. jr_hash r = h) rows"

section \<open>The kill-switch state\<close>

text \<open>What \<open>json.loads\<close> returns; the parser is the parameter \<open>loads\<close>, \<open>None\<close> for a \<open>ValueError\<close>.\<close>

datatype json =
  JNull | JBool bool | JNum rat | JStr string | JList "json list" | JObj "(string \<times> json) list"

fun truthy :: "json \<Rightarrow> bool" where
  "truthy JNull = False"
| "truthy (JBool b) = b"
| "truthy (JNum x) = (x \<noteq> 0)"
| "truthy (JStr s) = (s \<noteq> [])"
| "truthy (JList xs) = (xs \<noteq> [])"
| "truthy (JObj kvs) = (kvs \<noteq> [])"

definition json_get :: "(string \<times> json) list \<Rightarrow> string \<Rightarrow> json \<Rightarrow> json" where
  "json_get kvs k d = (case map_of kvs k of None \<Rightarrow> d | Some v \<Rightarrow> v)"

record kill_state =
  ks_engaged :: bool
  ks_reason :: json
  ks_operator :: json
  ks_seq :: int
  ks_cancel_open :: bool

definition no_kill :: kill_state where
  "no_kill = \<lparr>ks_engaged = False, ks_reason = JStr [], ks_operator = JStr [], ks_seq = 0,
     ks_cancel_open = False\<rparr>"

definition names_operator :: "(string \<times> json) list \<Rightarrow> bool" where
  "names_operator detail =
     (case map_of detail ''operator'' of Some (JStr s) \<Rightarrow> strip s \<noteq> [] | _ \<Rightarrow> False)"

definition kill_step ::
    "(string \<Rightarrow> json option) \<Rightarrow> kill_state \<Rightarrow> int \<times> string \<times> string \<Rightarrow> kill_state" where
  "kill_step loads state row = (case row of (seq, kind, payload) \<Rightarrow>
     (case loads payload of
        Some (JObj detail) \<Rightarrow>
          (let engaged = (kind = kind_value KILL_ENGAGED)
           in if \<not> engaged \<and> \<not> names_operator detail then state
              else \<lparr>ks_engaged = engaged, ks_reason = json_get detail ''reason'' (JStr []),
                    ks_operator = json_get detail ''operator'' (JStr []), ks_seq = seq,
                    ks_cancel_open = truthy (json_get detail ''cancel_open'' (JBool False)) \<or>
                      (engaged \<and> ks_engaged state \<and> ks_cancel_open state)\<rparr>)
      | _ \<Rightarrow> \<lparr>ks_engaged = True, ks_reason = JStr (''kill switch record '' @ int_str seq @ '' cannot be read''), ks_operator = JStr [],
              ks_seq = seq, ks_cancel_open = ks_cancel_open state\<rparr>))"

definition kill_state_from ::
    "(string \<Rightarrow> json option) \<Rightarrow> (int \<times> string \<times> string) list \<Rightarrow> kill_state" where
  "kill_state_from loads rows = foldl (kill_step loads) no_kill rows"

definition kill_rows :: "journal_row list \<Rightarrow> (int \<times> string \<times> string) list" where
  "kill_rows rows =
     map (\<lambda>r. (jr_seq r, jr_kind r, jr_payload r))
       (filter (\<lambda>r. jr_kind r \<in> {kind_value KILL_ENGAGED, kind_value KILL_RELEASED}) rows)"

section \<open>The two journals\<close>

definition make_row ::
    "(string \<Rightarrow> string) \<Rightarrow> int \<Rightarrow> string \<Rightarrow> record_kind \<Rightarrow> string option \<Rightarrow> string \<Rightarrow> string \<Rightarrow>
     bool \<Rightarrow> journal_row" where
  "make_row sha seq stamp kind cid payload prev unique =
     \<lparr>jr_seq = seq, jr_ts = stamp, jr_kind = kind_value kind, jr_cid = cid, jr_payload = payload,
      jr_prev = prev,
      jr_hash = record_hash sha seq stamp (kind_value kind) cid payload prev unique,
      jr_unique = (if unique then 1 else 0)\<rparr>"

record memory_journal =
  mj_records :: "journal_row list"
  mj_intents :: "string set"

definition empty_memory_journal :: memory_journal where
  "empty_memory_journal = \<lparr>mj_records = [], mj_intents = {}\<rparr>"

definition memory_append ::
    "(string \<Rightarrow> string) \<Rightarrow> memory_journal \<Rightarrow> record_kind \<Rightarrow> string \<Rightarrow> string option \<Rightarrow> string \<Rightarrow> bool \<Rightarrow>
     memory_journal \<times> journal_row result" where
  "memory_append sha j kind payload cid stamp unique =
     (if unique \<and> (case cid of None \<Rightarrow> False | Some c \<Rightarrow> c \<in> mj_intents j)
      then (j, Inl JournalError)
      else
        let intents = (if unique then insert (case cid of None \<Rightarrow> ''None'' | Some c \<Rightarrow> c) (mj_intents j)
                       else mj_intents j);
            r = make_row sha (int (length (mj_records j)) + 1) stamp kind cid payload
                  (head_hash (mj_records j)) unique
        in (\<lparr>mj_records = mj_records j @ [r], mj_intents = intents\<rparr>, Inr r))"

definition memory_records :: "memory_journal \<Rightarrow> nat \<Rightarrow> journal_row list" where
  "memory_records j after_seq = drop after_seq (mj_records j)"

definition memory_kill_state :: "(string \<Rightarrow> json option) \<Rightarrow> memory_journal \<Rightarrow> kill_state" where
  "memory_kill_state loads j = kill_state_from loads (kill_rows (mj_records j))"

definition memory_verify :: "(string \<Rightarrow> string) \<Rightarrow> memory_journal \<Rightarrow> verify_result" where
  "memory_verify sha j = verify_chain sha (mj_records j)"

text \<open>
  The SQLite journal: the table in order of \<open>seq\<close>, its primary key, and the anchor file beside it as
  \<open>_read_anchor\<close> reads it. \<open>disk\<close> says whether SQLite accepts the transaction; when it does not,
  nothing is written and \<open>append\<close> raises.
\<close>

record sqlite_journal =
  sj_rows :: "journal_row list"
  sj_anchor :: "(int \<times> string) option"

definition empty_sqlite_journal :: sqlite_journal where
  "empty_sqlite_journal = \<lparr>sj_rows = [], sj_anchor = None\<rparr>"

text \<open>The partial unique index: one row with \<open>unique_intent = 1\<close> per (non-null) order id.\<close>

definition index_conflict :: "journal_row list \<Rightarrow> string option \<Rightarrow> bool \<Rightarrow> bool" where
  "index_conflict rows cid unique \<longleftrightarrow>
     unique \<and> cid \<noteq> None \<and> list_ex (\<lambda>r. jr_unique r = 1 \<and> jr_cid r = cid) rows"

definition sqlite_commit ::
    "(string \<Rightarrow> string) \<Rightarrow> bool \<Rightarrow> sqlite_journal \<Rightarrow> record_kind \<Rightarrow> string \<Rightarrow> string option \<Rightarrow> string \<Rightarrow>
     bool \<Rightarrow> sqlite_journal \<times> journal_row result" where
  "sqlite_commit sha disk j kind payload cid stamp unique =
     (let seq = (if sj_rows j = [] then 1 else jr_seq (last (sj_rows j)) + 1);
          r = make_row sha seq stamp kind cid payload (head_hash (sj_rows j)) unique
      in if \<not> disk \<or> index_conflict (sj_rows j) cid unique then (j, Inl JournalError)
         else (j\<lparr>sj_rows := sj_rows j @ [r]\<rparr>, Inr r))"

definition anchor_disputes_chain :: "journal_row list \<Rightarrow> int \<times> string \<Rightarrow> bool" where
  "anchor_disputes_chain rows anchor =
     (case find_by jr_seq (fst anchor) rows of
        None \<Rightarrow> True
      | Some r \<Rightarrow> jr_hash r \<noteq> snd anchor)"

text \<open>\<open>_write_anchor\<close>; \<open>locked\<close> and \<open>written\<close> say whether the lock and the file write succeed.\<close>

definition write_anchor :: "bool \<Rightarrow> bool \<Rightarrow> sqlite_journal \<Rightarrow> int \<Rightarrow> string \<Rightarrow> sqlite_journal" where
  "write_anchor locked written j seq digest =
     (if \<not> locked then j
      else case sj_anchor j of
        Some a \<Rightarrow>
          (if anchor_disputes_chain (sj_rows j) a then j
           else if seq \<le> fst a then j
           else if written then j\<lparr>sj_anchor := Some (seq, digest)\<rparr> else j)
      | None \<Rightarrow> if written then j\<lparr>sj_anchor := Some (seq, digest)\<rparr> else j)"

definition sqlite_append ::
    "(string \<Rightarrow> string) \<Rightarrow> bool \<Rightarrow> bool \<Rightarrow> bool \<Rightarrow> sqlite_journal \<Rightarrow> record_kind \<Rightarrow> string \<Rightarrow>
     string option \<Rightarrow> string \<Rightarrow> bool \<Rightarrow> sqlite_journal \<times> journal_row result" where
  "sqlite_append sha disk locked written j kind payload cid stamp unique =
     (case sqlite_commit sha disk j kind payload cid stamp unique of
        (j', Inl e) \<Rightarrow> (j', Inl e)
      | (j', Inr r) \<Rightarrow> (write_anchor locked written j' (jr_seq r) (jr_hash r), Inr r))"

definition sqlite_records :: "sqlite_journal \<Rightarrow> int \<Rightarrow> journal_row list" where
  "sqlite_records j after_seq = filter (\<lambda>r. after_seq < jr_seq r) (sj_rows j)"

definition sqlite_kill_state :: "(string \<Rightarrow> json option) \<Rightarrow> sqlite_journal \<Rightarrow> kill_state" where
  "sqlite_kill_state loads j = kill_state_from loads (kill_rows (sj_rows j))"

text \<open>\<open>rows[i]\<close> with a Python index, which counts from the end when negative.\<close>

definition py_index :: "'a list \<Rightarrow> int \<Rightarrow> 'a result" where
  "py_index xs i =
     (if 0 \<le> i \<and> i < int (length xs) then Inr (xs ! nat i)
      else if i < 0 \<and> - int (length xs) \<le> i then Inr (xs ! nat (int (length xs) + i))
      else Inl IndexError)"

definition sqlite_verify :: "(string \<Rightarrow> string) \<Rightarrow> sqlite_journal \<Rightarrow> verify_result result" where
  "sqlite_verify sha j =
     (let rows = sj_rows j; res = verify_chain sha rows
      in if \<not> vr_ok res then Inr res
         else case sj_anchor j of
           None \<Rightarrow> Inr res
         | Some (seq, digest) \<Rightarrow>
             (if int (length rows) < seq
              then Inr (bad_chain (vr_records res) (vr_head res) seq AnchorTruncated)
              else bind_result (py_index rows (seq - 1)) (\<lambda>r.
                if jr_hash r \<noteq> digest
                then Inr (bad_chain (vr_records res) (vr_head res) seq AnchorReplaced)
                else Inr res)))"

section \<open>The archive\<close>

text \<open>
  \<open>export_jsonl\<close> and \<open>verify_jsonl\<close>, on the JSON objects of the lines. Exporting parses each
  payload for reading and so raises where one is not JSON; the raw text is what is checked again.
\<close>

record archive_item =
  ai_row :: journal_row
  ai_payload :: json

fun export_items :: "(string \<Rightarrow> json option) \<Rightarrow> journal_row list \<Rightarrow> archive_item list result" where
  "export_items loads [] = Inr []"
| "export_items loads (r # rs) =
     (case loads (jr_payload r) of
        None \<Rightarrow> Inl ValueError
      | Some p \<Rightarrow> bind_result (export_items loads rs) (\<lambda>is. Inr (\<lparr>ai_row = r, ai_payload = p\<rparr> # is)))"

definition verify_items :: "(string \<Rightarrow> string) \<Rightarrow> archive_item list \<Rightarrow> verify_result" where
  "verify_items sha items = verify_chain sha (map ai_row items)"

section \<open>The hashed text determines what is hashed\<close>

text \<open>A field that holds no comma is read back from a text that continues with one.\<close>

lemma comma_split:
  assumes "a @ CHR '','' # u = b @ CHR '','' # v" and "CHR '','' \<notin> set a" and "CHR '','' \<notin> set b"
  shows "a = b \<and> u = v"
  using assms
proof (induction a arbitrary: b)
  case Nil
  then show ?case by (cases b) auto
next
  case (Cons x a)
  then show ?case by (cases b) auto
qed

lemma hex_digit_inject: "m < 16 \<Longrightarrow> n < 16 \<Longrightarrow> hex_digit m = hex_digit n \<longleftrightarrow> m = n"
proof -
  assume a: "m < 16" "n < 16"
  have code: "(of_char (hex_digit k) :: nat) = (if k < 10 then 48 + k else 87 + k)" if "k < 16" for k
    using that by (simp add: hex_digit_def of_char_of)
  show ?thesis
  proof
    assume "hex_digit m = hex_digit n"
    then have "(of_char (hex_digit m) :: nat) = of_char (hex_digit n)" by simp
    then show "m = n" using a by (simp add: code split: if_splits)
  qed simp
qed

lemma control_char_eq:
  assumes "(of_char a :: nat) div 16 = of_char b div 16" and "(of_char a :: nat) mod 16 = of_char b mod 16"
  shows "a = b"
proof -
  have "(of_char a :: nat) = of_char b" using assms by (metis div_mult_mod_eq)
  then show ?thesis by (metis char_of_char)
qed

lemma json_escape_cases:
  obtains (plain) "json_escape a = [a]" "a \<noteq> CHR 0x22" "a \<noteq> CHR 0x5C"
  | (short) x where "json_escape a = [CHR 0x5C, x]" "x \<noteq> CHR ''u''"
      "(a, x) \<in> set [(CHR 0x22, CHR 0x22), (CHR 0x5C, CHR 0x5C), (CHR 0x0A, CHR ''n''),
        (CHR 0x0D, CHR ''r''), (CHR 0x09, CHR ''t''), (CHR 0x08, CHR ''b''), (CHR 0x0C, CHR ''f'')]"
  | (control) "json_escape a = [CHR 0x5C, CHR ''u'', CHR ''0'', CHR ''0'', hex_digit (of_char a div 16),
        hex_digit (of_char a mod 16)]" "(of_char a :: nat) < 32"
proof -
  let ?named = "[(CHR 0x22, CHR 0x22), (CHR 0x5C, CHR 0x5C), (CHR 0x0A, CHR ''n''),
    (CHR 0x0D, CHR ''r''), (CHR 0x09, CHR ''t''), (CHR 0x08, CHR ''b''), (CHR 0x0C, CHR ''f'')]"
  have short': "json_escape (fst p) = [CHR 0x5C, snd p] \<and> snd p \<noteq> CHR ''u''" if "p \<in> set ?named" for p
    using that by (auto simp: json_escape_def)
  show thesis
  proof (cases "a \<in> fst ` set ?named")
    case True
    then obtain x where x: "(a, x) \<in> set ?named" by auto
    from short' [OF this] have "json_escape a = [CHR 0x5C, x]" "x \<noteq> CHR ''u''" by simp_all
    then show thesis using that(2) x by blast
  next
    case False
    then show thesis using that(1,3)
      by (cases "(of_char a :: nat) < 32") (simp_all add: json_escape_def)
  qed
qed

lemma json_escape_prefix:
  assumes "json_escape a @ u = json_escape b @ v"
  shows "a = b \<and> u = v"
proof (cases rule: json_escape_cases [of a])
  case plain
  then show ?thesis using assms by (cases rule: json_escape_cases [of b]) auto
next
  case (short x)
  then show ?thesis using assms by (cases rule: json_escape_cases [of b]) auto
next
  case control
  then show ?thesis
  proof (cases rule: json_escape_cases [of b])
    case ctl: control
    have "hex_digit (of_char a div 16) = hex_digit (of_char b div 16)"
      "hex_digit (of_char a mod 16) = hex_digit (of_char b mod 16)" "u = v"
      using assms control(1) ctl(1) by auto
    moreover have "(of_char a :: nat) div 16 < 16" "(of_char b :: nat) div 16 < 16"
      using control(2) ctl(2) by simp_all
    ultimately show ?thesis using control_char_eq by (simp add: hex_digit_inject)
  qed (use assms control in auto)
qed

lemma json_escape_not_quote: "json_escape a @ u \<noteq> CHR 0x22 # v"
  by (cases rule: json_escape_cases [of a]) auto

lemma escaped_prefix:
  "concat (map json_escape s) @ CHR 0x22 # u = concat (map json_escape t) @ CHR 0x22 # v \<Longrightarrow>
   s = t \<and> u = v"
proof (induction s arbitrary: t)
  case Nil
  show ?case
  proof (cases t)
    case Nil
    with Nil.prems show ?thesis by simp
  next
    case (Cons b t')
    then have "json_escape b @ concat (map json_escape t') @ CHR 0x22 # v = CHR 0x22 # u"
      using Nil.prems by simp
    then show ?thesis using json_escape_not_quote by blast
  qed
next
  case (Cons a s)
  show ?case
  proof (cases t)
    case Nil
    then show ?thesis using Cons.prems json_escape_not_quote by simp
  next
    case (Cons b t')
    then have "json_escape a @ concat (map json_escape s) @ CHR 0x22 # u =
        json_escape b @ concat (map json_escape t') @ CHR 0x22 # v"
      using Cons.prems by simp
    then have "a = b" and "concat (map json_escape s) @ CHR 0x22 # u =
        concat (map json_escape t') @ CHR 0x22 # v"
      using json_escape_prefix by blast+
    with Cons.IH Cons show ?thesis by blast
  qed
qed

lemma json_string_prefix: "json_string s @ u = json_string t @ v \<longleftrightarrow> s = t \<and> u = v"
proof
  assume "json_string s @ u = json_string t @ v"
  then have "concat (map json_escape s) @ CHR 0x22 # u = concat (map json_escape t) @ CHR 0x22 # v"
    by (simp add: json_string_def)
  then show "s = t \<and> u = v" by (rule escaped_prefix)
qed simp

lemma json_opt_prefix: "json_opt_string s @ u = json_opt_string t @ v \<longleftrightarrow> s = t \<and> u = v"
proof (cases s)
  case None
  then show ?thesis by (cases t) (simp_all add: json_opt_string_def json_string_def)
next
  case (Some x)
  then show ?thesis
    by (cases t) (simp_all add: json_opt_string_def json_string_prefix, simp add: json_string_def)
qed

lemma hash_material_inject:
  "hash_material n ts k c p h q = hash_material n' ts' k' c' p' h' q' \<longleftrightarrow>
   n = n' \<and> ts = ts' \<and> k = k' \<and> c = c' \<and> p = p' \<and> h = h' \<and> q = q'"
proof
  assume "hash_material n ts k c p h q = hash_material n' ts' k' c' p' h' q'"
  then have e: "int_str n @ CHR '','' # json_string ts @ CHR '','' # json_string k @ CHR '','' #
      json_opt_string c @ CHR '','' # json_string p @ CHR '','' # json_string h @ CHR '','' #
      int_str (if q then 1 else 0) @ '']'' =
    int_str n' @ CHR '','' # json_string ts' @ CHR '','' # json_string k' @ CHR '','' #
      json_opt_string c' @ CHR '','' # json_string p' @ CHR '','' # json_string h' @ CHR '','' #
      int_str (if q' then 1 else 0) @ '']''"
    by (simp add: hash_material_def)
  have "n = n'" using comma_split [OF e] int_str_no_comma int_str_inject by blast
  moreover have "json_string ts @ CHR '','' # json_string k @ CHR '','' #
      json_opt_string c @ CHR '','' # json_string p @ CHR '','' # json_string h @ CHR '','' #
      int_str (if q then 1 else 0) @ '']'' =
    json_string ts' @ CHR '','' # json_string k' @ CHR '','' #
      json_opt_string c' @ CHR '','' # json_string p' @ CHR '','' # json_string h' @ CHR '','' #
      int_str (if q' then 1 else 0) @ '']''"
    using comma_split [OF e] int_str_no_comma by blast
  ultimately show "n = n' \<and> ts = ts' \<and> k = k' \<and> c = c' \<and> p = p' \<and> h = h' \<and> q = q'"
    by (auto simp: json_string_prefix json_opt_prefix int_str_inject split: if_splits)
qed simp

section \<open>The chain\<close>

fun chained :: "(string \<Rightarrow> string) \<Rightarrow> string \<Rightarrow> int \<Rightarrow> journal_row list \<Rightarrow> bool" where
  "chained sha prev seq [] = True"
| "chained sha prev seq (r # rs) =
     (jr_seq r = seq \<and> jr_prev r = prev \<and> row_hash sha r = jr_hash r \<and>
      chained sha (jr_hash r) (seq + 1) rs)"

definition head_from :: "string \<Rightarrow> journal_row list \<Rightarrow> string" where
  "head_from prev rows = (if rows = [] then prev else jr_hash (last rows))"

lemma verify_from_ok: "vr_ok (verify_from sha prev seq n rows) \<longleftrightarrow> chained sha prev seq rows"
  by (induction sha prev seq n rows rule: verify_from.induct) (simp_all add: bad_chain_def)

lemma verify_from_result:
  "chained sha prev seq rows \<Longrightarrow> verify_from sha prev seq n rows =
     \<lparr>vr_ok = True, vr_records = n + length rows, vr_head = head_from prev rows, vr_first_bad = None,
      vr_detail = VerifyOk\<rparr>"
  by (induction rows arbitrary: prev seq n) (simp_all add: head_from_def)

lemma verify_chain_ok: "vr_ok (verify_chain sha rows) \<longleftrightarrow> chained sha GENESIS_HASH 1 rows"
  by (simp add: verify_chain_def verify_from_ok)

lemma head_hash_from: "head_hash rows = head_from GENESIS_HASH rows"
  by (simp add: head_hash_def head_from_def)

lemma chained_append:
  "chained sha prev seq (rows @ rows') \<longleftrightarrow>
   chained sha prev seq rows \<and> chained sha (head_from prev rows) (seq + int (length rows)) rows'"
  by (induction rows arbitrary: prev seq) (auto simp: head_from_def add.assoc add.commute [of 1])

lemma chained_nth:
  assumes "chained sha prev seq rows" and "i < length rows"
  shows "jr_seq (rows ! i) = seq + int i" and "row_hash sha (rows ! i) = jr_hash (rows ! i)"
    and "jr_prev (rows ! i) = (if i = 0 then prev else jr_hash (rows ! (i - 1)))"
  using assms
proof (induction rows arbitrary: prev seq i)
  case (Cons r rs)
  { case 1 then show ?case using Cons(1) by (cases i) auto }
  { case 2 then show ?case using Cons(2) by (cases i) auto }
  { case 3
    then show ?case
    proof (cases i)
      case (Suc j)
      then show ?thesis using 3 Cons(3) [of "jr_hash r" "seq + 1" j] by (cases j) auto
    qed simp }
qed simp_all

lemma row_hash_make_row [simp]: "row_hash sha (make_row sha seq st k c p h u) = jr_hash (make_row sha seq st k c p h u)"
  by (simp add: row_hash_def make_row_def)

lemma make_row_fields [simp]:
  "jr_seq (make_row sha seq st k c p h u) = seq" "jr_prev (make_row sha seq st k c p h u) = h"
  "jr_cid (make_row sha seq st k c p h u) = c" "jr_payload (make_row sha seq st k c p h u) = p"
  "jr_kind (make_row sha seq st k c p h u) = kind_value k" "jr_ts (make_row sha seq st k c p h u) = st"
  "jr_unique (make_row sha seq st k c p h u) = (if u then 1 else 0)"
  by (simp_all add: make_row_def)

lemma chained_last_seq:
  "chained sha GENESIS_HASH 1 rows \<Longrightarrow>
   (if rows = [] then 1 else jr_seq (last rows) + 1) = int (length rows) + 1"
  using chained_nth(1) [of sha GENESIS_HASH 1 rows "length rows - 1"]
  by (cases rows) (auto simp: last_conv_nth)

lemma chained_make_row:
  "chained sha GENESIS_HASH 1 rows \<Longrightarrow>
   chained sha GENESIS_HASH 1 (rows @ [make_row sha (int (length rows) + 1) st k c p (head_hash rows) u])"
  by (simp add: chained_append head_hash_from add.commute)

section \<open>Editing history breaks the chain\<close>

definition collision :: "(string \<Rightarrow> string) \<Rightarrow> bool" where
  "collision sha \<longleftrightarrow> (\<exists>a b. a \<noteq> b \<and> sha a = sha b)"

text \<open>What of a row the hash covers: \<open>unique_intent\<close> only as a truth value.\<close>

definition row_content :: "journal_row \<Rightarrow> journal_row" where
  "row_content r = r\<lparr>jr_unique := (if jr_unique r = 0 then 0 else 1)\<rparr>"

lemma row_hash_determines:
  assumes "row_hash sha r = jr_hash r" and "row_hash sha r' = jr_hash r'" and "jr_hash r = jr_hash r'"
    and "\<not> collision sha"
  shows "row_content r = row_content r'"
proof -
  have "hash_material (jr_seq r) (jr_ts r) (jr_kind r) (jr_cid r) (jr_payload r) (jr_prev r) (jr_unique r \<noteq> 0) =
    hash_material (jr_seq r') (jr_ts r') (jr_kind r') (jr_cid r') (jr_payload r') (jr_prev r') (jr_unique r' \<noteq> 0)"
    using assms unfolding collision_def row_hash_def record_hash_def by metis
  then show ?thesis
    using assms(3) unfolding hash_material_inject by (cases r; cases r') (auto simp: row_content_def)
qed

lemma chained_prefix:
  assumes c: "chained sha GENESIS_HASH 1 rows" "chained sha GENESIS_HASH 1 rows'" and "\<not> collision sha"
    and "i < length rows" "i < length rows'" and "jr_hash (rows ! i) = jr_hash (rows' ! i)"
  shows "map row_content (take (Suc i) rows) = map row_content (take (Suc i) rows')"
  using assms(4-6)
proof (induction i)
  case 0
  have "row_content (rows ! 0) = row_content (rows' ! 0)"
    using row_hash_determines [OF chained_nth(2) [OF c(1)] chained_nth(2) [OF c(2)]] 0 assms(3) by blast
  with 0 show ?case by (cases rows; cases rows') auto
next
  case (Suc i)
  have e: "row_content (rows ! Suc i) = row_content (rows' ! Suc i)"
    using row_hash_determines [OF chained_nth(2) [OF c(1)] chained_nth(2) [OF c(2)]] Suc.prems assms(3) by blast
  then have "jr_prev (rows ! Suc i) = jr_prev (rows' ! Suc i)"
    by (simp add: row_content_def) (metis journal_row.ext_inject journal_row.surjective
        journal_row.update_convs(8))
  then have "jr_hash (rows ! i) = jr_hash (rows' ! i)"
    using chained_nth(3) [OF c(1) Suc.prems(1)] chained_nth(3) [OF c(2) Suc.prems(2)] by simp
  then have "map row_content (take (Suc i) rows) = map row_content (take (Suc i) rows')"
    using Suc by simp
  with e Suc.prems show ?case by (simp add: take_Suc_conv_app_nth)
qed

section \<open>What the kill rows say\<close>

text \<open>A release that counts: readable, and it says who released.\<close>

definition valid_release :: "(string \<Rightarrow> json option) \<Rightarrow> int \<times> string \<times> string \<Rightarrow> bool" where
  "valid_release loads row = (case row of (seq, kind, payload) \<Rightarrow>
     (case loads payload of
        Some (JObj detail) \<Rightarrow> kind \<noteq> kind_value KILL_ENGAGED \<and> names_operator detail
      | _ \<Rightarrow> False))"

lemma kill_step_keeps:
  assumes "\<not> valid_release loads row" and "ks_engaged st"
  shows "ks_engaged (kill_step loads st row)" and "ks_cancel_open st \<Longrightarrow> ks_cancel_open (kill_step loads st row)"
  using assms
  by (auto simp: kill_step_def valid_release_def Let_def split: prod.splits option.splits json.splits)

lemma kill_steps_keep:
  "list_all (\<lambda>r. \<not> valid_release loads r) rows \<Longrightarrow> ks_engaged st \<Longrightarrow>
   ks_engaged (foldl (kill_step loads) st rows) \<and>
   (ks_cancel_open st \<longrightarrow> ks_cancel_open (foldl (kill_step loads) st rows))"
  by (induction rows arbitrary: st) (auto simp: kill_step_keeps)

definition engages :: "(string \<Rightarrow> json option) \<Rightarrow> int \<times> string \<times> string \<Rightarrow> bool" where
  "engages loads row = (case row of (seq, kind, payload) \<Rightarrow>
     (case loads payload of Some (JObj detail) \<Rightarrow> kind = kind_value KILL_ENGAGED | _ \<Rightarrow> True))"

lemma kill_step_engaged:
  "ks_engaged (kill_step loads st row) \<longleftrightarrow>
   engages loads row \<or> (ks_engaged st \<and> \<not> valid_release loads row)"
  by (auto simp: kill_step_def engages_def valid_release_def Let_def split: prod.splits option.splits json.splits)

text \<open>The switch is engaged exactly when some row engages it and no later row validly releases it.\<close>

lemma kill_engaged_iff:
  "ks_engaged (kill_state_from loads rows) \<longleftrightarrow>
   (\<exists>pre row post. rows = pre @ row # post \<and> engages loads row \<and>
      list_all (\<lambda>r. \<not> valid_release loads r) post)"
proof (induction rows rule: rev_induct)
  case Nil
  then show ?case by (simp add: kill_state_from_def no_kill_def)
next
  case (snoc r rows)
  let ?E = "\<lambda>rows. \<exists>pre row post. rows = pre @ row # post \<and> engages loads row \<and>
      list_all (\<lambda>r. \<not> valid_release loads r) post"
  have "?E (rows @ [r]) \<longleftrightarrow> engages loads r \<or> (?E rows \<and> \<not> valid_release loads r)"
  proof
    assume "?E (rows @ [r])"
    then obtain pre row post where s: "rows @ [r] = pre @ row # post" and e: "engages loads row"
      and p: "list_all (\<lambda>r. \<not> valid_release loads r) post" by blast
    show "engages loads r \<or> (?E rows \<and> \<not> valid_release loads r)"
    proof (cases post rule: rev_cases)
      case Nil
      with s e show ?thesis by simp
    next
      case (snoc post' x)
      with s have "x = r" "rows = pre @ row # post'" by simp_all
      moreover have "list_all (\<lambda>r. \<not> valid_release loads r) post'" "\<not> valid_release loads r"
        using p snoc \<open>x = r\<close> by simp_all
      ultimately show ?thesis using e by blast
    qed
  next
    assume "engages loads r \<or> (?E rows \<and> \<not> valid_release loads r)"
    then show "?E (rows @ [r])"
    proof
      assume "engages loads r"
      then show ?thesis by (intro exI [of _ rows] exI [of _ r] exI [of _ "[]"]) simp
    next
      assume "?E rows \<and> \<not> valid_release loads r"
      then obtain pre row post where "rows = pre @ row # post" "engages loads row"
        "list_all (\<lambda>r. \<not> valid_release loads r) post" "\<not> valid_release loads r" by blast
      then show ?thesis by (intro exI [of _ pre] exI [of _ row] exI [of _ "post @ [r]"]) simp
    qed
  qed
  with snoc show ?case by (simp add: kill_state_from_def kill_step_engaged)
qed

section \<open>The interface a client of a journal relies on\<close>

definition intents_unique :: "journal_row list \<Rightarrow> bool" where
  "intents_unique rows \<longleftrightarrow> distinct (map jr_cid (filter (\<lambda>r. jr_unique r = 1 \<and> jr_cid r \<noteq> None) rows))"

locale journal_store =
  fixes append :: "'j \<Rightarrow> record_kind \<Rightarrow> string \<Rightarrow> string option \<Rightarrow> string \<Rightarrow> bool \<Rightarrow> 'j \<times> journal_row result"
    and rows :: "'j \<Rightarrow> journal_row list"
    and verified :: "'j \<Rightarrow> bool"
    and inv :: "'j \<Rightarrow> bool"
  assumes append_ok: "inv j \<Longrightarrow> append j k p c t u = (j', Inr r) \<Longrightarrow>
      rows j' = rows j @ [r] \<and> jr_kind r = kind_value k \<and> jr_payload r = p \<and> jr_cid r = c \<and>
      jr_ts r = t \<and> jr_unique r = (if u then 1 else 0)"
    and append_fail: "append j k p c t u = (j', Inl e) \<Longrightarrow> j' = j"
    and append_inv: "inv j \<Longrightarrow> append j k p c t u = (j', Inr r) \<Longrightarrow> inv j'"
    and append_once: "inv j \<Longrightarrow> append j k p (Some d) t True = (j', Inr r) \<Longrightarrow>
      s \<in> set (rows j) \<Longrightarrow> \<not> (jr_unique s = 1 \<and> jr_cid s = Some d)"
    and inv_verified: "inv j \<Longrightarrow> verified j"
begin

definition append_all :: "'j \<Rightarrow> (record_kind \<times> string \<times> string option \<times> string \<times> bool) list \<Rightarrow> 'j" where
  "append_all j xs = foldl (\<lambda>j (k, p, c, t, u). fst (append j k p c t u)) j xs"

lemma append_unique:
  assumes "inv j" and "intents_unique (rows j)" and a: "append j k p c t u = (j', Inr r)"
  shows "intents_unique (rows j')"
proof (cases "u \<and> c \<noteq> None")
  case True
  then obtain d where c: "c = Some d" by auto
  have "\<forall>s \<in> set (rows j). \<not> (jr_unique s = 1 \<and> jr_cid s = Some d)"
    using append_once [OF assms(1)] a True c by auto
  then show ?thesis using append_ok [OF assms(1) a] assms(2) True c by (auto simp: intents_unique_def)
next
  case False
  then show ?thesis using append_ok [OF assms(1) a] assms(2) by (auto simp: intents_unique_def)
qed

lemma append_any:
  assumes "inv j"
  shows "inv (fst (append j k p c t u)) \<and> (\<exists>ys. rows (fst (append j k p c t u)) = rows j @ ys) \<and>
    (intents_unique (rows j) \<longrightarrow> intents_unique (rows (fst (append j k p c t u))))"
proof (cases "append j k p c t u")
  case (Pair j' res)
  show ?thesis
  proof (cases res)
    case (Inl e)
    then have "j' = j" using append_fail Pair by blast
    with Pair assms show ?thesis by simp
  next
    case (Inr r)
    then show ?thesis
      using append_ok [OF assms] append_inv [OF assms] append_unique [OF assms] Pair by fastforce
  qed
qed

lemma append_all_keeps:
  "inv j \<Longrightarrow> inv (append_all j xs) \<and> (\<exists>ys. rows (append_all j xs) = rows j @ ys) \<and>
     (intents_unique (rows j) \<longrightarrow> intents_unique (rows (append_all j xs)))"
proof (induction xs arbitrary: j)
  case Nil
  then show ?case by (simp add: append_all_def)
next
  case (Cons x xs)
  obtain k p c t u where x: "x = (k, p, c, t, u)" by (cases x) auto
  define j1 where "j1 = fst (append j k p c t u)"
  have "append_all j (x # xs) = append_all j1 xs" by (simp add: append_all_def x j1_def)
  then show ?case
    using Cons.IH [of j1] append_any [OF Cons.prems, of k p c t u] unfolding j1_def by force
qed

lemma append_all_verified: "inv j \<Longrightarrow> verified (append_all j xs)"
  using append_all_keeps inv_verified by blast

end

text \<open>The memory journal provides it.\<close>

definition memory_inv :: "(string \<Rightarrow> string) \<Rightarrow> memory_journal \<Rightarrow> bool" where
  "memory_inv sha j \<longleftrightarrow> chained sha GENESIS_HASH 1 (mj_records j) \<and>
     (\<forall>r \<in> set (mj_records j). \<forall>c. jr_unique r = 1 \<and> jr_cid r = Some c \<longrightarrow> c \<in> mj_intents j)"

lemma memory_append_inv:
  "memory_inv sha j \<Longrightarrow> memory_append sha j k p c t u = (j', Inr r) \<Longrightarrow> memory_inv sha j'"
  by (auto simp: memory_inv_def memory_append_def Let_def chained_make_row
      split: if_splits option.splits)

interpretation mem: journal_store "memory_append sha" mj_records "\<lambda>j. vr_ok (memory_verify sha j)"
  "memory_inv sha" for sha
proof (unfold_locales, goal_cases)
  case (3 j k p c t u j' r)
  then show ?case by (rule memory_append_inv)
qed (auto simp: memory_append_def memory_inv_def memory_verify_def verify_chain_ok Let_def
    split: if_splits option.splits)

section \<open>The SQLite journal between processes and crashes\<close>

definition anchor_in :: "journal_row list \<Rightarrow> int \<times> string \<Rightarrow> bool" where
  "anchor_in rows a \<longleftrightarrow>
     1 \<le> fst a \<and> fst a \<le> int (length rows) \<and> jr_hash (rows ! nat (fst a - 1)) = snd a"

definition sqlite_inv :: "(string \<Rightarrow> string) \<Rightarrow> sqlite_journal \<Rightarrow> bool" where
  "sqlite_inv sha j \<longleftrightarrow> chained sha GENESIS_HASH 1 (sj_rows j) \<and>
     (case sj_anchor j of None \<Rightarrow> True | Some a \<Rightarrow> anchor_in (sj_rows j) a)"

lemma anchor_in_append: "anchor_in rows a \<Longrightarrow> anchor_in (rows @ ys) a"
  by (auto simp: anchor_in_def nth_append nat_less_iff)

lemma find_by_seq:
  "chained sha prev seq rows \<Longrightarrow> i < length rows \<Longrightarrow> find_by jr_seq (seq + int i) rows = Some (rows ! i)"
proof (induction rows arbitrary: prev seq i)
  case (Cons r rs)
  show ?case
  proof (cases i)
    case (Suc j)
    then have "find_by jr_seq (seq + 1 + int j) rs = Some (rs ! j)"
      using Cons.prems by (intro Cons.IH) auto
    then show ?thesis using Cons.prems Suc by (simp add: algebra_simps)
  qed (use Cons.prems in simp)
qed simp

lemma anchor_in_undisputed:
  assumes "chained sha GENESIS_HASH 1 rows" and "anchor_in rows a"
  shows "\<not> anchor_disputes_chain rows a"
proof -
  have "find_by jr_seq (1 + int (nat (fst a - 1))) rows = Some (rows ! nat (fst a - 1))"
    using assms by (intro find_by_seq) (auto simp: anchor_in_def)
  with assms(2) show ?thesis by (simp add: anchor_disputes_chain_def anchor_in_def)
qed

lemma undisputed_anchor_in:
  assumes c: "chained sha GENESIS_HASH 1 rows" and "\<not> anchor_disputes_chain rows a"
  shows "anchor_in rows a"
proof -
  obtain r where r: "find_by jr_seq (fst a) rows = Some r" and h: "jr_hash r = snd a"
    using assms(2) by (auto simp: anchor_disputes_chain_def split: option.splits)
  then obtain i where i: "i < length rows" "rows ! i = r" and s: "jr_seq r = fst a"
    using find_by_SomeD [OF r] by (auto simp: in_set_conv_nth)
  have "fst a = 1 + int i" using chained_nth(1) [OF c i(1)] i s by simp
  with i h show ?thesis by (auto simp: anchor_in_def)
qed

lemma sqlite_commit_row:
  assumes "chained sha GENESIS_HASH 1 (sj_rows j)" and "sqlite_commit sha disk j k p c t u = (j', Inr r)"
  shows "r = make_row sha (int (length (sj_rows j)) + 1) t k c p (head_hash (sj_rows j)) u"
    and "j' = j\<lparr>sj_rows := sj_rows j @ [r]\<rparr>" and "chained sha GENESIS_HASH 1 (sj_rows j')"
    and "anchor_in (sj_rows j') (jr_seq r, jr_hash r)" and "\<not> index_conflict (sj_rows j) c u"
proof -
  show r: "r = make_row sha (int (length (sj_rows j)) + 1) t k c p (head_hash (sj_rows j)) u"
    and j': "j' = j\<lparr>sj_rows := sj_rows j @ [r]\<rparr>" and "\<not> index_conflict (sj_rows j) c u"
    using assms(2) unfolding sqlite_commit_def chained_last_seq [OF assms(1)] Let_def
    by (auto split: if_splits)
  show "chained sha GENESIS_HASH 1 (sj_rows j')"
    using chained_make_row [OF assms(1)] by (simp add: j' r)
  show "anchor_in (sj_rows j') (jr_seq r, jr_hash r)"
    by (simp add: j' anchor_in_def r)
qed

lemma sqlite_commit_inv:
  assumes "sqlite_inv sha j" and "sqlite_commit sha disk j k p c t u = (j', Inr r)"
  shows "sqlite_inv sha j'"
proof -
  have c: "chained sha GENESIS_HASH 1 (sj_rows j)" using assms(1) by (simp add: sqlite_inv_def)
  show ?thesis
    using assms(1) sqlite_commit_row(3) [OF c assms(2)]
    by (auto simp: sqlite_inv_def sqlite_commit_row(2) [OF c assms(2)] anchor_in_append split: option.splits)
qed

lemma write_anchor_rows [simp]: "sj_rows (write_anchor locked written j n d) = sj_rows j"
  by (simp add: write_anchor_def split: option.split)

lemma write_anchor_inv:
  "sqlite_inv sha j \<Longrightarrow> anchor_in (sj_rows j) (n, d) \<Longrightarrow> sqlite_inv sha (write_anchor locked written j n d)"
  by (auto simp: sqlite_inv_def write_anchor_def split: option.splits)

lemma py_index_anchor: "anchor_in rows a \<Longrightarrow> py_index rows (fst a - 1) = Inr (rows ! nat (fst a - 1))"
  by (auto simp: anchor_in_def py_index_def)

lemma sqlite_inv_verifies:
  assumes "sqlite_inv sha j"
  shows "\<exists>res. sqlite_verify sha j = Inr res \<and> vr_ok res \<and> vr_records res = length (sj_rows j) \<and>
    vr_head res = head_hash (sj_rows j)"
proof -
  have c: "chained sha GENESIS_HASH 1 (sj_rows j)" using assms by (simp add: sqlite_inv_def)
  have v: "verify_chain sha (sj_rows j) = \<lparr>vr_ok = True, vr_records = length (sj_rows j),
      vr_head = head_hash (sj_rows j), vr_first_bad = None, vr_detail = VerifyOk\<rparr>"
    using verify_from_result [OF c, of 0] by (simp add: verify_chain_def head_hash_from)
  have "sqlite_verify sha j = Inr (verify_chain sha (sj_rows j))"
  proof (cases "sj_anchor j")
    case None
    then show ?thesis by (simp add: sqlite_verify_def Let_def v)
  next
    case (Some a)
    then have i: "anchor_in (sj_rows j) a" using assms by (simp add: sqlite_inv_def)
    then show ?thesis
      using Some py_index_anchor [OF i]
      by (cases a) (simp add: sqlite_verify_def Let_def v anchor_in_def)
  qed
  with v show ?thesis by simp
qed

lemma sqlite_append_inv:
  assumes "sqlite_inv sha j" and a: "sqlite_append sha disk locked written j k p c t u = (j', Inr r)"
  shows "sqlite_inv sha j'" and "sj_rows j' = sj_rows j @ [r]"
    and "r = make_row sha (int (length (sj_rows j)) + 1) t k c p (head_hash (sj_rows j)) u"
    and "\<not> index_conflict (sj_rows j) c u"
    and "locked \<Longrightarrow> written \<Longrightarrow> sj_anchor j' = Some (jr_seq r, jr_hash r)"
proof -
  have ch: "chained sha GENESIS_HASH 1 (sj_rows j)" using assms(1) by (simp add: sqlite_inv_def)
  obtain j1 where m: "sqlite_commit sha disk j k p c t u = (j1, Inr r)"
    and j': "j' = write_anchor locked written j1 (jr_seq r) (jr_hash r)"
    using a by (auto simp: sqlite_append_def split: prod.splits sum.splits)
  note row = sqlite_commit_row [OF ch m]
  have inv1: "sqlite_inv sha j1" using sqlite_commit_inv [OF assms(1) m] .
  show "sqlite_inv sha j'" unfolding j' using inv1 row(4) by (rule write_anchor_inv)
  show "sj_rows j' = sj_rows j @ [r]" by (simp add: j' row(2))
  show "r = make_row sha (int (length (sj_rows j)) + 1) t k c p (head_hash (sj_rows j)) u" by (rule row(1))
  show "\<not> index_conflict (sj_rows j) c u" by (rule row(5))
  show "sj_anchor j' = Some (jr_seq r, jr_hash r)" if "locked" "written"
  proof (cases "sj_anchor j")
    case None
    then show ?thesis using that by (simp add: j' row(2) write_anchor_def)
  next
    case (Some b)
    then have "anchor_in (sj_rows j1) b" "fst b \<le> int (length (sj_rows j))"
      using assms(1) by (auto simp: sqlite_inv_def row(2) anchor_in_append anchor_in_def nth_append)
    then have "\<not> anchor_disputes_chain (sj_rows j1) b" "\<not> jr_seq r \<le> fst b"
      using anchor_in_undisputed row(1,3) by auto
    then show ?thesis using that Some by (simp add: j' row(2) write_anchor_def)
  qed
qed

lemma sqlite_append_fail: "sqlite_append sha disk locked written j k p c t u = (j', Inl e) \<Longrightarrow> j' = j"
  by (auto simp: sqlite_append_def sqlite_commit_def Let_def split: if_splits prod.splits sum.splits)

interpretation sql: journal_store "sqlite_append sha disk locked written" sj_rows
    "\<lambda>j. \<exists>res. sqlite_verify sha j = Inr res \<and> vr_ok res" "sqlite_inv sha" for sha disk locked written
proof (unfold_locales, goal_cases)
  case (1 j k p c t u j' r)
  then show ?case using sqlite_append_inv(2,3) [OF 1] by simp
next
  case (2 j k p c t u j' e)
  then show ?case by (rule sqlite_append_fail)
next
  case (3 j k p c t u j' r)
  then show ?case by (rule sqlite_append_inv(1))
next
  case (4 j k p d t j' r s)
  then show ?case
    using sqlite_append_inv(4) [OF 4(1,2)] by (auto simp: index_conflict_def list_ex_iff)
next
  case (5 j)
  then show ?case using sqlite_inv_verifies by blast
qed

text \<open>
  Several processes share the file. Each commits a record and then, in a second transaction, moves
  the anchor, unless it crashes in between. A state is the file and the anchor updates that are
  still owed; a step is a commit, an owed update carried out by its process, or its loss.
\<close>

inductive journal_step ::
    "(string \<Rightarrow> string) \<Rightarrow> sqlite_journal \<times> (int \<times> string) list \<Rightarrow>
     sqlite_journal \<times> (int \<times> string) list \<Rightarrow> bool" for sha where
  commit: "sqlite_commit sha disk j k p c t u = (j', Inr r) \<Longrightarrow>
    journal_step sha (j, owed) (j', owed @ [(jr_seq r, jr_hash r)])"
| refused: "sqlite_commit sha disk j k p c t u = (j', Inl e) \<Longrightarrow> journal_step sha (j, owed) (j', owed)"
| anchor: "owed = xs @ (n, d) # ys \<Longrightarrow>
    journal_step sha (j, owed) (write_anchor locked written j n d, xs @ ys)"
| crash: "owed = xs @ a # ys \<Longrightarrow> journal_step sha (j, owed) (j, xs @ ys)"

inductive_cases journal_stepE: "journal_step sha s s'"

inductive journal_reaches ::
    "(string \<Rightarrow> string) \<Rightarrow> sqlite_journal \<times> (int \<times> string) list \<Rightarrow>
     sqlite_journal \<times> (int \<times> string) list \<Rightarrow> bool" for sha where
  refl: "journal_reaches sha s s"
| step: "journal_reaches sha s s' \<Longrightarrow> journal_step sha s' s'' \<Longrightarrow> journal_reaches sha s s''"

definition shared_inv :: "(string \<Rightarrow> string) \<Rightarrow> sqlite_journal \<times> (int \<times> string) list \<Rightarrow> bool" where
  "shared_inv sha s \<longleftrightarrow> sqlite_inv sha (fst s) \<and> list_all (anchor_in (sj_rows (fst s))) (snd s)"

lemma sqlite_commit_fail: "sqlite_commit sha disk j k p c t u = (j', Inl e) \<Longrightarrow> j' = j"
  by (auto simp: sqlite_commit_def Let_def split: if_splits)

lemma journal_step_inv:
  assumes "journal_step sha s s'" and "shared_inv sha s"
  shows "shared_inv sha s' \<and> (\<exists>ys. sj_rows (fst s') = sj_rows (fst s) @ ys)"
  using assms
proof (cases rule: journal_step.cases)
  case (commit disk j k p c t u j' r owed)
  have i: "sqlite_inv sha j" "list_all (anchor_in (sj_rows j)) owed"
    using assms(2) commit by (auto simp: shared_inv_def)
  then have ch: "chained sha GENESIS_HASH 1 (sj_rows j)" by (simp add: sqlite_inv_def)
  note row = sqlite_commit_row [OF ch commit(3)]
  have "list_all (anchor_in (sj_rows j')) owed"
    using i(2) by (auto simp: list_all_iff row(2) anchor_in_append)
  then show ?thesis
    using commit sqlite_commit_inv [OF i(1) commit(3)] row(4)
    by (auto simp: shared_inv_def) (simp add: row(2))
next
  case (refused disk j k p c t u j' e owed)
  then show ?thesis using assms(2) sqlite_commit_fail by fastforce
next
  case (anchor owed xs n d ys j locked written)
  then show ?thesis using assms(2) write_anchor_inv by (auto simp: shared_inv_def)
next
  case (crash owed xs a ys j)
  then show ?thesis using assms(2) by (auto simp: shared_inv_def)
qed

lemma journal_reaches_inv:
  "journal_reaches sha s s' \<Longrightarrow> shared_inv sha s \<Longrightarrow>
   shared_inv sha s' \<and> (\<exists>ys. sj_rows (fst s') = sj_rows (fst s) @ ys)"
proof (induction rule: journal_reaches.induct)
  case (refl s)
  then show ?case by simp
next
  case (step s s' s'')
  then obtain ys where "shared_inv sha s'" "sj_rows (fst s') = sj_rows (fst s) @ ys" by blast
  then show ?case using journal_step_inv [OF step.hyps(2)] by auto
qed

section \<open>What verification proves about a file that may have been tampered with\<close>

lemma sqlite_verify_ok_anchor:
  assumes "sqlite_verify sha j = Inr res" and "vr_ok res" and "sj_anchor j = Some a" and "1 \<le> fst a"
  shows "chained sha GENESIS_HASH 1 (sj_rows j) \<and> anchor_in (sj_rows j) a"
proof -
  have v: "vr_ok (verify_chain sha (sj_rows j))"
    using assms(1,2) by (auto simp: sqlite_verify_def Let_def split: if_splits)
  have l: "fst a \<le> int (length (sj_rows j))"
    using assms v by (auto simp: sqlite_verify_def Let_def bad_chain_def split: if_splits prod.splits)
  then have i: "py_index (sj_rows j) (fst a - 1) = Inr (sj_rows j ! nat (fst a - 1))"
    using assms(4) by (simp add: py_index_def)
  then have "jr_hash (sj_rows j ! nat (fst a - 1)) = snd a"
    using assms v l by (auto simp: sqlite_verify_def Let_def bad_chain_def split: if_splits prod.splits)
  with v l assms(4) show ?thesis by (simp add: verify_chain_ok anchor_in_def)
qed

text \<open>Two files that verify and hold one anchor have the same history up to it.\<close>

lemma anchored_history:
  assumes "chained sha GENESIS_HASH 1 rows" "anchor_in rows a"
    and "chained sha GENESIS_HASH 1 rows'" "anchor_in rows' a" and "\<not> collision sha"
  shows "map row_content (take (nat (fst a)) rows') = map row_content (take (nat (fst a)) rows)"
proof -
  have n: "Suc (nat (fst a - 1)) = nat (fst a)" and
    "nat (fst a - 1) < length rows'" "nat (fst a - 1) < length rows"
    using assms(2,4) by (auto simp: anchor_in_def)
  then show ?thesis
    using chained_prefix [OF assms(3,1,5), of "nat (fst a - 1)"] assms(2,4)
    by (simp add: anchor_in_def n)
qed

text \<open>
  An anchor that disputes the chain is evidence, and no append removes it: it stays until the chain
  again holds the anchored record.
\<close>

lemma write_anchor_disputed:
  "sj_anchor j = Some a \<Longrightarrow> anchor_disputes_chain (sj_rows j) a \<Longrightarrow> write_anchor locked written j n d = j"
  by (simp add: write_anchor_def)

lemma sqlite_append_disputed:
  assumes "sj_anchor j = Some a" and s: "sqlite_append sha disk locked written j k p c t u = (j', res)"
  shows "(\<exists>ys. sj_rows j' = sj_rows j @ ys) \<and>
    (sj_anchor j' = Some a \<or> \<not> anchor_disputes_chain (sj_rows j') a)"
proof -
  obtain j1 r1 where m: "sqlite_commit sha disk j k p c t u = (j1, r1)" by fastforce
  have "sj_anchor j1 = sj_anchor j" "\<exists>ys. sj_rows j1 = sj_rows j @ ys"
    using m by (auto simp: sqlite_commit_def Let_def split: if_splits)
  then show ?thesis
    using s m assms(1)
    by (auto simp: sqlite_append_def write_anchor_def split: sum.splits if_splits)
qed

fun sqlite_append_all ::
    "(string \<Rightarrow> string) \<Rightarrow> sqlite_journal \<Rightarrow>
     (bool \<times> bool \<times> bool \<times> record_kind \<times> string \<times> string option \<times> string \<times> bool) list \<Rightarrow> sqlite_journal" where
  "sqlite_append_all sha j [] = j"
| "sqlite_append_all sha j ((disk, locked, written, k, p, c, t, u) # xs) =
     sqlite_append_all sha (fst (sqlite_append sha disk locked written j k p c t u)) xs"

lemma append_all_disputed:
  "sj_anchor j = Some a \<Longrightarrow>
   (\<exists>ys. sj_rows (sqlite_append_all sha j xs) = sj_rows j @ ys) \<and>
   (sj_anchor (sqlite_append_all sha j xs) = Some a \<or>
    (\<exists>zs ys. sj_rows (sqlite_append_all sha j xs) = zs @ ys \<and> \<not> anchor_disputes_chain zs a))"
proof (induction xs arbitrary: j)
  case Nil
  then show ?case by simp
next
  case (Cons x xs)
  obtain disk locked written k p c t u where x: "x = (disk, locked, written, k, p, c, t, u)"
    by (metis surj_pair)
  obtain j1 res where s: "sqlite_append sha disk locked written j k p c t u = (j1, res)" by fastforce
  have grow: "\<exists>ys. sj_rows (sqlite_append_all sha j1 xs) = sj_rows j1 @ ys"
  proof (induction xs arbitrary: j1)
    case Nil
    then show ?case by simp
  next
    case (Cons y ys)
    obtain disk locked written k p c t u where y: "y = (disk, locked, written, k, p, c, t, u)"
      by (metis surj_pair)
    have "\<exists>zs. sj_rows (fst (sqlite_append sha disk locked written j1 k p c t u)) = sj_rows j1 @ zs"
      by (auto simp: sqlite_append_def sqlite_commit_def Let_def split: prod.splits sum.splits if_splits)
    then show ?case using Cons [of "fst (sqlite_append sha disk locked written j1 k p c t u)"] y by force
  qed
  note d = sqlite_append_disputed [OF Cons.prems s]
  show ?case
  proof (cases "sj_anchor j1 = Some a")
    case True
    then show ?thesis using Cons.IH [of j1] d s by (auto simp: x)
  next
    case False
    then show ?thesis using d s grow by (auto simp: x)
  qed
qed

lemma anchor_in_chained_prefix:
  assumes "chained sha GENESIS_HASH 1 (zs @ ys)" and "\<not> anchor_disputes_chain zs a"
  shows "anchor_in (zs @ ys) a"
  using assms undisputed_anchor_in anchor_in_append by (metis chained_append)

lemma tampering_stays_visible:
  assumes orig: "sqlite_inv sha j" "sj_anchor j = Some a"
    and forged: "sj_anchor f = Some a"
    and ok: "sqlite_verify sha (sqlite_append_all sha f xs) = Inr res" "vr_ok res"
  shows "collision sha \<or>
    map row_content (take (nat (fst a)) (sj_rows (sqlite_append_all sha f xs))) =
    map row_content (take (nat (fst a)) (sj_rows j))"
proof -
  let ?g = "sqlite_append_all sha f xs"
  have a: "chained sha GENESIS_HASH 1 (sj_rows j)" "anchor_in (sj_rows j) a" "1 \<le> fst a"
    using orig by (auto simp: sqlite_inv_def anchor_in_def)
  have c: "chained sha GENESIS_HASH 1 (sj_rows ?g)"
    using ok by (auto simp: sqlite_verify_def Let_def verify_chain_ok split: if_splits)
  have "anchor_in (sj_rows ?g) a"
    using append_all_disputed [OF forged, of sha xs]
  proof (elim conjE disjE exE)
    assume "sj_anchor ?g = Some a"
    then show ?thesis using sqlite_verify_ok_anchor [OF ok] a(3) by blast
  next
    fix zs ys assume "sj_rows ?g = zs @ ys" "\<not> anchor_disputes_chain zs a"
    then show ?thesis using c anchor_in_chained_prefix by metis
  qed
  then show ?thesis using anchored_history [OF a(1,2) c] by blast
qed

text \<open>What the chain does not cover: \<open>unique_intent\<close> is hashed only as a truth value.\<close>

lemma unique_flag_uncovered:
  assumes "jr_unique r \<noteq> 0" and "n \<noteq> 0"
  shows "verify_chain sha (xs @ r\<lparr>jr_unique := n\<rparr> # ys) = verify_chain sha (xs @ r # ys)"
proof -
  have "verify_from sha prev seq cnt (xs @ r\<lparr>jr_unique := n\<rparr> # ys) =
    verify_from sha prev seq cnt (xs @ r # ys)" for prev seq cnt
    using assms by (induction xs arbitrary: prev seq cnt) (simp_all add: row_hash_def)
  then show ?thesis by (simp add: verify_chain_def)
qed

section \<open>An archive verifies as the journal does\<close>

lemma export_items_rows: "export_items loads rows = Inr items \<Longrightarrow> map ai_row items = rows"
  by (induction rows arbitrary: items) (auto simp: bind_result_eq_Inr split: option.splits)

lemma export_items_total:
  "(\<exists>items. export_items loads rows = Inr items) \<longleftrightarrow> (\<forall>r \<in> set rows. loads (jr_payload r) \<noteq> None)"
  by (induction rows) (auto simp: bind_result_eq_Inr split: option.splits)

section \<open>Properties\<close>

text \<open> The hash of a record covers every field: the canonical text that is hashed is the same for two
  records only if sequence number, time, kind, order id, payload, previous hash and intent flag all
  are.\<close>

theorem hashed_text_covers_record:
  "hash_material n ts k c p h q = hash_material n' ts' k' c' p' h' q' \<longleftrightarrow>
   n = n' \<and> ts = ts' \<and> k = k' \<and> c = c' \<and> p = p' \<and> h = h' \<and> q = q'"
  by (rule hash_material_inject)


definition sample_row :: journal_row where
  "sample_row = make_row (\<lambda>x. x) 1 ''t'' KILL_ENGAGED None ''{}'' GENESIS_HASH False"

definition sample_sqlite :: sqlite_journal where
  "sample_sqlite = \<lparr>sj_rows = [sample_row], sj_anchor = Some (1, jr_hash sample_row)\<rparr>"

lemma sample_sqlite_inv: "sqlite_inv (\<lambda>x. x) sample_sqlite"
  using chained_make_row [of "\<lambda>x. x" "[]"]
  by (simp add: sqlite_inv_def sample_sqlite_def anchor_in_def sample_row_def head_hash_def)


text \<open> Several processes may share the file, each committing rows and then updating the anchor, in
  any interleaving and with crashes in between: rows are only ever added, and the journal always
  passes its own verification.\<close>

theorem shared_journal_verifies:
  assumes "journal_reaches sha (empty_sqlite_journal, []) (j, owed)"
  shows "\<exists>res. sqlite_verify sha j = Inr res \<and> vr_ok res \<and> vr_records res = length (sj_rows j) \<and>
    vr_head res = head_hash (sj_rows j)"
proof -
  have "shared_inv sha (empty_sqlite_journal, [])"
    by (simp add: shared_inv_def sqlite_inv_def empty_sqlite_journal_def)
  then have "shared_inv sha (j, owed)" using journal_reaches_inv [OF assms] by simp
  then show ?thesis using sqlite_inv_verifies by (simp add: shared_inv_def)
qed

lemma shared_journal_verifies_witness:
  "\<exists>j owed res. journal_reaches (\<lambda>x. x) (empty_sqlite_journal, []) (j, owed) \<and> length (sj_rows j) = 1 \<and>
     sqlite_verify (\<lambda>x. x) j = Inr res \<and> vr_ok res"
proof -
  have "\<exists>j r. sqlite_commit (\<lambda>x. x) True empty_sqlite_journal KILL_ENGAGED ''{}'' None ''t'' False = (j, Inr r) \<and>
      length (sj_rows j) = 1"
    by (simp add: sqlite_commit_def Let_def empty_sqlite_journal_def index_conflict_def)
  then obtain j r where
    c: "sqlite_commit (\<lambda>x. x) True empty_sqlite_journal KILL_ENGAGED ''{}'' None ''t'' False = (j, Inr r)"
    and l: "length (sj_rows j) = 1" by blast
  have "journal_reaches (\<lambda>x. x) (empty_sqlite_journal, []) (j, [] @ [(jr_seq r, jr_hash r)])"
    by (rule journal_reaches.step [OF journal_reaches.refl journal_step.commit [OF c]])
  from l shared_journal_verifies [OF this] this show ?thesis by blast
qed

text \<open> The kill state a reader computes is engaged exactly when some record engages it, an unreadable
  one included, and no later record is a readable release that names its operator.\<close>

theorem kill_switch_engaged_iff:
  "ks_engaged (memory_kill_state loads j) \<longleftrightarrow>
   (\<exists>pre row post. kill_rows (mj_records j) = pre @ row # post \<and> engages loads row \<and>
      list_all (\<lambda>r. \<not> valid_release loads r) post)"
  unfolding memory_kill_state_def by (rule kill_engaged_iff)

text \<open> Whatever is appended to the in-memory or to the SQLite journal, by any calls and whatever the
  disk does, there is never a second intent under one client order id.\<close>

theorem one_intent_per_order:
  "intents_unique (mj_records (mem.append_all sha empty_memory_journal xs)) \<and>
   intents_unique (sj_rows (sql.append_all sha disk locked written empty_sqlite_journal xs))"
proof -
  have "memory_inv sha empty_memory_journal" "sqlite_inv sha empty_sqlite_journal"
    by (simp_all add: memory_inv_def empty_memory_journal_def sqlite_inv_def empty_sqlite_journal_def)
  then show ?thesis
    using mem.append_all_keeps [of sha empty_memory_journal xs]
      sql.append_all_keeps [of sha empty_sqlite_journal disk locked written xs]
    by (simp add: empty_memory_journal_def empty_sqlite_journal_def intents_unique_def)
qed

text \<open>C33: What the chain does not cover: \<open>unique_intent\<close> enters the hash as a truth value only, so
  replacing one nonzero flag by another (which takes the row out of the index that makes intents
  unique) passes verification.\<close>

theorem intent_flag_is_not_covered:
  assumes "jr_unique r \<noteq> 0" and "n \<noteq> 0"
  shows "verify_chain sha (xs @ r\<lparr>jr_unique := n\<rparr> # ys) = verify_chain sha (xs @ r # ys)"
  using assms by (rule unique_flag_uncovered)

lemma intent_flag_is_not_covered_witness:
  "verify_chain (\<lambda>x. x) ([] @ (sample_row\<lparr>jr_unique := 1\<rparr>)\<lparr>jr_unique := 2\<rparr> # []) =
   verify_chain (\<lambda>x. x) ([] @ sample_row\<lparr>jr_unique := 1\<rparr> # [])"
  by (rule intent_flag_is_not_covered) simp_all

end
