(* ===== verification/Books.thy ===== *)
theory Books
  imports Risk Journal
begin

text \<open>
  The memory of the order manager and how it follows the journal (\<open>execution/manager.py\<close>: \<open>_store\<close>,
  \<open>net_position\<close>, \<open>_gross_notional\<close>, \<open>_record_now\<close>, \<open>_write_unjournalled\<close>, \<open>_replay\<close>, \<open>_recover\<close>,
  \<open>_merge_adjustments\<close>), with the vocabulary of \<open>execution/reconcile.py\<close>.

  \<open>books\<close> holds the fields of \<open>OrderManager\<close> that a journal record or an event can change. Python
  compares order states by identity (\<open>latest is not only_if\<close>), so \<open>bk_stamp\<close> counts, per order, the
  objects stored for it. The clock is an argument: \<open>now\<close> in microseconds and \<open>mt\<close>, the monotonic
  clock in seconds. Journal payloads appear as the values they parse to.
\<close>

section \<open>Reconciliation results\<close>

datatype break_kind =
    ORPHAN_ORDER | ORPHAN_FILL | MISSING_AT_VENUE | FILL_MISMATCH | POSITION_MISMATCH | QUERY_FAILED

definition CRITICAL_BREAKS :: "break_kind list" where
  "CRITICAL_BREAKS = [ORPHAN_ORDER, ORPHAN_FILL, FILL_MISMATCH, MISSING_AT_VENUE, POSITION_MISMATCH]"

record recon_break =
  rb_kind :: break_kind
  rb_subject :: string

definition is_critical :: "recon_break \<Rightarrow> bool" where
  "is_critical b = (rb_kind b \<in> set CRITICAL_BREAKS)"

record recon_report =
  rep_at :: int
  rep_orders_checked :: nat
  rep_resolved :: "string list"
  rep_breaks :: "recon_break list"
  rep_complete :: bool
  rep_positions_verified :: bool

definition report_clean :: "recon_report \<Rightarrow> bool" where
  "report_clean r = (rep_complete r \<and> rep_breaks r = [])"

text \<open>
  \<open>_is_halting\<close>: the anomalies whose message holds one of the tags. \<open>FillAfterTerminal\<close> halts for a
  rejected order only, as its message names the status.
\<close>

fun is_halting :: "anomaly \<Rightarrow> bool" where
  "is_halting (Overfill _ _) = True"
| "is_halting (FillDispute _) = True"
| "is_halting (FillAfterTerminal _ st) = (st = REJECTED)"
| "is_halting (FillBeforeSend _) = True"
| "is_halting (FillMismatch _ _ _ _ _) = True"
| "is_halting _ = False"

text \<open>\<open>_net_quantities\<close>: a dictionary, kept in order of first insertion.\<close>

fun add_quantity :: "(symbol \<times> rat) list \<Rightarrow> symbol \<Rightarrow> rat \<Rightarrow> (symbol \<times> rat) list" where
  "add_quantity [] y q = [(y, q)]"
| "add_quantity ((x, p) # rest) y q =
     (if x = y then (x, p + q) # rest else (x, p) # add_quantity rest y q)"

definition net_quantities :: "position list \<Rightarrow> (symbol \<times> rat) list" where
  "net_quantities ps = foldl (\<lambda>net p. add_quantity net (pos_symbol p) (pos_quantity p)) [] ps"

definition quantity_of :: "(symbol \<times> rat) list \<Rightarrow> symbol \<Rightarrow> rat" where
  "quantity_of net y = (case map_of net y of None \<Rightarrow> 0 | Some q \<Rightarrow> q)"

lemma quantity_of_add_quantity:
  "quantity_of (add_quantity net y q) z = quantity_of net z + (if z = y then q else 0)"
  by (induction net y q rule: add_quantity.induct) (auto simp: quantity_of_def)

lemma dom_add_quantity: "fst ` set (add_quantity net y q) = insert y (fst ` set net)"
  by (induction net y q rule: add_quantity.induct) auto

lemma foldl_net_quantities:
  "quantity_of (foldl (\<lambda>net p. add_quantity net (pos_symbol p) (pos_quantity p)) net ps) z =
   quantity_of net z + sum_by pos_quantity (filter (\<lambda>p. pos_symbol p = z) ps)"
  by (induction ps arbitrary: net) (auto simp: quantity_of_add_quantity)

lemma quantity_of_net_quantities:
  "quantity_of (net_quantities ps) z = sum_by pos_quantity (filter (\<lambda>p. pos_symbol p = z) ps)"
  by (simp add: net_quantities_def foldl_net_quantities) (simp add: quantity_of_def)

text \<open>\<open>_fill_terms\<close> and \<open>_orphan_fill_subject\<close>.\<close>

type_synonym fill_terms =
  "string \<times> string \<times> string \<times> order_side \<times> rat \<times> rat \<times> rat option \<times> string option"

definition fill_terms_of :: "fill \<Rightarrow> fill_terms" where
  "fill_terms_of f =
     (fl_cid f, fl_id f, symbol_str (fl_symbol f), fl_side f, fl_price f, fl_quantity f, fl_fee f,
      fl_fee_currency f)"

definition orphan_fill_subject :: "fill \<Rightarrow> string" where
  "orphan_fill_subject f = fl_cid f @ '':'' @ fl_id f"

section \<open>The memory\<close>

record books =
  bk_orders :: orders
  bk_stamp :: "string \<Rightarrow> nat"
  bk_open :: "order_state list"
  bk_filled_net :: "symbol \<rightharpoonup> rat"
  bk_marks :: "symbol \<rightharpoonup> rat \<times> rat"
  bk_seen :: "symbol list"
  bk_created :: "string \<rightharpoonup> int"
  bk_baseline :: "(symbol \<times> rat) list option"
  bk_unknown_since :: "string \<rightharpoonup> rat"
  bk_orphans :: "string set"
  bk_corrections :: "fill_terms set"
  bk_sweep_floor :: "int option"
  bk_last_sweep :: "int option"
  bk_durable_sweep :: "int option"
  bk_adjustments_seen :: int
  bk_config :: "risk_config option"
  bk_unjournalled :: "order_event list"
  bk_failed :: bool

definition empty_books :: books where
  "empty_books =
     \<lparr>bk_orders = Map.empty, bk_stamp = (\<lambda>_. 0), bk_open = [], bk_filled_net = Map.empty,
      bk_marks = Map.empty, bk_seen = [], bk_created = Map.empty, bk_baseline = None,
      bk_unknown_since = Map.empty, bk_orphans = {}, bk_corrections = {}, bk_sweep_floor = None,
      bk_last_sweep = None, bk_durable_sweep = None, bk_adjustments_seen = 0, bk_config = None,
      bk_unjournalled = [], bk_failed = False\<rparr>"

definition held :: "('k \<rightharpoonup> rat) \<Rightarrow> 'k \<Rightarrow> rat" where
  "held m k = (case m k of None \<Rightarrow> 0 | Some q \<Rightarrow> q)"

text \<open>\<open>_is_current\<close> and \<open>_set_mark\<close>.\<close>

definition is_current :: "rat \<Rightarrow> int \<Rightarrow> int \<Rightarrow> bool" where
  "is_current max_age now ts = (of_int \<bar>now - ts\<bar> \<le> max_age * of_int SECOND)"

definition set_mark :: "books \<Rightarrow> symbol \<Rightarrow> rat \<Rightarrow> rat \<Rightarrow> books" where
  "set_mark b y price mt =
     (if price = 0 then b\<lparr>bk_marks := (bk_marks b)(y := None)\<rparr>
      else b\<lparr>bk_marks := (bk_marks b)(y \<mapsto> (price, mt))\<rparr>)"

text \<open>\<open>_mark_quote\<close>; the quote's \<open>mid\<close> is \<open>quote_mid\<close>.\<close>

definition mark_quote :: "books \<Rightarrow> rat \<Rightarrow> int \<Rightarrow> rat \<Rightarrow> symbol \<Rightarrow> quote option \<Rightarrow> books" where
  "mark_quote b max_age now mt y reference =
     (let price = (case reference of
                     None \<Rightarrow> None
                   | Some q \<Rightarrow>
                       if is_current max_age now (q_exchange_ts q)
                       then (case quote_mid q of Some m \<Rightarrow> Some m | None \<Rightarrow> last_price q)
                       else None)
      in case price of None \<Rightarrow> b\<lparr>bk_marks := (bk_marks b)(y := None)\<rparr> | Some p \<Rightarrow> set_mark b y p mt)"

text \<open>\<open>_store\<close>, the one place order state changes.\<close>

definition put_open :: "order_state list \<Rightarrow> order_state \<Rightarrow> order_state list" where
  "put_open os s =
     (if is_open s
      then (if state_cid s \<in> state_cid ` set os then replace_by state_cid (state_cid s) s os
            else os @ [s])
      else filter (\<lambda>o'. state_cid o' \<noteq> state_cid s) os)"

definition store_index :: "books \<Rightarrow> order_state \<Rightarrow> books" where
  "store_index b s =
     (let cid = state_cid s; y = req_symbol (st_request s);
          filled_before = (case bk_orders b cid of None \<Rightarrow> 0 | Some p \<Rightarrow> st_filled_quantity p);
          change = st_filled_quantity s - filled_before
      in b\<lparr>bk_orders := (bk_orders b)(cid \<mapsto> s),
           bk_seen := (if y \<in> set (bk_seen b) then bk_seen b else bk_seen b @ [y]),
           bk_open := put_open (bk_open b) s,
           bk_filled_net :=
             (if change \<noteq> 0
              then (bk_filled_net b)(y \<mapsto> held (bk_filled_net b) y +
                                         side_sign (req_side (st_request s)) * change)
              else bk_filled_net b)\<rparr>)"

definition store_order :: "rat \<Rightarrow> int \<Rightarrow> rat \<Rightarrow> books \<Rightarrow> order_state \<Rightarrow> books" where
  "store_order max_age now mt b s =
     (let fills_before = (case bk_orders b (state_cid s) of None \<Rightarrow> 0 | Some p \<Rightarrow> length (st_fills p));
          b1 = store_index b s
      in if fills_before < length (st_fills s) \<and> is_current max_age now (fl_ts (last (st_fills s)))
         then set_mark b1 (req_symbol (st_request s)) (fl_price (last (st_fills s))) mt
         else b1)"

definition net_position :: "books \<Rightarrow> symbol \<Rightarrow> rat option" where
  "net_position b y =
     (case bk_baseline b of None \<Rightarrow> None
      | Some base \<Rightarrow> Some (quantity_of base y + held (bk_filled_net b) y))"

definition open_orders :: "books \<Rightarrow> symbol option \<Rightarrow> order_state list" where
  "open_orders b y =
     (case y of None \<Rightarrow> bk_open b | Some s \<Rightarrow> filter (\<lambda>o'. req_symbol (st_request o') = s) (bk_open b))"

definition tracked_symbols :: "books \<Rightarrow> symbol list" where
  "tracked_symbols b =
     remdups (bk_seen b @ (case bk_baseline b of None \<Rightarrow> [] | Some base \<Rightarrow> map fst base))"

definition symbols_with_exposure :: "books \<Rightarrow> symbol list" where
  "symbols_with_exposure b =
     remdups (map (\<lambda>o'. req_symbol (st_request o')) (bk_open b) @
              filter (\<lambda>y. case net_position b y of None \<Rightarrow> False | Some q \<Rightarrow> q \<noteq> 0) (tracked_symbols b))"


section \<open>Exposure\<close>

text \<open>
  \<open>_gross_notional\<close>. \<open>insts\<close> is the instrument cache; the loops add up absolute values and remember
  the currencies seen, and any unknown term makes the answer unknown.
\<close>

definition mark_of :: "books \<Rightarrow> symbol \<Rightarrow> rat option" where
  "mark_of b y = map_option fst (bk_marks b y)"

fun gross_positions ::
    "books \<Rightarrow> (symbol \<rightharpoonup> instrument) \<Rightarrow> symbol list \<Rightarrow> string list \<times> rat \<Rightarrow> (string list \<times> rat) option" where
  "gross_positions b insts [] acc = Some acc"
| "gross_positions b insts (y # ys) (currencies, gross) =
     (case net_position b y of
        None \<Rightarrow> None
      | Some position \<Rightarrow>
          if position = 0 then gross_positions b insts ys (currencies, gross)
          else (case (mark_of b y, insts y) of
                  (Some mark, Some i) \<Rightarrow>
                    gross_positions b insts ys
                      (ins_currency i # currencies, gross + \<bar>position * mark * multiplier i\<bar>)
                | _ \<Rightarrow> None))"

definition order_price :: "books \<Rightarrow> order_state \<Rightarrow> rat option" where
  "order_price b s =
     (case (st_limit_price s, st_pending_limit_price s) of
        (Some p, Some q) \<Rightarrow> Some (max \<bar>p\<bar> \<bar>q\<bar>)
      | (Some p, None) \<Rightarrow> Some \<bar>p\<bar>
      | (None, Some q) \<Rightarrow> Some \<bar>q\<bar>
      | (None, None) \<Rightarrow> (case req_stop_price (st_request s) of
                          Some p \<Rightarrow> Some p
                        | None \<Rightarrow> mark_of b (req_symbol (st_request s))))"

fun gross_orders ::
    "books \<Rightarrow> (symbol \<rightharpoonup> instrument) \<Rightarrow> string option \<Rightarrow> order_state list \<Rightarrow> string list \<times> rat \<Rightarrow>
     (string list \<times> rat) option" where
  "gross_orders b insts exclude [] acc = Some acc"
| "gross_orders b insts exclude (s # ss) (currencies, gross) =
     (if Some (state_cid s) = exclude then gross_orders b insts exclude ss (currencies, gross)
      else (case (order_price b s, insts (req_symbol (st_request s))) of
              (Some price, Some i) \<Rightarrow>
                gross_orders b insts exclude ss
                  (ins_currency i # currencies, gross + \<bar>leaves_quantity s * price * multiplier i\<bar>)
            | _ \<Rightarrow> None))"

definition gross_notional ::
    "books \<Rightarrow> (symbol \<rightharpoonup> instrument) \<Rightarrow> string option \<Rightarrow> string option \<Rightarrow> rat option" where
  "gross_notional b insts exclude currency =
     (if bk_baseline b = None then None
      else case gross_positions b insts (tracked_symbols b)
                  (case currency of None \<Rightarrow> [] | Some ccy \<Rightarrow> [ccy], 0) of
             None \<Rightarrow> None
           | Some acc \<Rightarrow>
               (case gross_orders b insts exclude (open_orders b None) acc of
                  None \<Rightarrow> None
                | Some (currencies, gross) \<Rightarrow>
                    if length (remdups currencies) \<le> 1 then Some gross else None))"

section \<open>Recording one event\<close>

text \<open>
  The journal is whatever \<open>write\<close> appends to: it returns the journal with the event's row, or fails.
  \<open>_write_unjournalled\<close> writes the events an earlier failure left behind, first and in order, and
  stops at the first failure.
\<close>

fun write_unjournalled ::
    "('j \<Rightarrow> order_event \<Rightarrow> 'j \<times> unit result) \<Rightarrow> 'j \<Rightarrow> order_event list \<Rightarrow>
     'j \<times> order_event list \<times> py_error option" where
  "write_unjournalled write j [] = (j, [], None)"
| "write_unjournalled write j (e # es) =
     (case write j e of
        (j', Inr _) \<Rightarrow> write_unjournalled write j' es
      | (j', Inl err) \<Rightarrow> (j', e # es, Some err))"

definition write_all ::
    "('j \<Rightarrow> order_event \<Rightarrow> 'j \<times> unit result) \<Rightarrow> 'j \<Rightarrow> order_event list \<Rightarrow> order_event \<Rightarrow>
     'j \<times> order_event list \<times> py_error option" where
  "write_all write j backlog e =
     (case write_unjournalled write j backlog of
        (j1, left, Some err) \<Rightarrow> (j1, left, Some err)
      | (j1, left, None) \<Rightarrow>
          (case write j1 e of (j2, Inr _) \<Rightarrow> (j2, left, None) | (j2, Inl err) \<Rightarrow> (j2, left, Some err)))"

text \<open>
  Whether \<open>_apply\<close> returns the state object it was given: a fill or a bust already on record.
\<close>

definition same_object :: "order_state \<Rightarrow> event_body \<Rightarrow> bool" where
  "same_object s body =
     (case body of
        Filled f \<Rightarrow> apply_fill s f = s
      | FillBusted fid _ \<Rightarrow> fid \<in> st_busted s
      | _ \<Rightarrow> False)"

text \<open>
  The state one event leads to. An intent replaces whatever is under its id; any other event needs a
  prior state (\<open>self._orders[cid]\<close> raises \<open>KeyError\<close>).
\<close>

definition next_state :: "books \<Rightarrow> order_event \<Rightarrow> order_state result" where
  "next_state b e =
     (case ev_body e of
        SubmitIntent r \<Rightarrow> Inr (new_order r)
      | _ \<Rightarrow> (case bk_orders b (ev_cid e) of
               None \<Rightarrow> Inl KeyError
             | Some prior \<Rightarrow> apply_event prior e))"

definition new_anomalies :: "books \<Rightarrow> order_event \<Rightarrow> order_state \<Rightarrow> anomaly list" where
  "new_anomalies b e s =
     (case ev_body e of
        SubmitIntent r \<Rightarrow> st_anomalies s
      | _ \<Rightarrow> (case bk_orders b (ev_cid e) of
               None \<Rightarrow> st_anomalies s
             | Some prior \<Rightarrow> drop (length (st_anomalies prior)) (st_anomalies s)))"

definition restamp :: "books \<Rightarrow> order_event \<Rightarrow> books" where
  "restamp b e =
     (case bk_orders b (ev_cid e) of
        Some prior \<Rightarrow>
          if same_object prior (ev_body e) then b
          else b\<lparr>bk_stamp := (bk_stamp b)(ev_cid e := bk_stamp b (ev_cid e) + 1)\<rparr>
      | None \<Rightarrow> b\<lparr>bk_stamp := (bk_stamp b)(ev_cid e := bk_stamp b (ev_cid e) + 1)\<rparr>)"

definition note_unknown :: "books \<Rightarrow> string \<Rightarrow> order_state \<Rightarrow> rat \<Rightarrow> books" where
  "note_unknown b cid s mt =
     (if st_status s = UNKNOWN
      then (case bk_unknown_since b cid of
              Some _ \<Rightarrow> b | None \<Rightarrow> b\<lparr>bk_unknown_since := (bk_unknown_since b)(cid \<mapsto> mt)\<rparr>)
      else if st_status s \<noteq> SUBMITTING then b\<lparr>bk_unknown_since := (bk_unknown_since b)(cid := None)\<rparr>
      else b)"

definition apply_in_memory ::
    "rat \<Rightarrow> int \<Rightarrow> rat \<Rightarrow> books \<Rightarrow> order_event \<Rightarrow> books \<times> (order_state \<times> anomaly list) result" where
  "apply_in_memory max_age now mt b e =
     (case next_state b e of
        Inl err \<Rightarrow> (b, Inl err)
      | Inr s \<Rightarrow>
          (let b1 = restamp b e;
               b2 = (case ev_body e of
                       SubmitIntent r \<Rightarrow> b1\<lparr>bk_created := (bk_created b1)(ev_cid e \<mapsto> ev_ts e)\<rparr>
                     | _ \<Rightarrow> b1)
           in (note_unknown (store_order max_age now mt b2 s) (ev_cid e) s mt,
               Inr (s, new_anomalies b e s))))"

text \<open>
  \<open>_record_now\<close>: write, then apply. A failed write of a durable event raises with memory as it was;
  otherwise the event is queued and applied all the same. \<open>only_if\<close> is the stamp of the state the
  caller concluded from.
\<close>

definition record_now ::
    "('j \<Rightarrow> order_event \<Rightarrow> 'j \<times> unit result) \<Rightarrow> rat \<Rightarrow> int \<Rightarrow> rat \<Rightarrow> 'j \<Rightarrow> books \<Rightarrow> order_event \<Rightarrow> bool \<Rightarrow>
     nat option \<Rightarrow> 'j \<times> books \<times> (order_state \<times> anomaly list) result" where
  "record_now write max_age now mt j b e durable only_if =
     (case (only_if, bk_orders b (ev_cid e)) of
        (Some _, None) \<Rightarrow> (j, b, Inl KeyError)
      | (moved, latest) \<Rightarrow>
          (if moved \<noteq> None \<and> moved \<noteq> Some (bk_stamp b (ev_cid e))
           then (j, b, Inr (the latest, []))
           else
             (case write_all write j (bk_unjournalled b) e of
                (j', left, None) \<Rightarrow>
                  (let (b', r) = apply_in_memory max_age now mt (b\<lparr>bk_unjournalled := left\<rparr>) e
                   in (j', b', r))
              | (j', left, Some err) \<Rightarrow>
                  (if durable then (j', b\<lparr>bk_unjournalled := left\<rparr>, Inl err)
                   else
                     (let (b', r) = apply_in_memory max_age now mt
                                      (b\<lparr>bk_unjournalled := left @ [e], bk_failed := True\<rparr>) e
                      in (j', b', r))))))"

text \<open>\<open>_retry_unjournalled\<close>.\<close>

definition retry_unjournalled ::
    "('j \<Rightarrow> order_event \<Rightarrow> 'j \<times> unit result) \<Rightarrow> 'j \<Rightarrow> books \<Rightarrow> 'j \<times> books" where
  "retry_unjournalled write j b =
     (case write_unjournalled write j (bk_unjournalled b) of
        (j', left, _) \<Rightarrow> (j', b\<lparr>bk_unjournalled := left\<rparr>))"

section \<open>Replaying the journal\<close>

datatype entry =
    EOrderEvent order_event
  | ERiskReject string
  | EKillEngaged
  | EKillReleased
  | EReconBreak break_kind string
  | EBaseline "(symbol \<times> rat) list"
  | EConfigChange risk_config
  | EAdjusted "(string \<times> json) list" symbol rat
  | ESweepMark int
  | EAnomaly

record journal_entry =
  je_seq :: int
  je_ts :: int
  je_entry :: entry

definition baseline_floor :: "books \<Rightarrow> int \<Rightarrow> int option" where
  "baseline_floor b captured_at = (if dom (bk_orders b) \<noteq> {} then None else Some captured_at)"

definition fill_window :: "books \<Rightarrow> int \<Rightarrow> int" where
  "fill_window b since = (case bk_sweep_floor b of None \<Rightarrow> since | Some f \<Rightarrow> max since f)"

definition apply_adjustment :: "books \<Rightarrow> (string \<times> json) list \<Rightarrow> symbol \<Rightarrow> rat \<Rightarrow> books" where
  "apply_adjustment b detail y delta =
     (case bk_baseline b of
        None \<Rightarrow> b
      | Some base \<Rightarrow>
          if names_operator detail then b\<lparr>bk_baseline := Some (add_quantity base y delta)\<rparr> else b)"

definition halting_of :: "int \<Rightarrow> string \<Rightarrow> anomaly list \<Rightarrow> (int \<times> string \<times> anomaly) option" where
  "halting_of seq cid new =
     (case filter is_halting new of [] \<Rightarrow> None | hs \<Rightarrow> Some (seq, cid, last hs))"

definition replay_event ::
    "rat \<Rightarrow> int \<Rightarrow> rat \<Rightarrow> books \<Rightarrow> int \<Rightarrow> order_event \<Rightarrow> (books \<times> (int \<times> string \<times> anomaly) option) result" where
  "replay_event max_age now mt b seq e =
     (case bk_orders b (ev_cid e) of
        None \<Rightarrow>
          (case ev_body e of
             SubmitIntent r \<Rightarrow>
               (let b1 = store_order max_age now mt (restamp b e) (new_order r)
                in Inr (b1\<lparr>bk_created := (bk_created b1)(ev_cid e \<mapsto> ev_ts e)\<rparr>, None))
           | _ \<Rightarrow> Inl JournalError)
      | Some prior \<Rightarrow>
          (let b1 = (case ev_body e of
                       Filled f \<Rightarrow>
                         if fill_disputes prior f
                         then b\<lparr>bk_corrections := insert (fill_terms_of f) (bk_corrections b)\<rparr> else b
                     | _ \<Rightarrow> b)
           in bind_result (apply_event prior e) (\<lambda>s.
                Inr (store_order max_age now mt (restamp b1 e) s,
                     halting_of seq (ev_cid e)
                       (drop (length (st_anomalies prior)) (st_anomalies s))))))"

definition replay_entry ::
    "rat \<Rightarrow> int \<Rightarrow> rat \<Rightarrow> books \<Rightarrow> journal_entry \<Rightarrow> (books \<times> (int \<times> string \<times> anomaly) option) result" where
  "replay_entry max_age now mt b r =
     (case je_entry r of
        ESweepMark t \<Rightarrow> Inr (b\<lparr>bk_durable_sweep := Some t, bk_last_sweep := Some t\<rparr>, None)
      | EConfigChange c \<Rightarrow> Inr (b\<lparr>bk_config := Some c\<rparr>, None)
      | EReconBreak kind subject \<Rightarrow>
          Inr (if kind = ORPHAN_FILL then b\<lparr>bk_orphans := insert subject (bk_orphans b)\<rparr> else b, None)
      | EAdjusted detail y delta \<Rightarrow> Inr (apply_adjustment b detail y delta, None)
      | EOrderEvent e \<Rightarrow> replay_event max_age now mt b (je_seq r) e
      | EBaseline quantities \<Rightarrow>
          Inr (b\<lparr>bk_baseline := Some quantities, bk_sweep_floor := baseline_floor b (je_ts r)\<rparr>, None)
      | _ \<Rightarrow> Inr (b, None))"

fun replay_entries ::
    "rat \<Rightarrow> int \<Rightarrow> rat \<Rightarrow> books \<Rightarrow> (int \<times> string \<times> anomaly) option \<Rightarrow> journal_entry list \<Rightarrow>
     (books \<times> (int \<times> string \<times> anomaly) option) result" where
  "replay_entries max_age now mt b halting [] = Inr (b, halting)"
| "replay_entries max_age now mt b halting (r # rs) =
     bind_result (replay_entry max_age now mt b r) (\<lambda>(b', h).
       replay_entries max_age now mt b' (or_else h halting) rs)"

text \<open>
  \<open>_recover\<close> up to the kill switch: memory is cleared, every record is replayed, and the marks the
  replay left are dropped. The second component is the last halting anomaly, which is halted again if
  its record is newer than the kill state. \<open>unknown_since\<close> survives, as in the code.
\<close>

definition recover_books ::
    "rat \<Rightarrow> int \<Rightarrow> rat \<Rightarrow> books \<Rightarrow> journal_entry list \<Rightarrow> (books \<times> (int \<times> string \<times> anomaly) option) result" where
  "recover_books max_age now mt old rs =
     (let b0 = empty_books\<lparr>bk_stamp := bk_stamp old, bk_unknown_since := bk_unknown_since old,
                 bk_failed := bk_failed old,
                 bk_last_sweep := (case rs of [] \<Rightarrow> None | r # _ \<Rightarrow> Some (je_ts r))\<rparr>
      in bind_result (replay_entries max_age now mt b0 None rs) (\<lambda>(b, h).
           Inr (b\<lparr>bk_adjustments_seen := (case rs of [] \<Rightarrow> 0 | _ \<Rightarrow> je_seq (last rs)),
                  bk_marks := Map.empty\<rparr>, h)))"

text \<open>\<open>_merge_adjustments\<close>; \<open>intact\<close> is the answer of \<open>verify\<close>, asked only when there are any.\<close>

definition is_adjustment :: "journal_entry \<Rightarrow> bool" where
  "is_adjustment r = (case je_entry r of EAdjusted _ _ _ \<Rightarrow> True | _ \<Rightarrow> False)"

definition adopt_adjustment :: "books \<Rightarrow> journal_entry \<Rightarrow> books" where
  "adopt_adjustment b r =
     (case je_entry r of
        EAdjusted detail y delta \<Rightarrow> (apply_adjustment b detail y delta)\<lparr>bk_adjustments_seen := je_seq r\<rparr>
      | _ \<Rightarrow> b)"

definition merge_adjustments :: "books \<Rightarrow> journal_entry list \<Rightarrow> bool \<Rightarrow> books" where
  "merge_adjustments b journal intact =
     (let records = filter (\<lambda>r. bk_adjustments_seen b < je_seq r) journal;
          adjustments = filter is_adjustment records
      in if adjustments \<noteq> [] \<and> \<not> intact then b
         else
           (let b1 = foldl adopt_adjustment b adjustments
            in if records \<noteq> [] then b1\<lparr>bk_adjustments_seen := je_seq (last records)\<rparr> else b1))"


section \<open>The indexes cannot drift from the orders\<close>

definition signed_fill :: "symbol \<Rightarrow> order_state \<Rightarrow> rat" where
  "signed_fill y s =
     (if req_symbol (st_request s) = y
      then side_sign (req_side (st_request s)) * st_filled_quantity s else 0)"

definition filled_total :: "orders \<Rightarrow> symbol \<Rightarrow> rat" where
  "filled_total m y = (\<Sum>c\<in>dom m. signed_fill y (the (m c)))"

definition books_inv :: "books \<Rightarrow> bool" where
  "books_inv b \<longleftrightarrow>
     finite (dom (bk_orders b)) \<and>
     (\<forall>c s. bk_orders b c = Some s \<longrightarrow> state_cid s = c) \<and>
     distinct (map state_cid (bk_open b)) \<and>
     set (bk_open b) = {s. bk_orders b (state_cid s) = Some s \<and> is_open s} \<and>
     (\<forall>y. held (bk_filled_net b) y = filled_total (bk_orders b) y) \<and>
     set (bk_seen b) = (\<lambda>s. req_symbol (st_request s)) ` ran (bk_orders b)"

lemma filled_total_upd:
  assumes "finite (dom m)"
  shows "filled_total (m(c \<mapsto> s)) y =
    filled_total m y - (case m c of None \<Rightarrow> 0 | Some p \<Rightarrow> signed_fill y p) + signed_fill y s"
proof -
  have eq: "(\<Sum>d\<in>dom m - {c}. signed_fill y (the ((m(c \<mapsto> s)) d))) =
        (\<Sum>d\<in>dom m - {c}. signed_fill y (the (m d)))"
    by (rule sum.cong) auto
  have "filled_total (m(c \<mapsto> s)) y = signed_fill y s + (\<Sum>d\<in>dom m - {c}. signed_fill y (the (m d)))"
    unfolding filled_total_def eq [symmetric] using assms
    by (simp add: sum.insert_remove)
  moreover have "(\<Sum>d\<in>dom m - {c}. signed_fill y (the (m d))) =
      filled_total m y - (case m c of None \<Rightarrow> 0 | Some p \<Rightarrow> signed_fill y p)"
    using assms by (cases "m c") (auto simp: filled_total_def sum_diff1 dom_def)
  ultimately show ?thesis by simp
qed

lemma distinct_put_open: "distinct (map state_cid os) \<Longrightarrow> distinct (map state_cid (put_open os s))"
  by (auto simp: put_open_def map_replace_by distinct_map_filter)

lemma set_replace_by_distinct:
  "distinct (map key xs) \<Longrightarrow> k \<in> key ` set xs \<Longrightarrow> key y = k \<Longrightarrow>
   set (replace_by key k y xs) = insert y {x \<in> set xs. key x \<noteq> k}"
proof (induction xs)
  case Nil
  then show ?case by simp
next
  case (Cons x xs)
  show ?case
  proof (cases "key x = k")
    case True
    then have "\<forall>z \<in> set xs. key z \<noteq> k" using Cons.prems(1) by (auto simp: image_iff)
    with True show ?thesis by auto
  next
    case False
    with Cons have "set (replace_by key k y xs) = insert y {x \<in> set xs. key x \<noteq> k}" by auto
    with False show ?thesis by auto
  qed
qed

lemma set_put_open:
  "distinct (map state_cid os) \<Longrightarrow>
   set (put_open os s) = {o' \<in> set os. state_cid o' \<noteq> state_cid s} \<union> (if is_open s then {s} else {})"
  by (auto simp: put_open_def set_replace_by_distinct image_iff)

lemma store_index_fields [simp]:
  "bk_orders (store_index b s) = (bk_orders b)(state_cid s \<mapsto> s)"
  "bk_open (store_index b s) = put_open (bk_open b) s"
  "bk_baseline (store_index b s) = bk_baseline b"
  "bk_unjournalled (store_index b s) = bk_unjournalled b"
  "bk_created (store_index b s) = bk_created b"
  "bk_failed (store_index b s) = bk_failed b"
  "bk_config (store_index b s) = bk_config b"
  "bk_stamp (store_index b s) = bk_stamp b"
  by (simp_all add: store_index_def Let_def)

lemma books_inv_cong:
  "bk_orders a = bk_orders b \<Longrightarrow> bk_open a = bk_open b \<Longrightarrow> bk_filled_net a = bk_filled_net b \<Longrightarrow>
   bk_seen a = bk_seen b \<Longrightarrow> books_inv a = books_inv b"
  by (simp add: books_inv_def)

lemma set_mark_fields [simp]:
  "bk_orders (set_mark b y p t) = bk_orders b"
  "bk_open (set_mark b y p t) = bk_open b"
  "bk_filled_net (set_mark b y p t) = bk_filled_net b"
  "bk_seen (set_mark b y p t) = bk_seen b"
  "bk_baseline (set_mark b y p t) = bk_baseline b"
  "bk_unjournalled (set_mark b y p t) = bk_unjournalled b"
  "bk_created (set_mark b y p t) = bk_created b"
  "bk_failed (set_mark b y p t) = bk_failed b"
  "bk_config (set_mark b y p t) = bk_config b"
  "bk_stamp (set_mark b y p t) = bk_stamp b"
  by (simp_all add: set_mark_def)

lemma held_upd [simp]: "held (m(k \<mapsto> v)) z = (if z = k then v else held m z)"
  by (simp add: held_def)

lemma store_index_inv:
  assumes inv: "books_inv b"
    and same: "\<And>p. bk_orders b (state_cid s) = Some p \<Longrightarrow> st_request p = st_request s"
  shows "books_inv (store_index b s)"
proof -
  let ?c = "state_cid s" and ?y = "req_symbol (st_request s)"
  let ?m = "bk_orders b"
  have fin: "finite (dom ?m)" and ids: "\<And>c t. ?m c = Some t \<Longrightarrow> state_cid t = c"
    and d: "distinct (map state_cid (bk_open b))"
    and os: "set (bk_open b) = {t. ?m (state_cid t) = Some t \<and> is_open t}"
    and net: "\<And>y. held (bk_filled_net b) y = filled_total ?m y"
    and seen: "set (bk_seen b) = (\<lambda>t. req_symbol (st_request t)) ` ran ?m"
    using inv by (auto simp: books_inv_def)
  have "set (put_open (bk_open b) s) = {t. (?m(?c \<mapsto> s)) (state_cid t) = Some t \<and> is_open t}"
    unfolding set_put_open [OF d] using os by auto
  moreover have "held (bk_filled_net (store_index b s)) y = filled_total (?m(?c \<mapsto> s)) y" for y
    using same
    by (cases "?m ?c")
      (auto simp: store_index_def Let_def filled_total_upd [OF fin] net signed_fill_def algebra_simps)
  moreover have "set (bk_seen (store_index b s)) = (\<lambda>t. req_symbol (st_request t)) ` ran (?m(?c \<mapsto> s))"
  proof (cases "?m ?c")
    case None
    then show ?thesis using seen by (auto simp: store_index_def Let_def)
  next
    case (Some p)
    then have "p \<in> ran ?m" by (rule ranI)
    moreover have "st_request p = st_request s" using same Some by simp
    ultimately have "?y \<in> set (bk_seen b)" using seen by (metis imageI)
    moreover have "(\<lambda>t. req_symbol (st_request t)) ` ran (?m(?c \<mapsto> s)) =
        (\<lambda>t. req_symbol (st_request t)) ` ran ?m"
    proof -
      have "ran ((?m(?c := None))(?c \<mapsto> t)) = insert t (ran (?m(?c := None)))" for t
        by (rule ran_map_upd) simp
      moreover have "(?m(?c := None))(?c \<mapsto> s) = ?m(?c \<mapsto> s)" "(?m(?c := None))(?c \<mapsto> p) = ?m"
        using Some by auto
      ultimately have "ran (?m(?c \<mapsto> s)) = insert s (ran (?m(?c := None)))"
        "ran ?m = insert p (ran (?m(?c := None)))"
        by metis+
      then have "ran (?m(?c \<mapsto> s)) = insert s (ran (?m(?c := None))) \<and>
        ran ?m = insert p (ran (?m(?c := None)))" by blast
      then show ?thesis using \<open>st_request p = st_request s\<close> by simp
    qed
    ultimately show ?thesis using seen by (auto simp: store_index_def Let_def)
  qed
  ultimately show ?thesis
    using fin ids distinct_put_open [OF d] by (auto simp: books_inv_def)
qed

lemma set_mark_inv [simp]: "books_inv (set_mark b y p t) = books_inv b"
  by (rule books_inv_cong) simp_all

lemma store_order_inv:
  assumes "books_inv b"
    and "\<And>p. bk_orders b (state_cid s) = Some p \<Longrightarrow> st_request p = st_request s"
  shows "books_inv (store_order max_age now mt b s)"
proof -
  have "books_inv (store_index b s)" using assms by (rule store_index_inv)
  then show ?thesis by (simp add: store_order_def Let_def del: store_index_fields)
qed

lemma store_order_fields [simp]:
  "bk_orders (store_order max_age now mt b s) = (bk_orders b)(state_cid s \<mapsto> s)"
  "bk_baseline (store_order max_age now mt b s) = bk_baseline b"
  "bk_unjournalled (store_order max_age now mt b s) = bk_unjournalled b"
  "bk_created (store_order max_age now mt b s) = bk_created b"
  "bk_failed (store_order max_age now mt b s) = bk_failed b"
  "bk_config (store_order max_age now mt b s) = bk_config b"
  "bk_stamp (store_order max_age now mt b s) = bk_stamp b"
  by (simp_all add: store_order_def Let_def)

lemma restamp_fields [simp]:
  "bk_orders (restamp b e) = bk_orders b"
  "bk_open (restamp b e) = bk_open b"
  "bk_filled_net (restamp b e) = bk_filled_net b"
  "bk_seen (restamp b e) = bk_seen b"
  "bk_baseline (restamp b e) = bk_baseline b"
  "bk_unjournalled (restamp b e) = bk_unjournalled b"
  "bk_failed (restamp b e) = bk_failed b"
  "bk_config (restamp b e) = bk_config b"
  by (simp_all add: restamp_def split: option.splits)

lemma note_unknown_fields [simp]:
  "bk_orders (note_unknown b c s t) = bk_orders b"
  "bk_open (note_unknown b c s t) = bk_open b"
  "bk_filled_net (note_unknown b c s t) = bk_filled_net b"
  "bk_seen (note_unknown b c s t) = bk_seen b"
  "bk_baseline (note_unknown b c s t) = bk_baseline b"
  "bk_unjournalled (note_unknown b c s t) = bk_unjournalled b"
  "bk_failed (note_unknown b c s t) = bk_failed b"
  "bk_config (note_unknown b c s t) = bk_config b"
  by (simp_all add: note_unknown_def split: option.splits)

lemma apply_event_request: "apply_event s e = Inr s' \<Longrightarrow> st_request s' = st_request s"
  by (auto simp: apply_event_settle split: if_splits)

text \<open>An intent is recorded under its own client order id, and only for an id not in use.\<close>

definition event_fits :: "books \<Rightarrow> order_event \<Rightarrow> bool" where
  "event_fits b e \<longleftrightarrow>
     (case ev_body e of
        SubmitIntent r \<Rightarrow> req_cid r = ev_cid e \<and> bk_orders b (ev_cid e) = None
      | _ \<Rightarrow> bk_orders b (ev_cid e) \<noteq> None)"

lemma next_state_ok:
  assumes "books_inv b" and "event_fits b e" and "next_state b e = Inr s"
  shows "state_cid s = ev_cid e" and "\<And>p. bk_orders b (ev_cid e) = Some p \<Longrightarrow> st_request p = st_request s"
  using assms apply_event_cid apply_event_request
  by (auto simp: next_state_def event_fits_def state_cid_def new_order_def books_inv_def
      split: event_body.splits option.splits; metis)+

lemma next_state_total:
  assumes "books_inv b" and "event_fits b e"
  shows "\<exists>s. next_state b e = Inr s"
proof -
  have "\<exists>s. apply_event p e = Inr s" if "bk_orders b (ev_cid e) = Some p" for p
    using assms(1) that by (auto simp: books_inv_def apply_event_settle)
  with assms(2) show ?thesis
    by (auto simp: next_state_def event_fits_def split: event_body.splits option.splits)
qed

text \<open>The next state is the one a replay of the journal computes.\<close>

lemma next_state_replay_step:
  assumes "books_inv b" and "event_fits b e" and "next_state b e = Inr s"
  shows "replay_step (bk_orders b) e = Inr ((bk_orders b)(ev_cid e \<mapsto> s))"
  using assms
  by (auto simp: next_state_def replay_step_def event_fits_def split: event_body.splits option.splits)

lemma apply_in_memory_ok:
  assumes "books_inv b" and "event_fits b e" and "apply_in_memory max_age now mt b e = (b', r)"
  obtains s where "r = Inr (s, new_anomalies b e s)" and "next_state b e = Inr s"
    and "books_inv b'" and "bk_orders b' = (bk_orders b)(ev_cid e \<mapsto> s)"
    and "bk_unjournalled b' = bk_unjournalled b" and "bk_failed b' = bk_failed b"
    and "bk_baseline b' = bk_baseline b"
proof -
  obtain s where s: "next_state b e = Inr s" using next_state_total assms by blast
  let ?b1 = "restamp b e"
  let ?b2 = "case ev_body e of SubmitIntent r \<Rightarrow> ?b1\<lparr>bk_created := (bk_created ?b1)(ev_cid e \<mapsto> ev_ts e)\<rparr>
             | _ \<Rightarrow> ?b1"
  have f: "bk_orders ?b2 = bk_orders b" "bk_open ?b2 = bk_open b" "bk_filled_net ?b2 = bk_filled_net b"
    "bk_seen ?b2 = bk_seen b" "bk_unjournalled ?b2 = bk_unjournalled b" "bk_failed ?b2 = bk_failed b"
    "bk_baseline ?b2 = bk_baseline b"
    by (simp_all split: event_body.splits)
  have b': "b' = note_unknown (store_order max_age now mt ?b2 s) (ev_cid e) s mt"
    and r: "r = Inr (s, new_anomalies b e s)"
    using assms(3) s by (simp_all add: apply_in_memory_def Let_def)
  have c: "state_cid s = ev_cid e" using next_state_ok assms s by blast
  have "books_inv ?b2" using assms(1) books_inv_cong [OF f(1-4)] by simp
  then have "books_inv (store_order max_age now mt ?b2 s)"
    using next_state_ok [OF assms(1,2) s] f(1) by (intro store_order_inv) auto
  then have "books_inv b'"
    unfolding b' by (subst books_inv_cong [of _ "store_order max_age now mt ?b2 s"]) simp_all
  with r s c f b' show ?thesis by (intro that) auto
qed


section \<open>Memory and journal tell the same story\<close>

text \<open>
  What \<open>_record_now\<close> relies on: a write that succeeds adds the event at the end, a write that fails
  adds nothing.
\<close>

locale event_log =
  fixes wr :: "'j \<Rightarrow> order_event \<Rightarrow> 'j \<times> unit result"
    and logged :: "'j \<Rightarrow> order_event list"
  assumes write_ok: "wr j e = (j', Inr u) \<Longrightarrow> logged j' = logged j @ [e]"
    and write_fail: "wr j e = (j', Inl err) \<Longrightarrow> logged j' = logged j"
begin

lemma write_unjournalled_logged:
  "write_unjournalled wr j es = (j', left, r) \<Longrightarrow>
   logged j' @ left = logged j @ es \<and> (r = None \<longrightarrow> left = [])"
proof (induction es arbitrary: j)
  case Nil
  then show ?case by simp
next
  case (Cons e es)
  obtain j1 w where w: "wr j e = (j1, w)" by fastforce
  show ?case
  proof (cases w)
    case (Inl err)
    with Cons.prems w write_fail [of j e j1 err] show ?thesis by auto
  next
    case (Inr u)
    with Cons w write_ok [of j e j1 u] show ?thesis by auto
  qed
qed

lemma write_all_logged:
  assumes "write_all wr j backlog e = (j', left, r)"
  shows "r = None \<Longrightarrow> left = [] \<and> logged j' = logged j @ backlog @ [e]"
    and "r \<noteq> None \<Longrightarrow> logged j' @ left = logged j @ backlog"
proof -
  obtain j1 l1 r1 where w: "write_unjournalled wr j backlog = (j1, l1, r1)"
    using prod_cases3 by blast
  note u = write_unjournalled_logged [OF w]
  obtain j2 w2 where w2: "wr j1 e = (j2, w2)" by fastforce
  show "r = None \<Longrightarrow> left = [] \<and> logged j' = logged j @ backlog @ [e]"
    using assms w w2 u write_ok [of j1 e j2]
    by (auto simp: write_all_def split: option.splits sum.splits)
  show "r \<noteq> None \<Longrightarrow> logged j' @ left = logged j @ backlog"
    using assms w w2 u write_fail [of j1 e j2]
    by (auto simp: write_all_def split: option.splits sum.splits)
qed

lemma record_now_keeps:
  assumes inv: "books_inv b" and fits: "event_fits b e"
    and same: "replay (logged j @ bk_unjournalled b) = Inr (bk_orders b)"
    and rec: "record_now wr max_age now mt j b e durable only_if = (j', b', r)"
  shows "books_inv b' \<and> replay (logged j' @ bk_unjournalled b') = Inr (bk_orders b')"
proof (cases "(only_if \<noteq> None \<and> bk_orders b (ev_cid e) = None) \<or>
              (only_if \<noteq> None \<and> only_if \<noteq> Some (bk_stamp b (ev_cid e)))")
  case True
  then have "j' = j \<and> b' = b"
    using rec by (auto simp: record_now_def split: option.splits if_splits)
  with inv same show ?thesis by simp
next
  case False
  obtain j1 left err where w: "write_all wr j (bk_unjournalled b) e = (j1, left, err)"
    using prod_cases3 by blast
  have step: "books_inv b2 \<and> replay (evs @ [e]) = Inr (bk_orders b2) \<and>
      bk_unjournalled b2 = bk_unjournalled b1"
    if b1: "bk_orders b1 = bk_orders b" "books_inv b1" and a: "apply_in_memory max_age now mt b1 e = (b2, r2)"
      and evs: "replay evs = Inr (bk_orders b)" for b1 b2 r2 evs
  proof -
    have f: "event_fits b1 e" using fits b1(1) by (simp only: event_fits_def)
    obtain s where s: "next_state b1 e = Inr s" "books_inv b2"
        "bk_orders b2 = (bk_orders b1)(ev_cid e \<mapsto> s)" "bk_unjournalled b2 = bk_unjournalled b1"
      by (rule apply_in_memory_ok [OF b1(2) f a])
    have "replay (evs @ [e]) = Inr (bk_orders b2)"
      using next_state_replay_step [OF b1(2) f s(1)] evs b1(1) s(3)
      by (simp add: replay_def replay_from_append)
    with s show ?thesis by simp
  qed
  let ?b0 = "b\<lparr>bk_unjournalled := left\<rparr>"
  let ?b1 = "b\<lparr>bk_unjournalled := left @ [e], bk_failed := True\<rparr>"
  have inv0: "books_inv ?b0" "books_inv ?b1"
    using inv books_inv_cong [of ?b0 b] books_inv_cong [of ?b1 b] by simp_all
  show ?thesis
  proof (cases err)
    case None
    note l = write_all_logged(1) [OF w None]
    obtain b2 r2 where a: "apply_in_memory max_age now mt ?b0 e = (b2, r2)" by fastforce
    have "j' = j1" "b' = b2"
      using rec w None a False by (auto simp: record_now_def split: option.splits if_splits)
    with step [OF _ inv0(1) a same] l show ?thesis by simp
  next
    case (Some ex)
    have l: "logged j1 @ left = logged j @ bk_unjournalled b" using write_all_logged(2) [OF w] Some by simp
    show ?thesis
    proof (cases durable)
      case True
      then have "j' = j1" "b' = ?b0"
        using rec w Some False by (auto simp: record_now_def split: option.splits if_splits)
      with inv0 l same show ?thesis by simp
    next
      case nd: False
      obtain b2 r2 where a: "apply_in_memory max_age now mt ?b1 e = (b2, r2)" by fastforce
      have "j' = j1" "b' = b2"
        using rec w Some a False nd by (auto simp: record_now_def split: option.splits if_splits)
      with step [OF _ inv0(2) a same] l show ?thesis by (simp flip: append_assoc)
    qed
  qed
qed

lemma record_now_never_loses:
  assumes inv: "books_inv b" and fits: "event_fits b e"
    and rec: "record_now wr max_age now mt j b e False None = (j', b', r)"
  shows "\<exists>s. next_state b e = Inr s \<and> r = Inr (s, new_anomalies b e s) \<and>
    bk_orders b' = (bk_orders b)(ev_cid e \<mapsto> s) \<and>
    logged j' @ bk_unjournalled b' = logged j @ bk_unjournalled b @ [e] \<and>
    (bk_unjournalled b' \<noteq> [] \<longrightarrow> bk_failed b')"
proof -
  obtain j1 left err where w: "write_all wr j (bk_unjournalled b) e = (j1, left, err)"
    using prod_cases3 by blast
  let ?b1 = "if err = None then b\<lparr>bk_unjournalled := left\<rparr>
    else b\<lparr>bk_unjournalled := left @ [e], bk_failed := True\<rparr>"
  have same: "bk_orders ?b1 = bk_orders b" "bk_open ?b1 = bk_open b" "bk_filled_net ?b1 = bk_filled_net b"
    "bk_seen ?b1 = bk_seen b"
    by simp_all
  have inv1: "books_inv ?b1" using inv books_inv_cong [OF same] by blast
  have fits1: "event_fits ?b1 e" using fits same(1) by (simp only: event_fits_def)
  obtain b2 r2 where a: "apply_in_memory max_age now mt ?b1 e = (b2, r2)" by fastforce
  obtain s where s: "r2 = Inr (s, new_anomalies ?b1 e s)" "next_state ?b1 e = Inr s"
      "bk_orders b2 = (bk_orders ?b1)(ev_cid e \<mapsto> s)" "bk_unjournalled b2 = bk_unjournalled ?b1"
      "bk_failed b2 = bk_failed ?b1"
    by (rule apply_in_memory_ok [OF inv1 fits1 a])
  have "j' = j1" "b' = b2" "r = r2"
    using rec w a by (auto simp: record_now_def split: option.splits)
  moreover have "next_state b e = next_state ?b1 e" "new_anomalies b e s = new_anomalies ?b1 e s"
    by (simp_all only: next_state_def new_anomalies_def same(1))
  moreover have "logged j1 @ bk_unjournalled ?b1 = logged j @ bk_unjournalled b @ [e]"
    using write_all_logged [OF w] by (cases err) (simp_all flip: append_assoc)
  moreover have "bk_unjournalled ?b1 \<noteq> [] \<longrightarrow> bk_failed ?b1"
    using write_all_logged [OF w] by (cases err) auto
  ultimately show ?thesis using s same(1) by simp
qed

lemma retry_keeps:
  assumes "books_inv b" and "replay (logged j @ bk_unjournalled b) = Inr (bk_orders b)"
    and "retry_unjournalled wr j b = (j', b')"
  shows "books_inv b' \<and> replay (logged j' @ bk_unjournalled b') = Inr (bk_orders b')"
proof -
  obtain j1 left err where w: "write_unjournalled wr j (bk_unjournalled b) = (j1, left, err)"
    using prod_cases3 by blast
  then have "j' = j1" "b' = b\<lparr>bk_unjournalled := left\<rparr>" using assms(3) by (auto simp: retry_unjournalled_def)
  moreover have "logged j1 @ left = logged j @ bk_unjournalled b"
    using write_unjournalled_logged [OF w] by simp
  ultimately show ?thesis
    using assms(1,2) books_inv_cong [of "b\<lparr>bk_unjournalled := left\<rparr>" b] by simp
qed

end

text \<open>
  The journal as \<open>_write_event\<close> sees it, with parsed payloads: the \<open>n\<close>-th attempt to write succeeds
  when \<open>disk n\<close>, unless it is a second intent for one client order id.
\<close>

record event_journal =
  ej_entries :: "journal_entry list"
  ej_attempts :: nat

definition order_events :: "journal_entry list \<Rightarrow> order_event list" where
  "order_events rs = concat (map (\<lambda>r. case je_entry r of EOrderEvent e \<Rightarrow> [e] | _ \<Rightarrow> []) rs)"

definition is_intent :: "order_event \<Rightarrow> bool" where
  "is_intent e = (case ev_body e of SubmitIntent _ \<Rightarrow> True | _ \<Rightarrow> False)"

definition write_entry :: "(nat \<Rightarrow> bool) \<Rightarrow> int \<Rightarrow> event_journal \<Rightarrow> order_event \<Rightarrow> event_journal \<times> unit result" where
  "write_entry disk stamp j e =
     (let j1 = j\<lparr>ej_attempts := ej_attempts j + 1\<rparr>;
          taken = (\<exists>e' \<in> set (order_events (ej_entries j)). is_intent e' \<and> ev_cid e' = ev_cid e)
      in if \<not> disk (ej_attempts j) \<or> (is_intent e \<and> taken) then (j1, Inl JournalError)
         else (j1\<lparr>ej_entries := ej_entries j @
                  [\<lparr>je_seq = int (length (ej_entries j)) + 1, je_ts = stamp, je_entry = EOrderEvent e\<rparr>]\<rparr>,
               Inr ()))"

lemma order_events_simps [simp]:
  "order_events [] = []"
  "order_events (rs @ ss) = order_events rs @ order_events ss"
  "order_events (r # rs) = (case je_entry r of EOrderEvent e \<Rightarrow> [e] | _ \<Rightarrow> []) @ order_events rs"
  by (simp_all add: order_events_def)

interpretation ej: event_log "write_entry disk stamp" "\<lambda>j. order_events (ej_entries j)"
  for disk :: "nat \<Rightarrow> bool" and stamp :: int
  by unfold_locales (auto simp: write_entry_def Let_def split: if_splits)

text \<open>The calls of \<open>_record_now\<close> and \<open>_retry_unjournalled\<close> a manager makes, with the disk as it pleases.\<close>

inductive memory_reaches ::
    "(nat \<Rightarrow> bool) \<Rightarrow> rat \<Rightarrow> event_journal \<times> books \<Rightarrow> event_journal \<times> books \<Rightarrow> bool"
  for disk :: "nat \<Rightarrow> bool" and max_age :: rat and start :: "event_journal \<times> books" where
  reaches_start: "memory_reaches disk max_age start start"
| reaches_record:
    "memory_reaches disk max_age start (j, b) \<Longrightarrow> event_fits b e \<Longrightarrow>
     record_now (write_entry disk now) max_age now mt j b e durable only_if = (j', b', r) \<Longrightarrow>
     memory_reaches disk max_age start (j', b')"
| reaches_retry:
    "memory_reaches disk max_age start (j, b) \<Longrightarrow>
     retry_unjournalled (write_entry disk now) j b = (j', b') \<Longrightarrow>
     memory_reaches disk max_age start (j', b')"

inductive_cases memory_reachesE: "memory_reaches disk max_age start s"

definition agrees :: "event_journal \<times> books \<Rightarrow> bool" where
  "agrees s = (case s of (j, b) \<Rightarrow>
     books_inv b \<and> replay (order_events (ej_entries j) @ bk_unjournalled b) = Inr (bk_orders b))"

lemma memory_reaches_agrees:
  "memory_reaches disk max_age start s \<Longrightarrow> agrees start \<Longrightarrow> agrees s"
proof (induction rule: memory_reaches.induct)
  case reaches_start
  then show ?case .
next
  case (reaches_record j b e now mt durable only_if j' b' r)
  then show ?case
    using ej.record_now_keeps [of b e j disk now max_age now mt durable only_if j' b' r]
    by (simp add: agrees_def)
next
  case (reaches_retry j b now j' b')
  then show ?case using ej.retry_keeps [of b j disk now j' b'] by (simp add: agrees_def)
qed

section \<open>A restart rebuilds the same orders\<close>

lemma replay_event_orders:
  assumes "\<And>c s. bk_orders b c = Some s \<Longrightarrow> state_cid s = c"
    and "\<And>r. ev_body e = SubmitIntent r \<Longrightarrow> req_cid r = ev_cid e"
    and "replay_step (bk_orders b) e = Inr m"
  shows "\<exists>b' h. replay_event max_age now mt b seq e = Inr (b', h) \<and> bk_orders b' = m"
proof (cases "bk_orders b (ev_cid e)")
  case None
  with assms(2,3) show ?thesis
    by (auto simp: replay_step_def replay_event_def Let_def new_order_def state_cid_def
        split: event_body.splits)
next
  case (Some p)
  with assms(3) obtain s where s: "apply_event p e = Inr s" "m = (bk_orders b)(ev_cid e \<mapsto> s)"
    by (auto simp: replay_step_def bind_result_eq_Inr)
  moreover have "state_cid s = ev_cid e" using assms(1) [OF Some] apply_event_cid [OF s(1)] by simp
  ultimately show ?thesis using Some by (simp add: replay_event_def Let_def split: event_body.splits)
qed

lemma replay_entry_other:
  "(\<And>e. je_entry r \<noteq> EOrderEvent e) \<Longrightarrow>
   \<exists>b' h. replay_entry max_age now mt b r = Inr (b', h) \<and> bk_orders b' = bk_orders b"
  by (cases "je_entry r") (auto simp: replay_entry_def apply_adjustment_def split: option.splits)

definition intents_named :: "journal_entry list \<Rightarrow> bool" where
  "intents_named rs \<longleftrightarrow>
     (\<forall>e \<in> set (order_events rs). \<forall>r. ev_body e = SubmitIntent r \<longrightarrow> req_cid r = ev_cid e)"

lemma replay_step_cids:
  assumes "replay_step m e = Inr m'" and "\<And>c s. m c = Some s \<Longrightarrow> state_cid s = c"
    and "\<And>r. ev_body e = SubmitIntent r \<Longrightarrow> req_cid r = ev_cid e"
  shows "m' c = Some s \<Longrightarrow> state_cid s = c"
  using assms apply_event_cid
  by (cases rule: replay_step_cases) (auto simp: new_order_def state_cid_def split: if_splits)

lemma replay_entries_orders:
  assumes "\<And>c s. bk_orders b c = Some s \<Longrightarrow> state_cid s = c" and "intents_named rs"
    and "replay_from (bk_orders b) (order_events rs) = Inr m"
  shows "\<exists>b' h'. replay_entries max_age now mt b h rs = Inr (b', h') \<and> bk_orders b' = m"
  using assms
proof (induction rs arbitrary: b h)
  case Nil
  then show ?case by simp
next
  case (Cons r rs)
  have named: "intents_named rs" using Cons.prems(2) by (auto simp: intents_named_def)
  show ?case
  proof (cases "\<exists>e. je_entry r = EOrderEvent e")
    case True
    then obtain e where e: "je_entry r = EOrderEvent e" by blast
    then obtain m1 where m1: "replay_step (bk_orders b) e = Inr m1"
        and rest: "replay_from m1 (order_events rs) = Inr m"
      using Cons.prems(3) by (auto simp: bind_result_eq_Inr)
    have n: "\<And>r. ev_body e = SubmitIntent r \<Longrightarrow> req_cid r = ev_cid e"
      using Cons.prems(2) e by (auto simp: intents_named_def)
    obtain b1 h1 where b1: "replay_event max_age now mt b (je_seq r) e = Inr (b1, h1)" "bk_orders b1 = m1"
      using replay_event_orders [OF Cons.prems(1) n m1] by blast
    have "\<exists>b' h'. replay_entries max_age now mt b1 (or_else h1 h) rs = Inr (b', h') \<and> bk_orders b' = m"
      using replay_step_cids [OF m1 Cons.prems(1) n] b1(2) named rest by (intro Cons.IH) auto
    with b1 e show ?thesis by (simp add: replay_entry_def)
  next
    case False
    then obtain b1 h1 where b1: "replay_entry max_age now mt b r = Inr (b1, h1)" "bk_orders b1 = bk_orders b"
      using replay_entry_other by blast
    have "order_events (r # rs) = order_events rs" using False by (auto split: entry.splits)
    then have "\<exists>b' h'. replay_entries max_age now mt b1 (or_else h1 h) rs = Inr (b', h') \<and> bk_orders b' = m"
      using Cons.prems b1(2) named by (intro Cons.IH) auto
    with b1 show ?thesis by simp
  qed
qed

lemma recover_orders:
  assumes "intents_named rs" and "replay (order_events rs) = Inr m"
  shows "\<exists>b h. recover_books max_age now mt old rs = Inr (b, h) \<and> bk_orders b = m"
proof -
  let ?b0 = "empty_books\<lparr>bk_stamp := bk_stamp old, bk_unknown_since := bk_unknown_since old,
      bk_failed := bk_failed old, bk_last_sweep := (case rs of [] \<Rightarrow> None | r # _ \<Rightarrow> Some (je_ts r))\<rparr>"
  have "\<exists>b' h'. replay_entries max_age now mt ?b0 None rs = Inr (b', h') \<and> bk_orders b' = m"
    using assms by (intro replay_entries_orders) (simp_all add: empty_books_def replay_def)
  then show ?thesis by (auto simp: recover_books_def Let_def)
qed


section \<open>Adjustments are adopted once\<close>

definition adjustment_of :: "symbol \<Rightarrow> journal_entry \<Rightarrow> rat" where
  "adjustment_of y r =
     (case je_entry r of
        EAdjusted detail z delta \<Rightarrow> if names_operator detail \<and> z = y then delta else 0
      | _ \<Rightarrow> 0)"

definition unseen :: "books \<Rightarrow> journal_entry list \<Rightarrow> journal_entry list" where
  "unseen b journal = filter (\<lambda>r. bk_adjustments_seen b < je_seq r) journal"

definition base_quantity :: "books \<Rightarrow> symbol \<Rightarrow> rat" where
  "base_quantity b y = (case bk_baseline b of None \<Rightarrow> 0 | Some base \<Rightarrow> quantity_of base y)"

lemma adopt_adjustment_quantity:
  "bk_baseline b \<noteq> None \<Longrightarrow>
   base_quantity (adopt_adjustment b r) y = base_quantity b y + adjustment_of y r \<and>
   bk_baseline (adopt_adjustment b r) \<noteq> None"
  by (auto simp: adopt_adjustment_def apply_adjustment_def base_quantity_def adjustment_of_def
      quantity_of_add_quantity split: entry.splits option.splits)

lemma adopt_adjustments_quantity:
  "bk_baseline b \<noteq> None \<Longrightarrow>
   base_quantity (foldl adopt_adjustment b rs) y = base_quantity b y + sum_by (adjustment_of y) rs \<and>
   bk_baseline (foldl adopt_adjustment b rs) \<noteq> None"
proof (induction rs arbitrary: b)
  case Nil
  then show ?case by simp
next
  case (Cons r rs)
  then show ?case using adopt_adjustment_quantity [OF Cons.prems, of r y] by simp
qed

lemma adopt_adjustments_net:
  "bk_filled_net (foldl adopt_adjustment b rs) = bk_filled_net b"
proof (induction rs arbitrary: b)
  case (Cons r rs)
  have "bk_filled_net (adopt_adjustment b r) = bk_filled_net b"
    by (simp add: adopt_adjustment_def apply_adjustment_def split: entry.splits option.splits)
  with Cons show ?case by simp
qed simp

lemma sum_adjustments_filter: "sum_by (adjustment_of y) (filter is_adjustment rs) = sum_by (adjustment_of y) rs"
  by (induction rs) (auto simp: is_adjustment_def adjustment_of_def split: entry.splits)

lemma merge_adjustments_intact:
  assumes "bk_baseline b \<noteq> None"
  shows "base_quantity (merge_adjustments b journal True) y =
      base_quantity b y + sum_by (adjustment_of y) (unseen b journal)"
    and "bk_baseline (merge_adjustments b journal True) \<noteq> None"
    and "bk_adjustments_seen (merge_adjustments b journal True) =
      (if unseen b journal = [] then bk_adjustments_seen b else je_seq (last (unseen b journal)))"
    and "bk_filled_net (merge_adjustments b journal True) = bk_filled_net b"
  using adopt_adjustments_quantity [OF assms, of "filter is_adjustment (unseen b journal)" y]
    adopt_adjustments_net [of b "filter is_adjustment (unseen b journal)"]
  by (auto simp: merge_adjustments_def Let_def unseen_def [symmetric] sum_adjustments_filter base_quantity_def)

lemma merge_adjustments_broken:
  "filter is_adjustment (unseen b journal) \<noteq> [] \<Longrightarrow> merge_adjustments b journal False = b"
  by (simp add: merge_adjustments_def Let_def unseen_def)

lemma unseen_after:
  assumes "sorted_wrt (<) (map je_seq (journal @ new))" and "bk_baseline b \<noteq> None"
    and "list_all (\<lambda>r. bk_adjustments_seen b < je_seq r) new"
  shows "unseen (merge_adjustments b journal True) (journal @ new) = new"
proof -
  let ?s = "bk_adjustments_seen (merge_adjustments b journal True)"
  have asc: "\<And>r l. r \<in> set journal \<Longrightarrow> l \<in> set new \<Longrightarrow> je_seq r < je_seq l"
    and sj: "sorted_wrt (<) (map je_seq journal)"
    using assms(1) by (auto simp: sorted_wrt_append)
  have low: "\<not> ?s < je_seq r" if "r \<in> set journal" for r
  proof (cases "unseen b journal = []")
    case True
    then show ?thesis
      using that merge_adjustments_intact(3) [OF assms(2), of journal]
      by (auto simp: unseen_def filter_empty_conv)
  next
    case False
    let ?u = "unseen b journal"
    have su: "sorted_wrt (<) (map je_seq ?u)" using sj by (simp add: unseen_def sorted_wrt_map sorted_wrt_filter)
    have top: "je_seq x \<le> je_seq (last ?u)" if "x \<in> set ?u" for x
      using that su False
      by (cases ?u rule: rev_cases) (auto simp: sorted_wrt_append)
    have seen: "?s = je_seq (last ?u)" using merge_adjustments_intact(3) [OF assms(2)] False by simp
    have "last ?u \<in> set ?u" using False by simp
    then have "bk_adjustments_seen b < je_seq (last ?u)" by (auto simp: unseen_def)
    show ?thesis
    proof (cases "r \<in> set ?u")
      case True
      with top seen show ?thesis by force
    next
      case False
      with that \<open>bk_adjustments_seen b < je_seq (last ?u)\<close> seen show ?thesis by (auto simp: unseen_def)
    qed
  qed
  have high: "?s < je_seq l" if "l \<in> set new" for l
  proof (cases "unseen b journal = []")
    case True
    with that assms(3) merge_adjustments_intact(3) [OF assms(2), of journal] show ?thesis
      by (auto simp: list_all_iff)
  next
    case False
    then have "last (unseen b journal) \<in> set journal" by (metis filter_is_subset last_in_set subsetD unseen_def)
    with False asc that merge_adjustments_intact(3) [OF assms(2), of journal] show ?thesis by auto
  qed
  have "filter (\<lambda>r. ?s < je_seq r) journal = []" using low by (auto simp: filter_empty_conv)
  moreover have "filter (\<lambda>r. ?s < je_seq r) new = new" using high by (auto simp: filter_id_conv)
  ultimately show ?thesis by (simp add: unseen_def)
qed

text \<open>Looking twice, with more records in between, adopts the same total as looking once at the end.\<close>

lemma merge_in_two_looks:
  assumes "sorted_wrt (<) (map je_seq (journal @ new))" and b: "bk_baseline b \<noteq> None"
    and l: "list_all (\<lambda>r. bk_adjustments_seen b < je_seq r) new"
  shows "base_quantity (merge_adjustments (merge_adjustments b journal True) (journal @ new) True) y =
         base_quantity (merge_adjustments b (journal @ new) True) y"
proof -
  let ?m = "merge_adjustments b journal True"
  have "unseen b (journal @ new) = unseen b journal @ new"
    using l by (auto simp: unseen_def filter_id_conv list_all_iff)
  moreover have "bk_baseline ?m \<noteq> None" using merge_adjustments_intact(2) [OF b] .
  ultimately show ?thesis
    using merge_adjustments_intact(1) [OF b] merge_adjustments_intact(1) [of ?m] unseen_after [OF assms]
    by simp
qed

lemma net_position_base:
  "bk_baseline b \<noteq> None \<Longrightarrow> net_position b y = Some (base_quantity b y + held (bk_filled_net b) y)"
  by (auto simp: net_position_def base_quantity_def)


text \<open>Nothing in a restart of the same instance clears the failure of the journal.\<close>

lemma replay_entries_failed:
  "replay_entries max_age now mt b h rs = Inr (b', h') \<Longrightarrow> bk_failed b' = bk_failed b"
proof (induction rs arbitrary: b h)
  case Nil
  then show ?case by simp
next
  case (Cons r rs)
  obtain b1 h1 where b1: "replay_entry max_age now mt b r = Inr (b1, h1)"
      and rest: "replay_entries max_age now mt b1 (or_else h1 h) rs = Inr (b', h')"
    using Cons.prems by (auto simp: bind_result_eq_Inr)
  have "bk_failed b1 = bk_failed b"
    using b1
    by (auto simp: replay_entry_def replay_event_def apply_adjustment_def Let_def bind_result_eq_Inr
        split: entry.splits option.splits event_body.splits if_splits)
  with Cons.IH [OF rest] show ?case by simp
qed

lemma recover_keeps_failure:
  "recover_books max_age now mt old rs = Inr (b, h) \<Longrightarrow> bk_failed b = bk_failed old"
  by (auto simp: recover_books_def Let_def bind_result_eq_Inr dest!: replay_entries_failed)

section \<open>A recovered memory is consistent\<close>

lemma replay_event_inv:
  assumes inv: "books_inv b" and named: "\<And>r. ev_body e = SubmitIntent r \<Longrightarrow> req_cid r = ev_cid e"
    and rep: "replay_event max_age now mt b seq e = Inr (b', h)"
  shows "books_inv b' \<and> replay_step (bk_orders b) e = Inr (bk_orders b')"
proof (cases "bk_orders b (ev_cid e)")
  case None
  then obtain r where r: "ev_body e = SubmitIntent r" using rep
    by (auto simp: replay_event_def split: event_body.splits)
  let ?b1 = "store_order max_age now mt (restamp b e) (new_order r)"
  have b': "b' = ?b1\<lparr>bk_created := (bk_created ?b1)(ev_cid e \<mapsto> ev_ts e)\<rparr>"
    using rep None r by (simp add: replay_event_def Let_def)
  have i: "books_inv (restamp b e)" using inv by (subst books_inv_cong [of _ b]) simp_all
  have c: "state_cid (new_order r) = ev_cid e" using named [OF r] by (simp add: state_cid_def new_order_def)
  have "books_inv ?b1" using c None by (intro store_order_inv [OF i]) simp
  then have "books_inv b'" unfolding b' by (subst books_inv_cong [of _ ?b1]) simp_all
  then show ?thesis using None r c by (simp add: b' replay_step_def)
next
  case (Some prior)
  let ?b1 = "case ev_body e of
      Filled f \<Rightarrow> if fill_disputes prior f then b\<lparr>bk_corrections := insert (fill_terms_of f) (bk_corrections b)\<rparr> else b
    | _ \<Rightarrow> b"
  obtain s where s: "apply_event prior e = Inr s" "b' = store_order max_age now mt (restamp ?b1 e) s"
    using rep Some by (auto simp: replay_event_def Let_def bind_result_eq_Inr)
  have f: "bk_orders ?b1 = bk_orders b" "bk_open ?b1 = bk_open b" "bk_filled_net ?b1 = bk_filled_net b" "bk_seen ?b1 = bk_seen b"
    by (simp_all split: event_body.splits)
  have "books_inv ?b1" using inv books_inv_cong [OF f] by simp
  then have i: "books_inv (restamp ?b1 e)" by (subst books_inv_cong [of _ ?b1]) simp_all
  have c: "state_cid s = ev_cid e" using apply_event_cid [OF s(1)] inv Some by (auto simp: books_inv_def)
  have "books_inv b'" unfolding s(2)
    using c Some f(1) apply_event_request [OF s(1)] by (intro store_order_inv [OF i]) simp
  then show ?thesis using Some s c f(1) by (simp add: replay_step_def)
qed

lemma replay_entries_inv:
  "books_inv b \<Longrightarrow> intents_named rs \<Longrightarrow> replay_entries max_age now mt b h rs = Inr (b', h') \<Longrightarrow>
   books_inv b' \<and> replay_from (bk_orders b) (order_events rs) = Inr (bk_orders b')"
proof (induction rs arbitrary: b h)
  case Nil
  then show ?case by simp
next
  case (Cons r rs)
  obtain b1 h1 where r: "replay_entry max_age now mt b r = Inr (b1, h1)"
      "replay_entries max_age now mt b1 (or_else h1 h) rs = Inr (b', h')"
    using Cons.prems(3) by (auto simp: bind_result_eq_Inr)
  have named: "intents_named rs" using Cons.prems(2) by (auto simp: intents_named_def)
  show ?case
  proof (cases "\<exists>e. je_entry r = EOrderEvent e")
    case True
    then obtain e where e: "je_entry r = EOrderEvent e" by blast
    have "books_inv b1 \<and> replay_step (bk_orders b) e = Inr (bk_orders b1)"
      using replay_event_inv [OF Cons.prems(1), of e max_age now mt "je_seq r" b1 h1] Cons.prems(2) r(1) e
      by (auto simp: replay_entry_def intents_named_def)
    then show ?thesis using Cons.IH [OF _ named r(2)] e by simp
  next
    case False
    then have "books_inv b1" "bk_orders b1 = bk_orders b" "order_events (r # rs) = order_events rs"
      using r(1) Cons.prems(1) books_inv_cong [of b1 b]
      by (auto simp: replay_entry_def apply_adjustment_def split: entry.splits option.splits if_splits)
    then show ?thesis using Cons.IH [OF _ named r(2)] by simp
  qed
qed

lemma recover_books_inv:
  assumes "recover_books max_age now mt old rs = Inr (b, h)" and "intents_named rs"
  shows "books_inv b \<and> replay (order_events rs) = Inr (bk_orders b)"
proof -
  let ?b0 = "empty_books\<lparr>bk_stamp := bk_stamp old, bk_unknown_since := bk_unknown_since old,
      bk_failed := bk_failed old, bk_last_sweep := (case rs of [] \<Rightarrow> None | r # _ \<Rightarrow> Some (je_ts r))\<rparr>"
  obtain b1 where b1: "replay_entries max_age now mt ?b0 None rs = Inr (b1, h)"
      "bk_orders b = bk_orders b1" "bk_open b = bk_open b1" "bk_filled_net b = bk_filled_net b1" "bk_seen b = bk_seen b1"
    using assms(1) by (auto simp: recover_books_def Let_def bind_result_eq_Inr)
  have "books_inv ?b0" by (simp add: books_inv_def empty_books_def held_def filled_total_def)
  then have "books_inv b1 \<and> replay_from (bk_orders ?b0) (order_events rs) = Inr (bk_orders b1)"
    using replay_entries_inv [OF _ assms(2) b1(1)] by blast
  then show ?thesis using b1(2-) books_inv_cong [OF b1(2-)] by (simp add: replay_def empty_books_def)
qed

section \<open>Properties\<close>

lemma agrees_empty: "agrees (\<lparr>ej_entries = [], ej_attempts = 0\<rparr>, empty_books)"
  by (simp add: agrees_def books_inv_def empty_books_def held_def filled_total_def replay_def)


definition sample_recorded :: "event_journal \<times> books \<times> (order_state \<times> anomaly list) result" where
  "sample_recorded = record_now (write_entry (\<lambda>n. n \<noteq> 0) 1) 5 1 0 \<lparr>ej_entries = [], ej_attempts = 0\<rparr>
     empty_books (sample_event (SubmitIntent sample_request)) False None"

lemma sample_reached:
  "memory_reaches (\<lambda>n. n \<noteq> 0) 5 (\<lparr>ej_entries = [], ej_attempts = 0\<rparr>, empty_books)
     (fst sample_recorded, fst (snd sample_recorded))"
proof -
  have "event_fits empty_books (sample_event (SubmitIntent sample_request))"
    by (simp add: event_fits_def sample_event_def sample_request_def empty_books_def)
  then show ?thesis
    by (rule reaches_record [OF reaches_start, where now = 1 and mt = 0 and durable = False and only_if = None
          and r = "snd (snd sample_recorded)"])
      (simp add: sample_recorded_def)
qed


text \<open>C12: Memory never drifts from the journal: at every moment the orders in memory are what a replay of
  the journal, followed by the events a failed disk still owes it, would give.\<close>

theorem memory_is_the_replay:
  assumes "memory_reaches disk max_age (\<lparr>ej_entries = [], ej_attempts = 0\<rparr>, empty_books) (j, b)"
  shows "replay (order_events (ej_entries j) @ bk_unjournalled b) = Inr (bk_orders b)"
  using memory_reaches_agrees [OF assms agrees_empty] by (simp add: agrees_def)

lemma memory_is_the_replay_witness:
  "replay (order_events (ej_entries (fst sample_recorded)) @ bk_unjournalled (fst (snd sample_recorded))) =
   Inr (bk_orders (fst (snd sample_recorded)))"
  by (rule memory_is_the_replay [OF sample_reached])

text \<open>C19: A restart loses nothing: once the backlog is written, recovering from the journal rebuilds
  exactly the orders that were in memory.\<close>

theorem restart_rebuilds_orders:
  assumes "memory_reaches disk max_age (\<lparr>ej_entries = [], ej_attempts = 0\<rparr>, empty_books) (j, b)"
    and "bk_unjournalled b = []" and "intents_named (ej_entries j)"
  shows "\<exists>b' h. recover_books age now mt old (ej_entries j) = Inr (b', h) \<and> bk_orders b' = bk_orders b"
  using memory_reaches_agrees [OF assms(1) agrees_empty] assms(2,3)
  by (intro recover_orders) (simp_all add: agrees_def)

definition sample_retried :: "event_journal \<times> books" where
  "sample_retried =
     retry_unjournalled (write_entry (\<lambda>n. n \<noteq> 0) 2) (fst sample_recorded) (fst (snd sample_recorded))"

lemma sample_retried_fields:
  "bk_unjournalled (snd sample_retried) = []"
  "order_events (ej_entries (fst sample_retried)) = [sample_event (SubmitIntent sample_request)]"
  by (simp_all add: sample_retried_def sample_recorded_def retry_unjournalled_def record_now_def
      write_all_def write_entry_def Let_def empty_books_def apply_in_memory_def next_state_def
      sample_event_def is_intent_def note_unknown_def store_order_def restamp_def new_order_def
      set_mark_def)

lemma restart_rebuilds_orders_witness:
  "\<exists>b' h. recover_books 5 3 0 empty_books (ej_entries (fst sample_retried)) = Inr (b', h) \<and>
     bk_orders b' = bk_orders (snd sample_retried)"
proof -
  have "memory_reaches (\<lambda>n. n \<noteq> 0) 5 (\<lparr>ej_entries = [], ej_attempts = 0\<rparr>, empty_books)
      (fst sample_retried, snd sample_retried)"
    by (rule reaches_retry [OF sample_reached, where now = 2]) (simp add: sample_retried_def)
  then show ?thesis
    by (rule restart_rebuilds_orders)
      (simp_all add: sample_retried_fields intents_named_def sample_event_def sample_request_def)
qed

text \<open>C20: A venue event is never lost to a failing disk: recording it always reaches memory, the event is
  in the journal or in the backlog that is written first and in order, and a backlog means new orders
  are refused.\<close>

theorem venue_events_are_never_lost:
  assumes "books_inv b" and "event_fits b e"
    and "record_now (write_entry disk now) max_age now mt j b e False None = (j', b', r)"
  shows "\<exists>s. next_state b e = Inr s \<and> r = Inr (s, new_anomalies b e s) \<and>
    bk_orders b' = (bk_orders b)(ev_cid e \<mapsto> s) \<and>
    order_events (ej_entries j') @ bk_unjournalled b' =
      order_events (ej_entries j) @ bk_unjournalled b @ [e] \<and>
    (bk_unjournalled b' \<noteq> [] \<longrightarrow> bk_failed b')"
  using assms by (rule ej.record_now_never_loses)

lemma venue_events_are_never_lost_witness:
  "\<exists>s. bk_orders (fst (snd sample_recorded)) = [''A1'' \<mapsto> s] \<and>
     order_events (ej_entries (fst sample_recorded)) @ bk_unjournalled (fst (snd sample_recorded)) =
       [sample_event (SubmitIntent sample_request)]"
  using venue_events_are_never_lost [of empty_books "sample_event (SubmitIntent sample_request)"
      "\<lambda>n. n \<noteq> 0" 1 5 0 "\<lparr>ej_entries = [], ej_attempts = 0\<rparr>" "fst sample_recorded"
      "fst (snd sample_recorded)" "snd (snd sample_recorded)"] agrees_empty
  by (auto simp: agrees_def event_fits_def sample_event_def sample_request_def empty_books_def
      sample_recorded_def)

text \<open> A position adjustment in the journal is adopted exactly once, however often and whenever the
  manager looks: two looks with more records in between move the baseline by the same total as one
  look at the end.\<close>

theorem adjustments_adopted_once:
  assumes "sorted_wrt (<) (map je_seq (journal @ new))" and "bk_baseline b \<noteq> None"
    and "list_all (\<lambda>r. bk_adjustments_seen b < je_seq r) new"
  shows "base_quantity (merge_adjustments (merge_adjustments b journal True) (journal @ new) True) y =
      base_quantity b y + sum_by (adjustment_of y) (unseen b (journal @ new))"
  using merge_in_two_looks [OF assms] merge_adjustments_intact(1) [OF assms(2)] by simp

definition sample_adjustment :: "int \<Rightarrow> journal_entry" where
  "sample_adjustment n =
     \<lparr>je_seq = n, je_ts = 0, je_entry = EAdjusted [(''operator'', JStr ''ops'')] sample_symbol 5\<rparr>"

lemma adjustments_adopted_once_witness:
  "base_quantity (merge_adjustments (merge_adjustments (empty_books\<lparr>bk_baseline := Some []\<rparr>)
     [sample_adjustment 1] True) ([sample_adjustment 1] @ [sample_adjustment 2]) True) sample_symbol = 10"
  using adjustments_adopted_once [of "[sample_adjustment 1]" "[sample_adjustment 2]"
      "empty_books\<lparr>bk_baseline := Some []\<rparr>" sample_symbol]
  by (simp add: sample_adjustment_def empty_books_def base_quantity_def unseen_def adjustment_of_def
      names_operator_def quantity_of_def strip_def ascii_space_def)

end
