(* ===== verification/Resilience.thy ===== *)
theory Resilience
  imports Prelude
begin

text \<open>
  \<open>transport/circuit.py\<close>, \<open>transport/ratelimit.py\<close> and \<open>transport/backoff.py\<close>: the circuit breaker, the
  token bucket and retries. Each reads the monotonic clock; a reading is the argument \<open>now\<close> of the
  operation that makes it. Floating-point seconds and tokens are exact rationals here.
\<close>

section \<open>The circuit breaker\<close>

datatype circuit_state = CLOSED | OPEN | HALF_OPEN

record circuit =
  cb_threshold :: nat
  cb_timeout :: rat
  cb_state :: circuit_state
  cb_failures :: nat
  cb_opened_at :: rat
  cb_probing :: bool

definition new_circuit :: "nat \<Rightarrow> rat \<Rightarrow> circuit result" where
  "new_circuit threshold timeout =
     (if threshold < 1 \<or> timeout < 0 then Inl ValueError
      else Inr \<lparr>cb_threshold = threshold, cb_timeout = timeout, cb_state = CLOSED, cb_failures = 0,
                cb_opened_at = 0, cb_probing = False\<rparr>)"

definition cb_elapsed :: "circuit \<Rightarrow> rat \<Rightarrow> rat" where
  "cb_elapsed c now = now - cb_opened_at c"

text \<open>The property \<open>state\<close> moves an open circuit to half-open once the timeout has passed.\<close>

definition read_state :: "circuit \<Rightarrow> rat \<Rightarrow> circuit" where
  "read_state c now =
     (if cb_state c = OPEN \<and> cb_timeout c \<le> cb_elapsed c now
      then c\<lparr>cb_state := HALF_OPEN, cb_probing := False\<rparr> else c)"

definition check_circuit :: "circuit \<Rightarrow> rat \<Rightarrow> circuit \<times> unit result" where
  "check_circuit c now =
     (let c' = read_state c now in
      if cb_state c' = CLOSED then (c', Inr ())
      else if cb_state c' = HALF_OPEN \<and> \<not> cb_probing c' then (c'\<lparr>cb_probing := True\<rparr>, Inr ())
      else (c', Inl (CircuitOpen (max 0 (cb_timeout c' - cb_elapsed c' now)))))"

definition record_success :: "circuit \<Rightarrow> circuit" where
  "record_success c = c\<lparr>cb_failures := 0, cb_state := CLOSED, cb_probing := False\<rparr>"

definition record_failure :: "circuit \<Rightarrow> rat \<Rightarrow> circuit" where
  "record_failure c now =
     (let c' = c\<lparr>cb_failures := cb_failures c + 1\<rparr> in
      if cb_state c' = HALF_OPEN \<or> cb_threshold c' \<le> cb_failures c'
      then c'\<lparr>cb_state := OPEN, cb_opened_at := now, cb_probing := False\<rparr> else c')"

definition release_probe :: "circuit \<Rightarrow> circuit" where
  "release_probe c = (if cb_state c = HALF_OPEN then c\<lparr>cb_probing := False\<rparr> else c)"

text \<open>
  A run of the breaker: each step is a call of one of its methods at a clock reading. The trace
  records which checks let a call through.
\<close>

datatype circuit_call = Check | Success | Failure | ReleaseProbe | ReadState

definition circuit_step :: "circuit \<Rightarrow> rat \<Rightarrow> circuit_call \<Rightarrow> circuit \<times> bool" where
  "circuit_step c now call =
     (case call of
        Check \<Rightarrow> (case check_circuit c now of (c', r) \<Rightarrow> (c', is_ok r))
      | Success \<Rightarrow> (record_success c, False)
      | Failure \<Rightarrow> (record_failure c now, False)
      | ReleaseProbe \<Rightarrow> (release_probe c, False)
      | ReadState \<Rightarrow> (read_state c now, False))"

fun circuit_run :: "circuit \<Rightarrow> (rat \<times> circuit_call) list \<Rightarrow> circuit \<times> bool list" where
  "circuit_run c [] = (c, [])"
| "circuit_run c ((now, call) # rest) =
     (case circuit_step c now call of
        (c', passed) \<Rightarrow> (case circuit_run c' rest of (c'', ps) \<Rightarrow> (c'', passed # ps)))"

definition circuit_inv :: "circuit \<Rightarrow> bool" where
  "circuit_inv c \<longleftrightarrow> 1 \<le> cb_threshold c \<and> 0 \<le> cb_timeout c \<and>
     (cb_probing c \<longrightarrow> cb_state c = HALF_OPEN) \<and>
     (cb_state c = CLOSED \<longrightarrow> cb_failures c < cb_threshold c)"

lemmas circuit_defs =
  read_state_def check_circuit_def record_success_def record_failure_def release_probe_def
  circuit_step_def Let_def

lemma circuit_step_inv: "circuit_inv c \<Longrightarrow> circuit_inv (fst (circuit_step c now call))"
  by (cases call) (auto simp: circuit_defs circuit_inv_def)

lemma circuit_run_inv: "circuit_inv c \<Longrightarrow> circuit_inv (fst (circuit_run c calls))"
proof (induction c calls rule: circuit_run.induct)
  case (2 c now call rest)
  then show ?case using circuit_step_inv [of c now call] by (auto split: prod.splits)
qed simp

lemma new_circuit_inv: "new_circuit n t = Inr c \<Longrightarrow> circuit_inv c"
  by (auto simp: new_circuit_def circuit_inv_def split: if_splits)

text \<open>Which calls change nothing but the clock reading: until an outcome is recorded.\<close>

definition no_outcome :: "(rat \<times> circuit_call) list \<Rightarrow> bool" where
  "no_outcome calls = list_all (\<lambda>(now, call). call \<in> {Check, ReadState}) calls"

lemma open_blocks:
  assumes "cb_state c = OPEN" and "no_outcome calls"
    and "list_all (\<lambda>(now, call). now < cb_opened_at c + cb_timeout c) calls"
  shows "circuit_run c calls = (c, replicate (length calls) False)"
  using assms
proof (induction calls)
  case (Cons x calls)
  obtain now call where x: "x = (now, call)" by fastforce
  have "call = Check \<or> call = ReadState" using Cons.prems by (auto simp: no_outcome_def x)
  moreover have "\<not> cb_timeout c \<le> cb_elapsed c now"
    using Cons.prems(3) by (simp add: x cb_elapsed_def)
  ultimately have "circuit_step c now call = (c, False)"
    using Cons.prems(1) by (auto simp: circuit_defs)
  then show ?case using Cons by (simp add: x no_outcome_def)
qed simp

lemma probing_blocks:
  assumes "cb_state c = HALF_OPEN" and "cb_probing c" and "no_outcome calls"
  shows "circuit_run c calls = (c, replicate (length calls) False)"
  using assms
proof (induction calls)
  case (Cons x calls)
  obtain now call where x: "x = (now, call)" by fastforce
  have "call = Check \<or> call = ReadState" using Cons.prems by (auto simp: no_outcome_def x)
  then have "circuit_step c now call = (c, False)"
    using Cons.prems(1,2) by (auto simp: circuit_defs)
  then show ?case using Cons by (simp add: x no_outcome_def)
qed simp

text \<open>Once the timeout has passed, one call gets through, and no other until its outcome is known.\<close>

lemma one_probe:
  assumes "cb_state c = OPEN" and "cb_opened_at c + cb_timeout c \<le> now" and "no_outcome calls"
  shows "snd (circuit_run c ((now, Check) # calls)) = True # replicate (length calls) False"
proof -
  have "circuit_step c now Check = (c\<lparr>cb_state := HALF_OPEN, cb_probing := True\<rparr>, True)"
    using assms(1,2) by (simp add: circuit_defs cb_elapsed_def)
  then show ?thesis
    using probing_blocks [of "c\<lparr>cb_state := HALF_OPEN, cb_probing := True\<rparr>" calls] assms(3) by simp
qed

text \<open>Consecutive failures open it, and not before there are \<open>failure_threshold\<close> of them.\<close>

fun fail_times :: "circuit \<Rightarrow> rat list \<Rightarrow> circuit" where
  "fail_times c [] = c"
| "fail_times c (now # rest) = fail_times (record_failure c now) rest"

lemma fail_times_state:
  assumes "cb_state c = CLOSED" and "cb_failures c + length nows \<le> cb_threshold c" and "nows \<noteq> []"
  shows "cb_state (fail_times c nows) =
    (if cb_failures c + length nows = cb_threshold c then OPEN else CLOSED)"
  using assms
proof (induction nows arbitrary: c)
  case (Cons now nows)
  show ?case
  proof (cases "nows = []")
    case True
    with Cons.prems show ?thesis by (auto simp: record_failure_def Let_def)
  next
    case False
    then have "1 \<le> length nows" by (cases nows) simp_all
    then have "\<not> cb_threshold c \<le> cb_failures c + 1" using Cons.prems(2) by (simp only: list.size)
    then have "record_failure c now = c\<lparr>cb_failures := cb_failures c + 1\<rparr>"
      using Cons.prems(1) by (simp add: record_failure_def Let_def)
    then show ?thesis using Cons.IH [of "record_failure c now"] Cons.prems False by simp
  qed
qed simp

section \<open>The token bucket\<close>

record token_bucket =
  tb_rate :: rat
  tb_capacity :: nat
  tb_tokens :: rat
  tb_last :: rat

definition spec_valid :: "rat \<Rightarrow> nat \<Rightarrow> bool" where
  "spec_valid rate capacity \<longleftrightarrow> \<not> (rate \<le> 0 \<or> capacity < 1)"

definition per_minute :: "nat \<Rightarrow> nat option \<Rightarrow> rat \<times> nat" where
  "per_minute n burst = (of_nat n / 60, case burst of None \<Rightarrow> n | Some b \<Rightarrow> if b = 0 then n else b)"

definition per_second :: "nat \<Rightarrow> nat option \<Rightarrow> rat \<times> nat" where
  "per_second n burst = (of_nat n, case burst of None \<Rightarrow> n | Some b \<Rightarrow> if b = 0 then n else b)"

definition new_bucket :: "rat \<Rightarrow> nat \<Rightarrow> rat \<Rightarrow> token_bucket" where
  "new_bucket rate capacity now =
     \<lparr>tb_rate = rate, tb_capacity = capacity, tb_tokens = of_nat capacity, tb_last = now\<rparr>"

definition refill :: "token_bucket \<Rightarrow> rat \<Rightarrow> token_bucket" where
  "refill b now =
     (let elapsed = max 0 (now - tb_last b)
      in b\<lparr>tb_last := now, tb_tokens := min (of_nat (tb_capacity b)) (tb_tokens b + elapsed * tb_rate b)\<rparr>)"

text \<open>One turn of \<open>acquire\<close>'s loop: tokens taken, or how long to sleep before the next turn.\<close>

definition take_or_wait :: "token_bucket \<Rightarrow> nat \<Rightarrow> rat \<Rightarrow> token_bucket \<times> rat option" where
  "take_or_wait b n now =
     (let b' = refill b now in
      if of_nat n \<le> tb_tokens b' then (b'\<lparr>tb_tokens := tb_tokens b' - of_nat n\<rparr>, None)
      else (b', Some ((of_nat n - tb_tokens b') / tb_rate b')))"

text \<open>
  \<open>acquire\<close>. The environment is \<open>wake\<close>: the clock reading after a sleep of \<open>d\<close> that began at \<open>now\<close>. The
  loop need not end if sleeps return early, so its value is an option.
\<close>

partial_function (option) acquire_loop ::
    "(rat \<Rightarrow> rat \<Rightarrow> rat) \<Rightarrow> token_bucket \<Rightarrow> nat \<Rightarrow> rat \<Rightarrow> rat \<Rightarrow> (token_bucket \<times> rat \<times> rat) option" where
  "acquire_loop wake b n waited now =
     (case take_or_wait b n now of
        (b', None) \<Rightarrow> Some (b', waited, now)
      | (b', Some d) \<Rightarrow> acquire_loop wake b' n (waited + d) (wake now d))"

definition acquire ::
    "(rat \<Rightarrow> rat \<Rightarrow> rat) \<Rightarrow> token_bucket \<Rightarrow> nat \<Rightarrow> rat \<Rightarrow> (token_bucket \<times> rat \<times> rat) option result" where
  "acquire wake b n now =
     (if tb_capacity b < n then Inl ValueError else Inr (acquire_loop wake b n 0 now))"

definition bucket_inv :: "token_bucket \<Rightarrow> bool" where
  "bucket_inv b \<longleftrightarrow> 0 < tb_rate b \<and> 0 \<le> tb_tokens b \<and> tb_tokens b \<le> of_nat (tb_capacity b)"

lemma refill_inv: "bucket_inv b \<Longrightarrow> bucket_inv (refill b now)"
  by (simp add: bucket_inv_def refill_def Let_def)

lemma refill_bound:
  "bucket_inv b \<Longrightarrow> tb_last b \<le> now \<Longrightarrow>
   tb_tokens (refill b now) \<le> tb_tokens b + (now - tb_last b) * tb_rate b"
  by (simp add: refill_def Let_def)

lemma refill_fields [simp]:
  "tb_rate (refill b now) = tb_rate b" "tb_capacity (refill b now) = tb_capacity b"
  "tb_last (refill b now) = now"
  by (simp_all add: refill_def Let_def)

lemma take_inv: "bucket_inv b \<Longrightarrow> take_or_wait b n now = (b', r) \<Longrightarrow> bucket_inv b'"
  using refill_inv [of b now]
  by (auto simp: take_or_wait_def Let_def bucket_inv_def split: if_splits)

text \<open>
  The limit itself: whatever asks, and however often, the tokens granted between two clock readings
  are at most the capacity plus the rate times the time between them.
\<close>

fun granted :: "token_bucket \<Rightarrow> (rat \<times> nat) list \<Rightarrow> nat" where
  "granted b [] = 0"
| "granted b ((now, n) # rest) =
     (case take_or_wait b n now of
        (b', None) \<Rightarrow> n + granted b' rest
      | (b', Some _) \<Rightarrow> granted b' rest)"

fun ascending_from :: "rat \<Rightarrow> (rat \<times> nat) list \<Rightarrow> bool" where
  "ascending_from t [] = True"
| "ascending_from t ((now, n) # rest) = (t \<le> now \<and> ascending_from now rest)"

lemma granted_bound:
  assumes "bucket_inv b" and "ascending_from (tb_last b) asks" and "asks \<noteq> []"
  shows "of_nat (granted b asks) \<le> tb_tokens b + (fst (last asks) - tb_last b) * tb_rate b"
  using assms
proof (induction b asks rule: granted.induct)
  case (1 b)
  then show ?case by simp
next
  case (2 b now n rest)
  define t where "t = fst (last ((now, n) # rest))"
  have mono: "tb_last b \<le> now" using "2.prems" by simp
  obtain b' r where r: "take_or_wait b n now = (b', r)" by fastforce
  have inv: "bucket_inv b'" using take_inv [OF "2.prems"(1) r] .
  have f: "tb_rate b' = tb_rate b" "tb_last b' = now" "0 \<le> tb_tokens b'" "0 < tb_rate b"
    "tb_tokens b' + (if r = None then of_nat n else 0) = tb_tokens (refill b now)"
    using r inv "2.prems"(1) by (auto simp: take_or_wait_def Let_def bucket_inv_def split: if_splits)
  have rb: "tb_tokens (refill b now) \<le> tb_tokens b + (now - tb_last b) * tb_rate b"
    using refill_bound "2.prems"(1) mono by blast
  have g: "granted b ((now, n) # rest) = (if r = None then n else 0) + granted b' rest"
    using r by (auto split: option.split)
  have rest: "of_nat (granted b' rest) \<le> tb_tokens b' + (t - now) * tb_rate b"
  proof (cases "rest = []")
    case True
    then show ?thesis using f by (simp add: t_def)
  next
    case False
    then have "of_nat (granted b' rest) \<le> tb_tokens b' + (fst (last rest) - tb_last b') * tb_rate b'"
      using "2.IH" "2.prems" r inv f(2) by (cases r) auto
    then show ?thesis using f False by (simp add: t_def)
  qed
  have "of_nat (granted b ((now, n) # rest)) \<le>
      (if r = None then of_nat n else 0) + tb_tokens b' + (t - now) * tb_rate b"
    unfolding g using rest by auto
  also have "\<dots> \<le> tb_tokens b + (now - tb_last b) * tb_rate b + (t - now) * tb_rate b"
    using f(5) rb by linarith
  also have "\<dots> = tb_tokens b + (t - tb_last b) * tb_rate b" by (simp add: algebra_simps)
  finally show ?case unfolding t_def .
qed

text \<open>A sleep that lasts as long as it was asked to is enough: the loop ends after at most one.\<close>

lemma acquire_returns:
  assumes inv: "bucket_inv b" and n: "n \<le> tb_capacity b" and w: "\<And>t d. t + d \<le> wake t d"
  shows "\<exists>b' waited now'. acquire_loop wake b n 0 now = Some (b', waited, now') \<and> bucket_inv b' \<and>
    0 \<le> waited \<and> waited * tb_rate b \<le> of_nat n"
proof (cases "take_or_wait b n now")
  case (Pair b1 r)
  show ?thesis
  proof (cases r)
    case None
    then show ?thesis
      using Pair take_inv [OF inv Pair] by (subst acquire_loop.simps) simp
  next
    case (Some d)
    have b1: "b1 = refill b now" "d = (of_nat n - tb_tokens b1) / tb_rate b1" "tb_tokens b1 < of_nat n"
      using Pair Some by (auto simp: take_or_wait_def Let_def split: if_splits)
    have rate: "0 < tb_rate b1" "0 \<le> tb_tokens b1" "tb_rate b1 = tb_rate b"
      using take_inv [OF inv Pair] b1(1) by (auto simp: bucket_inv_def)
    have d: "0 < d" "d * tb_rate b1 = of_nat n - tb_tokens b1" using b1(2,3) rate by simp_all
    obtain b2 r2 where p2: "take_or_wait b1 n (wake now d) = (b2, r2)" by fastforce
    have last: "tb_last b1 = now" and cap: "tb_capacity b1 = tb_capacity b" by (simp_all add: b1(1))
    have "now + d \<le> wake now d" by (rule w)
    then have "d * tb_rate b1 \<le> (wake now d - tb_last b1) * tb_rate b1"
      using rate last by (intro mult_right_mono) simp_all
    then have "of_nat n \<le> tb_tokens (refill b1 (wake now d))"
      using d n \<open>now + d \<le> wake now d\<close> last cap by (simp add: refill_def Let_def)
    then have "r2 = None" using p2 by (auto simp: take_or_wait_def Let_def split: if_splits)
    moreover have "bucket_inv b2" using take_inv [OF take_inv [OF inv Pair] p2] .
    moreover have "acquire_loop wake b n 0 now = acquire_loop wake b1 n d (wake now d)"
      using Pair Some by (subst acquire_loop.simps) simp
    moreover have "acquire_loop wake b1 n d (wake now d) = Some (b2, d, wake now d)"
      using p2 \<open>r2 = None\<close> by (subst acquire_loop.simps) simp
    moreover have "d * tb_rate b \<le> of_nat n" using d rate by simp
    ultimately show ?thesis using d(1) by auto
  qed
qed

section \<open>Retries\<close>

record backoff =
  bo_base :: rat
  bo_factor :: rat
  bo_maximum :: rat
  bo_jitter :: bool

definition backoff_valid :: "backoff \<Rightarrow> bool" where
  "backoff_valid b \<longleftrightarrow> \<not> (bo_base b < 0 \<or> bo_factor b < 1 \<or> bo_maximum b < 0)"

text \<open>\<open>delay\<close>; \<open>u\<close> in \<open>[0, 1]\<close> is the draw of \<open>uniform(0, raw)\<close> as a share of \<open>raw\<close>.\<close>

definition backoff_delay :: "backoff \<Rightarrow> nat \<Rightarrow> rat \<Rightarrow> rat" where
  "backoff_delay b attempt u =
     (let raw = min (bo_maximum b) (bo_base b * bo_factor b ^ attempt)
      in if \<not> bo_jitter b then raw else u * raw)"

datatype call_error = TransportFailure bool | RateLimited "rat option" | OtherIsmetError | ForeignError

definition default_should_retry :: "call_error \<Rightarrow> bool" where
  "default_should_retry e =
     (case e of TransportFailure retryable \<Rightarrow> retryable | RateLimited _ \<Rightarrow> True | _ \<Rightarrow> False)"

record retry_policy =
  rp_max_attempts :: nat
  rp_backoff :: backoff
  rp_should_retry :: "call_error \<Rightarrow> bool"
  rp_max_retry_after :: rat

definition delay_for :: "rat \<Rightarrow> retry_policy \<Rightarrow> nat \<Rightarrow> call_error \<Rightarrow> rat \<Rightarrow> rat" where
  "delay_for tick p attempt e u =
     (case e of RateLimited (Some after) \<Rightarrow> max after 0 + tick
      | _ \<Rightarrow> backoff_delay (rp_backoff p) attempt u)"

definition stated_wait_too_long :: "retry_policy \<Rightarrow> call_error \<Rightarrow> bool" where
  "stated_wait_too_long p e =
     (case e of RateLimited (Some after) \<Rightarrow> rp_max_retry_after p < after | _ \<Rightarrow> False)"

text \<open>
  \<open>retry\<close>: \<open>outcome k\<close> is what the \<open>k\<close>th call of \<open>fn\<close> does and \<open>u k\<close> the jitter drawn after it. The
  result comes with the number of calls made and the delays slept. Only ismet's own errors are
  caught; any other propagates at once.
\<close>

function retry_from ::
    "rat \<Rightarrow> retry_policy \<Rightarrow> (nat \<Rightarrow> call_error + 'a) \<Rightarrow> (nat \<Rightarrow> rat) \<Rightarrow> nat \<Rightarrow> rat list \<Rightarrow>
     (call_error + 'a) \<times> nat \<times> rat list" where
  "retry_from tick p outcome u attempt slept =
     (case outcome attempt of
        Inr x \<Rightarrow> (Inr x, attempt + 1, slept)
      | Inl e \<Rightarrow>
          (if e = ForeignError \<or> rp_max_attempts p \<le> attempt + 1 \<or> \<not> rp_should_retry p e \<or>
              stated_wait_too_long p e
           then (Inl e, attempt + 1, slept)
           else retry_from tick p outcome u (attempt + 1) (slept @ [delay_for tick p attempt e (u attempt)])))"
  by auto

termination
  by (relation "measure (\<lambda>(tick, p, outcome, u, attempt, slept). rp_max_attempts p - attempt)") auto

declare retry_from.simps [simp del]

definition retry ::
    "rat \<Rightarrow> retry_policy \<Rightarrow> (nat \<Rightarrow> call_error + 'a) \<Rightarrow> (nat \<Rightarrow> rat) \<Rightarrow>
     (call_error + 'a) \<times> nat \<times> rat list" where
  "retry tick p outcome u = retry_from tick p outcome u 0 []"

lemma backoff_delay_bounds:
  assumes "backoff_valid b" and "0 \<le> u" "u \<le> 1"
  shows "0 \<le> backoff_delay b k u \<and> backoff_delay b k u \<le> bo_maximum b"
proof -
  define raw where "raw = min (bo_maximum b) (bo_base b * bo_factor b ^ k)"
  have raw: "0 \<le> raw" "raw \<le> bo_maximum b" using assms(1) by (auto simp: raw_def backoff_valid_def)
  then have "0 \<le> u * raw" "u * raw \<le> raw" using assms(2,3) by (simp_all add: mult_left_le_one_le)
  moreover have "backoff_delay b k u = (if \<not> bo_jitter b then raw else u * raw)"
    by (simp add: backoff_delay_def raw_def Let_def)
  ultimately show ?thesis using raw by simp
qed

text \<open>Whatever happens, every earlier call failed with an error worth retrying, and the last decided.\<close>

lemma retry_from_trace:
  assumes "retry_from tick p outcome u k slept = (r, calls, slept')" and "k < rp_max_attempts p"
  shows "k < calls \<and> calls \<le> rp_max_attempts p \<and> r = outcome (calls - 1) \<and>
    (\<forall>i. k \<le> i \<and> i < calls - 1 \<longrightarrow> (\<exists>e. outcome i = Inl e \<and> e \<noteq> ForeignError \<and> rp_should_retry p e \<and>
        \<not> stated_wait_too_long p e)) \<and>
    slept' = slept @ map (\<lambda>i. delay_for tick p i (projl (outcome i)) (u i)) [k..<calls - 1]"
  using assms
proof (induction tick p outcome u k slept rule: retry_from.induct)
  case (1 tick p outcome u k slept)
  show ?case
  proof (cases "outcome k")
    case (Inr x)
    then show ?thesis using "1.prems" by (subst (asm) retry_from.simps) auto
  next
    case (Inl e)
    show ?thesis
    proof (cases "e = ForeignError \<or> rp_max_attempts p \<le> k + 1 \<or> \<not> rp_should_retry p e \<or>
        stated_wait_too_long p e")
      case True
      then show ?thesis using "1.prems" Inl by (subst (asm) retry_from.simps) auto
    next
      case False
      then have n: "retry_from tick p outcome u (k + 1)
          (slept @ [delay_for tick p k e (u k)]) = (r, calls, slept')"
        using "1.prems"(1) Inl by (subst (asm) retry_from.simps) simp
      have "k + 1 < rp_max_attempts p" using False by simp
      note IH = "1.IH" [OF Inl False n this]
      have "k < calls - 1" using IH by linarith
      then have "[k..<calls - 1] = k # [k + 1..<calls - 1]" by (simp add: upt_conv_Cons)
      moreover have "\<forall>i. k \<le> i \<and> i < calls - 1 \<longrightarrow> (\<exists>e. outcome i = Inl e \<and> e \<noteq> ForeignError \<and>
          rp_should_retry p e \<and> \<not> stated_wait_too_long p e)"
        using IH Inl False by (metis Suc_eq_plus1 Suc_leI le_neq_implies_less)
      ultimately show ?thesis using IH Inl by auto
    qed
  qed
qed

section \<open>Properties\<close>



text \<open> The rate limit: whatever wants for tokens, and however often, a bucket grants in any stretch of
  time at most the tokens it holds plus the rate times the length of the stretch.\<close>

theorem tokens_granted_bounded:
  assumes "bucket_inv b" and "ascending_from (tb_last b) wants" and "wants \<noteq> []"
  shows "of_nat (granted b wants) \<le> tb_tokens b + (fst (last wants) - tb_last b) * tb_rate b"
  using assms by (rule granted_bound)

lemma tokens_granted_bounded_witness:
  "of_nat (granted (new_bucket 2 5 0) [(0, 5), (1, 1), (2, 3)]) \<le> (9 :: rat)"
  using tokens_granted_bounded [of "new_bucket 2 5 0" "[(0, 5), (1, 1), (2, 3)]"]
  by (simp add: new_bucket_def bucket_inv_def)



text \<open> \<open>retry\<close> makes at least one and at most \<open>max_attempts\<close> calls, returns what the last one did,
  retries only ismet errors its policy calls transient, never past a stated wait that is too long,
  and sleeps exactly the policy's delay between two calls.\<close>

theorem retry_is_bounded:
  assumes "retry quantum p outcome u = (r, calls, slept)" and "0 < rp_max_attempts p"
  shows "0 < calls \<and> calls \<le> rp_max_attempts p \<and> r = outcome (calls - 1) \<and>
    (\<forall>i < calls - 1. \<exists>e. outcome i = Inl e \<and> e \<noteq> ForeignError \<and> rp_should_retry p e \<and>
        \<not> stated_wait_too_long p e) \<and>
    slept = map (\<lambda>i. delay_for quantum p i (projl (outcome i)) (u i)) [0..<calls - 1]"
  using retry_from_trace [of quantum p outcome u 0 "[]"] assms by (auto simp: retry_def)

lemma retry_is_bounded_witness:
  "\<exists>r calls slept. retry 1 \<lparr>rp_max_attempts = 3, rp_backoff = \<lparr>bo_base = 1, bo_factor = 2, bo_maximum = 60,
       bo_jitter = False\<rparr>, rp_should_retry = default_should_retry, rp_max_retry_after = 60\<rparr>
     (\<lambda>i. if i = 0 then Inl (TransportFailure True) else Inr ()) (\<lambda>_. 0) = (r, calls, slept) \<and> 0 < calls \<and> calls \<le> 3"
proof -
  let ?p = "\<lparr>rp_max_attempts = 3, rp_backoff = \<lparr>bo_base = 1, bo_factor = 2, bo_maximum = 60,
       bo_jitter = False\<rparr>, rp_should_retry = default_should_retry, rp_max_retry_after = 60\<rparr>"
  obtain r calls slept where "retry 1 ?p (\<lambda>i. if i = 0 then Inl (TransportFailure True) else Inr ()) (\<lambda>_. 0)
      = (r, calls, slept)" using prod_cases3 by blast
  from this retry_is_bounded [OF this] show ?thesis by auto
qed

end
