(* ===== verification/KillSwitch.thy ===== *)
theory KillSwitch
  imports Journal "HOL-Library.Sublist"
begin

text \<open>
  The kill switch of the order manager (\<open>execution/manager.py\<close>: \<open>engage_kill\<close>, \<open>_settle_kill\<close>,
  \<open>_durable_kill\<close>, \<open>_record_kill\<close>, \<open>release_kill\<close>, \<open>_merge_kill\<close>, \<open>_newer_kill\<close>). Each piece of code
  between two awaits is one definition; \<open>switch_step\<close> interleaves the pieces of any number of calls in
  one process with the kill rows other processes append to the shared journal.

  Python tells kill states and payloads apart by identity, so an object is a pair of a fresh number
  and its value. \<open>loads\<close> and \<open>dumps\<close> are \<open>json\<close>'s.
\<close>

section \<open>Memory\<close>

type_synonym kill_object = "nat \<times> kill_state"

record kill_payload =
  kp_reason :: json
  kp_operator :: json
  kp_cancel_open :: bool

record kill_memory =
  km_kill :: kill_object
  km_unrecorded :: "(nat \<times> kill_payload) option"
  km_engaging :: nat
  km_fresh :: nat
  km_journal_failed :: bool

definition initial_kill :: "kill_state \<Rightarrow> kill_memory" where
  "initial_kill st =
     \<lparr>km_kill = (0, st), km_unrecorded = None, km_engaging = 0, km_fresh = 1, km_journal_failed = False\<rparr>"

definition kill_engaged :: "kill_memory \<Rightarrow> bool" where
  "kill_engaged m = ks_engaged (snd (km_kill m))"

definition set_kill :: "kill_memory \<Rightarrow> kill_state \<Rightarrow> kill_memory" where
  "set_kill m st = m\<lparr>km_kill := (km_fresh m, st), km_fresh := km_fresh m + 1\<rparr>"

definition engaged_state :: "json \<Rightarrow> json \<Rightarrow> int \<Rightarrow> bool \<Rightarrow> kill_state" where
  "engaged_state reason operator seq cancel_open =
     \<lparr>ks_engaged = True, ks_reason = reason, ks_operator = operator, ks_seq = seq,
      ks_cancel_open = cancel_open\<rparr>"

section \<open>The pieces of each operation\<close>

text \<open>\<open>engage_kill\<close> up to its first await: memory changes at once.\<close>

definition engage_begin :: "kill_memory \<Rightarrow> kill_payload \<Rightarrow> kill_memory \<times> kill_object" where
  "engage_begin m p =
     (let prior = km_kill m;
          m1 = (if \<not> ks_engaged (snd prior)
                then set_kill m (engaged_state (kp_reason p) (kp_operator p) (ks_seq (snd prior)) (kp_cancel_open p))
                else m)
      in (m1\<lparr>km_engaging := km_engaging m1 + 1\<rparr>, prior))"

text \<open>\<open>_newer_kill\<close>: whether it has to verify the chain, and what it returns.\<close>

definition needs_verify :: "kill_state \<Rightarrow> kill_state \<Rightarrow> bool" where
  "needs_verify memory durable \<longleftrightarrow>
     ks_seq memory < ks_seq durable \<and> \<not> ks_engaged durable \<and> ks_engaged memory"

definition durable_wins :: "kill_state \<Rightarrow> kill_state \<Rightarrow> bool \<Rightarrow> bool" where
  "durable_wins mem dur intact =
     (if ks_seq dur < ks_seq mem then False
      else if ks_seq dur = ks_seq mem then ks_engaged dur \<and> ks_cancel_open dur \<and> \<not> ks_cancel_open mem
      else ks_engaged dur \<or> \<not> ks_engaged mem \<or> intact)"

definition newer_kill :: "kill_object \<Rightarrow> kill_object \<Rightarrow> bool \<Rightarrow> kill_object" where
  "newer_kill memory durable intact =
     (if durable_wins (snd memory) (snd durable) intact then durable else memory)"

text \<open>
  \<open>_settle_kill\<close> once it knows \<open>current\<close>; \<open>pending\<close> says a kill was unrecorded when it began. The
  second component is whether it goes on to \<open>_record_kill\<close>.
\<close>

definition settle_current :: "kill_memory \<Rightarrow> bool \<Rightarrow> kill_object \<Rightarrow> kill_object" where
  "settle_current m pending current =
     (if \<not> pending \<and> (km_unrecorded m \<noteq> None \<or> ks_seq (snd current) < ks_seq (snd (km_kill m)))
      then km_kill m else current)"

definition settle_decide ::
    "kill_memory \<Rightarrow> bool \<Rightarrow> kill_object \<Rightarrow> kill_payload \<Rightarrow> kill_memory \<times> bool" where
  "settle_decide m pending found p =
     (let current = settle_current m pending found; cur = snd current in
      if ks_engaged cur \<and> (ks_cancel_open cur \<or> \<not> kp_cancel_open p)
      then (if pending then m else m\<lparr>km_kill := current\<rparr>, False)
      else
        (let reason = (if ks_engaged cur then ks_reason cur else kp_reason p);
             operator = (if ks_engaged cur then ks_operator cur else kp_operator p);
             m1 = set_kill m (engaged_state reason operator (ks_seq cur) (kp_cancel_open p))
         in (m1\<lparr>km_unrecorded := Some (km_fresh m1,
                   \<lparr>kp_reason = reason, kp_operator = operator, kp_cancel_open = kp_cancel_open p\<rparr>),
                km_fresh := km_fresh m1 + 1\<rparr>, True)))"

text \<open>\<open>_record_kill\<close> after its append, which gave the record's sequence number or failed.\<close>

definition record_finish :: "kill_memory \<Rightarrow> nat \<times> kill_payload \<Rightarrow> int option \<Rightarrow> kill_memory" where
  "record_finish m payload written =
     (case written of
        None \<Rightarrow> m\<lparr>km_journal_failed := True\<rparr>
      | Some seq \<Rightarrow>
          if map_option fst (km_unrecorded m) \<noteq> Some (fst payload) then m
          else set_kill (m\<lparr>km_unrecorded := None\<rparr>)
                 (engaged_state (kp_reason (snd payload)) (kp_operator (snd payload)) seq
                    (kp_cancel_open (snd payload))))"

text \<open>\<open>release_kill\<close>: its guard, and what follows its append.\<close>

definition release_allowed :: "string \<Rightarrow> string \<Rightarrow> bool" where
  "release_allowed reason operator = (strip operator \<noteq> [] \<and> strip reason \<noteq> [])"

definition release_finish :: "kill_memory \<Rightarrow> string \<Rightarrow> string \<Rightarrow> int \<Rightarrow> kill_memory" where
  "release_finish m reason operator seq =
     set_kill (m\<lparr>km_unrecorded := None\<rparr>)
       \<lparr>ks_engaged = False, ks_reason = JStr reason, ks_operator = JStr operator, ks_seq = seq,
        ks_cancel_open = False\<rparr>"

text \<open>
  \<open>_merge_kill\<close>: the guards before the verification (\<open>None\<close> when it returns at once, else the object
  memory held), and the adoption after it.
\<close>

definition merge_begin :: "kill_memory \<Rightarrow> kill_object \<Rightarrow> kill_object option" where
  "merge_begin m durable =
     (if km_unrecorded m \<noteq> None then None
      else if 0 < km_engaging m \<and> \<not> ks_engaged (snd durable) then None
      else Some (km_kill m))"

definition merge_finish :: "kill_memory \<Rightarrow> kill_object \<Rightarrow> kill_object \<Rightarrow> bool \<Rightarrow> kill_memory" where
  "merge_finish m memory durable intact =
     (let newer = newer_kill memory durable intact in
      if 0 < km_engaging m \<and> \<not> ks_engaged (snd newer) then m
      else if durable_wins (snd memory) (snd durable) intact \<and> fst (km_kill m) = fst memory \<and>
              km_unrecorded m = None
      then m\<lparr>km_kill := newer\<rparr> else m)"

text \<open>Without anything in between, as in one uninterrupted call.\<close>

definition merge_kill :: "kill_memory \<Rightarrow> kill_object \<Rightarrow> bool \<Rightarrow> kill_memory" where
  "merge_kill m durable intact =
     (case merge_begin m durable of None \<Rightarrow> m | Some memory \<Rightarrow> merge_finish m memory durable intact)"

section \<open>Interleaving\<close>

text \<open>
  Where a call stands between two pieces. A read or a merge keeps how many kill rows the journal had
  when it was read, which the code does not see.
\<close>

datatype kill_task =
    SettleStart kill_object kill_payload
  | SettleRead kill_object kill_payload
  | SettleVerify kill_object kill_payload kill_object
  | SettleDecide bool kill_object kill_payload
  | RecordWait bool
  | RecordAppend bool "nat \<times> kill_payload"
  | RecordDone bool "nat \<times> kill_payload" "int option"
  | ReleaseAppend string string
  | ReleaseDone string string int
  | MergeRead
  | MergeGot nat kill_object
  | MergeVerify nat kill_object kill_object

text \<open>
  One step of a merge: the read, then \<open>_merge_kill\<close> up to the verification or to its end, then what
  follows the verification, whose answer is \<open>intact\<close>. \<open>None\<close> says the merge is over.
\<close>

definition fresh_read ::
    "(string \<Rightarrow> json option) \<Rightarrow> kill_memory \<Rightarrow> (int \<times> string \<times> string) list \<Rightarrow> kill_memory \<times> kill_object" where
  "fresh_read loads m rows = (m\<lparr>km_fresh := km_fresh m + 1\<rparr>, (km_fresh m, kill_state_from loads rows))"

fun is_merge :: "kill_task \<Rightarrow> bool" where
  "is_merge MergeRead = True"
| "is_merge (MergeGot _ _) = True"
| "is_merge (MergeVerify _ _ _) = True"
| "is_merge _ = False"

fun merge_rows :: "kill_task \<Rightarrow> nat" where
  "merge_rows (MergeGot n _) = n"
| "merge_rows (MergeVerify n _ _) = n"
| "merge_rows _ = 0"

fun merge_advance ::
    "(string \<Rightarrow> json option) \<Rightarrow> kill_memory \<Rightarrow> (int \<times> string \<times> string) list \<Rightarrow> bool \<Rightarrow> kill_task \<Rightarrow>
     kill_memory \<times> kill_task option" where
  "merge_advance loads m rows intact (MergeGot n d) =
     (case merge_begin m d of
        None \<Rightarrow> (m, None)
      | Some memory \<Rightarrow>
          if needs_verify (snd memory) (snd d) then (m, Some (MergeVerify n memory d))
          else (merge_finish m memory d True, None))"
| "merge_advance loads m rows intact (MergeVerify n memory d) = (merge_finish m memory d intact, None)"
| "merge_advance loads m rows intact t =
     (case fresh_read loads m rows of (m', d) \<Rightarrow> (m', Some (MergeGot (length rows) d)))"

record kill_sys =
  ky_mem :: kill_memory
  ky_rows :: "(int \<times> string \<times> string) list"
  ky_tasks :: "kill_task list"

fun holds_lock :: "kill_task \<Rightarrow> bool" where
  "holds_lock (RecordAppend _ _) = True"
| "holds_lock (RecordDone _ _ _) = True"
| "holds_lock _ = False"

definition next_seq :: "(int \<times> string \<times> string) list \<Rightarrow> int \<Rightarrow> bool" where
  "next_seq rows seq \<longleftrightarrow> 0 < seq \<and> (\<forall>r \<in> set rows. fst r < seq)"

definition payload_detail :: "kill_payload \<Rightarrow> (string \<times> json) list" where
  "payload_detail p =
     [(''reason'', kp_reason p), (''operator'', kp_operator p), (''cancel_open'', JBool (kp_cancel_open p))]"

definition release_detail :: "string \<Rightarrow> string \<Rightarrow> (string \<times> json) list" where
  "release_detail reason operator = [(''reason'', JStr reason), (''operator'', JStr operator)]"

text \<open>The end of \<open>engage_kill\<close>'s \<open>finally\<close>.\<close>

definition engage_end :: "bool \<Rightarrow> kill_memory \<Rightarrow> kill_memory" where
  "engage_end own m = (if own then m\<lparr>km_engaging := km_engaging m - 1\<rparr> else m)"

inductive switch_step ::
    "(string \<Rightarrow> json option) \<Rightarrow> ((string \<times> json) list \<Rightarrow> string) \<Rightarrow> kill_sys \<Rightarrow> kill_sys \<Rightarrow> bool"
  for loads dumps where
  engage:
    "engage_begin m p = (m', prior) \<Longrightarrow>
     switch_step loads dumps \<lparr>ky_mem = m, ky_rows = rows, ky_tasks = ts\<rparr>
       \<lparr>ky_mem = m', ky_rows = rows, ky_tasks = SettleStart prior p # ts\<rparr>"
| settle_start:
    "t = (if km_unrecorded m \<noteq> None then SettleDecide True prior p else SettleRead prior p) \<Longrightarrow>
     switch_step loads dumps \<lparr>ky_mem = m, ky_rows = rows, ky_tasks = xs @ SettleStart prior p # ys\<rparr>
       \<lparr>ky_mem = m, ky_rows = rows, ky_tasks = xs @ t # ys\<rparr>"
| settle_read:
    "fresh_read loads m rows = (m', d) \<Longrightarrow>
     t = (if needs_verify (snd prior) (snd d) then SettleVerify prior p d
          else SettleDecide False (newer_kill prior d True) p) \<Longrightarrow>
     switch_step loads dumps \<lparr>ky_mem = m, ky_rows = rows, ky_tasks = xs @ SettleRead prior p # ys\<rparr>
       \<lparr>ky_mem = m', ky_rows = rows, ky_tasks = xs @ t # ys\<rparr>"
| settle_unreadable:
    "switch_step loads dumps \<lparr>ky_mem = m, ky_rows = rows, ky_tasks = xs @ SettleRead prior p # ys\<rparr>
       \<lparr>ky_mem = m, ky_rows = rows, ky_tasks = xs @ SettleDecide False prior p # ys\<rparr>"
| settle_verify:
    "switch_step loads dumps \<lparr>ky_mem = m, ky_rows = rows, ky_tasks = xs @ SettleVerify prior p d # ys\<rparr>
       \<lparr>ky_mem = m, ky_rows = rows, ky_tasks = xs @ SettleDecide False (newer_kill prior d intact) p # ys\<rparr>"
| settle_decide:
    "settle_decide m pending found p = (m', recording) \<Longrightarrow>
     switch_step loads dumps \<lparr>ky_mem = m, ky_rows = rows, ky_tasks = xs @ SettleDecide pending found p # ys\<rparr>
       \<lparr>ky_mem = (if recording then m' else engage_end True m'), ky_rows = rows,
        ky_tasks = (if recording then xs @ RecordWait True # ys else xs @ ys)\<rparr>"
| record_again:
    "switch_step loads dumps \<lparr>ky_mem = m, ky_rows = rows, ky_tasks = ts\<rparr>
       \<lparr>ky_mem = m, ky_rows = rows, ky_tasks = RecordWait False # ts\<rparr>"
| record_nothing:
    "km_unrecorded m = None \<Longrightarrow> list_all (\<lambda>t. \<not> holds_lock t) (xs @ ys) \<Longrightarrow>
     switch_step loads dumps \<lparr>ky_mem = m, ky_rows = rows, ky_tasks = xs @ RecordWait own # ys\<rparr>
       \<lparr>ky_mem = engage_end own m, ky_rows = rows, ky_tasks = xs @ ys\<rparr>"
| record_begin:
    "km_unrecorded m = Some payload \<Longrightarrow> list_all (\<lambda>t. \<not> holds_lock t) (xs @ ys) \<Longrightarrow>
     switch_step loads dumps \<lparr>ky_mem = m, ky_rows = rows, ky_tasks = xs @ RecordWait own # ys\<rparr>
       \<lparr>ky_mem = m, ky_rows = rows, ky_tasks = xs @ RecordAppend own payload # ys\<rparr>"
| record_append:
    "next_seq rows seq \<Longrightarrow>
     switch_step loads dumps \<lparr>ky_mem = m, ky_rows = rows, ky_tasks = xs @ RecordAppend own payload # ys\<rparr>
       \<lparr>ky_mem = m,
        ky_rows = rows @ [(seq, kind_value KILL_ENGAGED, dumps (payload_detail (snd payload)))],
        ky_tasks = xs @ RecordDone own payload (Some seq) # ys\<rparr>"
| record_refused:
    "switch_step loads dumps \<lparr>ky_mem = m, ky_rows = rows, ky_tasks = xs @ RecordAppend own payload # ys\<rparr>
       \<lparr>ky_mem = m, ky_rows = rows, ky_tasks = xs @ RecordDone own payload None # ys\<rparr>"
| record_done:
    "switch_step loads dumps \<lparr>ky_mem = m, ky_rows = rows, ky_tasks = xs @ RecordDone own payload w # ys\<rparr>
       \<lparr>ky_mem = engage_end own (record_finish m payload w), ky_rows = rows, ky_tasks = xs @ ys\<rparr>"
| release_call:
    "release_allowed reason operator \<Longrightarrow>
     switch_step loads dumps \<lparr>ky_mem = m, ky_rows = rows, ky_tasks = ts\<rparr>
       \<lparr>ky_mem = m, ky_rows = rows, ky_tasks = ReleaseAppend reason operator # ts\<rparr>"
| release_append:
    "next_seq rows seq \<Longrightarrow>
     switch_step loads dumps \<lparr>ky_mem = m, ky_rows = rows, ky_tasks = xs @ ReleaseAppend reason operator # ys\<rparr>
       \<lparr>ky_mem = m,
        ky_rows = rows @ [(seq, kind_value KILL_RELEASED, dumps (release_detail reason operator))],
        ky_tasks = xs @ ReleaseDone reason operator seq # ys\<rparr>"
| release_done:
    "switch_step loads dumps \<lparr>ky_mem = m, ky_rows = rows, ky_tasks = xs @ ReleaseDone reason operator seq # ys\<rparr>
       \<lparr>ky_mem = release_finish m reason operator seq, ky_rows = rows, ky_tasks = xs @ ys\<rparr>"
| merge_call:
    "switch_step loads dumps \<lparr>ky_mem = m, ky_rows = rows, ky_tasks = ts\<rparr>
       \<lparr>ky_mem = m, ky_rows = rows, ky_tasks = MergeRead # ts\<rparr>"
| merge_advances:
    "is_merge t \<Longrightarrow> merge_advance loads m rows intact t = (m', nxt) \<Longrightarrow>
     switch_step loads dumps \<lparr>ky_mem = m, ky_rows = rows, ky_tasks = xs @ t # ys\<rparr>
       \<lparr>ky_mem = m', ky_rows = rows,
        ky_tasks = (case nxt of None \<Rightarrow> xs @ ys | Some t' \<Rightarrow> xs @ t' # ys)\<rparr>"
| cancelled:
    "is_merge t \<or> (\<exists>reason operator seq. t \<in> {ReleaseAppend reason operator, ReleaseDone reason operator seq}) \<Longrightarrow>
     switch_step loads dumps \<lparr>ky_mem = m, ky_rows = rows, ky_tasks = xs @ t # ys\<rparr>
       \<lparr>ky_mem = m, ky_rows = rows, ky_tasks = xs @ ys\<rparr>"
| other_process:
    "next_seq rows seq \<Longrightarrow>
     switch_step loads dumps \<lparr>ky_mem = m, ky_rows = rows, ky_tasks = ts\<rparr>
       \<lparr>ky_mem = m, ky_rows = rows @ [(seq, kind, body)], ky_tasks = ts\<rparr>"

inductive switch_reaches ::
    "(string \<Rightarrow> json option) \<Rightarrow> ((string \<times> json) list \<Rightarrow> string) \<Rightarrow> kill_sys \<Rightarrow> kill_sys \<Rightarrow> bool"
  for loads dumps s where
  switch_refl: "switch_reaches loads dumps s s"
| switch_trans: "switch_reaches loads dumps s s' \<Longrightarrow> switch_step loads dumps s' s'' \<Longrightarrow> switch_reaches loads dumps s s''"


section \<open>What the kill rows say, prefix by prefix\<close>

text \<open>What the manager relies on from \<open>json\<close>: the records it writes itself can be read back.\<close>

definition codec_ok :: "(string \<Rightarrow> json option) \<Rightarrow> ((string \<times> json) list \<Rightarrow> string) \<Rightarrow> bool" where
  "codec_ok loads dumps \<longleftrightarrow>
     (\<forall>p. \<exists>d. loads (dumps (payload_detail p)) = Some (JObj d)) \<and>
     (\<forall>reason operator. release_allowed reason operator \<longrightarrow>
        (\<exists>d. loads (dumps (release_detail reason operator)) = Some (JObj d) \<and> names_operator d))"

definition ascending_rows :: "(int \<times> string \<times> string) list \<Rightarrow> bool" where
  "ascending_rows rows \<longleftrightarrow> sorted_wrt (<) (map fst rows) \<and> (\<forall>r \<in> set rows. 0 < fst r)"

lemma ascending_snoc: "ascending_rows rows \<Longrightarrow> next_seq rows seq \<Longrightarrow> ascending_rows (rows @ [(seq, k, t)])"
  by (auto simp: ascending_rows_def next_seq_def sorted_wrt_append)

lemma ascending_take: "ascending_rows rows \<Longrightarrow> ascending_rows (take k rows)"
  by (auto simp: ascending_rows_def sorted_wrt_take take_map [symmetric] dest: in_set_takeD)

lemma kill_state_from_snoc [simp]:
  "kill_state_from loads (rows @ [r]) = Journal.kill_step loads (kill_state_from loads rows) r"
  by (simp add: kill_state_from_def)

lemma kill_state_from_Nil [simp]: "kill_state_from loads [] = no_kill"
  by (simp add: kill_state_from_def)

lemma row_effect:
  "Journal.kill_step loads st (seq, kind, body) = st \<or>
   ks_seq (Journal.kill_step loads st (seq, kind, body)) = seq"
  by (auto simp: Journal.kill_step_def Let_def split: option.splits json.splits)

lemma kill_seq_rows:
  "ascending_rows rows \<Longrightarrow> 0 \<le> ks_seq (kill_state_from loads rows) \<and>
     (ks_seq (kill_state_from loads rows) = 0 \<or> ks_seq (kill_state_from loads rows) \<in> fst ` set rows)"
proof (induction rows rule: rev_induct)
  case Nil
  then show ?case by (simp add: no_kill_def)
next
  case (snoc r rows)
  obtain seq kind body where r: "r = (seq, kind, body)" by (cases r)
  have "ascending_rows rows" "0 < seq" using snoc.prems by (auto simp: ascending_rows_def sorted_wrt_append r)
  then show ?case
    using snoc.IH row_effect [of loads "kill_state_from loads rows" seq kind body]
    by (elim disjE) (simp_all add: r, blast)
qed

lemma kill_seq_below:
  "ascending_rows rows \<Longrightarrow> next_seq rows seq \<Longrightarrow> ks_seq (kill_state_from loads rows) < seq"
  using kill_seq_rows [of rows loads] by (auto simp: next_seq_def)

lemma next_seq_asc: "ascending_rows (rows @ [(seq, kind, body)]) \<Longrightarrow> next_seq rows seq \<and> ascending_rows rows"
  by (auto simp: ascending_rows_def next_seq_def sorted_wrt_append)

lemma kill_state_grows:
  "ascending_rows (xs @ ys) \<Longrightarrow>
   kill_state_from loads (xs @ ys) = kill_state_from loads xs \<or>
   ks_seq (kill_state_from loads xs) < ks_seq (kill_state_from loads (xs @ ys))"
proof (induction ys rule: rev_induct)
  case Nil
  then show ?case by simp
next
  case (snoc r ys)
  obtain seq kind body where r: "r = (seq, kind, body)" by (cases r)
  have a: "ascending_rows (xs @ ys)" "next_seq (xs @ ys) seq"
    using next_seq_asc [of "xs @ ys" seq kind body] snoc.prems by (simp_all add: r)
  have eq: "kill_state_from loads (xs @ ys @ [r]) =
      Journal.kill_step loads (kill_state_from loads (xs @ ys)) (seq, kind, body)"
    using kill_state_from_snoc [of loads "xs @ ys" r] by (simp add: r)
  show ?case
    using snoc.IH [OF a(1)] kill_seq_below [OF a, of loads] eq
      row_effect [of loads "kill_state_from loads (xs @ ys)" seq kind body]
    by auto
qed

lemma kill_state_take:
  assumes "ascending_rows rows" and "i \<le> j"
  shows "kill_state_from loads (take j rows) = kill_state_from loads (take i rows) \<or>
    ks_seq (kill_state_from loads (take i rows)) < ks_seq (kill_state_from loads (take j rows))"
proof -
  have "take j rows = take i rows @ drop i (take j rows)"
    using assms(2) by (metis append_take_drop_id min.absorb1 take_take)
  then show ?thesis using kill_state_grows [of "take i rows" "drop i (take j rows)" loads] ascending_take [OF assms(1), of j] by simp
qed

section \<open>The switch is off in memory only if the journal said so\<close>

definition off_at :: "(string \<Rightarrow> json option) \<Rightarrow> (int \<times> string \<times> string) list \<Rightarrow> int \<Rightarrow> bool" where
  "off_at loads rows seq \<longleftrightarrow>
     (\<exists>k \<le> length rows. \<not> ks_engaged (kill_state_from loads (take k rows)) \<and>
        ks_seq (kill_state_from loads (take k rows)) = seq)"

definition state_ok :: "(string \<Rightarrow> json option) \<Rightarrow> (int \<times> string \<times> string) list \<Rightarrow> kill_state \<Rightarrow> bool" where
  "state_ok loads rows st \<longleftrightarrow>
     ks_seq st \<le> ks_seq (kill_state_from loads rows) \<and> (ks_engaged st \<or> off_at loads rows (ks_seq st))"

definition read_ok :: "(string \<Rightarrow> json option) \<Rightarrow> (int \<times> string \<times> string) list \<Rightarrow> nat \<Rightarrow> kill_state \<Rightarrow> bool" where
  "read_ok loads rows n st \<longleftrightarrow> n \<le> length rows \<and> st = kill_state_from loads (take n rows)"

fun task_ok :: "(string \<Rightarrow> json option) \<Rightarrow> (int \<times> string \<times> string) list \<Rightarrow> kill_task \<Rightarrow> bool" where
  "task_ok loads rows (SettleStart b p) = state_ok loads rows (snd b)"
| "task_ok loads rows (SettleRead b p) = state_ok loads rows (snd b)"
| "task_ok loads rows (SettleVerify b p d) = (state_ok loads rows (snd b) \<and> state_ok loads rows (snd d))"
| "task_ok loads rows (SettleDecide pending b p) = state_ok loads rows (snd b)"
| "task_ok loads rows (RecordDone own p (Some seq)) = (seq \<le> ks_seq (kill_state_from loads rows))"
| "task_ok loads rows (ReleaseAppend reason operator) = release_allowed reason operator"
| "task_ok loads rows (ReleaseDone reason operator seq) =
     (seq \<le> ks_seq (kill_state_from loads rows) \<and> off_at loads rows seq)"
| "task_ok loads rows (MergeGot n d) = read_ok loads rows n (snd d)"
| "task_ok loads rows (MergeVerify n b d) =
     (read_ok loads rows n (snd d) \<and> state_ok loads rows (snd b) \<and> \<not> ks_engaged (snd d))"
| "task_ok loads rows _ = True"

definition memory_ok :: "(string \<Rightarrow> json option) \<Rightarrow> (int \<times> string \<times> string) list \<Rightarrow> kill_memory \<Rightarrow> bool" where
  "memory_ok loads rows m \<longleftrightarrow>
     state_ok loads rows (snd (km_kill m)) \<and> (km_unrecorded m \<noteq> None \<longrightarrow> kill_engaged m)"

definition kill_inv :: "(string \<Rightarrow> json option) \<Rightarrow> kill_sys \<Rightarrow> bool" where
  "kill_inv loads s \<longleftrightarrow>
     ascending_rows (ky_rows s) \<and> memory_ok loads (ky_rows s) (ky_mem s) \<and>
     list_all (task_ok loads (ky_rows s)) (ky_tasks s)"

lemma off_at_append:
  assumes "off_at loads rows seq"
  shows "off_at loads (rows @ ys) seq"
proof -
  obtain k where "k \<le> length rows" "\<not> ks_engaged (kill_state_from loads (take k rows))"
      "ks_seq (kill_state_from loads (take k rows)) = seq"
    using assms unfolding off_at_def by blast
  then show ?thesis unfolding off_at_def by (intro exI [of _ k]) simp
qed

lemma read_ok_append: "read_ok loads rows n st \<Longrightarrow> read_ok loads (rows @ ys) n st"
  by (simp add: read_ok_def)

lemma kill_seq_append:
  "ascending_rows (rows @ ys) \<Longrightarrow>
   ks_seq (kill_state_from loads rows) \<le> ks_seq (kill_state_from loads (rows @ ys))"
  using kill_state_grows [of rows ys loads] by auto

lemma state_ok_append: "ascending_rows (rows @ ys) \<Longrightarrow> state_ok loads rows st \<Longrightarrow> state_ok loads (rows @ ys) st"
  using kill_seq_append [of rows ys loads] off_at_append by (auto simp: state_ok_def)

lemma task_ok_append: "ascending_rows (rows @ ys) \<Longrightarrow> task_ok loads rows t \<Longrightarrow> task_ok loads (rows @ ys) t"
  using kill_seq_append [of rows ys loads] state_ok_append read_ok_append off_at_append
  by (cases "(loads, rows, t)" rule: task_ok.cases) fastforce+

lemma state_ok_now: "state_ok loads rows (kill_state_from loads rows)"
  by (auto simp: state_ok_def off_at_def intro!: exI [of _ "length rows"])

lemma state_ok_read:
  assumes "ascending_rows rows" and "read_ok loads rows n st"
  shows "state_ok loads rows st"
proof -
  have "ks_seq (kill_state_from loads (take n rows)) \<le> ks_seq (kill_state_from loads rows)"
    using kill_seq_append [of "take n rows" "drop n rows" loads] assms(1) by simp
  with assms(2) show ?thesis by (auto simp: read_ok_def state_ok_def off_at_def)
qed

lemma state_ok_engaged:
  "ks_seq st \<le> ks_seq (kill_state_from loads rows) \<Longrightarrow> ks_engaged st \<Longrightarrow> state_ok loads rows st"
  by (simp add: state_ok_def)

lemma newer_kill_cases: "newer_kill a b intact = a \<or> newer_kill a b intact = b"
  by (simp add: newer_kill_def)

lemma own_engage_effect:
  assumes "codec_ok loads dumps"
  shows "ks_seq (Journal.kill_step loads st (seq, kind_value KILL_ENGAGED, dumps (payload_detail p))) = seq"
  using assms by (auto simp: codec_ok_def Journal.kill_step_def Let_def split: option.splits json.splits)

lemma own_release_effect:
  assumes "codec_ok loads dumps" and "release_allowed reason operator"
  shows "ks_seq (Journal.kill_step loads st (seq, kind_value KILL_RELEASED, dumps (release_detail reason operator))) = seq
    \<and> \<not> ks_engaged (Journal.kill_step loads st (seq, kind_value KILL_RELEASED, dumps (release_detail reason operator)))"
proof -
  obtain d where "loads (dumps (release_detail reason operator)) = Some (JObj d)" "names_operator d"
    using assms unfolding codec_ok_def by blast
  then show ?thesis by (simp add: Journal.kill_step_def Let_def)
qed

lemma memory_ok_append:
  "ascending_rows (rows @ ys) \<Longrightarrow> memory_ok loads rows m \<Longrightarrow> memory_ok loads (rows @ ys) m"
  by (auto simp: memory_ok_def state_ok_append)

lemma tasks_ok_append:
  "ascending_rows (rows @ ys) \<Longrightarrow> list_all (task_ok loads rows) ts \<Longrightarrow> list_all (task_ok loads (rows @ ys)) ts"
  by (auto simp: list_all_iff task_ok_append)

lemmas kill_pieces =
  engage_begin_def set_kill_def engaged_state_def settle_decide_def settle_current_def record_finish_def
  release_finish_def merge_begin_def merge_finish_def merge_kill_def engage_end_def fresh_read_def

lemma engage_begin_ok:
  "memory_ok loads rows m \<Longrightarrow> engage_begin m p = (m', prior) \<Longrightarrow>
   memory_ok loads rows m' \<and> state_ok loads rows (snd prior)"
  by (auto simp: kill_pieces memory_ok_def kill_engaged_def state_ok_def Let_def split: if_splits)

lemma settle_decide_ok:
  "memory_ok loads rows m \<Longrightarrow> state_ok loads rows (snd found) \<Longrightarrow>
   settle_decide m pending found p = (m', recording) \<Longrightarrow> memory_ok loads rows m'"
  by (auto simp: kill_pieces memory_ok_def kill_engaged_def state_ok_def Let_def split: if_splits)

lemma record_finish_ok:
  "memory_ok loads rows m \<Longrightarrow> task_ok loads rows (RecordDone own p w) \<Longrightarrow>
   memory_ok loads rows (record_finish m p w)"
  by (cases w) (auto simp: kill_pieces memory_ok_def kill_engaged_def state_ok_def)

lemma release_finish_ok:
  "task_ok loads rows (ReleaseDone reason operator seq) \<Longrightarrow>
   memory_ok loads rows (release_finish m reason operator seq)"
  by (auto simp: kill_pieces memory_ok_def kill_engaged_def state_ok_def)

lemma merge_finish_ok:
  "memory_ok loads rows m \<Longrightarrow> state_ok loads rows (snd memory) \<Longrightarrow> state_ok loads rows (snd d) \<Longrightarrow>
   memory_ok loads rows (merge_finish m memory d intact)"
  using newer_kill_cases [of memory d intact]
  by (auto simp: merge_finish_def memory_ok_def kill_engaged_def Let_def)

lemma merge_kill_ok:
  "memory_ok loads rows m \<Longrightarrow> state_ok loads rows (snd d) \<Longrightarrow> memory_ok loads rows (merge_kill m d intact)"
  using merge_finish_ok [of loads rows m "km_kill m" d intact]
  by (auto simp: merge_kill_def merge_begin_def memory_ok_def split: option.splits)

lemma merge_advance_ok:
  assumes "ascending_rows rows" and "memory_ok loads rows m" and "task_ok loads rows t" and "is_merge t"
    and "merge_advance loads m rows intact t = (m', nxt)"
  shows "memory_ok loads rows m' \<and>
    (case nxt of None \<Rightarrow> True
     | Some t' \<Rightarrow> task_ok loads rows t' \<and> is_merge t' \<and> merge_rows t \<le> merge_rows t' \<and>
         (t = MergeRead \<longrightarrow> merge_rows t' = length rows))"
  using assms
proof (cases t)
  case MergeRead
  then show ?thesis
    using assms by (auto simp: fresh_read_def memory_ok_def kill_engaged_def read_ok_def)
next
  case (MergeGot n d)
  then show ?thesis
    using assms merge_finish_ok [of loads rows m "km_kill m" d True] state_ok_read [of rows loads n "snd d"]
    by (auto simp: merge_begin_def memory_ok_def needs_verify_def split: if_splits)
next
  case (MergeVerify n b d)
  then show ?thesis
    using assms merge_finish_ok [of loads rows m b d intact] state_ok_read [of rows loads n "snd d"] by auto
qed simp_all

lemma engage_end_ok [simp]: "memory_ok loads rows (engage_end own m) = memory_ok loads rows m"
  by (simp add: engage_end_def memory_ok_def kill_engaged_def)

lemma kill_step_inv:
  assumes "switch_step loads dumps s s'" and "codec_ok loads dumps" and inv: "kill_inv loads s"
  shows "kill_inv loads s' \<and> (\<exists>ys. ky_rows s' = ky_rows s @ ys)"
  using assms(1)
proof (cases rule: switch_step.cases)
  case (engage m p m' prior rows ts)
  then show ?thesis using inv engage_begin_ok [of loads rows m p m' prior] by (simp add: kill_inv_def)
next
  case (settle_start t m prior p rows xs ys)
  then show ?thesis using inv by (simp add: kill_inv_def)
next
  case (settle_read m rows m' d t prior p xs ys)
  have "state_ok loads rows (snd d)" "memory_ok loads rows m'"
    using settle_read(3) inv state_ok_now
    by (auto simp: fresh_read_def kill_inv_def settle_read(1) memory_ok_def kill_engaged_def)
  then show ?thesis
    using settle_read inv newer_kill_cases [of prior d True] by (auto simp: kill_inv_def)
next
  case (settle_unreadable m rows xs prior p ys)
  then show ?thesis using inv by (simp add: kill_inv_def)
next
  case (settle_verify m rows xs prior p d ys intact)
  then show ?thesis using inv newer_kill_cases [of prior d intact] by (auto simp: kill_inv_def)
next
  case (settle_decide m pending found p m' recording rows xs ys)
  then show ?thesis
    using inv settle_decide_ok [of loads rows m found pending p m' recording] by (auto simp: kill_inv_def)
next
  case (record_again m rows ts)
  then show ?thesis using inv by (simp add: kill_inv_def)
next
  case (record_nothing m xs ys own rows)
  then show ?thesis using inv by (simp add: kill_inv_def)
next
  case (record_begin m payload xs ys own rows)
  then show ?thesis using inv by (simp add: kill_inv_def)
next
  case (record_append rows seq m xs own payload ys)
  let ?r = "(seq, kind_value KILL_ENGAGED, dumps (payload_detail (snd payload)))"
  have a: "ascending_rows (rows @ [?r])" using inv record_append by (simp add: kill_inv_def ascending_snoc)
  then show ?thesis
    using inv record_append memory_ok_append [OF a] tasks_ok_append [OF a] own_engage_effect [OF assms(2)]
    by (simp add: kill_inv_def)
next
  case (record_refused m rows own payload xs ys)
  then show ?thesis using inv by (simp add: kill_inv_def)
next
  case (record_done m rows xs own payload w ys)
  then show ?thesis using inv record_finish_ok [of loads rows m own payload w] by (simp add: kill_inv_def)
next
  case (release_call reason operator m rows ts)
  then show ?thesis using inv by (simp add: kill_inv_def)
next
  case (release_append rows seq m xs reason operator ys)
  let ?r = "(seq, kind_value KILL_RELEASED, dumps (release_detail reason operator))"
  have a: "ascending_rows (rows @ [?r])" using inv release_append by (simp add: kill_inv_def ascending_snoc)
  have "release_allowed reason operator" using inv release_append by (simp add: kill_inv_def)
  note e = own_release_effect [OF assms(2) this, of "kill_state_from loads rows" seq]
  have "off_at loads (rows @ [?r]) seq"
    unfolding off_at_def using e by (intro exI [of _ "length (rows @ [?r])"]) simp
  then show ?thesis
    using inv release_append memory_ok_append [OF a] tasks_ok_append [OF a] a e by (simp add: kill_inv_def)
next
  case (release_done m rows xs reason operator seq ys)
  then show ?thesis
    using inv release_finish_ok [of loads rows reason operator seq m] by (simp add: kill_inv_def)
next
  case (merge_call m rows ts)
  then show ?thesis using inv by (simp add: kill_inv_def)
next
  case (merge_advances t m rows intact m' nxt xs ys)
  then show ?thesis
    using inv merge_advance_ok [of rows loads m t intact m' nxt] by (auto simp: kill_inv_def split: option.splits)
next
  case (cancelled t m rows xs ys)
  then show ?thesis using inv by (simp add: kill_inv_def)
next
  case (other_process rows seq m ts kind body)
  have a: "ascending_rows (rows @ [(seq, kind, body)])"
    using inv other_process by (simp add: kill_inv_def ascending_snoc)
  then show ?thesis
    using inv other_process memory_ok_append [OF a] tasks_ok_append [OF a] by (simp add: kill_inv_def)
qed

lemma switch_reaches_inv:
  "switch_reaches loads dumps s s' \<Longrightarrow> codec_ok loads dumps \<Longrightarrow> kill_inv loads s \<Longrightarrow>
   kill_inv loads s' \<and> (\<exists>ys. ky_rows s' = ky_rows s @ ys)"
proof (induction rule: switch_reaches.induct)
  case switch_refl
  then show ?case by simp
next
  case (switch_trans s' s'')
  then show ?case using kill_step_inv [of loads dumps s' s''] by force
qed

lemma initial_inv: "ascending_rows rows \<Longrightarrow>
   kill_inv loads \<lparr>ky_mem = initial_kill (kill_state_from loads rows), ky_rows = rows, ky_tasks = []\<rparr>"
  by (simp add: kill_inv_def memory_ok_def initial_kill_def state_ok_now)

text \<open>
  What a check is worth: a merge of a state read when the journal had \<open>n\<close> rows leaves the switch off
  only if the journal said off then, or at some later moment.
\<close>

lemma off_after_read:
  assumes a: "ascending_rows rows" and r: "read_ok loads rows n d" and m: "state_ok loads rows st"
    and off: "\<not> ks_engaged st" and le: "ks_seq d \<le> ks_seq st"
  shows "\<exists>k. n \<le> k \<and> k \<le> length rows \<and> \<not> ks_engaged (kill_state_from loads (take k rows))"
proof -
  obtain k where k: "k \<le> length rows" "\<not> ks_engaged (kill_state_from loads (take k rows))"
      "ks_seq (kill_state_from loads (take k rows)) = ks_seq st"
    using m off by (auto simp: state_ok_def off_at_def)
  show ?thesis
  proof (cases "n \<le> k")
    case True
    with k show ?thesis by blast
  next
    case False
    then have "kill_state_from loads (take n rows) = kill_state_from loads (take k rows)"
      using kill_state_take [OF a, of k n loads] k(3) le r by (auto simp: read_ok_def)
    with k(2) r show ?thesis by (intro exI [of _ n]) (simp add: read_ok_def)
  qed
qed

lemma merge_kill_off:
  assumes inv: "ascending_rows rows" "memory_ok loads rows m" and r: "read_ok loads rows n (snd d)"
    and off: "\<not> kill_engaged (merge_kill m d intact)"
  shows "\<exists>k. n \<le> k \<and> k \<le> length rows \<and> \<not> ks_engaged (kill_state_from loads (take k rows))"
proof (cases "ks_engaged (snd d)")
  case False
  with r show ?thesis by (intro exI [of _ n]) (simp add: read_ok_def)
next
  case on: True
  let ?mem = "snd (km_kill m)"
  have u: "km_unrecorded m = None"
  proof (rule ccontr)
    assume c: "km_unrecorded m \<noteq> None"
    then have "merge_kill m d intact = m" by (simp add: merge_kill_def merge_begin_def)
    with c off inv(2) show False by (simp add: memory_ok_def)
  qed
  then have m: "merge_kill m d intact = merge_finish m (km_kill m) d intact"
    using on by (simp add: merge_kill_def merge_begin_def)
  show ?thesis
  proof (cases "durable_wins ?mem (snd d) intact")
    case True
    with off on u show ?thesis by (simp add: m merge_finish_def kill_engaged_def newer_kill_def Let_def)
  next
    case False
    then have "ks_seq (snd d) \<le> ks_seq ?mem" using on by (auto simp: durable_wins_def split: if_splits)
    moreover have "\<not> ks_engaged ?mem"
      using False off by (simp add: m merge_finish_def kill_engaged_def newer_kill_def Let_def split: if_splits)
    moreover have "state_ok loads rows ?mem" using inv(2) by (simp add: memory_ok_def)
    ultimately show ?thesis using off_after_read [OF inv(1) r] by blast
  qed
qed

lemma merge_advance_off:
  assumes inv: "ascending_rows rows" "memory_ok loads rows m" "task_ok loads rows t" "is_merge t"
    and adv: "merge_advance loads m rows intact t = (m', None)" and off: "\<not> kill_engaged m'"
  shows "\<exists>k. merge_rows t \<le> k \<and> k \<le> length rows \<and> \<not> ks_engaged (kill_state_from loads (take k rows))"
proof (cases t)
  case (MergeGot n d)
  then have r: "read_ok loads rows n (snd d)" and "merge_kill m d True = m'"
    using inv adv by (auto simp: merge_kill_def split: option.splits if_splits)
  then show ?thesis using merge_kill_off [OF inv(1,2) r, of True] off MergeGot by simp
next
  case (MergeVerify n b d)
  then show ?thesis using inv(3) by (intro exI [of _ n]) (auto simp: read_ok_def)
qed (use inv adv in \<open>simp_all split: prod.splits\<close>)

text \<open>Engages only widen: later rows that are not valid releases keep the switch on and its sweep asked for.\<close>

lemma engage_row_effect:
  assumes "loads body = Some (JObj d)" and "json_get d ''cancel_open'' (JBool False) = JBool co"
  shows "ks_engaged (Journal.kill_step loads st (seq, kind_value KILL_ENGAGED, body)) \<and>
    (co \<or> (ks_engaged st \<and> ks_cancel_open st) \<longrightarrow>
      ks_cancel_open (Journal.kill_step loads st (seq, kind_value KILL_ENGAGED, body)))"
  using assms by (auto simp: Journal.kill_step_def Let_def)

section \<open>Properties\<close>

text \<open>C13: A check is worth what the journal said: in any interleaving of engages, releases, retries and
  checks of one process with the records of other processes, a merge that ends with the switch off in
  memory proves that the journal had the switch off when the merge read it or at a later moment. A
  durable engage is never overlooked.\<close>

theorem passed_check_means_journal_off:
  assumes "codec_ok loads dumps" and "ascending_rows rows"
    and "switch_reaches loads dumps
      \<lparr>ky_mem = initial_kill (kill_state_from loads rows), ky_rows = rows, ky_tasks = []\<rparr> s"
    and "t \<in> set (ky_tasks s)" and "is_merge t"
    and "merge_advance loads (ky_mem s) (ky_rows s) intact t = (m', None)" and "\<not> kill_engaged m'"
  shows "\<exists>k. merge_rows t \<le> k \<and> k \<le> length (ky_rows s) \<and> \<not> ks_engaged (kill_state_from loads (take k (ky_rows s)))"
proof -
  have "kill_inv loads s" using switch_reaches_inv [OF assms(3,1)] initial_inv [OF assms(2)] by blast
  then have "ascending_rows (ky_rows s)" "memory_ok loads (ky_rows s) (ky_mem s)" "task_ok loads (ky_rows s) t"
    using assms(4) by (auto simp: kill_inv_def list_all_iff)
  then show ?thesis using merge_advance_off assms(5,6,7) by blast
qed

definition sample_loads :: "string \<Rightarrow> json option" where
  "sample_loads s =
     (if s = ''E'' then Some (JObj [(''cancel_open'', JBool True)])
      else if s = ''R'' then Some (JObj [(''operator'', JStr ''ops'')]) else None)"

definition sample_dumps :: "(string \<times> json) list \<Rightarrow> string" where
  "sample_dumps d = (if map_of d ''cancel_open'' = None then ''R'' else ''E'')"

lemma sample_codec: "codec_ok sample_loads sample_dumps"
  by (auto simp: codec_ok_def sample_loads_def sample_dumps_def payload_detail_def release_detail_def
      names_operator_def strip_def ascii_space_def)

definition sample_kill :: kill_sys where
  "sample_kill = \<lparr>ky_mem = initial_kill no_kill, ky_rows = [], ky_tasks = []\<rparr>"

definition sample_kill_read :: kill_sys where
  "sample_kill_read =
     \<lparr>ky_mem = (initial_kill no_kill)\<lparr>km_fresh := 2\<rparr>, ky_rows = [],
      ky_tasks = [MergeGot 0 (1, no_kill)]\<rparr>"

lemma sample_kill_reads: "switch_reaches sample_loads sample_dumps sample_kill sample_kill_read"
proof -
  have one: "switch_step sample_loads sample_dumps sample_kill
      \<lparr>ky_mem = initial_kill no_kill, ky_rows = [], ky_tasks = [MergeRead]\<rparr>"
    unfolding sample_kill_def by (rule merge_call)
  have two: "switch_step sample_loads sample_dumps
      \<lparr>ky_mem = initial_kill no_kill, ky_rows = [], ky_tasks = [MergeRead]\<rparr> sample_kill_read"
    using merge_advances [of MergeRead sample_loads "initial_kill no_kill" "[]" True
        "(initial_kill no_kill)\<lparr>km_fresh := 2\<rparr>" "Some (MergeGot 0 (1, no_kill))" sample_dumps "[]" "[]"]
    by (simp add: fresh_read_def initial_kill_def sample_kill_read_def)
  show ?thesis by (rule switch_trans [OF switch_trans [OF switch_refl one] two])
qed

lemma passed_check_means_journal_off_witness:
  "\<exists>k. 0 \<le> k \<and> k \<le> length (ky_rows sample_kill_read) \<and>
     \<not> ks_engaged (kill_state_from sample_loads (take k (ky_rows sample_kill_read)))"
  using passed_check_means_journal_off [OF sample_codec, of "[]" sample_kill_read "MergeGot 0 (1, no_kill)" True
      "(initial_kill no_kill)\<lparr>km_fresh := 2\<rparr>"] sample_kill_reads
  by (simp add: ascending_rows_def sample_kill_def, simp add: sample_kill_read_def merge_begin_def merge_finish_def
      newer_kill_def durable_wins_def kill_engaged_def initial_kill_def no_kill_def needs_verify_def)

text \<open>C14: The switch never turns itself off: whenever it is off in memory, the journal was off at exactly
  the record memory names, so either nothing was ever engaged or a release naming an operator is on
  record there; and a kill that is not recorded yet is always on.\<close>

theorem switch_off_is_on_record:
  assumes "codec_ok loads dumps" and "ascending_rows rows"
    and "switch_reaches loads dumps
      \<lparr>ky_mem = initial_kill (kill_state_from loads rows), ky_rows = rows, ky_tasks = []\<rparr> s"
    and "\<not> kill_engaged (ky_mem s)"
  shows "km_unrecorded (ky_mem s) = None \<and> off_at loads (ky_rows s) (ks_seq (snd (km_kill (ky_mem s))))"
proof -
  have "kill_inv loads s" using switch_reaches_inv [OF assms(3,1)] initial_inv [OF assms(2)] by blast
  then have "memory_ok loads (ky_rows s) (ky_mem s)" by (simp add: kill_inv_def)
  with assms(4) show ?thesis by (cases "km_unrecorded (ky_mem s)") (simp_all add: memory_ok_def state_ok_def kill_engaged_def)
qed

lemma switch_off_is_on_record_witness:
  "off_at sample_loads [] (ks_seq (snd (km_kill (ky_mem sample_kill_read))))"
  using switch_off_is_on_record [OF sample_codec, of "[]" sample_kill_read] sample_kill_reads
  by (simp add: ascending_rows_def sample_kill_def kill_engaged_def sample_kill_read_def initial_kill_def no_kill_def)

end
