(* ===== verification/Manager.thy ===== *)
theory Manager
  imports Books Risk KillSwitch
begin

text \<open>
  The whole order manager of \<open>execution/manager.py\<close> as one state: the memory of \<open>Books\<close>, the risk engine,
  the kill switch, the send bookkeeping and the caches; and the pieces of \<open>submit\<close>, \<open>cancel\<close>, \<open>amend\<close> and
  \<open>_record\<close> that run between two awaits. What a venue call returns or raises is a \<open>venue_answer\<close>, one
  constructor for each \<open>except\<close> clause, most specific class first.
\<close>

section \<open>State\<close>

record manager_config =
  mc_instrument_ttl :: rat
  mc_cancel_retry :: rat
  mc_unknown_grace :: rat
  mc_fill_lookback :: int
  mc_halt_on_break :: bool
  mc_assume_flat :: bool
  mc_has_account :: bool
  mc_send_record_id :: "string option"
  mc_rules :: "trading_rules option"
  mc_calendar :: "string \<Rightarrow> calendar option"
  mc_locate :: "order_request \<Rightarrow> bool"
  mc_message :: "anomaly \<Rightarrow> string"

record manager =
  om_started :: bool
  om_books :: books
  om_engine :: risk_engine
  om_kill :: kill_memory
  om_kill_tasks :: "kill_task list"
  om_submitting :: "string set"
  om_placing :: "string set"
  om_cancel_first :: "string set"
  om_instruments :: "symbol \<rightharpoonup> instrument \<times> rat"
  om_change_at :: "string \<rightharpoonup> rat"
  om_suspect :: "symbol \<rightharpoonup> rat"
  om_blind :: bool
  om_healthy :: bool
  om_submit_lock :: bool

definition max_age_of :: "manager \<Rightarrow> rat" where
  "max_age_of m = cfg_max_reference_age (re_config (om_engine m))"

definition order_of :: "manager \<Rightarrow> string \<Rightarrow> order_state option" where
  "order_of m cid = bk_orders (om_books m) cid"

section \<open>Caches and marks\<close>

text \<open>
  \<open>_instrument\<close>: a fresh cached entry is used without asking; \<open>answer\<close> is what the source returned,
  \<open>None\<close> when it raised or there is none. The time stored is the one taken before asking.
\<close>

definition lookup_instrument ::
    "manager_config \<Rightarrow> manager \<Rightarrow> rat \<Rightarrow> symbol \<Rightarrow> instrument option \<Rightarrow> manager \<times> instrument option" where
  "lookup_instrument cfg m now y answer =
     (let cached = (case om_instruments m y of
                      None \<Rightarrow> None
                    | Some (i, fetched_at) \<Rightarrow> if now - fetched_at < mc_instrument_ttl cfg then Some i else None)
      in case cached of
           Some i \<Rightarrow> (m, Some i)
         | None \<Rightarrow>
             (case answer of
                None \<Rightarrow> (m, None)
              | Some i \<Rightarrow> (m\<lparr>om_instruments := (om_instruments m)(y \<mapsto> (i, now))\<rparr>, Some i)))"

definition adopt_quote :: "manager \<Rightarrow> int \<Rightarrow> rat \<Rightarrow> symbol \<Rightarrow> quote option \<Rightarrow> manager" where
  "adopt_quote m now mt y reference =
     m\<lparr>om_books := mark_quote (om_books m) (max_age_of m) now mt y reference\<rparr>"

text \<open>\<open>_refresh_marks\<close>: \<open>quotes\<close> and \<open>answers\<close> are what the two rounds of lookups return.\<close>

definition gross_limited :: "manager \<Rightarrow> order_request \<Rightarrow> bool" where
  "gross_limited m r \<longleftrightarrow>
     list_ex (\<lambda>(scope, l). lim_gross_notional l \<noteq> None) (limits_for (re_config (om_engine m)) r)"

definition exposed_symbols :: "manager \<Rightarrow> order_request \<Rightarrow> symbol list" where
  "exposed_symbols m r = filter (\<lambda>y. y \<noteq> req_symbol r) (symbols_with_exposure (om_books m))"

definition stale_symbols :: "manager \<Rightarrow> order_request \<Rightarrow> rat \<Rightarrow> symbol list" where
  "stale_symbols m r mt =
     filter (\<lambda>y. case bk_marks (om_books m) y of
                   None \<Rightarrow> True | Some (price, at_time) \<Rightarrow> max_age_of m < mt - at_time)
       (exposed_symbols m r)"

definition missing_symbols :: "manager \<Rightarrow> order_request \<Rightarrow> symbol list" where
  "missing_symbols m r = filter (\<lambda>y. om_instruments m y = None) (exposed_symbols m r)"

definition refresh_marks ::
    "manager_config \<Rightarrow> manager \<Rightarrow> order_request \<Rightarrow> int \<Rightarrow> rat \<Rightarrow> (symbol \<Rightarrow> quote option) \<Rightarrow>
     (symbol \<Rightarrow> instrument option) \<Rightarrow> manager" where
  "refresh_marks cfg m r now mt quotes answers =
     (if \<not> gross_limited m r then m
      else
        (let m1 = foldl (\<lambda>m y. adopt_quote m now mt y (quotes y)) m (stale_symbols m r mt)
         in foldl (\<lambda>m' y. fst (lookup_instrument cfg m' mt y (answers y))) m1 (missing_symbols m r)))"

text \<open>\<open>_risk_context\<close>.\<close>

definition risk_context_of ::
    "manager_config \<Rightarrow> manager \<Rightarrow> order_request \<Rightarrow> instrument option \<Rightarrow> quote option \<Rightarrow> int \<Rightarrow>
     string option \<Rightarrow> risk_context" where
  "risk_context_of cfg m r inst reference now exclude =
     \<lparr>rc_request = r, rc_instrument = inst, rc_reference = reference, rc_now = now,
      rc_open_orders = filter (\<lambda>o'. Some (state_cid o') \<noteq> exclude) (open_orders (om_books m) None),
      rc_position = net_position (om_books m) (req_symbol r),
      rc_calendar = mc_calendar cfg (venue (req_symbol r)), rc_rules = mc_rules cfg,
      rc_locate_available = mc_locate cfg r,
      rc_gross_notional = gross_notional (om_books m) (\<lambda>y. map_option fst (om_instruments m y)) exclude
                            (map_option ins_currency inst)\<rparr>"

section \<open>Refusals\<close>

datatype refusal = KillSwitchOn | JournalFailure | ReconciliationBlind | StreamDown

text \<open>
  \<open>_check_can_trade\<close> after its merge of the kill switch. \<open>_journal_failed\<close> is set by \<open>_record_now\<close>, which
  notes it in the books, and by \<open>_record_kill\<close>, which notes it in the kill switch.
\<close>

definition trade_refusal :: "manager \<Rightarrow> refusal option" where
  "trade_refusal m =
     (if kill_engaged (om_kill m) then Some KillSwitchOn
      else if bk_failed (om_books m) \<or> km_journal_failed (om_kill m) then Some JournalFailure
      else if om_blind m then Some ReconciliationBlind
      else if \<not> om_healthy m then Some StreamDown
      else None)"

text \<open>\<open>_existing_order\<close>: the first component of a success is the order already known under this id.\<close>

definition existing_order :: "manager \<Rightarrow> order_request \<Rightarrow> order_state option result" where
  "existing_order m r =
     (case order_of m (req_cid r) of
        None \<Rightarrow> Inr None
      | Some s \<Rightarrow> if st_request s \<noteq> r then Inl ValidationError else Inr (Some s))"

definition send_refusal :: "manager \<Rightarrow> string \<Rightarrow> string option" where
  "send_refusal m cid =
     (if cid \<in> om_cancel_first m then Some ''CANCELED_BEFORE_SEND''
      else if kill_engaged (om_kill m) then Some ''KILL_SWITCH'' else None)"

definition refused_send :: "string \<Rightarrow> event_body" where
  "refused_send code = Rejected ''stopped before the order was sent'' (Some code)"

text \<open>\<open>_close_unsent\<close>: the code under which it records a refusal, if it does.\<close>

definition close_unsent :: "manager \<Rightarrow> string \<Rightarrow> string \<Rightarrow> event_body option" where
  "close_unsent m cid code =
     (case order_of m cid of
        None \<Rightarrow> None
      | Some s \<Rightarrow> if st_status s = PENDING_SUBMIT then Some (refused_send code) else None)"

section \<open>What a venue call came to\<close>

datatype venue_answer =
    VReturned string
  | VAmbiguous string
  | VDuplicateId string "string option"
  | VVenueError string "string option"
  | VAuthError string
  | VRateLimited string
  | VTransport string
  | VOther string
  | VCancelled

text \<open>\<open>_place\<close>: the event recorded for each answer.\<close>

definition place_outcome :: "venue_answer \<Rightarrow> event_origin \<times> event_body" where
  "place_outcome answer =
     (case answer of
        VReturned venue_id \<Rightarrow> (VENUE, Acknowledged venue_id)
      | VAmbiguous msg \<Rightarrow> (OMS, OutcomeUnknown msg)
      | VDuplicateId msg code \<Rightarrow> (OMS, OutcomeUnknown msg)
      | VVenueError msg code \<Rightarrow> (VENUE, Rejected msg code)
      | VAuthError msg \<Rightarrow> (VENUE, Rejected msg (Some ''AuthError''))
      | VRateLimited msg \<Rightarrow> (VENUE, Rejected msg (Some ''RateLimited''))
      | VTransport msg \<Rightarrow> (VENUE, Rejected msg (Some ''NOT_DELIVERED''))
      | VCancelled \<Rightarrow> (OMS, OutcomeUnknown ''caller cancelled during the send'')
      | VOther msg \<Rightarrow> (OMS, OutcomeUnknown msg))"

text \<open>\<open>cancel\<close> and \<open>amend\<close>: \<open>None\<close> when nothing is recorded.\<close>

definition cancel_outcome :: "venue_answer \<Rightarrow> (event_origin \<times> event_body) option" where
  "cancel_outcome answer =
     (case answer of
        VReturned _ \<Rightarrow> None
      | VDuplicateId msg code \<Rightarrow> Some (VENUE, CancelRejected msg code)
      | VVenueError msg code \<Rightarrow> Some (VENUE, CancelRejected msg code)
      | VCancelled \<Rightarrow> None
      | VAmbiguous msg \<Rightarrow> Some (OMS, OutcomeUnknown (''cancel: '' @ msg))
      | VAuthError msg \<Rightarrow> Some (OMS, OutcomeUnknown (''cancel: '' @ msg))
      | VRateLimited msg \<Rightarrow> Some (OMS, OutcomeUnknown (''cancel: '' @ msg))
      | VTransport msg \<Rightarrow> Some (OMS, OutcomeUnknown (''cancel: '' @ msg))
      | VOther msg \<Rightarrow> Some (OMS, OutcomeUnknown (''cancel: '' @ msg)))"

definition amend_outcome :: "venue_answer \<Rightarrow> (event_origin \<times> event_body) option" where
  "amend_outcome answer =
     (case answer of
        VReturned _ \<Rightarrow> None
      | VDuplicateId msg code \<Rightarrow> Some (VENUE, ReplaceRejected msg code)
      | VVenueError msg code \<Rightarrow> Some (VENUE, ReplaceRejected msg code)
      | VCancelled \<Rightarrow> None
      | VAmbiguous msg \<Rightarrow> Some (OMS, OutcomeUnknown (''amend: '' @ msg))
      | VAuthError msg \<Rightarrow> Some (OMS, OutcomeUnknown (''amend: '' @ msg))
      | VRateLimited msg \<Rightarrow> Some (OMS, OutcomeUnknown (''amend: '' @ msg))
      | VTransport msg \<Rightarrow> Some (OMS, OutcomeUnknown (''amend: '' @ msg))
      | VOther msg \<Rightarrow> Some (OMS, OutcomeUnknown (''amend: '' @ msg)))"

section \<open>Cancel and amend\<close>

datatype cancel_choice = CancelReturns | CancelDeferred | CancelRefusesSend | CancelAsksVenue

text \<open>\<open>cancel\<close> up to its first await; a deferred cancel leaves the choice to the send path.\<close>

definition cancel_begin :: "manager \<Rightarrow> string \<Rightarrow> rat \<Rightarrow> (manager \<times> cancel_choice) result" where
  "cancel_begin m cid mt =
     (case order_of m cid of
        None \<Rightarrow> Inl ValidationError
      | Some s \<Rightarrow>
          if is_terminal s then Inr (m, CancelReturns)
          else if cid \<in> om_submitting m \<and> cid \<notin> om_placing m
          then Inr (m\<lparr>om_cancel_first := insert cid (om_cancel_first m)\<rparr>, CancelDeferred)
          else if st_status s = PENDING_SUBMIT then Inr (m, CancelRefusesSend)
          else Inr (m\<lparr>om_change_at := (om_change_at m)(cid \<mapsto> mt)\<rparr>, CancelAsksVenue))"

text \<open>\<open>cancel_all\<close>: whether an open order is sent a cancel now.\<close>

definition cancel_again :: "manager_config \<Rightarrow> manager \<Rightarrow> rat \<Rightarrow> order_state \<Rightarrow> bool" where
  "cancel_again cfg m mt s =
     (if st_status s = PENDING_CANCEL
      then (case om_change_at m (state_cid s) of
              None \<Rightarrow> True | Some sent \<Rightarrow> mc_cancel_retry cfg \<le> mt - sent)
      else True)"

definition cancel_all_targets :: "manager_config \<Rightarrow> manager \<Rightarrow> rat \<Rightarrow> symbol option \<Rightarrow> string list" where
  "cancel_all_targets cfg m mt y =
     map state_cid (filter (cancel_again cfg m mt) (open_orders (om_books m) y))"

text \<open>\<open>_amended_request\<close>.\<close>

definition amended_request ::
    "manager \<Rightarrow> string \<Rightarrow> rat option \<Rightarrow> rat option \<Rightarrow> order_request result" where
  "amended_request m cid quantity limit_price =
     (case order_of m cid of
        None \<Rightarrow> Inl ValidationError
      | Some s \<Rightarrow>
          if st_status s \<notin> set WORKING_STATUSES then Inl OrderStateError
          else if (case quantity of None \<Rightarrow> False | Some q \<Rightarrow> q \<le> st_filled_quantity s) then Inl ValidationError
          else
            (let new_total = (case quantity of Some q \<Rightarrow> q | None \<Rightarrow> st_quantity s);
                 r = (st_request s)\<lparr>req_quantity := new_total - st_filled_quantity s,
                        req_limit_price := (case limit_price of
                                              Some p \<Rightarrow> Some p
                                            | None \<Rightarrow> (case st_limit_price s of
                                                        Some p \<Rightarrow> Some p
                                                      | None \<Rightarrow> req_limit_price (st_request s)))\<rparr>
             in if valid_order_request r then Inr r else Inl ValidationError))"

text \<open>\<open>_refuse_amend\<close>: the event it records, if any terms are left to clear.\<close>

definition refuse_amend :: "manager \<Rightarrow> string \<Rightarrow> string \<Rightarrow> event_body option" where
  "refuse_amend m cid code =
     (case order_of m cid of
        None \<Rightarrow> None
      | Some s \<Rightarrow>
          if st_pending_quantity s = None \<and> st_pending_limit_price s = None then None
          else Some (ReplaceRejected ''stopped before the amendment was sent'' (Some code)))"

section \<open>Recording\<close>

text \<open>
  \<open>_halt\<close>: the engage it starts runs in its own task. \<open>_raise_anomaly\<close> halts only once started.
\<close>

definition halt_manager :: "manager \<Rightarrow> string \<Rightarrow> manager" where
  "halt_manager m reason =
     (let p = \<lparr>kp_reason = JStr reason, kp_operator = JStr ''oms'', kp_cancel_open = False\<rparr>
      in case engage_begin (om_kill m) p of
           (k, prior) \<Rightarrow> m\<lparr>om_kill := k, om_kill_tasks := SettleStart prior p # om_kill_tasks m\<rparr>)"

definition raise_anomaly :: "manager_config \<Rightarrow> string \<Rightarrow> manager \<Rightarrow> anomaly \<Rightarrow> manager" where
  "raise_anomaly cfg cid m a =
     (if om_started m \<and> is_halting a then halt_manager m (''order '' @ cid @ '': '' @ mc_message cfg a) else m)"

definition record_event ::
    "manager_config \<Rightarrow> (nat \<Rightarrow> bool) \<Rightarrow> int \<Rightarrow> rat \<Rightarrow> event_journal \<Rightarrow> manager \<Rightarrow> order_event \<Rightarrow> bool \<Rightarrow>
     nat option \<Rightarrow> event_journal \<times> manager \<times> order_state result" where
  "record_event cfg disk now mt j m e durable only_if =
     (case record_now (write_entry disk now) (max_age_of m) now mt j (om_books m) e durable only_if of
        (j', b', Inl err) \<Rightarrow> (j', m\<lparr>om_books := b'\<rparr>, Inl err)
      | (j', b', Inr (s, anomalies)) \<Rightarrow>
          (j', foldl (raise_anomaly cfg (ev_cid e)) (m\<lparr>om_books := b'\<rparr>) anomalies, Inr s))"

definition local_event :: "string \<Rightarrow> int \<Rightarrow> event_origin \<Rightarrow> event_body \<Rightarrow> order_event" where
  "local_event cid now origin body = \<lparr>ev_cid = cid, ev_ts = now, ev_origin = origin, ev_body = body\<rparr>"

section \<open>Restart\<close>

text \<open>
  \<open>_recover\<close> from the replay on: the kill switch comes from the journal, a halt that was not recorded is
  engaged again, and what each open order still being sent is recorded as. The bookkeeping of sends
  belongs to calls of the old process, of which a new one has none.
\<close>

definition recover_halt ::
    "manager_config \<Rightarrow> manager \<Rightarrow> (int \<times> string \<times> anomaly) option \<Rightarrow> manager" where
  "recover_halt cfg m halting =
     (case halting of
        None \<Rightarrow> m
      | Some (seq, cid, a) \<Rightarrow>
          if ks_seq (snd (km_kill (om_kill m))) < seq
          then halt_manager m (''order '' @ cid @ '': '' @ mc_message cfg a) else m)"

definition recovery_events :: "books \<Rightarrow> (string \<times> event_origin \<times> event_body) list" where
  "recovery_events b =
     concat (map (\<lambda>s. if st_status s = PENDING_SUBMIT
                      then [(state_cid s, RECONCILE, Rejected ''the send never started; never sent'' (Some ''NEVER_SENT''))]
                      else if st_status s = SUBMITTING
                      then [(state_cid s, OMS, OutcomeUnknown ''process stopped during the send'')]
                      else []) (bk_open b))"

definition blank_manager :: "risk_config \<Rightarrow> manager" where
  "blank_manager rc =
     \<lparr>om_started = False, om_books = empty_books, om_engine = new_engine rc, om_kill = initial_kill no_kill,
      om_kill_tasks = [], om_submitting = {}, om_placing = {}, om_cancel_first = {},
      om_instruments = Map.empty, om_change_at = Map.empty, om_suspect = Map.empty, om_blind = False,
      om_healthy = False, om_submit_lock = False\<rparr>"

definition recover_manager ::
    "manager_config \<Rightarrow> (string \<Rightarrow> json option) \<Rightarrow> risk_config \<Rightarrow> int \<Rightarrow> rat \<Rightarrow> event_journal \<Rightarrow>
     (int \<times> string \<times> string) list \<Rightarrow> manager result" where
  "recover_manager cfg loads rc now mt j rows =
     bind_result (recover_books (cfg_max_reference_age rc) now mt empty_books (ej_entries j)) (\<lambda>(b, halting).
       Inr (recover_halt cfg ((blank_manager rc)
              \<lparr>om_books := b, om_kill := initial_kill (kill_state_from loads rows)\<rparr>) halting))"

text \<open>The check \<open>_start\<close> makes once recovered: limits may change only through a journalled change.\<close>

definition limits_match :: "manager \<Rightarrow> bool" where
  "limits_match m =
     (case bk_config (om_books m) of None \<Rightarrow> True | Some c \<Rightarrow> c = re_config (om_engine m))"

end
