(* ===== verification/SendPath.thy ===== *)
theory SendPath
  imports Manager
begin

text \<open>
  \<open>submit\<close>, \<open>_send\<close>, \<open>_place\<close>, \<open>cancel\<close> and \<open>amend\<close> of \<open>execution/manager.py\<close>, each cut at its awaits: a
  \<open>task\<close> says where a call stands, and \<open>advance\<close> is what it does when the event loop resumes it with the
  awaited result. \<open>om_step\<close> interleaves the tasks of any number of managers on one journal with the
  kill switch of each, the events the venue reports, failing writes, cancelled callers and restarts.

  \<open>wd_placed\<close> and \<open>wd_amended\<close> are what was handed to the venue, each with the number of kill rows the
  journal had when the send, or the change, had been recorded; the code does not keep them.
\<close>

section \<open>Where a call stands\<close>

datatype finish = FinishSubmit | FinishIntent | FinishPlain

datatype task =
    SubmitStart order_request
  | SubmitWait order_request "instrument option" "quote option"
  | SubmitCheck order_request "instrument option" "quote option" kill_task
  | RejectWrite string
  | IntentWrite order_request
  | SendBegin order_request
  | StartWrite order_request
  | SendCheck order_request nat kill_task
  | PlaceCall order_request
  | FinalWrite string event_origin event_body finish
  | CancelStart string
  | CancelWrite string
  | CancelCall string
  | AmendStart string "rat option" "rat option"
  | AmendWait string "rat option" "rat option" "instrument option" "quote option"
  | AmendCheck string order_request "rat option" "rat option" "instrument option" "quote option" kill_task
  | ReplaceWrite string "rat option" "rat option"
  | AmendKill string "rat option" "rat option" nat kill_task
  | AmendCall string "rat option" "rat option"

record world =
  wd_journal :: event_journal
  wd_rows :: "(int \<times> string \<times> string) list"
  wd_placed :: "(order_request \<times> nat) list"
  wd_amended :: "(string \<times> nat) list"

text \<open>What a resumed task finds: the clocks, whether writes succeed, and the awaited result.\<close>

record input =
  in_now :: int
  in_mono :: rat
  in_disk :: "nat \<Rightarrow> bool"
  in_intact :: bool
  in_fails :: bool
  in_cancelled :: bool
  in_answer :: venue_answer
  in_instrument :: "instrument option"
  in_quote :: "quote option"
  in_quotes :: "symbol \<Rightarrow> quote option"
  in_instruments :: "symbol \<Rightarrow> instrument option"

type_synonym outcome = "world \<times> manager \<times> task option"

definition finish_call :: "finish \<Rightarrow> string \<Rightarrow> manager \<Rightarrow> manager" where
  "finish_call fin cid m =
     (case fin of
        FinishSubmit \<Rightarrow>
          m\<lparr>om_placing := om_placing m - {cid}, om_submitting := om_submitting m - {cid},
            om_cancel_first := om_cancel_first m - {cid}\<rparr>
      | FinishIntent \<Rightarrow> m\<lparr>om_submitting := om_submitting m - {cid}, om_submit_lock := False\<rparr>
      | FinishPlain \<Rightarrow> m)"

definition do_record ::
    "manager_config \<Rightarrow> input \<Rightarrow> world \<Rightarrow> manager \<Rightarrow> string \<Rightarrow> event_origin \<Rightarrow> event_body \<Rightarrow> bool \<Rightarrow>
     world \<times> manager \<times> order_state result" where
  "do_record cfg i w m cid origin body durable =
     (case record_event cfg (in_disk i) (in_now i) (in_mono i) (wd_journal w) m
             (local_event cid (in_now i) origin body) durable None of
        (j', m', res) \<Rightarrow> (w\<lparr>wd_journal := j'\<rparr>, m', res))"

section \<open>Submit\<close>

text \<open>The lookups before the lock are taken together; they touch only the caches and the marks.\<close>

definition submit_start :: "manager_config \<Rightarrow> input \<Rightarrow> world \<Rightarrow> manager \<Rightarrow> order_request \<Rightarrow> outcome" where
  "submit_start cfg i w m r =
     (if \<not> om_started m then (w, m, None)
      else case existing_order m r of
        Inl err \<Rightarrow> (w, m, None)
      | Inr (Some s) \<Rightarrow> (w, m, None)
      | Inr None \<Rightarrow>
          (case lookup_instrument cfg m (in_mono i) (req_symbol r) (in_instrument i) of
             (m1, inst) \<Rightarrow>
               (w, refresh_marks cfg (adopt_quote m1 (in_now i) (in_mono i) (req_symbol r) (in_quote i))
                     r (in_now i) (in_mono i) (in_quotes i) (in_instruments i),
                Some (SubmitWait r inst (in_quote i)))))"

definition submit_wait ::
    "world \<Rightarrow> manager \<Rightarrow> order_request \<Rightarrow> instrument option \<Rightarrow> quote option \<Rightarrow> outcome" where
  "submit_wait w m r inst reference =
     (if om_submit_lock m then (w, m, Some (SubmitWait r inst reference))
      else case existing_order m r of
        Inr None \<Rightarrow> (w, m\<lparr>om_submit_lock := True\<rparr>, Some (SubmitCheck r inst reference MergeRead))
      | _ \<Rightarrow> (w, m, None))"

definition unlock :: "manager \<Rightarrow> manager" where
  "unlock m = m\<lparr>om_submit_lock := False\<rparr>"

definition submit_check ::
    "manager_config \<Rightarrow> (string \<Rightarrow> json option) \<Rightarrow> input \<Rightarrow> world \<Rightarrow> manager \<Rightarrow> order_request \<Rightarrow>
     instrument option \<Rightarrow> quote option \<Rightarrow> kill_task \<Rightarrow> outcome" where
  "submit_check cfg loads i w m r inst reference t =
     (if in_fails i \<or> in_cancelled i then (w, unlock m, None)
      else case merge_advance loads (om_kill m) (wd_rows w) (in_intact i) t of
        (k, Some t') \<Rightarrow> (w, m\<lparr>om_kill := k\<rparr>, Some (SubmitCheck r inst reference t'))
      | (k, None) \<Rightarrow>
          (let m1 = m\<lparr>om_kill := k\<rparr> in
           if trade_refusal m1 \<noteq> None then (w, unlock m1, None)
           else case check_order (om_engine m1) (risk_context_of cfg m1 r inst reference (in_now i) None) False of
             (e, APPROVED_ORDER) \<Rightarrow>
               (w, m1\<lparr>om_engine := e, om_submitting := insert (req_cid r) (om_submitting m1)\<rparr>,
                Some (IntentWrite r))
           | (e, REJECTED_ORDER chk) \<Rightarrow> (w, m1\<lparr>om_engine := e\<rparr>, Some (RejectWrite chk))))"

definition append_entry :: "(nat \<Rightarrow> bool) \<Rightarrow> int \<Rightarrow> event_journal \<Rightarrow> entry \<Rightarrow> event_journal" where
  "append_entry disk now j en =
     (let j1 = j\<lparr>ej_attempts := ej_attempts j + 1\<rparr>
      in if disk (ej_attempts j)
         then j1\<lparr>ej_entries := ej_entries j @
                   [\<lparr>je_seq = int (length (ej_entries j)) + 1, je_ts = now, je_entry = en\<rparr>]\<rparr>
         else j1)"

definition reject_write :: "input \<Rightarrow> world \<Rightarrow> manager \<Rightarrow> string \<Rightarrow> outcome" where
  "reject_write i w m chk =
     (w\<lparr>wd_journal := append_entry (in_disk i) (in_now i) (wd_journal w) (ERiskReject chk)\<rparr>, unlock m, None)"

text \<open>A cancelled write still finished, so an intent it left behind is closed, under the lock.\<close>

definition intent_write :: "manager_config \<Rightarrow> input \<Rightarrow> world \<Rightarrow> manager \<Rightarrow> order_request \<Rightarrow> outcome" where
  "intent_write cfg i w m r =
     (case do_record cfg i w m (req_cid r) OMS (SubmitIntent r) True of
        (w', m', res) \<Rightarrow>
          if in_cancelled i
          then (case close_unsent m' (req_cid r) ''CANCELED_BEFORE_SEND'' of
                  None \<Rightarrow> (w', finish_call FinishIntent (req_cid r) m', None)
                | Some body \<Rightarrow> (w', m', Some (FinalWrite (req_cid r) OMS body FinishIntent)))
          else (case res of
                  Inl err \<Rightarrow> (w', finish_call FinishIntent (req_cid r) m', None)
                | Inr s \<Rightarrow> (w', unlock m', Some (SendBegin r))))"

text \<open>The handlers around \<open>_send\<close> in \<open>submit\<close>.\<close>

definition stop_send :: "world \<Rightarrow> manager \<Rightarrow> string \<Rightarrow> string \<Rightarrow> outcome" where
  "stop_send w m cid code =
     (case close_unsent m cid code of
        None \<Rightarrow> (w, finish_call FinishSubmit cid m, None)
      | Some body \<Rightarrow> (w, m, Some (FinalWrite cid OMS body FinishSubmit)))"

definition refuse_send :: "world \<Rightarrow> manager \<Rightarrow> string \<Rightarrow> string \<Rightarrow> outcome" where
  "refuse_send w m cid code = (w, m, Some (FinalWrite cid OMS (refused_send code) FinishSubmit))"

text \<open>\<open>in_fails\<close> is a raising checkpoint hook here, in \<open>start_write\<close> and in \<open>place_call\<close>.\<close>

definition send_begin :: "input \<Rightarrow> world \<Rightarrow> manager \<Rightarrow> order_request \<Rightarrow> outcome" where
  "send_begin i w m r =
     (let cid = req_cid r in
      if in_fails i then stop_send w m cid ''NEVER_SENT''
      else case order_of m cid of
        None \<Rightarrow> stop_send w m cid ''NEVER_SENT''
      | Some s \<Rightarrow>
          if st_status s \<noteq> PENDING_SUBMIT then (w, finish_call FinishSubmit cid m, None)
          else (case send_refusal m cid of
                  Some code \<Rightarrow> refuse_send w m cid code
                | None \<Rightarrow> (w, m, Some (StartWrite r))))"

definition start_write :: "manager_config \<Rightarrow> input \<Rightarrow> world \<Rightarrow> manager \<Rightarrow> order_request \<Rightarrow> outcome" where
  "start_write cfg i w m r =
     (let cid = req_cid r in
      case do_record cfg i w m cid OMS (SendStarted (mc_send_record_id cfg)) True of
        (w', m', res) \<Rightarrow>
          if in_cancelled i then stop_send w' m' cid ''CANCELED_BEFORE_SEND''
          else (case res of
                  Inl err \<Rightarrow> stop_send w' m' cid ''NEVER_SENT''
                | Inr s \<Rightarrow>
                    if in_fails i then stop_send w' m' cid ''NEVER_SENT''
                    else if st_status s \<noteq> SUBMITTING then (w', finish_call FinishSubmit cid m', None)
                    else if cid \<in> om_cancel_first m' then refuse_send w' m' cid ''CANCELED_BEFORE_SEND''
                    else (w', m', Some (SendCheck r (length (wd_rows w')) MergeRead))))"

definition send_check ::
    "(string \<Rightarrow> json option) \<Rightarrow> input \<Rightarrow> world \<Rightarrow> manager \<Rightarrow> order_request \<Rightarrow> nat \<Rightarrow> kill_task \<Rightarrow> outcome" where
  "send_check loads i w m r n t =
     (let cid = req_cid r in
      if in_cancelled i then refuse_send w m cid ''CANCELED_BEFORE_SEND''
      else if in_fails i then refuse_send w m cid ''JOURNAL_UNREADABLE''
      else case merge_advance loads (om_kill m) (wd_rows w) (in_intact i) t of
        (k, Some t') \<Rightarrow> (w, m\<lparr>om_kill := k\<rparr>, Some (SendCheck r n t'))
      | (k, None) \<Rightarrow>
          (let m1 = m\<lparr>om_kill := k\<rparr> in
           case send_refusal m1 cid of
             Some code \<Rightarrow> refuse_send w m1 cid code
           | None \<Rightarrow> (w\<lparr>wd_placed := wd_placed w @ [(r, n)]\<rparr>,
                      m1\<lparr>om_placing := insert cid (om_placing m1)\<rparr>, Some (PlaceCall r))))"

definition place_call :: "input \<Rightarrow> world \<Rightarrow> manager \<Rightarrow> order_request \<Rightarrow> outcome" where
  "place_call i w m r =
     (case in_answer i of
        VReturned v \<Rightarrow>
          if in_fails i then stop_send w m (req_cid r) ''NEVER_SENT''
          else (w, m, Some (FinalWrite (req_cid r) VENUE (Acknowledged v) FinishSubmit))
      | answer \<Rightarrow>
          (case place_outcome answer of
             (origin, body) \<Rightarrow> (w, m, Some (FinalWrite (req_cid r) origin body FinishSubmit))))"

definition final_write ::
    "manager_config \<Rightarrow> input \<Rightarrow> world \<Rightarrow> manager \<Rightarrow> string \<Rightarrow> event_origin \<Rightarrow> event_body \<Rightarrow> finish \<Rightarrow> outcome" where
  "final_write cfg i w m cid origin body fin =
     (case do_record cfg i w m cid origin body False of
        (w', m', res) \<Rightarrow> (w', finish_call fin cid m', None))"

section \<open>Cancel\<close>

definition cancel_start :: "input \<Rightarrow> world \<Rightarrow> manager \<Rightarrow> string \<Rightarrow> outcome" where
  "cancel_start i w m cid =
     (if \<not> om_started m then (w, m, None)
      else case cancel_begin m cid (in_mono i) of
        Inl err \<Rightarrow> (w, m, None)
      | Inr (m', CancelRefusesSend) \<Rightarrow>
          (w, m', Some (FinalWrite cid OMS (refused_send ''CANCELED_BEFORE_SEND'') FinishPlain))
      | Inr (m', CancelAsksVenue) \<Rightarrow> (w, m', Some (CancelWrite cid))
      | Inr (m', _) \<Rightarrow> (w, m', None))"

definition cancel_write :: "manager_config \<Rightarrow> input \<Rightarrow> world \<Rightarrow> manager \<Rightarrow> string \<Rightarrow> outcome" where
  "cancel_write cfg i w m cid =
     (case do_record cfg i w m cid OMS CancelRequested False of
        (w', m', res) \<Rightarrow> (w', m', if in_cancelled i then None else Some (CancelCall cid)))"

definition record_outcome :: "world \<Rightarrow> manager \<Rightarrow> string \<Rightarrow> (event_origin \<times> event_body) option \<Rightarrow> outcome" where
  "record_outcome w m cid result =
     (w, m, case result of None \<Rightarrow> None | Some (origin, body) \<Rightarrow> Some (FinalWrite cid origin body FinishPlain))"

section \<open>Amend\<close>

definition amend_start ::
    "manager_config \<Rightarrow> input \<Rightarrow> world \<Rightarrow> manager \<Rightarrow> string \<Rightarrow> rat option \<Rightarrow> rat option \<Rightarrow> outcome" where
  "amend_start cfg i w m cid quantity limit_price =
     (if \<not> om_started m \<or> (case mc_rules cfg of None \<Rightarrow> True | Some rules \<Rightarrow> \<not> supports_amend rules)
      then (w, m, None)
      else case amended_request m cid quantity limit_price of
        Inl err \<Rightarrow> (w, m, None)
      | Inr r \<Rightarrow>
          (case lookup_instrument cfg m (in_mono i) (req_symbol r) (in_instrument i) of
             (m1, inst) \<Rightarrow>
               (w, refresh_marks cfg (adopt_quote m1 (in_now i) (in_mono i) (req_symbol r) (in_quote i))
                     r (in_now i) (in_mono i) (in_quotes i) (in_instruments i),
                Some (AmendWait cid quantity limit_price inst (in_quote i)))))"

definition amend_wait ::
    "world \<Rightarrow> manager \<Rightarrow> string \<Rightarrow> rat option \<Rightarrow> rat option \<Rightarrow> instrument option \<Rightarrow> quote option \<Rightarrow> outcome" where
  "amend_wait w m cid quantity limit_price inst reference =
     (if om_submit_lock m then (w, m, Some (AmendWait cid quantity limit_price inst reference))
      else case amended_request m cid quantity limit_price of
        Inl err \<Rightarrow> (w, m, None)
      | Inr r \<Rightarrow> (w, m\<lparr>om_submit_lock := True\<rparr>,
                  Some (AmendCheck cid r quantity limit_price inst reference MergeRead)))"

definition amend_check ::
    "manager_config \<Rightarrow> (string \<Rightarrow> json option) \<Rightarrow> input \<Rightarrow> world \<Rightarrow> manager \<Rightarrow> string \<Rightarrow> order_request \<Rightarrow>
     rat option \<Rightarrow> rat option \<Rightarrow> instrument option \<Rightarrow> quote option \<Rightarrow> kill_task \<Rightarrow> outcome" where
  "amend_check cfg loads i w m cid amended quantity limit_price inst reference t =
     (if in_fails i \<or> in_cancelled i then (w, unlock m, None)
      else case merge_advance loads (om_kill m) (wd_rows w) (in_intact i) t of
        (k, Some t') \<Rightarrow>
          (w, m\<lparr>om_kill := k\<rparr>, Some (AmendCheck cid amended quantity limit_price inst reference t'))
      | (k, None) \<Rightarrow>
          (let m1 = m\<lparr>om_kill := k\<rparr> in
           if trade_refusal m1 \<noteq> None then (w, unlock m1, None)
           else case check_order (om_engine m1)
                       (risk_context_of cfg m1 amended inst reference (in_now i) (Some cid)) True of
             (e, APPROVED_ORDER) \<Rightarrow>
               (w, m1\<lparr>om_engine := e, om_change_at := (om_change_at m1)(cid \<mapsto> in_mono i)\<rparr>,
                Some (ReplaceWrite cid quantity limit_price))
           | (e, REJECTED_ORDER chk) \<Rightarrow> (w, m1\<lparr>om_engine := e\<rparr>, Some (RejectWrite chk))))"

definition replace_write ::
    "manager_config \<Rightarrow> input \<Rightarrow> world \<Rightarrow> manager \<Rightarrow> string \<Rightarrow> rat option \<Rightarrow> rat option \<Rightarrow> outcome" where
  "replace_write cfg i w m cid quantity limit_price =
     (case do_record cfg i w m cid OMS (ReplaceRequested quantity limit_price) True of
        (w', m', res) \<Rightarrow>
          (w', unlock m',
           if in_cancelled i then None
           else (case res of
                   Inl err \<Rightarrow> None
                 | Inr s \<Rightarrow> Some (AmendKill cid quantity limit_price (length (wd_rows w')) MergeRead))))"

definition stop_amend :: "world \<Rightarrow> manager \<Rightarrow> string \<Rightarrow> string \<Rightarrow> outcome" where
  "stop_amend w m cid code =
     (w, m, case refuse_amend m cid code of
              None \<Rightarrow> None | Some body \<Rightarrow> Some (FinalWrite cid OMS body FinishPlain))"

definition amend_kill ::
    "(string \<Rightarrow> json option) \<Rightarrow> input \<Rightarrow> world \<Rightarrow> manager \<Rightarrow> string \<Rightarrow> rat option \<Rightarrow> rat option \<Rightarrow> nat \<Rightarrow>
     kill_task \<Rightarrow> outcome" where
  "amend_kill loads i w m cid quantity limit_price n t =
     (if in_cancelled i then stop_amend w m cid ''CANCELED_BEFORE_SEND''
      else if in_fails i then stop_amend w m cid ''JOURNAL_UNREADABLE''
      else case merge_advance loads (om_kill m) (wd_rows w) (in_intact i) t of
        (k, Some t') \<Rightarrow> (w, m\<lparr>om_kill := k\<rparr>, Some (AmendKill cid quantity limit_price n t'))
      | (k, None) \<Rightarrow>
          (let m1 = m\<lparr>om_kill := k\<rparr> in
           if map_option st_status (order_of m1 cid) \<noteq> Some PENDING_REPLACE
           then stop_amend w m1 cid ''CANCELED_BEFORE_SEND''
           else if kill_engaged (om_kill m1) then stop_amend w m1 cid ''KILL_SWITCH''
           else (w\<lparr>wd_amended := wd_amended w @ [(cid, n)]\<rparr>, m1,
                 Some (AmendCall cid quantity limit_price))))"

section \<open>Interleaving\<close>

fun advance ::
    "manager_config \<Rightarrow> (string \<Rightarrow> json option) \<Rightarrow> input \<Rightarrow> world \<Rightarrow> manager \<Rightarrow> task \<Rightarrow> outcome" where
  "advance cfg loads i w m (SubmitStart r) = submit_start cfg i w m r"
| "advance cfg loads i w m (SubmitWait r inst q) = submit_wait w m r inst q"
| "advance cfg loads i w m (SubmitCheck r inst q t) = submit_check cfg loads i w m r inst q t"
| "advance cfg loads i w m (RejectWrite chk) = reject_write i w m chk"
| "advance cfg loads i w m (IntentWrite r) = intent_write cfg i w m r"
| "advance cfg loads i w m (SendBegin r) = send_begin i w m r"
| "advance cfg loads i w m (StartWrite r) = start_write cfg i w m r"
| "advance cfg loads i w m (SendCheck r n t) = send_check loads i w m r n t"
| "advance cfg loads i w m (PlaceCall r) = place_call i w m r"
| "advance cfg loads i w m (FinalWrite cid origin body fin) = final_write cfg i w m cid origin body fin"
| "advance cfg loads i w m (CancelStart cid) = cancel_start i w m cid"
| "advance cfg loads i w m (CancelWrite cid) = cancel_write cfg i w m cid"
| "advance cfg loads i w m (CancelCall cid) = record_outcome w m cid (cancel_outcome (in_answer i))"
| "advance cfg loads i w m (AmendStart cid q p) = amend_start cfg i w m cid q p"
| "advance cfg loads i w m (AmendWait cid q p inst ref) = amend_wait w m cid q p inst ref"
| "advance cfg loads i w m (AmendCheck cid r q p inst ref t) = amend_check cfg loads i w m cid r q p inst ref t"
| "advance cfg loads i w m (ReplaceWrite cid q p) = replace_write cfg i w m cid q p"
| "advance cfg loads i w m (AmendKill cid q p n t) = amend_kill loads i w m cid q p n t"
| "advance cfg loads i w m (AmendCall cid q p) = record_outcome w m cid (amend_outcome (in_answer i))"

fun is_call :: "task \<Rightarrow> bool" where
  "is_call (SubmitStart _) = True"
| "is_call (CancelStart _) = True"
| "is_call (AmendStart _ _ _) = True"
| "is_call _ = False"

record om_sys =
  sy_world :: world
  sy_managers :: "nat \<Rightarrow> manager"
  sy_tasks :: "(nat \<times> task) list"

definition resume_with :: "(nat \<times> task) list \<Rightarrow> nat \<Rightarrow> task option \<Rightarrow> (nat \<times> task) list \<Rightarrow> (nat \<times> task) list" where
  "resume_with xs p nxt ys = (case nxt of None \<Rightarrow> xs @ ys | Some t \<Rightarrow> xs @ (p, t) # ys)"

text \<open>What else may change in a manager between two steps: everything but its orders and its sends.\<close>

definition same_sends :: "manager \<Rightarrow> manager \<Rightarrow> bool" where
  "same_sends m m' \<longleftrightarrow>
     bk_orders (om_books m') = bk_orders (om_books m) \<and> bk_open (om_books m') = bk_open (om_books m) \<and>
     bk_filled_net (om_books m') = bk_filled_net (om_books m) \<and> bk_seen (om_books m') = bk_seen (om_books m) \<and>
     bk_unjournalled (om_books m') = bk_unjournalled (om_books m) \<and>
     om_started m' = om_started m \<and> om_kill m' = om_kill m \<and> om_kill_tasks m' = om_kill_tasks m \<and>
     om_submitting m' = om_submitting m \<and> om_placing m' = om_placing m \<and>
     om_cancel_first m' = om_cancel_first m \<and> om_submit_lock m' = om_submit_lock m"

inductive om_step ::
    "(nat \<Rightarrow> manager_config) \<Rightarrow> (nat \<Rightarrow> risk_config) \<Rightarrow> (string \<Rightarrow> json option) \<Rightarrow>
     ((string \<times> json) list \<Rightarrow> string) \<Rightarrow> om_sys \<Rightarrow> om_sys \<Rightarrow> bool"
  for cfg rc loads dumps where
  call:
    "is_call t \<Longrightarrow>
     om_step cfg rc loads dumps \<lparr>sy_world = w, sy_managers = ms, sy_tasks = ts\<rparr>
       \<lparr>sy_world = w, sy_managers = ms, sy_tasks = (p, t) # ts\<rparr>"
| run:
    "advance (cfg p) loads i w (ms p) t = (w', m', nxt) \<Longrightarrow>
     om_step cfg rc loads dumps \<lparr>sy_world = w, sy_managers = ms, sy_tasks = xs @ (p, t) # ys\<rparr>
       \<lparr>sy_world = w', sy_managers = ms(p := m'), sy_tasks = resume_with xs p nxt ys\<rparr>"
| switch:
    "switch_step loads dumps
       \<lparr>ky_mem = om_kill (ms p), ky_rows = wd_rows w, ky_tasks = om_kill_tasks (ms p)\<rparr>
       \<lparr>ky_mem = k, ky_rows = rows, ky_tasks = kts\<rparr> \<Longrightarrow>
     om_step cfg rc loads dumps \<lparr>sy_world = w, sy_managers = ms, sy_tasks = ts\<rparr>
       \<lparr>sy_world = w\<lparr>wd_rows := rows\<rparr>, sy_managers = ms(p := (ms p)\<lparr>om_kill := k, om_kill_tasks := kts\<rparr>),
        sy_tasks = ts\<rparr>"
| venue_event:
    "\<not> is_intent e \<Longrightarrow>
     record_event (cfg p) disk now mt (wd_journal w) (ms p) e durable only_if = (j', m', res) \<Longrightarrow>
     om_step cfg rc loads dumps \<lparr>sy_world = w, sy_managers = ms, sy_tasks = ts\<rparr>
       \<lparr>sy_world = w\<lparr>wd_journal := j'\<rparr>, sy_managers = ms(p := m'), sy_tasks = ts\<rparr>"
| retry_writes:
    "retry_unjournalled (write_entry disk now) (wd_journal w) (om_books (ms p)) = (j', b') \<Longrightarrow>
     om_step cfg rc loads dumps \<lparr>sy_world = w, sy_managers = ms, sy_tasks = ts\<rparr>
       \<lparr>sy_world = w\<lparr>wd_journal := j'\<rparr>, sy_managers = ms(p := (ms p)\<lparr>om_books := b'\<rparr>), sy_tasks = ts\<rparr>"
| other_memory:
    "same_sends (ms p) m' \<Longrightarrow>
     om_step cfg rc loads dumps \<lparr>sy_world = w, sy_managers = ms, sy_tasks = ts\<rparr>
       \<lparr>sy_world = w, sy_managers = ms(p := m'), sy_tasks = ts\<rparr>"
| other_entry:
    "\<forall>e. en \<noteq> EOrderEvent e \<Longrightarrow>
     om_step cfg rc loads dumps \<lparr>sy_world = w, sy_managers = ms, sy_tasks = ts\<rparr>
       \<lparr>sy_world = w\<lparr>wd_journal := append_entry disk now (wd_journal w) en\<rparr>, sy_managers = ms,
        sy_tasks = ts\<rparr>"
| restart:
    "recover_manager (cfg p) loads (rc p) now mt (wd_journal w) (wd_rows w) = Inr m' \<Longrightarrow>
     om_step cfg rc loads dumps \<lparr>sy_world = w, sy_managers = ms, sy_tasks = ts\<rparr>
       \<lparr>sy_world = w, sy_managers = ms(p := m'),
        sy_tasks = map (\<lambda>(cid, origin, body). (p, FinalWrite cid origin body FinishPlain))
                     (recovery_events (om_books m')) @ filter (\<lambda>(q, t). q \<noteq> p) ts\<rparr>"
| started:
    "\<forall>t. (p, t) \<notin> set ts \<Longrightarrow> limits_match (ms p) \<Longrightarrow>
     om_step cfg rc loads dumps \<lparr>sy_world = w, sy_managers = ms, sy_tasks = ts\<rparr>
       \<lparr>sy_world = w, sy_managers = ms(p := (ms p)\<lparr>om_started := True\<rparr>), sy_tasks = ts\<rparr>"

inductive om_reaches ::
    "(nat \<Rightarrow> manager_config) \<Rightarrow> (nat \<Rightarrow> risk_config) \<Rightarrow> (string \<Rightarrow> json option) \<Rightarrow>
     ((string \<times> json) list \<Rightarrow> string) \<Rightarrow> om_sys \<Rightarrow> om_sys \<Rightarrow> bool"
  for cfg rc loads dumps s where
  om_refl: "om_reaches cfg rc loads dumps s s"
| om_trans: "om_reaches cfg rc loads dumps s s' \<Longrightarrow> om_step cfg rc loads dumps s' s'' \<Longrightarrow> om_reaches cfg rc loads dumps s s''"

definition first_start :: "(nat \<Rightarrow> risk_config) \<Rightarrow> om_sys" where
  "first_start rc =
     \<lparr>sy_world = \<lparr>wd_journal = \<lparr>ej_entries = [], ej_attempts = 0\<rparr>, wd_rows = [], wd_placed = [], wd_amended = []\<rparr>,
      sy_managers = (\<lambda>p. blank_manager (rc p)), sy_tasks = []\<rparr>"


section \<open>What the journal holds\<close>

definition events_of_world :: "world \<Rightarrow> order_event list" where
  "events_of_world w = order_events (ej_entries (wd_journal w))"

definition intent_logged :: "order_event list \<Rightarrow> order_request \<Rightarrow> bool" where
  "intent_logged es r \<longleftrightarrow> (\<exists>e \<in> set es. ev_body e = SubmitIntent r \<and> ev_cid e = req_cid r)"

definition start_logged :: "order_event list \<Rightarrow> string \<Rightarrow> bool" where
  "start_logged es cid \<longleftrightarrow> (\<exists>e \<in> set es. ev_cid e = cid \<and> (\<exists>sid. ev_body e = SendStarted sid))"

definition intended :: "order_event list \<Rightarrow> string set" where
  "intended es = ev_cid ` set (filter is_intent es)"

definition intents_distinct :: "order_event list \<Rightarrow> bool" where
  "intents_distinct es \<longleftrightarrow> distinct (map ev_cid (filter is_intent es))"

lemma intended_simps [simp]:
  "intended [] = {}" "intended (es @ fs) = intended es \<union> intended fs"
  by (auto simp: intended_def)

lemma intent_logged_intended: "intent_logged es r \<Longrightarrow> req_cid r \<in> intended es"
  unfolding intent_logged_def intended_def
  by (elim bexE conjE) (rule rev_image_eqI, auto simp: is_intent_def)

lemma logged_append [simp]:
  "intent_logged es r \<Longrightarrow> intent_logged (es @ fs) r" "start_logged es cid \<Longrightarrow> start_logged (es @ fs) cid"
  by (auto simp: intent_logged_def start_logged_def)

text \<open>A journal that only appends, and never a second intent for one id.\<close>

definition grows :: "order_event list \<Rightarrow> order_event list \<Rightarrow> bool" where
  "grows es fs \<longleftrightarrow> (\<exists>gs. fs = es @ gs) \<and> (intents_distinct es \<longrightarrow> intents_distinct fs)"

lemma grows_refl [simp]: "grows es es"
  by (simp add: grows_def)

lemma grows_trans: "grows es fs \<Longrightarrow> grows fs gs \<Longrightarrow> grows es gs"
  by (auto simp: grows_def)

lemma grows_logged:
  assumes "grows es fs"
  shows "intent_logged es r \<Longrightarrow> intent_logged fs r" "start_logged es cid \<Longrightarrow> start_logged fs cid"
    "intended es \<subseteq> intended fs"
  using assms by (auto simp: grows_def)

lemma write_entry_grows:
  assumes "write_entry disk stamp j e = (j', res)"
  shows "grows (order_events (ej_entries j)) (order_events (ej_entries j'))"
    and "res = Inr u \<Longrightarrow> e \<in> set (order_events (ej_entries j')) \<and>
      (is_intent e \<longrightarrow> ev_cid e \<notin> intended (order_events (ej_entries j)))"
  using assms
  by (force simp: write_entry_def Let_def grows_def intents_distinct_def intended_def split: if_splits)+

lemma write_unjournalled_grows:
  "write_unjournalled (write_entry disk stamp) j es = (j', left, err) \<Longrightarrow>
   grows (order_events (ej_entries j)) (order_events (ej_entries j'))"
proof (induction es arbitrary: j)
  case Nil
  then show ?case by simp
next
  case (Cons e es)
  obtain j1 r where w: "write_entry disk stamp j e = (j1, r)" by fastforce
  note g = write_entry_grows(1) [OF w]
  show ?case
  proof (cases r)
    case (Inl x)
    with Cons.prems w g show ?thesis by simp
  next
    case (Inr x)
    with Cons w g show ?thesis using grows_trans by force
  qed
qed

lemma write_all_grows:
  assumes "write_all (write_entry disk stamp) j backlog e = (j', left, err)"
  shows "grows (order_events (ej_entries j)) (order_events (ej_entries j'))"
    and "err = None \<Longrightarrow> e \<in> set (order_events (ej_entries j')) \<and>
      (is_intent e \<longrightarrow> ev_cid e \<notin> intended (order_events (ej_entries j)))"
proof -
  obtain j1 l1 r1 where w: "write_unjournalled (write_entry disk stamp) j backlog = (j1, l1, r1)"
    using prod_cases3 by blast
  note g1 = write_unjournalled_grows [OF w]
  obtain j2 r2 where w2: "write_entry disk stamp j1 e = (j2, r2)" by fastforce
  note g2 = write_entry_grows [OF w2]
  show "grows (order_events (ej_entries j)) (order_events (ej_entries j'))"
    using assms w w2 g1 grows_trans [OF g1 g2(1)] by (auto simp: write_all_def split: option.splits sum.splits)
  show "err = None \<Longrightarrow> e \<in> set (order_events (ej_entries j')) \<and>
      (is_intent e \<longrightarrow> ev_cid e \<notin> intended (order_events (ej_entries j)))"
    using assms w w2 g2(2) grows_logged(3) [OF g1]
    by (auto simp: write_all_def split: option.splits sum.splits)
qed

lemma retry_grows:
  "retry_unjournalled (write_entry disk now) j b = (j', b') \<Longrightarrow>
   grows (order_events (ej_entries j)) (order_events (ej_entries j'))"
  using write_unjournalled_grows by (fastforce simp: retry_unjournalled_def split: prod.splits)

lemma append_entry_grows:
  assumes "\<forall>e. en \<noteq> EOrderEvent e"
  shows "order_events (ej_entries (append_entry disk now j en)) = order_events (ej_entries j)"
  using assms by (auto simp: append_entry_def Let_def split: entry.splits)

text \<open>What \<open>_record\<close> leaves alone in the manager.\<close>

definition same_calls :: "manager \<Rightarrow> manager \<Rightarrow> bool" where
  "same_calls m m' \<longleftrightarrow>
     om_started m' = om_started m \<and> om_submitting m' = om_submitting m \<and> om_placing m' = om_placing m \<and>
     om_cancel_first m' = om_cancel_first m \<and> om_submit_lock m' = om_submit_lock m \<and>
     om_engine m' = om_engine m"

lemma raise_anomaly_same [simp]:
  "same_calls m (raise_anomaly cfg cid m a)" "om_books (raise_anomaly cfg cid m a) = om_books m"
  by (simp_all add: raise_anomaly_def halt_manager_def Let_def same_calls_def split: prod.splits)

lemma raise_anomalies_same:
  "same_calls m (foldl (raise_anomaly cfg cid) m as) \<and> om_books (foldl (raise_anomaly cfg cid) m as) = om_books m"
proof (induction as arbitrary: m)
  case Nil
  then show ?case by (simp add: same_calls_def)
next
  case (Cons a as)
  have "same_calls m (raise_anomaly cfg cid m a)" by simp
  with Cons [of "raise_anomaly cfg cid m a"] show ?case by (simp add: same_calls_def)
qed

lemma record_event_effect:
  assumes "record_event cfg disk now mt j m e durable only_if = (j', m', res)"
  shows "same_calls m m'"
    and "grows (order_events (ej_entries j)) (order_events (ej_entries j'))"
    and "res = Inr s \<Longrightarrow> durable \<Longrightarrow> only_if = None \<Longrightarrow> e \<in> set (order_events (ej_entries j')) \<and>
      (is_intent e \<longrightarrow> ev_cid e \<notin> intended (order_events (ej_entries j)))"
proof -
  obtain j1 b1 r1 where n: "record_now (write_entry disk now) (max_age_of m) now mt j (om_books m) e durable only_if = (j1, b1, r1)"
    using prod_cases3 by blast
  obtain j2 left err where w: "write_all (write_entry disk now) j (bk_unjournalled (om_books m)) e = (j2, left, err)"
    using prod_cases3 by blast
  note g = write_all_grows [OF w]
  have j: "j' = j1" using assms n by (auto simp: record_event_def split: sum.splits prod.splits)
  have "same_calls m (m\<lparr>om_books := b1\<rparr>)" by (simp add: same_calls_def)
  then show "same_calls m m'"
    using assms n raise_anomalies_same [of "m\<lparr>om_books := b1\<rparr>" cfg "ev_cid e"]
    by (auto simp: record_event_def same_calls_def split: sum.splits prod.splits)
  have "j1 = j \<or> j1 = j2" using n w by (auto simp: record_now_def split: option.splits if_splits prod.splits)
  with g(1) j show "grows (order_events (ej_entries j)) (order_events (ej_entries j'))" by auto
  assume a: "res = Inr s" "durable" "only_if = None"
  then have "err = None" "j1 = j2"
    using assms n w by (auto simp: record_event_def record_now_def split: option.splits if_splits prod.splits sum.splits)
  with g(2) j show "e \<in> set (order_events (ej_entries j')) \<and>
      (is_intent e \<longrightarrow> ev_cid e \<notin> intended (order_events (ej_entries j)))" by simp
qed

lemma do_record_effect:
  assumes "do_record cfg i w m cid origin body durable = (w', m', res)"
  shows "same_calls m m'" and "grows (events_of_world w) (events_of_world w')"
    and "wd_rows w' = wd_rows w" "wd_placed w' = wd_placed w" "wd_amended w' = wd_amended w"
    and "res = Inr s \<Longrightarrow> durable \<Longrightarrow>
      local_event cid (in_now i) origin body \<in> set (events_of_world w') \<and>
      ((\<exists>r. body = SubmitIntent r) \<longrightarrow> cid \<notin> intended (events_of_world w))"
proof -
  obtain j1 m1 r1 where r: "record_event cfg (in_disk i) (in_now i) (in_mono i) (wd_journal w) m
      (local_event cid (in_now i) origin body) durable None = (j1, m1, r1)"
    using prod_cases3 by blast
  then have e: "w' = w\<lparr>wd_journal := j1\<rparr>" "m' = m1" "res = r1" using assms by (auto simp: do_record_def)
  note f = record_event_effect [OF r]
  from e f show "same_calls m m'" "grows (events_of_world w) (events_of_world w')" "wd_rows w' = wd_rows w"
    "wd_placed w' = wd_placed w" "wd_amended w' = wd_amended w"
    by (simp_all add: events_of_world_def)
  show "res = Inr s \<Longrightarrow> durable \<Longrightarrow>
      local_event cid (in_now i) origin body \<in> set (events_of_world w') \<and>
      ((\<exists>r. body = SubmitIntent r) \<longrightarrow> cid \<notin> intended (events_of_world w))"
    using e f(3) by (auto simp: events_of_world_def is_intent_def local_event_def)
qed


section \<open>Sending at most once\<close>

text \<open>
  The request a task may still hand to the venue, and the id a task belongs to from its intent to the end
  of \<open>submit\<close>.
\<close>

fun sending :: "task \<Rightarrow> order_request option" where
  "sending (SendBegin r) = Some r"
| "sending (StartWrite r) = Some r"
| "sending (SendCheck r _ _) = Some r"
| "sending _ = None"

fun life :: "task \<Rightarrow> string option" where
  "life (PlaceCall r) = Some (req_cid r)"
| "life (FinalWrite cid _ _ FinishSubmit) = Some cid"
| "life t = map_option req_cid (sending t)"

fun awaits_check :: "task \<Rightarrow> bool" where
  "awaits_check (SendCheck _ _ _) = True"
| "awaits_check _ = False"

lemma sending_life: "sending t = Some r \<Longrightarrow> life t = Some (req_cid r)"
  by (cases t) simp_all

lemmas advance_defs =
  submit_start_def submit_wait_def submit_check_def reject_write_def intent_write_def send_begin_def
  start_write_def send_check_def place_call_def final_write_def cancel_start_def cancel_write_def
  record_outcome_def amend_start_def amend_wait_def amend_check_def replace_write_def amend_kill_def
  stop_send_def refuse_send_def stop_amend_def place_outcome_def Let_def

lemma advance_rows: "advance cfg loads i w m t = (w', m', nxt) \<Longrightarrow> wd_rows w' = wd_rows w"
  by (cases t)
    (auto simp: advance_defs dest: do_record_effect(3)
      split: if_splits option.splits prod.splits risk_decision.splits venue_answer.splits
        cancel_choice.splits sum.splits)


lemmas advance_splits =
  if_splits option.splits prod.splits risk_decision.splits venue_answer.splits cancel_choice.splits sum.splits

lemma advance_grows: "advance cfg loads i w m t = (w', m', nxt) \<Longrightarrow> grows (events_of_world w) (events_of_world w')"
  by (cases t)
    (auto simp: advance_defs events_of_world_def append_entry_grows
      dest: do_record_effect(2) [unfolded events_of_world_def] split: advance_splits)

definition no_placement :: "world \<Rightarrow> world \<Rightarrow> task \<Rightarrow> task option \<Rightarrow> bool" where
  "no_placement w w' t nxt \<longleftrightarrow> wd_placed w' = wd_placed w \<and>
     (case nxt of
        None \<Rightarrow> True
      | Some t' \<Rightarrow>
          life t' = None \<or>
          (life t' = life t \<and>
           (sending t' = None \<or> sending t' = sending t \<and>
             (awaits_check t' \<longrightarrow> awaits_check t \<or> start_logged (events_of_world w') (the (life t))))) \<or>
          (\<exists>r. t = IntentWrite r \<and> t' = SendBegin r \<and> req_cid r \<notin> intended (events_of_world w) \<and>
             intent_logged (events_of_world w') r))"

definition placement :: "world \<Rightarrow> world \<Rightarrow> task \<Rightarrow> task option \<Rightarrow> bool" where
  "placement w w' t nxt \<longleftrightarrow>
     (\<exists>r n k. t = SendCheck r n k \<and> nxt = Some (PlaceCall r) \<and> wd_placed w' = wd_placed w @ [(r, n)])"

lemma start_write_logs:
  assumes "do_record cfg i w m cid OMS (SendStarted sid) True = (w', m', Inr s)"
  shows "start_logged (events_of_world w') cid"
proof -
  have "local_event cid (in_now i) OMS (SendStarted sid) \<in> set (events_of_world w')"
    using do_record_effect(6) [OF assms] by simp
  then show ?thesis by (force simp: start_logged_def local_event_def)
qed

lemma intent_write_logs:
  assumes "do_record cfg i w m (req_cid r) OMS (SubmitIntent r) True = (w', m', Inr s)"
  shows "req_cid r \<notin> intended (events_of_world w) \<and> intent_logged (events_of_world w') r"
proof -
  have "local_event (req_cid r) (in_now i) OMS (SubmitIntent r) \<in> set (events_of_world w')"
    "req_cid r \<notin> intended (events_of_world w)"
    using do_record_effect(6) [OF assms] by simp_all
  then show ?thesis by (force simp: intent_logged_def local_event_def)
qed

lemma advance_moves:
  "advance cfg loads i w m t = (w', m', nxt) \<Longrightarrow> no_placement w w' t nxt \<or> placement w w' t nxt"
  by (cases t)
    (auto simp: no_placement_def placement_def advance_defs do_record_effect(4)
      split: advance_splits dest: intent_write_logs start_write_logs)

definition life_list :: "task \<Rightarrow> string list" where
  "life_list t = (case life t of None \<Rightarrow> [] | Some c \<Rightarrow> [c])"

definition life_ids :: "(nat \<times> task) list \<Rightarrow> string list" where
  "life_ids ts = concat (map (\<lambda>(p, t). life_list t) ts)"

definition placed_ids :: "world \<Rightarrow> string list" where
  "placed_ids w = map (\<lambda>(r, n). req_cid r) (wd_placed w)"

definition sends_ok :: "world \<Rightarrow> task \<Rightarrow> bool" where
  "sends_ok w t \<longleftrightarrow>
     (case sending t of
        None \<Rightarrow> True
      | Some r \<Rightarrow> intent_logged (events_of_world w) r \<and> req_cid r \<notin> set (placed_ids w) \<and>
                  (awaits_check t \<longrightarrow> start_logged (events_of_world w) (req_cid r)))"

definition send_inv :: "om_sys \<Rightarrow> bool" where
  "send_inv s \<longleftrightarrow>
     intents_distinct (events_of_world (sy_world s)) \<and> distinct (life_ids (sy_tasks s)) \<and>
     distinct (placed_ids (sy_world s)) \<and>
     set (life_ids (sy_tasks s)) \<subseteq> intended (events_of_world (sy_world s)) \<and>
     (\<forall>(p, t) \<in> set (sy_tasks s). sends_ok (sy_world s) t) \<and>
     (\<forall>(r, n) \<in> set (wd_placed (sy_world s)).
        intent_logged (events_of_world (sy_world s)) r \<and> start_logged (events_of_world (sy_world s)) (req_cid r))"

lemma life_ids_simps [simp]:
  "life_ids [] = []" "life_ids (xs @ ys) = life_ids xs @ life_ids ys"
  "life_ids ((p, t) # xs) = life_list t @ life_ids xs"
  by (simp_all add: life_ids_def)

lemma life_list_iff [simp]: "cid \<in> set (life_list t) \<longleftrightarrow> life t = Some cid" "distinct (life_list t)"
  by (auto simp: life_list_def split: option.splits)

lemma life_list_none [simp]: "life t = None \<Longrightarrow> life_list t = []"
  by (simp add: life_list_def)

lemma life_ids_iff: "cid \<in> set (life_ids ts) \<longleftrightarrow> (\<exists>p t. (p, t) \<in> set ts \<and> life t = Some cid)"
proof (induction ts)
  case Nil
  then show ?case by simp
next
  case (Cons a ts)
  then show ?case by (cases a) (simp, blast)
qed

lemma life_ids_plain [simp]:
  "life_ids (map (\<lambda>(cid, origin, body). (p, FinalWrite cid origin body FinishPlain)) rs) = []"
  by (induction rs) (auto simp: life_list_def)

lemma life_ids_filter: "set (life_ids (filter P ts)) \<subseteq> set (life_ids ts)"
  "distinct (life_ids ts) \<Longrightarrow> distinct (life_ids (filter P ts))"
proof -
  show sub: "set (life_ids (filter P us)) \<subseteq> set (life_ids us)" for us
    by (simp add: life_ids_iff subset_iff, blast)
  show "distinct (life_ids ts) \<Longrightarrow> distinct (life_ids (filter P ts))"
  proof (induction ts)
    case (Cons a ts)
    then show ?case using sub [of ts] by (cases a) auto
  qed simp
qed

lemma send_invI:
  assumes "intents_distinct (events_of_world w)" and "distinct (life_ids ts)" and "distinct (placed_ids w)"
    and "set (life_ids ts) \<subseteq> intended (events_of_world w)"
    and "\<And>p t. (p, t) \<in> set ts \<Longrightarrow> sends_ok w t"
    and "\<And>r n. (r, n) \<in> set (wd_placed w) \<Longrightarrow>
      intent_logged (events_of_world w) r \<and> start_logged (events_of_world w) (req_cid r)"
  shows "send_inv \<lparr>sy_world = w, sy_managers = ms, sy_tasks = ts\<rparr>"
  using assms by (auto simp: send_inv_def)

lemma send_invD:
  assumes "send_inv \<lparr>sy_world = w, sy_managers = ms, sy_tasks = ts\<rparr>"
  shows "intents_distinct (events_of_world w)" and "distinct (life_ids ts)" and "distinct (placed_ids w)"
    and "set (life_ids ts) \<subseteq> intended (events_of_world w)"
    and "(p, t) \<in> set ts \<Longrightarrow> sends_ok w t"
    and "(r, n) \<in> set (wd_placed w) \<Longrightarrow>
      intent_logged (events_of_world w) r \<and> start_logged (events_of_world w) (req_cid r)"
  using assms unfolding send_inv_def by fastforce+

lemma sends_ok_idle [simp]: "sending t = None \<Longrightarrow> sends_ok w t"
  by (simp add: sends_ok_def)

lemma sends_ok_grows:
  "sends_ok w t \<Longrightarrow> grows (events_of_world w) (events_of_world w') \<Longrightarrow> placed_ids w' = placed_ids w \<Longrightarrow> sends_ok w' t"
  using grows_logged [of "events_of_world w" "events_of_world w'"] by (auto simp: sends_ok_def split: option.splits)

text \<open>The journal may grow and tasks may change as long as no send is added.\<close>

lemma send_inv_quiet:
  assumes inv: "send_inv \<lparr>sy_world = w, sy_managers = ms, sy_tasks = ts\<rparr>"
    and g: "grows (events_of_world w) (events_of_world w')" and p: "wd_placed w' = wd_placed w"
    and d: "distinct (life_ids ts')" and sub: "set (life_ids ts') \<subseteq> set (life_ids ts)"
    and k: "\<And>p t. (p, t) \<in> set ts' \<Longrightarrow> sending t = None \<or> (p, t) \<in> set ts"
  shows "send_inv \<lparr>sy_world = w', sy_managers = ms', sy_tasks = ts'\<rparr>"
proof (rule send_invI)
  note i = send_invD [OF inv]
  have ids: "placed_ids w' = placed_ids w" using p by (simp add: placed_ids_def)
  show "intents_distinct (events_of_world w')" using i(1) g by (simp add: grows_def)
  show "distinct (life_ids ts')" by (rule d)
  show "distinct (placed_ids w')" using i(3) ids by simp
  show "set (life_ids ts') \<subseteq> intended (events_of_world w')" using sub i(4) grows_logged(3) [OF g] by blast
  show "sends_ok w' t" if "(q, t) \<in> set ts'" for q t
    using k [OF that] i(5) [of q t] sends_ok_grows [OF _ g ids] sends_ok_idle by blast
  show "intent_logged (events_of_world w') r \<and> start_logged (events_of_world w') (req_cid r)"
    if "(r, n) \<in> set (wd_placed w')" for r n
    using i(6) [of r n] that p grows_logged(1,2) [OF g] by simp
qed

lemma life_resume:
  "life_ids (resume_with xs p nxt ys) =
   life_ids xs @ (case nxt of None \<Rightarrow> [] | Some t \<Rightarrow> life_list t) @ life_ids ys"
  by (simp add: resume_with_def split: option.splits)

lemma distinct_swap:
  "distinct (as @ ls @ bs) \<Longrightarrow> set ms \<subseteq> set ls \<or> set ms \<inter> set (as @ bs) = {} \<Longrightarrow> distinct ms \<Longrightarrow>
   distinct (as @ ms @ bs)"
  by auto

lemma send_inv_run:
  assumes inv: "send_inv \<lparr>sy_world = w, sy_managers = ms, sy_tasks = xs @ (p, t) # ys\<rparr>"
    and adv: "advance c loads i w m t = (w', m', nxt)"
  shows "send_inv \<lparr>sy_world = w', sy_managers = ms', sy_tasks = resume_with xs p nxt ys\<rparr>"
proof -
  note g = advance_grows [OF adv] and i = send_invD [OF inv]
  have nd: "intents_distinct (events_of_world w')" using i(1) g by (simp add: grows_def)
  show ?thesis
    using advance_moves [OF adv]
  proof
    assume "placement w w' t nxt"
    then obtain r n k where t: "t = SendCheck r n k" "nxt = Some (PlaceCall r)"
        and pl: "wd_placed w' = wd_placed w @ [(r, n)]"
      by (auto simp: placement_def)
    have ids: "placed_ids w' = placed_ids w @ [req_cid r]" using pl by (simp add: placed_ids_def)
    have "sends_ok w t" using i(5) [of p t] by simp
    then have fresh: "req_cid r \<notin> set (placed_ids w)" and logged: "intent_logged (events_of_world w) r"
        "start_logged (events_of_world w) (req_cid r)"
      by (simp_all add: sends_ok_def t)
    have life: "life_ids (resume_with xs p nxt ys) = life_ids (xs @ (p, t) # ys)"
      by (simp add: life_resume t life_list_def)
    show ?thesis
    proof (rule send_invI)
      show "intents_distinct (events_of_world w')" by (rule nd)
      show "distinct (life_ids (resume_with xs p nxt ys))" using i(2) life by simp
      show "distinct (placed_ids w')" using i(3) ids fresh by simp
      show "set (life_ids (resume_with xs p nxt ys)) \<subseteq> intended (events_of_world w')"
        using i(4) life grows_logged(3) [OF g] by (metis subset_trans)
      show "sends_ok w' t2" if q: "(q, t2) \<in> set (resume_with xs p nxt ys)" for q t2
      proof (cases "sending t2")
        case None
        then show ?thesis by simp
      next
        case (Some r2)
        have old: "(q, t2) \<in> set xs \<union> set ys" using q Some by (auto simp: resume_with_def t)
        then have "req_cid r2 \<in> set (life_ids xs) \<union> set (life_ids ys)"
          using sending_life [OF Some] by (auto simp: life_ids_iff)
        then have ne: "req_cid r2 \<noteq> req_cid r" using i(2) by (auto simp: t)
        have "sends_ok w t2" using i(5) [of q t2] old by auto
        then show ?thesis using Some ids ne grows_logged(1,2) [OF g] by (simp add: sends_ok_def)
      qed
      show "intent_logged (events_of_world w') r2 \<and> start_logged (events_of_world w') (req_cid r2)"
        if "(r2, n2) \<in> set (wd_placed w')" for r2 n2
        using that i(6) [of r2 n2] logged pl grows_logged(1,2) [OF g] by auto
    qed
  next
    assume np: "no_placement w w' t nxt"
    then have pl: "wd_placed w' = wd_placed w" by (simp add: no_placement_def)
    have ids: "placed_ids w' = placed_ids w" using pl by (simp add: placed_ids_def)
    have new: "sends_ok w' t' \<and> (life t' = None \<or> life t' = life t \<or>
        (\<exists>c. life t = None \<and> life t' = Some c \<and> c \<notin> intended (events_of_world w) \<and> c \<in> intended (events_of_world w')))"
      if n: "nxt = Some t'" for t'
    proof -
      consider "life t' = None" | "life t' = life t" "sending t' = None"
        | "life t' = life t" "sending t' = sending t"
          "awaits_check t' \<longrightarrow> awaits_check t \<or> start_logged (events_of_world w') (the (life t))"
        | r where "t = IntentWrite r" "t' = SendBegin r" "req_cid r \<notin> intended (events_of_world w)"
            "intent_logged (events_of_world w') r"
        using np n unfolding no_placement_def by auto
      then show ?thesis
      proof cases
        case 1
        then have "sending t' = None" using sending_life by (cases "sending t'") auto
        with 1 show ?thesis by simp
      next
        case 2
        then show ?thesis by simp
      next
        case 3
        have "sends_ok w' t" using i(5) [of p t] sends_ok_grows [OF _ g ids] by simp
        then have "sends_ok w' t'"
          using 3(2,3) sending_life [of t] by (auto simp: sends_ok_def split: option.splits)
        with 3 show ?thesis by simp
      next
        case 4
        have "req_cid r \<notin> set (placed_ids w)"
          using i(6) 4(3) intent_logged_intended by (auto simp: placed_ids_def)
        with 4 show ?thesis using intent_logged_intended [OF 4(4)] by (simp add: sends_ok_def ids)
      qed
    qed
    show ?thesis
    proof (rule send_invI)
      show "intents_distinct (events_of_world w')" by (rule nd)
      show "distinct (life_ids (resume_with xs p nxt ys))"
      proof (cases nxt)
        case None
        have "distinct (life_ids xs @ life_list t @ life_ids ys)" using i(2) by simp
        then have "distinct (life_ids xs @ [] @ life_ids ys)" by (rule distinct_swap) simp_all
        then show ?thesis by (simp only: life_resume None option.case)
      next
        case (Some t')
        have "distinct (life_ids xs @ life_list t @ life_ids ys)" using i(2) by simp
        moreover have "set (life_list t') \<subseteq> set (life_list t) \<or> set (life_list t') \<inter> set (life_ids xs @ life_ids ys) = {}"
          using new [OF Some] i(4) by (elim conjE disjE exE) (simp_all add: life_list_def, blast)
        moreover have "distinct (life_list t')" by simp
        ultimately have "distinct (life_ids xs @ life_list t' @ life_ids ys)" by (rule distinct_swap)
        then show ?thesis by (simp only: life_resume Some option.case)
      qed
      show "distinct (placed_ids w')" using i(3) ids by simp
      show "set (life_ids (resume_with xs p nxt ys)) \<subseteq> intended (events_of_world w')"
      proof
        fix c assume "c \<in> set (life_ids (resume_with xs p nxt ys))"
        then consider "c \<in> set (life_ids (xs @ (p, t) # ys))" | t' where "nxt = Some t'" "life t' = Some c"
          by (cases nxt) (auto simp: life_resume)
        then show "c \<in> intended (events_of_world w')"
        proof cases
          case 1
          then show ?thesis using i(4) grows_logged(3) [OF g] by blast
        next
          case 2
          then have "c \<in> set (life_ids (xs @ (p, t) # ys)) \<or> c \<in> intended (events_of_world w')"
            using new [OF 2(1)] by auto
          then show ?thesis using i(4) grows_logged(3) [OF g] by blast
        qed
      qed
      show "sends_ok w' t2" if "(q, t2) \<in> set (resume_with xs p nxt ys)" for q t2
        using that new i(5) [of q t2] sends_ok_grows [OF _ g ids]
        by (auto simp: resume_with_def split: option.splits)
      show "intent_logged (events_of_world w') r2 \<and> start_logged (events_of_world w') (req_cid r2)"
        if "(r2, n2) \<in> set (wd_placed w')" for r2 n2
        using that i(6) [of r2 n2] pl grows_logged(1,2) [OF g] by simp
    qed
  qed
qed


lemma call_idle: "is_call t \<Longrightarrow> sending t = None \<and> life t = None"
  by (cases t) simp_all

lemma om_step_send_inv:
  assumes "om_step cfg rc loads dumps s s'" and inv: "send_inv s"
  shows "send_inv s' \<and> grows (events_of_world (sy_world s)) (events_of_world (sy_world s')) \<and>
    (\<exists>xs. wd_placed (sy_world s') = wd_placed (sy_world s) @ xs)"
  using assms(1)
proof (cases rule: om_step.cases)
  case (call t w ms ts p)
  have "send_inv s'"
    unfolding call(2) by (rule send_inv_quiet [OF inv [unfolded call(1)]])
      (use call_idle [OF call(3)] send_invD(2) [OF inv [unfolded call(1)]] in auto)
  then show ?thesis by (simp add: call)
next
  case (run p i w ms t w' m' nxt xs ys)
  note adv = run(3)
  have "\<exists>zs. wd_placed w' = wd_placed w @ zs"
    using advance_moves [OF adv] by (auto simp: no_placement_def placement_def)
  then show ?thesis
    using send_inv_run [OF inv [unfolded run(1)] adv] advance_grows [OF adv] by (simp add: run)
next
  case (switch ms p w k rows kts ts)
  have "send_inv s'"
    unfolding switch(2) by (rule send_inv_quiet [OF inv [unfolded switch(1)]])
      (use send_invD(2) [OF inv [unfolded switch(1)]] in \<open>auto simp: events_of_world_def\<close>)
  then show ?thesis by (simp add: switch events_of_world_def)
next
  case (venue_event e p disk now mt w ms durable only_if j' m' res ts)
  note g = record_event_effect(2) [OF venue_event(4)]
  have "send_inv s'"
    unfolding venue_event(2) by (rule send_inv_quiet [OF inv [unfolded venue_event(1)]])
      (use g send_invD(2) [OF inv [unfolded venue_event(1)]] in \<open>auto simp: events_of_world_def\<close>)
  with g show ?thesis by (simp add: venue_event events_of_world_def)
next
  case (retry_writes disk now w ms p j' b' ts)
  note g = retry_grows [OF retry_writes(3)]
  have "send_inv s'"
    unfolding retry_writes(2) by (rule send_inv_quiet [OF inv [unfolded retry_writes(1)]])
      (use g send_invD(2) [OF inv [unfolded retry_writes(1)]] in \<open>auto simp: events_of_world_def\<close>)
  with g show ?thesis by (simp add: retry_writes events_of_world_def)
next
  case (other_memory ms p m' w ts)
  have "send_inv s'"
    unfolding other_memory(2) by (rule send_inv_quiet [OF inv [unfolded other_memory(1)]])
      (use send_invD(2) [OF inv [unfolded other_memory(1)]] in auto)
  then show ?thesis by (simp add: other_memory)
next
  case (other_entry en w ms ts disk now)
  note g = append_entry_grows [OF other_entry(3)]
  have "send_inv s'"
    unfolding other_entry(2) by (rule send_inv_quiet [OF inv [unfolded other_entry(1)]])
      (use g send_invD(2) [OF inv [unfolded other_entry(1)]] in \<open>auto simp: events_of_world_def\<close>)
  with g show ?thesis by (simp add: other_entry events_of_world_def)
next
  case (restart p now mt w m' ms ts)
  have "send_inv s'"
    unfolding restart(2) by (rule send_inv_quiet [OF inv [unfolded restart(1)]])
      (use send_invD(2) [OF inv [unfolded restart(1)]] life_ids_filter(1) [of "\<lambda>(q, t). q \<noteq> p" ts]
          life_ids_filter(2) [of ts "\<lambda>(q, t). q \<noteq> p"] in auto)
  then show ?thesis by (simp add: restart)
next
  case (started p ts ms w)
  have "send_inv s'"
    unfolding started(2) by (rule send_inv_quiet [OF inv [unfolded started(1)]])
      (use send_invD(2) [OF inv [unfolded started(1)]] in auto)
  then show ?thesis by (simp add: started)
qed

lemma om_reaches_send_inv:
  "om_reaches cfg rc loads dumps s s' \<Longrightarrow> send_inv s \<Longrightarrow>
   send_inv s' \<and> grows (events_of_world (sy_world s)) (events_of_world (sy_world s')) \<and>
   (\<exists>xs. wd_placed (sy_world s') = wd_placed (sy_world s) @ xs)"
proof (induction rule: om_reaches.induct)
  case om_refl
  then show ?case by simp
next
  case (om_trans s' s'')
  then show ?case using om_step_send_inv [OF om_trans.hyps(2)] grows_trans by fastforce
qed

lemma first_start_inv: "send_inv (first_start rc)"
  by (simp add: send_inv_def first_start_def events_of_world_def placed_ids_def intents_distinct_def)

section \<open>A placed order is never taken for one that was not sent\<close>

definition restates_pending :: "order_event \<Rightarrow> bool" where
  "restates_pending e \<longleftrightarrow> (\<exists>v filled why. ev_body e = Restated PENDING_SUBMIT v filled why)"

lemma transitions_leave_pending: "(st, To PENDING_SUBMIT) \<notin> set (transitions k)"
  by (cases k) (auto simp: ALL_LIVE_def WORKING_STATUSES_def PENDING_STATUSES_def)

lemma transition_not_pending:
  "st_status s \<noteq> PENDING_SUBMIT \<Longrightarrow> st_status (transition s k) \<noteq> PENDING_SUBMIT"
  using transitions_leave_pending [of "st_status s" k]
  by (auto simp: transition_def working_status_def split: option.splits target.splits dest: map_of_SomeD)

lemma apply_event_not_pending:
  assumes "st_status s \<noteq> PENDING_SUBMIT" and "apply_event s e = Inr s'" and "\<not> restates_pending e"
  shows "st_status s' \<noteq> PENDING_SUBMIT"
proof -
  have "st_status (apply_body s (ev_body e)) \<noteq> PENDING_SUBMIT"
    using assms(1,3) transition_not_pending
    by (cases "ev_body e")
      (auto simp: apply_body_def apply_bust_def apply_fill_def apply_new_fill_def apply_replaced_def
        working_status_def restates_pending_def Let_def split: option.splits)
  with assms(2) show ?thesis by (auto simp: apply_event_settle split: if_splits)
qed

lemma start_leaves_pending:
  assumes "apply_event s e = Inr s'" and "ev_body e = SendStarted sid"
  shows "st_status s' \<noteq> PENDING_SUBMIT"
proof -
  have "st_status (apply_body s (ev_body e)) \<noteq> PENDING_SUBMIT"
    using assms(2) by (cases "st_status s") (auto simp: apply_body_def transition_def)
  with assms(1) show ?thesis by (auto simp: apply_event_settle split: if_splits)
qed

lemma replay_from_not_pending:
  assumes "replay_from m es = Inr m'" and "\<And>e. e \<in> set es \<Longrightarrow> ev_cid e = cid \<Longrightarrow> \<not> restates_pending e"
    and "start_logged es cid \<or> (\<exists>s. m cid = Some s \<and> st_status s \<noteq> PENDING_SUBMIT)"
  shows "\<exists>s. m' cid = Some s \<and> st_status s \<noteq> PENDING_SUBMIT"
  using assms
proof (induction es arbitrary: m)
  case Nil
  then show ?case by (auto simp: start_logged_def)
next
  case (Cons e es)
  obtain m1 where m1: "replay_step m e = Inr m1" "replay_from m1 es = Inr m'"
    using Cons.prems(1) by (auto simp: bind_result_eq_Inr)
  have "start_logged es cid \<or> (\<exists>s. m1 cid = Some s \<and> st_status s \<noteq> PENDING_SUBMIT)"
  proof (cases "ev_cid e = cid")
    case False
    then have "m1 cid = m cid" using m1(1)
      by (auto simp: replay_step_def bind_result_eq_Inr split: option.splits event_body.splits)
    with False Cons.prems(3) show ?thesis by (auto simp: start_logged_def)
  next
    case True
    show ?thesis
    proof (cases "m cid")
      case None
      then have "start_logged es cid \<or> (\<exists>sid. ev_body e = SendStarted sid)"
        using Cons.prems(3) True by (auto simp: start_logged_def)
      with None True m1(1) show ?thesis by (auto simp: replay_step_def)
    next
      case (Some s)
      then obtain s1 where s1: "apply_event s e = Inr s1" "m1 cid = Some s1"
        using m1(1) True by (auto simp: replay_step_def bind_result_eq_Inr)
      have "start_logged es cid \<or> st_status s1 \<noteq> PENDING_SUBMIT"
        using Cons.prems(2,3) True Some s1(1) apply_event_not_pending [OF _ s1(1)] start_leaves_pending [OF s1(1)]
        by (auto simp: start_logged_def)
      with s1(2) show ?thesis by auto
    qed
  qed
  then show ?case using Cons.IH [OF m1(2)] Cons.prems(2) by simp
qed

section \<open>Properties\<close>

definition sample_input :: input where
  "sample_input =
     \<lparr>in_now = 0, in_mono = 0, in_disk = (\<lambda>_. True), in_intact = True, in_fails = False, in_cancelled = False,
      in_answer = VReturned ''v1'', in_instrument = Some sample_instrument,
      in_quote = rc_reference (sample_context 0), in_quotes = (\<lambda>_. None), in_instruments = (\<lambda>_. None)\<rparr>"

definition sample_manager_config :: manager_config where
  "sample_manager_config =
     \<lparr>mc_instrument_ttl = 60, mc_cancel_retry = 1, mc_unknown_grace = 5, mc_fill_lookback = 3600,
      mc_halt_on_break = True, mc_assume_flat = True, mc_has_account = False, mc_send_record_id = None,
      mc_rules = rc_rules (sample_context 0), mc_calendar = (\<lambda>_. None), mc_locate = (\<lambda>_. False),
      mc_message = (\<lambda>_. ''anomaly'')\<rparr>"

abbreviation sample_reaches :: "om_sys \<Rightarrow> bool" where
  "sample_reaches \<equiv> om_reaches (\<lambda>_. sample_manager_config) (\<lambda>_. sample_config) sample_loads sample_dumps
     (first_start (\<lambda>_. sample_config))"

abbreviation (input) sample_managers :: "manager \<Rightarrow> nat \<Rightarrow> manager" where
  "sample_managers m \<equiv> (\<lambda>p. blank_manager sample_config)(0 := m)"

lemma sample_run:
  "sample_reaches \<lparr>sy_world = w, sy_managers = sample_managers m, sy_tasks = [(0, t)]\<rparr> \<Longrightarrow>
   advance sample_manager_config sample_loads i w m t = (w', m', Some t') \<Longrightarrow>
   sample_reaches \<lparr>sy_world = w', sy_managers = sample_managers m', sy_tasks = [(0, t')]\<rparr>"
  using om_trans [OF _ run [of "\<lambda>_. sample_manager_config" 0 sample_loads i w "sample_managers m" t w' m' "Some t'"
      "\<lambda>_. sample_config" sample_dumps "[]" "[]"], of "first_start (\<lambda>_. sample_config)"]
  by (simp add: resume_with_def)

definition sample_world :: world where
  "sample_world = sy_world (first_start (\<lambda>_. sample_config))"

definition sample_ready :: manager where
  "sample_ready = (blank_manager sample_config)\<lparr>om_started := True, om_healthy := True,
     om_books := empty_books\<lparr>bk_baseline := Some []\<rparr>\<rparr>"

lemma sample_start:
  "sample_reaches \<lparr>sy_world = sample_world, sy_managers = sample_managers sample_ready,
     sy_tasks = [(0, SubmitStart sample_request)]\<rparr>"
proof -
  let ?blank = "blank_manager sample_config"
  have "om_step (\<lambda>_. sample_manager_config) (\<lambda>_. sample_config) sample_loads sample_dumps
      (first_start (\<lambda>_. sample_config))
      \<lparr>sy_world = sample_world, sy_managers = sample_managers (?blank\<lparr>om_started := True\<rparr>), sy_tasks = []\<rparr>"
    using started [of 0 "[]" "\<lambda>p. ?blank" "\<lambda>_. sample_manager_config" "\<lambda>_. sample_config" sample_loads sample_dumps sample_world]
    by (simp add: sample_world_def first_start_def limits_match_def blank_manager_def empty_books_def)
  then have one: "sample_reaches
      \<lparr>sy_world = sample_world, sy_managers = sample_managers (?blank\<lparr>om_started := True\<rparr>), sy_tasks = []\<rparr>"
    by (rule om_trans [OF om_refl])
  have "om_step (\<lambda>_. sample_manager_config) (\<lambda>_. sample_config) sample_loads sample_dumps
      \<lparr>sy_world = sample_world, sy_managers = sample_managers (?blank\<lparr>om_started := True\<rparr>), sy_tasks = []\<rparr>
      \<lparr>sy_world = sample_world, sy_managers = sample_managers sample_ready, sy_tasks = []\<rparr>"
    using other_memory [of "sample_managers (?blank\<lparr>om_started := True\<rparr>)" 0 sample_ready "\<lambda>_. sample_manager_config"
        "\<lambda>_. sample_config" sample_loads sample_dumps sample_world "[]"]
    by (simp add: same_sends_def sample_ready_def blank_manager_def empty_books_def)
  from om_trans [OF one this] show ?thesis
    by (rule om_trans) (rule call, simp)
qed

definition sample_quoted :: manager where
  "sample_quoted = sample_ready\<lparr>om_instruments := [sample_symbol \<mapsto> (sample_instrument, 0)],
     om_books := (om_books sample_ready)\<lparr>bk_marks := [sample_symbol \<mapsto> (5, 0)]\<rparr>\<rparr>"

lemma sample_lookup:
  "advance sample_manager_config sample_loads sample_input sample_world sample_ready (SubmitStart sample_request) =
   (sample_world, sample_quoted, Some (SubmitWait sample_request (Some sample_instrument) (rc_reference (sample_context 0))))"
  by (simp add: submit_start_def sample_ready_def sample_quoted_def sample_input_def sample_manager_config_def existing_order_def
      order_of_def lookup_instrument_def Let_def adopt_quote_def mark_quote_def is_current_def max_age_of_def
      blank_manager_def new_engine_def sample_config_def sample_context_def sample_request_def empty_books_def
      quote_mid_def set_mark_def refresh_marks_def stale_symbols_def missing_symbols_def exposed_symbols_def
      symbols_with_exposure_def tracked_symbols_def SECOND_def)

definition sample_locked :: manager where
  "sample_locked = sample_quoted\<lparr>om_submit_lock := True\<rparr>"

abbreviation sample_quote_given :: "quote option" where
  "sample_quote_given \<equiv> rc_reference (sample_context 0)"

abbreviation sample_advance :: "world \<Rightarrow> manager \<Rightarrow> task \<Rightarrow> outcome" where
  "sample_advance \<equiv> advance sample_manager_config sample_loads sample_input"

lemma sample_waits:
  "sample_advance sample_world sample_quoted (SubmitWait sample_request inst q) =
   (sample_world, sample_locked, Some (SubmitCheck sample_request inst q MergeRead))"
  by (simp add: submit_wait_def sample_locked_def sample_quoted_def sample_ready_def blank_manager_def
      existing_order_def order_of_def empty_books_def)

lemma sample_request_cid [simp]: "req_cid sample_request = ''A1''"
  by (simp add: sample_request_def)

definition fresh_kill :: "manager \<Rightarrow> nat \<Rightarrow> manager" where
  "fresh_kill m n = m\<lparr>om_kill := (initial_kill no_kill)\<lparr>km_fresh := n\<rparr>\<rparr>"

text \<open>Reading and merging a kill switch that is off changes nothing but the supply of objects.\<close>

lemma sample_merge_read:
  "merge_advance sample_loads ((initial_kill no_kill)\<lparr>km_fresh := n\<rparr>) [] intact MergeRead =
   ((initial_kill no_kill)\<lparr>km_fresh := n + 1\<rparr>, Some (MergeGot 0 (n, no_kill)))"
  by (simp add: fresh_read_def initial_kill_def kill_state_from_def)

lemma sample_merge_got:
  "merge_advance sample_loads ((initial_kill no_kill)\<lparr>km_fresh := n\<rparr>) [] intact (MergeGot 0 (k, no_kill)) =
   ((initial_kill no_kill)\<lparr>km_fresh := n\<rparr>, None)"
  by (simp add: initial_kill_def merge_begin_def needs_verify_def no_kill_def merge_finish_def newer_kill_def
      durable_wins_def)

lemma sample_rows [simp]: "wd_rows sample_world = []"
  by (simp add: sample_world_def first_start_def)

lemma sample_input_fields [simp]:
  "in_fails sample_input = False" "in_cancelled sample_input = False" "in_now sample_input = 0"
  "in_mono sample_input = 0" "in_disk sample_input = (\<lambda>_. True)"
  by (simp_all add: sample_input_def)

lemma sample_locked_kill: "om_kill sample_locked = (initial_kill no_kill)\<lparr>km_fresh := 1\<rparr>"
  by (simp add: sample_locked_def sample_quoted_def sample_ready_def blank_manager_def initial_kill_def)

lemma sample_checks_one:
  "sample_advance sample_world sample_locked (SubmitCheck r inst q MergeRead) =
   (sample_world, fresh_kill sample_locked 2, Some (SubmitCheck r inst q (MergeGot 0 (1, no_kill))))"
  by (simp del: merge_advance.simps add: submit_check_def sample_locked_kill sample_merge_read fresh_kill_def)

lemma sample_context_built:
  "risk_context_of sample_manager_config (fresh_kill sample_locked 2) sample_request (Some sample_instrument)
     sample_quote_given 0 None = sample_context 0"
  by (simp add: risk_context_of_def fresh_kill_def sample_locked_def sample_quoted_def sample_ready_def
      blank_manager_def empty_books_def open_orders_def net_position_def quantity_of_def held_def
      gross_notional_def tracked_symbols_def sample_manager_config_def sample_context_def sample_request_def)

definition sample_approved_by :: "risk_engine \<Rightarrow> manager" where
  "sample_approved_by e = (fresh_kill sample_locked 2)\<lparr>om_engine := e, om_submitting := {''A1''}\<rparr>"

lemma sample_checks_two:
  "\<exists>e. sample_advance sample_world (fresh_kill sample_locked 2)
     (SubmitCheck sample_request (Some sample_instrument) sample_quote_given (MergeGot 0 (1, no_kill))) =
   (sample_world, sample_approved_by e, Some (IntentWrite sample_request))"
proof -
  obtain e where e: "check_order (new_engine sample_config) (sample_context 0) False = (e, APPROVED_ORDER)"
    using sample_approved by blast
  have "om_engine (fresh_kill sample_locked 2) = new_engine sample_config"
    "trade_refusal (fresh_kill sample_locked 2) = None" "om_submitting (fresh_kill sample_locked 2) = {}"
    by (simp_all add: fresh_kill_def sample_locked_def sample_quoted_def sample_ready_def blank_manager_def
        trade_refusal_def kill_engaged_def initial_kill_def no_kill_def empty_books_def)
  moreover have "om_kill (fresh_kill sample_locked 2) = (initial_kill no_kill)\<lparr>km_fresh := 2\<rparr>"
    by (simp add: fresh_kill_def)
  ultimately have "sample_advance sample_world (fresh_kill sample_locked 2)
     (SubmitCheck sample_request (Some sample_instrument) sample_quote_given (MergeGot 0 (1, no_kill))) =
     (sample_world, (fresh_kill sample_locked 2)\<lparr>om_engine := e, om_submitting := {''A1''}\<rparr>, Some (IntentWrite sample_request))"
    using e
    by (simp del: merge_advance.simps add: submit_check_def sample_merge_got
        sample_context_built [unfolded fresh_kill_def] fresh_kill_def Let_def)
  then show ?thesis by (auto simp: sample_approved_by_def)
qed


text \<open>The intent, the start of the send, and the second look at the switch.\<close>

definition sample_stored :: "risk_engine \<Rightarrow> manager" where
  "sample_stored e = fst (snd (intent_write sample_manager_config sample_input sample_world (sample_approved_by e) sample_request))"

definition sample_stored_world :: "risk_engine \<Rightarrow> world" where
  "sample_stored_world e = fst (intent_write sample_manager_config sample_input sample_world (sample_approved_by e) sample_request)"

lemmas sample_manager_defs =
  sample_approved_by_def fresh_kill_def sample_locked_def sample_quoted_def sample_ready_def blank_manager_def
  empty_books_def

lemmas sample_record_defs =
  do_record_def record_event_def record_now_def write_all_def write_entry_def Let_def apply_in_memory_def
  next_state_def local_event_def is_intent_def note_unknown_def store_order_def restamp_def new_order_def
  new_anomalies_def set_mark_def state_cid_def unlock_def finish_call_def

lemma sample_intent:
  "sample_advance sample_world (sample_approved_by e) (IntentWrite sample_request) =
   (sample_stored_world e, sample_stored e, Some (SendBegin sample_request))"
  by (simp add: sample_stored_def sample_stored_world_def intent_write_def sample_record_defs sample_manager_defs sample_world_def
      first_start_def)

lemma sample_stored_fields:
  "order_of (sample_stored e) ''A1'' = Some (new_order sample_request)"
  "om_kill (sample_stored e) = (initial_kill no_kill)\<lparr>km_fresh := 2\<rparr>" "om_cancel_first (sample_stored e) = {}"
  "wd_rows (sample_stored_world e) = []" "wd_placed (sample_stored_world e) = []"
  "order_events (ej_entries (wd_journal (sample_stored_world e))) = [local_event ''A1'' 0 OMS (SubmitIntent sample_request)]"
  "bk_unjournalled (om_books (sample_stored e)) = []"
  by (simp_all add: sample_stored_def sample_stored_world_def intent_write_def sample_record_defs sample_manager_defs sample_world_def
      first_start_def order_of_def)

lemma sample_stored_entries:
  "ej_entries (wd_journal (sample_stored_world e)) =
     [\<lparr>je_seq = 1, je_ts = 0, je_entry = EOrderEvent (local_event ''A1'' 0 OMS (SubmitIntent sample_request))\<rparr>]"
  by (simp add: sample_stored_def sample_stored_world_def intent_write_def sample_record_defs sample_manager_defs
      sample_world_def first_start_def)

definition sample_entries :: "journal_entry list" where
  "sample_entries =
     [\<lparr>je_seq = 1, je_ts = 0, je_entry = EOrderEvent (local_event ''A1'' 0 OMS (SubmitIntent sample_request))\<rparr>,
      \<lparr>je_seq = 2, je_ts = 0, je_entry = EOrderEvent (local_event ''A1'' 0 OMS (SendStarted None))\<rparr>]"

lemma sample_begins:
  "sample_advance (sample_stored_world e) (sample_stored e) (SendBegin sample_request) =
   (sample_stored_world e, sample_stored e, Some (StartWrite sample_request))"
  by (simp add: send_begin_def Let_def sample_stored_fields new_order_def send_refusal_def kill_engaged_def
      initial_kill_def no_kill_def)

lemma sample_starts:
  "\<exists>w m. start_write sample_manager_config sample_input (sample_stored_world e) (sample_stored e) sample_request =
     (w, m, Some (SendCheck sample_request 0 MergeRead)) \<and> wd_rows w = [] \<and> wd_placed w = [] \<and>
     om_kill m = (initial_kill no_kill)\<lparr>km_fresh := 2\<rparr> \<and> om_cancel_first m = {} \<and>
     ej_entries (wd_journal w) = sample_entries"
proof -
  let ?e = "local_event ''A1'' 0 OMS (SendStarted None)"
  obtain s where s: "apply_event (new_order sample_request) ?e = Inr s" "st_status s = SUBMITTING" "st_anomalies s = []"
    by (simp add: new_order_def apply_event_def apply_inner_def apply_body_def transition_def local_event_def
        state_cid_def PENDING_STATUSES_def has_pending_terms_def clear_pending_def)
  let ?j = "wd_journal (sample_stored_world e)" and ?b = "om_books (sample_stored e)"
  have o: "bk_orders ?b ''A1'' = Some (new_order sample_request)" and u: "bk_unjournalled ?b = []"
    using sample_stored_fields [of e] by (simp_all add: order_of_def)
  obtain j where w: "write_entry (\<lambda>_. True) 0 ?j ?e = (j, Inr ())" and en: "ej_entries j = sample_entries"
    by (simp add: write_entry_def Let_def is_intent_def local_event_def sample_stored_entries sample_entries_def)
  have wa: "write_all (write_entry (\<lambda>_. True) 0) ?j [] ?e = (j, [], None)" by (simp add: write_all_def w)
  let ?c = "?b\<lparr>bk_unjournalled := []\<rparr>"
  have n: "next_state ?c ?e = Inr s" using o s(1) by (simp add: next_state_def local_event_def)
  have an: "new_anomalies ?c ?e s = []" using o s(3) by (simp add: new_anomalies_def local_event_def)
  obtain b where a: "apply_in_memory (max_age_of (sample_stored e)) 0 0 ?c ?e = (b, Inr (s, []))"
    by (simp add: apply_in_memory_def n an Let_def)
  have r: "record_now (write_entry (\<lambda>_. True) 0) (max_age_of (sample_stored e)) 0 0 ?j ?b ?e True None = (j, b, Inr (s, []))"
    using u wa a by (simp add: record_now_def)
  have d: "do_record sample_manager_config sample_input (sample_stored_world e) (sample_stored e) ''A1'' OMS (SendStarted None) True =
      ((sample_stored_world e)\<lparr>wd_journal := j\<rparr>, (sample_stored e)\<lparr>om_books := b\<rparr>, Inr s)"
    by (simp only: do_record_def record_event_def sample_input_fields r prod.case sum.case list.simps foldl_Nil)
  have id: "mc_send_record_id sample_manager_config = None" by (simp add: sample_manager_config_def)
  show ?thesis
    unfolding start_write_def Let_def sample_request_cid id d using s(2) en sample_stored_fields [of e] by simp
qed

text \<open>From the first start to the intent, and to the call of \<open>place_order\<close>.\<close>

lemma sample_intended:
  "\<exists>e. sample_reaches \<lparr>sy_world = sample_stored_world e, sy_managers = sample_managers (sample_stored e),
     sy_tasks = [(0, SendBegin sample_request)]\<rparr>"
proof -
  note r1 = sample_run [OF sample_run [OF sample_start sample_lookup] sample_waits]
  note r2 = sample_run [OF r1 sample_checks_one]
  obtain e where e: "sample_advance sample_world (fresh_kill sample_locked 2)
     (SubmitCheck sample_request (Some sample_instrument) sample_quote_given (MergeGot 0 (1, no_kill))) =
   (sample_world, sample_approved_by e, Some (IntentWrite sample_request))"
    using sample_checks_two by blast
  show ?thesis using sample_run [OF sample_run [OF r2 e] sample_intent] by (rule exI)
qed

lemma sample_placed:
  "\<exists>w m. sample_reaches \<lparr>sy_world = w, sy_managers = sample_managers m, sy_tasks = [(0, PlaceCall sample_request)]\<rparr> \<and>
     wd_placed w = [(sample_request, 0)] \<and> wd_rows w = [] \<and> ej_entries (wd_journal w) = sample_entries"
proof -
  obtain e where r3: "sample_reaches \<lparr>sy_world = sample_stored_world e, sy_managers = sample_managers (sample_stored e),
     sy_tasks = [(0, SendBegin sample_request)]\<rparr>"
    using sample_intended by blast
  obtain w m where s: "start_write sample_manager_config sample_input (sample_stored_world e) (sample_stored e) sample_request =
     (w, m, Some (SendCheck sample_request 0 MergeRead))" "wd_rows w = []" "wd_placed w = []"
     "om_kill m = (initial_kill no_kill)\<lparr>km_fresh := 2\<rparr>" "om_cancel_first m = {}"
     "ej_entries (wd_journal w) = sample_entries"
    using sample_starts [of e] by (elim exE conjE) (rule that)
  have a1: "sample_advance (sample_stored_world e) (sample_stored e) (StartWrite sample_request) =
      (w, m, Some (SendCheck sample_request 0 MergeRead))"
    using s(1) by simp
  let ?m1 = "m\<lparr>om_kill := (initial_kill no_kill)\<lparr>km_fresh := 3\<rparr>\<rparr>"
  have a2: "sample_advance w m (SendCheck sample_request 0 MergeRead) =
      (w, ?m1, Some (SendCheck sample_request 0 (MergeGot 0 (2, no_kill))))"
    using s by (simp del: merge_advance.simps add: send_check_def Let_def sample_merge_read)
  have a3: "sample_advance w ?m1 (SendCheck sample_request 0 (MergeGot 0 (2, no_kill))) =
      (w\<lparr>wd_placed := [(sample_request, 0)]\<rparr>, ?m1\<lparr>om_placing := insert ''A1'' (om_placing m)\<rparr>, Some (PlaceCall sample_request))"
    using s by (simp del: merge_advance.simps add: send_check_def Let_def sample_merge_got send_refusal_def kill_engaged_def)
      (simp add: initial_kill_def no_kill_def)
  note r4 = sample_run [OF r3 sample_begins]
  have "sample_reaches \<lparr>sy_world = w\<lparr>wd_placed := [(sample_request, 0)]\<rparr>,
      sy_managers = sample_managers (?m1\<lparr>om_placing := insert ''A1'' (om_placing m)\<rparr>), sy_tasks = [(0, PlaceCall sample_request)]\<rparr>"
    by (rule sample_run [OF sample_run [OF sample_run [OF r4 a1] a2] a3])
  then show ?thesis using s(2,6) by (intro exI [of _ "w\<lparr>wd_placed := [(sample_request, 0)]\<rparr>"] exI conjI) (assumption, simp_all)
qed

text \<open>C1: An order is handed to the venue at most once, and never before the journal has it: in every
  interleaving of submits, cancels, amends, venue events, failing writes, cancelled callers and
  restarts of any number of managers on one journal, no client order id is placed twice, and what was
  placed has its intent and the start of its send on record.\<close>

theorem order_placed_at_most_once:
  assumes "om_reaches cfg rc loads dumps (first_start rc) s"
  shows "distinct (placed_ids (sy_world s)) \<and>
    (\<forall>(r, n) \<in> set (wd_placed (sy_world s)). intent_logged (events_of_world (sy_world s)) r \<and>
       start_logged (events_of_world (sy_world s)) (req_cid r))"
proof -
  have "send_inv s" using om_reaches_send_inv [OF assms first_start_inv] by blast
  then show ?thesis by (auto simp: send_inv_def)
qed

lemma order_placed_at_most_once_witness:
  "\<exists>s::om_sys. wd_placed (sy_world s) = [(sample_request, 0)] \<and> distinct (placed_ids (sy_world s)) \<and>
     intent_logged (events_of_world (sy_world s)) sample_request"
proof -
  obtain w m where r: "sample_reaches \<lparr>sy_world = w, sy_managers = sample_managers m,
      sy_tasks = [(0, PlaceCall sample_request)]\<rparr>" and p: "wd_placed w = [(sample_request, 0)]"
    using sample_placed by blast
  show ?thesis
    using order_placed_at_most_once [OF r] p
    by (intro exI [of _ "\<lparr>sy_world = w, sy_managers = sample_managers m, sy_tasks = [(0, PlaceCall sample_request)]\<rparr>"]) simp
qed

text \<open>C6: What a send came to is recorded for what it proves. An order being sent ends as \<open>REJECTED\<close> only
  for an answer that means the venue does not have it; an ambiguous answer, a duplicate id, a cancelled
  caller and any other exception leave it \<open>UNKNOWN\<close>, and only an answer that names the venue's order
  makes it a working or filled order.\<close>

theorem send_outcome_is_what_it_proves:
  assumes "st_status s = SUBMITTING" and "place_outcome a = (origin, body)"
    and "apply_event s (local_event (state_cid s) now origin body) = Inr s'"
  shows "st_status s' =
    (case a of
       VReturned v \<Rightarrow> working_status s
     | VVenueError _ _ \<Rightarrow> REJECTED | VAuthError _ \<Rightarrow> REJECTED | VRateLimited _ \<Rightarrow> REJECTED | VTransport _ \<Rightarrow> REJECTED
     | _ \<Rightarrow> UNKNOWN) \<and> st_request s' = st_request s \<and> st_fills s' = st_fills s"
  using assms
  by (cases a) (auto simp: place_outcome_def apply_event_settle apply_body_def transition_def local_event_def)

lemma send_outcome_is_what_it_proves_witness:
  "\<exists>s'. apply_event ((new_order sample_request)\<lparr>st_status := SUBMITTING\<rparr>)
      (local_event ''A1'' 0 OMS (OutcomeUnknown ''timeout'')) = Inr s' \<and> st_status s' = UNKNOWN"
proof -
  let ?s = "(new_order sample_request)\<lparr>st_status := SUBMITTING\<rparr>"
  obtain s' where "apply_event ?s (local_event ''A1'' 0 OMS (OutcomeUnknown ''timeout'')) = Inr s'"
    by (simp add: apply_event_settle local_event_def state_cid_def new_order_def)
  then show ?thesis
    using send_outcome_is_what_it_proves [of ?s "VAmbiguous ''timeout''" OMS "OutcomeUnknown ''timeout''" 0 s']
    by (simp add: place_outcome_def state_cid_def new_order_def)
qed

end
