(* ===== verification/SendSafety.thy ===== *)
theory SendSafety
  imports SendPath
begin

text \<open>
  What the send path of \<open>SendPath\<close> promises beyond sending once: nothing is sent unless the journal had
  the kill switch off after the send was recorded, a cancelled send goes no further, and no order is left
  behind as never sent.
\<close>

section \<open>Nothing is sent while the kill switch is on\<close>

definition switch_of :: "(string \<Rightarrow> json option) \<Rightarrow> (int \<times> string \<times> string) list \<Rightarrow> manager \<Rightarrow> bool" where
  "switch_of loads rows m = kill_inv loads \<lparr>ky_mem = om_kill m, ky_rows = rows, ky_tasks = om_kill_tasks m\<rparr>"

fun merging :: "task \<Rightarrow> (nat \<times> kill_task) option" where
  "merging (SubmitCheck _ _ _ k) = Some (0, k)"
| "merging (SendCheck _ n k) = Some (n, k)"
| "merging (AmendCheck _ _ _ _ _ _ k) = Some (0, k)"
| "merging (AmendKill _ _ _ n k) = Some (n, k)"
| "merging _ = None"

definition merge_ok :: "(string \<Rightarrow> json option) \<Rightarrow> (int \<times> string \<times> string) list \<Rightarrow> nat \<Rightarrow> kill_task \<Rightarrow> bool" where
  "merge_ok loads rows n k \<longleftrightarrow>
     n \<le> length rows \<and> is_merge k \<and> task_ok loads rows k \<and> (k = MergeRead \<or> n \<le> merge_rows k)"

definition merges_ok :: "(string \<Rightarrow> json option) \<Rightarrow> (int \<times> string \<times> string) list \<Rightarrow> task \<Rightarrow> bool" where
  "merges_ok loads rows t = (case merging t of None \<Rightarrow> True | Some (n, k) \<Rightarrow> merge_ok loads rows n k)"

definition off_since :: "(string \<Rightarrow> json option) \<Rightarrow> (int \<times> string \<times> string) list \<Rightarrow> nat \<Rightarrow> bool" where
  "off_since loads rows n \<longleftrightarrow>
     (\<exists>k. n \<le> k \<and> k \<le> length rows \<and> \<not> ks_engaged (kill_state_from loads (take k rows)))"

lemma switch_of_cong:
  "om_kill m' = om_kill m \<Longrightarrow> om_kill_tasks m' = om_kill_tasks m \<Longrightarrow> switch_of loads rows m' = switch_of loads rows m"
  by (simp add: switch_of_def)

lemma switch_ofD: "switch_of loads rows m \<Longrightarrow> ascending_rows rows \<and> memory_ok loads rows (om_kill m)"
  by (simp add: switch_of_def kill_inv_def)

lemma halt_manager_switch: "switch_of loads rows m \<Longrightarrow> switch_of loads rows (halt_manager m reason)"
  using engage_begin_ok [of loads rows "om_kill m"]
  by (auto simp: switch_of_def kill_inv_def halt_manager_def Let_def split: prod.splits)

lemma raise_anomalies_switch:
  "switch_of loads rows m \<Longrightarrow> switch_of loads rows (foldl (raise_anomaly cfg cid) m as)"
  by (induction as arbitrary: m) (simp_all add: raise_anomaly_def halt_manager_switch)

lemma record_event_switch:
  assumes "record_event cfg disk now mt j m e durable only_if = (j', m', res)" and "switch_of loads rows m"
  shows "switch_of loads rows m'"
proof -
  obtain j1 b1 r1 where n: "record_now (write_entry disk now) (max_age_of m) now mt j (om_books m) e durable only_if = (j1, b1, r1)"
    using prod_cases3 by blast
  have "switch_of loads rows (m\<lparr>om_books := b1\<rparr>)" using assms(2) by (simp add: switch_of_def)
  then show ?thesis
    using assms(1) n raise_anomalies_switch [of loads rows "m\<lparr>om_books := b1\<rparr>" cfg "ev_cid e"]
    by (auto simp: record_event_def split: sum.splits prod.splits)
qed

lemma do_record_switch:
  "do_record cfg i w m cid origin body durable = (w', m', res) \<Longrightarrow> switch_of loads rows m \<Longrightarrow> switch_of loads rows m'"
  using record_event_switch [of cfg "in_disk i" "in_now i" "in_mono i" "wd_journal w" m]
  by (auto simp: do_record_def split: prod.splits)

lemma merge_piece:
  assumes "switch_of loads rows m" and "merge_ok loads rows n k"
    and "merge_advance loads (om_kill m) rows intact k = (km, nxt)"
  shows "switch_of loads rows (m\<lparr>om_kill := km\<rparr>)"
    and "nxt = Some k' \<Longrightarrow> merge_ok loads rows n k'"
    and "nxt = None \<Longrightarrow> \<not> kill_engaged km \<Longrightarrow> off_since loads rows n"
proof -
  note d = switch_ofD [OF assms(1)]
  have k: "n \<le> length rows" "is_merge k" "task_ok loads rows k" "k = MergeRead \<or> n \<le> merge_rows k"
    using assms(2) by (simp_all add: merge_ok_def)
  note a = merge_advance_ok [OF d [THEN conjunct1] d [THEN conjunct2] k(3,2) assms(3)]
  show "switch_of loads rows (m\<lparr>om_kill := km\<rparr>)" using a assms(1) by (simp add: switch_of_def kill_inv_def)
  show "nxt = Some k' \<Longrightarrow> merge_ok loads rows n k'" using a k by (auto simp: merge_ok_def)
  show "off_since loads rows n" if "nxt = None" "\<not> kill_engaged km"
  proof -
    have "\<exists>j. merge_rows k \<le> j \<and> j \<le> length rows \<and> \<not> ks_engaged (kill_state_from loads (take j rows))"
      using merge_advance_off [OF d [THEN conjunct1] d [THEN conjunct2] k(3,2) _ that(2)] assms(3) that(1) by blast
    moreover have "k \<noteq> MergeRead" using assms(3) that(1) by (auto split: prod.splits)
    ultimately show ?thesis using k(4) le_trans unfolding off_since_def by blast
  qed
qed

definition checked :: "(string \<Rightarrow> json option) \<Rightarrow> world \<Rightarrow> world \<Rightarrow> bool" where
  "checked loads w w' \<longleftrightarrow>
     (\<forall>(r, n) \<in> set (wd_placed w'). (r, n) \<in> set (wd_placed w) \<or> off_since loads (wd_rows w) n) \<and>
     (\<forall>(c, n) \<in> set (wd_amended w'). (c, n) \<in> set (wd_amended w) \<or> off_since loads (wd_rows w) n)"

lemma checked_same: "wd_placed w' = wd_placed w \<Longrightarrow> wd_amended w' = wd_amended w \<Longrightarrow> checked loads w w'"
  by (auto simp: checked_def)

definition quiet :: "task \<Rightarrow> bool" where
  "quiet t \<longleftrightarrow> merging t = None"

lemma switch_of_fields [simp]:
  "switch_of loads rows (m\<lparr>om_engine := e\<rparr>) = switch_of loads rows m"
  "switch_of loads rows (m\<lparr>om_submitting := x\<rparr>) = switch_of loads rows m"
  "switch_of loads rows (m\<lparr>om_placing := x\<rparr>) = switch_of loads rows m"
  "switch_of loads rows (m\<lparr>om_change_at := c\<rparr>) = switch_of loads rows m"
  "switch_of loads rows (m\<lparr>om_submit_lock := b\<rparr>) = switch_of loads rows m"
  "switch_of loads rows (m\<lparr>om_cancel_first := x\<rparr>) = switch_of loads rows m"
  "switch_of loads rows (m\<lparr>om_books := bk\<rparr>) = switch_of loads rows m"
  "switch_of loads rows (m\<lparr>om_started := b\<rparr>) = switch_of loads rows m"
  "switch_of loads rows (unlock m) = switch_of loads rows m"
  "switch_of loads rows (finish_call fin cid m) = switch_of loads rows m"
  by (simp_all add: switch_of_def unlock_def finish_call_def split: finish.split)

lemma lookup_instrument_fields:
  "lookup_instrument cfg m now y a = (m', i) \<Longrightarrow>
   om_kill m' = om_kill m \<and> om_kill_tasks m' = om_kill_tasks m \<and> bk_orders (om_books m') = bk_orders (om_books m) \<and> same_calls m m'"
  by (auto simp: lookup_instrument_def Let_def same_calls_def split: option.splits prod.splits if_splits)

lemma foldl_keeps: "(\<And>m y. P m \<Longrightarrow> P (f m y)) \<Longrightarrow> P m \<Longrightarrow> P (foldl f m ys)"
  by (induction ys arbitrary: m) auto

lemma refresh_marks_fields:
  "om_kill (refresh_marks cfg m r now mt q a) = om_kill m \<and> om_kill_tasks (refresh_marks cfg m r now mt q a) = om_kill_tasks m \<and>
   bk_orders (om_books (refresh_marks cfg m r now mt q a)) = bk_orders (om_books m) \<and> same_calls m (refresh_marks cfg m r now mt q a)"
proof -
  let ?P = "\<lambda>m'. om_kill m' = om_kill m \<and> om_kill_tasks m' = om_kill_tasks m \<and>
    bk_orders (om_books m') = bk_orders (om_books m) \<and> same_calls m m'"
  have one: "?P (adopt_quote m' now mt y x)" if "?P m'" for m' y x
    using that by (auto simp: adopt_quote_def mark_quote_def Let_def same_calls_def split: option.splits if_splits)
  have two: "?P (fst (lookup_instrument cfg m' mt y x))" if "?P m'" for m' y x
    using that lookup_instrument_fields [of cfg m' mt y x]
    by (cases "lookup_instrument cfg m' mt y x") (auto simp: same_calls_def)
  have "?P m" by (simp add: same_calls_def)
  then have "?P (foldl (\<lambda>m y. adopt_quote m now mt y (q y)) m (stale_symbols m r mt))"
    by (rule foldl_keeps [rotated]) (rule one)
  then have "?P (foldl (\<lambda>m' y. fst (lookup_instrument cfg m' mt y (a y)))
      (foldl (\<lambda>m y. adopt_quote m now mt y (q y)) m (stale_symbols m r mt)) (missing_symbols m r))"
    by (rule foldl_keeps [rotated]) (rule two)
  then show ?thesis by (simp add: refresh_marks_def Let_def same_calls_def)
qed


lemma lookups_switch:
  "lookup_instrument cfg m now y a = (m', inst) \<Longrightarrow>
   switch_of loads rows (refresh_marks cfg (adopt_quote m' t mt y q) r t2 mt2 qs is) = switch_of loads rows m"
  using refresh_marks_fields [of cfg "adopt_quote m' t mt y q" r t2 mt2 qs "is"] lookup_instrument_fields [of cfg m now y a m' inst]
  by (simp add: switch_of_def adopt_quote_def)

lemma cancel_begin_switch:
  "cancel_begin m cid mt = Inr (m', c) \<Longrightarrow> switch_of loads rows m' = switch_of loads rows m"
  by (auto simp: cancel_begin_def split: option.splits if_splits)

lemma advance_switch:
  assumes adv: "advance cfg loads i w m t = (w', m', nxt)" and sw: "switch_of loads (wd_rows w) m"
    and mk: "merges_ok loads (wd_rows w) t"
  shows "switch_of loads (wd_rows w) m' \<and> (case nxt of None \<Rightarrow> True | Some t' \<Rightarrow> merges_ok loads (wd_rows w) t') \<and>
    checked loads w w'"
proof -
  have start: "merge_ok loads (wd_rows w) n MergeRead" if "n \<le> length (wd_rows w)" for n
    using that by (simp add: merge_ok_def)
  show ?thesis
  proof (cases "merging t")
    case None
    then show ?thesis
      using adv sw start
      by (cases t)
        (auto simp: advance_defs merges_ok_def checked_same lookups_switch cancel_begin_switch do_record_effect(3,4,5)
          split: advance_splits dest: do_record_switch [where loads = loads and rows = "wd_rows w"])
  next
    case (Some nk)
    then obtain n k where nk: "merging t = Some (n, k)" by (cases nk) simp
    obtain km nx where ma: "merge_advance loads (om_kill m) (wd_rows w) (in_intact i) k = (km, nx)" by fastforce
    have ok: "merge_ok loads (wd_rows w) n k" using mk nk by (simp add: merges_ok_def)
    note mp = merge_piece [OF sw ok ma]
    show ?thesis
      using nk adv sw mp ma
      by (cases t)
        (auto simp: advance_defs merges_ok_def checked_def send_refusal_def split: advance_splits)
  qed
qed


definition switch_inv :: "(string \<Rightarrow> json option) \<Rightarrow> om_sys \<Rightarrow> bool" where
  "switch_inv loads s \<longleftrightarrow>
     (\<forall>p. switch_of loads (wd_rows (sy_world s)) (sy_managers s p)) \<and>
     (\<forall>(p, t) \<in> set (sy_tasks s). merges_ok loads (wd_rows (sy_world s)) t) \<and>
     (\<forall>(r, n) \<in> set (wd_placed (sy_world s)). off_since loads (wd_rows (sy_world s)) n) \<and>
     (\<forall>(c, n) \<in> set (wd_amended (sy_world s)). off_since loads (wd_rows (sy_world s)) n)"

lemma call_quiet: "is_call t \<Longrightarrow> merging t = None"
  by (cases t) simp_all

lemma off_since_append: "off_since loads rows n \<Longrightarrow> off_since loads (rows @ ys) n"
  unfolding off_since_def by (elim exE conjE) (rule_tac x = k in exI, simp)

lemma merges_ok_append:
  "ascending_rows (rows @ ys) \<Longrightarrow> merges_ok loads rows t \<Longrightarrow> merges_ok loads (rows @ ys) t"
  using task_ok_append [of rows ys loads] by (auto simp: merges_ok_def merge_ok_def split: option.splits)

lemma switch_of_append: "ascending_rows (rows @ ys) \<Longrightarrow> switch_of loads rows m \<Longrightarrow> switch_of loads (rows @ ys) m"
  using memory_ok_append [of rows ys loads] tasks_ok_append [of rows ys loads]
  by (simp add: switch_of_def kill_inv_def)

lemma switch_invI:
  assumes "\<And>q. switch_of loads (wd_rows w) (ms q)" and "\<And>q t. (q, t) \<in> set ts \<Longrightarrow> merges_ok loads (wd_rows w) t"
    and "\<And>r n. (r, n) \<in> set (wd_placed w) \<Longrightarrow> off_since loads (wd_rows w) n"
    and "\<And>c n. (c, n) \<in> set (wd_amended w) \<Longrightarrow> off_since loads (wd_rows w) n"
  shows "switch_inv loads \<lparr>sy_world = w, sy_managers = ms, sy_tasks = ts\<rparr>"
  using assms by (auto simp: switch_inv_def)

lemma switch_invD:
  assumes "switch_inv loads \<lparr>sy_world = w, sy_managers = ms, sy_tasks = ts\<rparr>"
  shows "switch_of loads (wd_rows w) (ms q)" and "(q, t) \<in> set ts \<Longrightarrow> merges_ok loads (wd_rows w) t"
    and "(r, n) \<in> set (wd_placed w) \<Longrightarrow> off_since loads (wd_rows w) n"
    and "(c, n) \<in> set (wd_amended w) \<Longrightarrow> off_since loads (wd_rows w) n"
  using assms unfolding switch_inv_def by fastforce+

text \<open>Steps that neither touch the rows nor the venue.\<close>

lemma switch_inv_quiet:
  assumes inv: "switch_inv loads \<lparr>sy_world = w, sy_managers = ms, sy_tasks = ts\<rparr>"
    and "wd_rows w' = wd_rows w" "wd_placed w' = wd_placed w" "wd_amended w' = wd_amended w"
    and "\<And>q. switch_of loads (wd_rows w) (ms q) \<Longrightarrow> switch_of loads (wd_rows w) (ms' q)"
    and "\<And>q t. (q, t) \<in> set ts' \<Longrightarrow> merging t = None \<or> (q, t) \<in> set ts"
  shows "switch_inv loads \<lparr>sy_world = w', sy_managers = ms', sy_tasks = ts'\<rparr>"
proof (rule switch_invI)
  note i = switch_invD [OF inv]
  show "merges_ok loads (wd_rows w') t" if "(q, t) \<in> set ts'" for q t
    using assms(6) [OF that] i(2) [of q t] assms(2) by (auto simp: merges_ok_def)
qed (use switch_invD [OF inv] assms in auto)

lemma recover_manager_switch:
  assumes "recover_manager cfg loads rc now mt j rows = Inr m" and "ascending_rows rows"
  shows "switch_of loads rows m"
proof -
  obtain b h where b: "m = recover_halt cfg ((blank_manager rc)
      \<lparr>om_books := b, om_kill := initial_kill (kill_state_from loads rows)\<rparr>) h"
    using assms(1) by (auto simp: recover_manager_def bind_result_eq_Inr)
  have "switch_of loads rows ((blank_manager rc)\<lparr>om_books := b, om_kill := initial_kill (kill_state_from loads rows)\<rparr>)"
    using initial_inv [OF assms(2), of loads]
    by (simp add: switch_of_def blank_manager_def kill_inv_def)
  then show ?thesis by (auto simp: b recover_halt_def halt_manager_switch split: option.splits)
qed

lemma om_step_switch_inv:
  assumes "om_step cfg rc loads dumps s s'" and codec: "codec_ok loads dumps" and inv: "switch_inv loads s"
  shows "switch_inv loads s' \<and> (\<exists>ys. wd_rows (sy_world s') = wd_rows (sy_world s) @ ys)"
  using assms(1)
proof (cases rule: om_step.cases)
  case (call t w ms ts p)
  have "switch_inv loads s'"
    unfolding call(2) by (rule switch_inv_quiet [OF inv [unfolded call(1)]]) (use call_quiet [OF call(3)] in auto)
  then show ?thesis by (simp add: call)
next
  case (run p i w ms t w' m' nxt xs ys)
  note v = switch_invD [OF inv [unfolded run(1)]] and rows = advance_rows [OF run(3)]
  have a: "switch_of loads (wd_rows w) m'" "\<And>t'. nxt = Some t' \<Longrightarrow> merges_ok loads (wd_rows w) t'" "checked loads w w'"
    using advance_switch [OF run(3) v(1) v(2) [of p]] by (auto split: option.splits)
  have "switch_inv loads \<lparr>sy_world = w', sy_managers = ms(p := m'), sy_tasks = resume_with xs p nxt ys\<rparr>"
  proof (rule switch_invI)
    show "switch_of loads (wd_rows w') ((ms(p := m')) q)" for q using a(1) v(1) [of q] rows by simp
    show "merges_ok loads (wd_rows w') t'" if "(q, t') \<in> set (resume_with xs p nxt ys)" for q t'
      using that a(2) v(2) [of q t'] rows by (auto simp: resume_with_def split: option.splits)
    show "off_since loads (wd_rows w') n" if "(r, n) \<in> set (wd_placed w')" for r n
      using that a(3) v(3) [of r n] rows by (auto simp: checked_def)
    show "off_since loads (wd_rows w') n" if "(c, n) \<in> set (wd_amended w')" for c n
      using that a(3) v(4) [of c n] rows by (auto simp: checked_def)
  qed
  with rows show ?thesis by (simp add: run)
next
  case (switch ms p w k rows kts ts)
  note v = switch_invD [OF inv [unfolded switch(1)]]
  note st = kill_step_inv [OF switch(3) codec]
  have k: "kill_inv loads \<lparr>ky_mem = k, ky_rows = rows, ky_tasks = kts\<rparr>" "\<exists>ys. rows = wd_rows w @ ys"
    using st v(1) [of p] by (simp_all add: switch_of_def)
  then obtain ys where ys: "rows = wd_rows w @ ys" by blast
  have asc: "ascending_rows (wd_rows w @ ys)" using k(1) ys by (simp add: kill_inv_def)
  have "switch_inv loads \<lparr>sy_world = w\<lparr>wd_rows := rows\<rparr>,
      sy_managers = ms(p := (ms p)\<lparr>om_kill := k, om_kill_tasks := kts\<rparr>), sy_tasks = ts\<rparr>"
  proof (rule switch_invI)
    show "switch_of loads (wd_rows (w\<lparr>wd_rows := rows\<rparr>)) ((ms(p := (ms p)\<lparr>om_kill := k, om_kill_tasks := kts\<rparr>)) q)" for q
      using switch_of_append [OF asc v(1)] k(1) ys by (simp add: switch_of_def)
    show "merges_ok loads (wd_rows (w\<lparr>wd_rows := rows\<rparr>)) t" if "(q, t) \<in> set ts" for q t
      using merges_ok_append [OF asc v(2) [OF that]] ys by simp
  qed (use off_since_append v(3,4) ys in auto)
  with ys show ?thesis by (simp add: switch)
next
  case (venue_event e p disk now mt w ms durable only_if j' m' res ts)
  have "switch_inv loads s'"
    unfolding venue_event(2) by (rule switch_inv_quiet [OF inv [unfolded venue_event(1)]])
      (use record_event_switch [OF venue_event(4)] in auto)
  then show ?thesis by (simp add: venue_event)
next
  case (retry_writes disk now w ms p j' b' ts)
  have "switch_inv loads s'"
    unfolding retry_writes(2) by (rule switch_inv_quiet [OF inv [unfolded retry_writes(1)]]) auto
  then show ?thesis by (simp add: retry_writes)
next
  case (other_memory ms p m' w ts)
  have "switch_inv loads s'"
    unfolding other_memory(2) by (rule switch_inv_quiet [OF inv [unfolded other_memory(1)]])
      (use other_memory(3) switch_of_cong [of m' "ms p" loads "wd_rows w"] in \<open>auto simp: same_sends_def\<close>)
  then show ?thesis by (simp add: other_memory)
next
  case (other_entry en w ms ts disk now)
  have "switch_inv loads s'"
    unfolding other_entry(2) by (rule switch_inv_quiet [OF inv [unfolded other_entry(1)]]) auto
  then show ?thesis by (simp add: other_entry)
next
  case (restart p now mt w m' ms ts)
  have "ascending_rows (wd_rows w)" using switch_ofD [OF switch_invD(1) [OF inv [unfolded restart(1)]]] by simp
  then have m: "switch_of loads (wd_rows w) m'" using recover_manager_switch [OF restart(3)] by blast
  have "switch_inv loads s'"
    unfolding restart(2) by (rule switch_inv_quiet [OF inv [unfolded restart(1)]]) (use m in auto)
  then show ?thesis by (simp add: restart)
next
  case (started p ts ms w)
  have "switch_inv loads s'"
    unfolding started(2) by (rule switch_inv_quiet [OF inv [unfolded started(1)]]) auto
  then show ?thesis by (simp add: started)
qed

lemma om_reaches_switch_inv:
  "om_reaches cfg rc loads dumps s s' \<Longrightarrow> codec_ok loads dumps \<Longrightarrow> switch_inv loads s \<Longrightarrow> switch_inv loads s'"
  by (induction rule: om_reaches.induct) (simp_all add: om_step_switch_inv)

lemma first_start_switch: "switch_inv loads (first_start rc)"
  using initial_inv [of "[]" loads]
  by (simp add: switch_inv_def first_start_def switch_of_def blank_manager_def ascending_rows_def)


section \<open>A cancelled send goes no further\<close>

text \<open>
  From the moment \<open>cancel\<close> has marked an order whose send has not reached the venue, nothing is placed
  under its id, whatever happens and whoever restarts.
\<close>

definition never_placed :: "nat \<Rightarrow> string \<Rightarrow> om_sys \<Rightarrow> bool" where
  "never_placed p cid s \<longleftrightarrow>
     cid \<in> intended (events_of_world (sy_world s)) \<and> cid \<notin> set (placed_ids (sy_world s)) \<and>
     (\<forall>q t. (q, t) \<in> set (sy_tasks s) \<and> map_option req_cid (sending t) = Some cid \<longrightarrow>
        q = p \<and> cid \<in> om_cancel_first (sy_managers s p))"

lemma never_placedD:
  assumes "never_placed p cid \<lparr>sy_world = w, sy_managers = ms, sy_tasks = ts\<rparr>"
  shows "cid \<in> intended (events_of_world w)" and "cid \<notin> set (placed_ids w)"
    and "(q, t) \<in> set ts \<Longrightarrow> map_option req_cid (sending t) = Some cid \<Longrightarrow>
      q = p \<and> cid \<in> om_cancel_first (ms p)"
  using assms unfolding never_placed_def om_sys.select_convs by blast+

lemma never_placedI:
  assumes "cid \<in> intended (events_of_world w)" and "cid \<notin> set (placed_ids w)"
    and "\<And>q t. (q, t) \<in> set ts \<Longrightarrow> map_option req_cid (sending t) = Some cid \<Longrightarrow>
      q = p \<and> cid \<in> om_cancel_first (ms p)"
  shows "never_placed p cid \<lparr>sy_world = w, sy_managers = ms, sy_tasks = ts\<rparr>"
  using assms unfolding never_placed_def om_sys.select_convs by blast

lemma same_calls_cancel: "same_calls m m' \<Longrightarrow> om_cancel_first m' = om_cancel_first m"
  by (simp add: same_calls_def)

lemma lookups_cancel:
  "lookup_instrument cfg m now y a = (m', inst) \<Longrightarrow>
   om_cancel_first (refresh_marks cfg (adopt_quote m' t mt y q) r t2 mt2 qs is) = om_cancel_first m"
  using refresh_marks_fields [of cfg "adopt_quote m' t mt y q" r t2 mt2 qs "is"] lookup_instrument_fields [of cfg m now y a m' inst]
  by (simp add: same_calls_def adopt_quote_def)

text \<open>Only the end of the call that owns an id takes it out of the marked ones.\<close>

lemma advance_cancel_first:
  assumes "advance cfg loads i w m t = (w', m', nxt)" and "cid \<in> om_cancel_first m"
  shows "cid \<in> om_cancel_first m' \<or> (life t = Some cid \<and> nxt = None)"
  using assms
  by (cases t)
    (auto simp: advance_defs unlock_def finish_call_def lookups_cancel cancel_begin_def
      split: advance_splits finish.splits dest!: do_record_effect(1) [THEN same_calls_cancel])

lemma advance_respects_cancel:
  assumes "advance cfg loads i w m t = (w', m', nxt)" and "sending t = Some r" and "req_cid r \<in> om_cancel_first m"
  shows "wd_placed w' = wd_placed w"
  using assms
  by (cases t)
    (auto simp: advance_defs send_refusal_def do_record_effect(4) split: advance_splits)


lemma never_placed_run:
  assumes si: "send_inv \<lparr>sy_world = w, sy_managers = ms, sy_tasks = xs @ (q0, t) # ys\<rparr>"
    and np: "never_placed p cid \<lparr>sy_world = w, sy_managers = ms, sy_tasks = xs @ (q0, t) # ys\<rparr>"
    and adv: "advance c loads i w (ms q0) t = (w', m', nxt)"
  shows "never_placed p cid \<lparr>sy_world = w', sy_managers = ms(q0 := m'), sy_tasks = resume_with xs q0 nxt ys\<rparr>"
proof -
  note g = advance_grows [OF adv] and i = send_invD [OF si]
  note int = never_placedD(1) [OF np] and out = never_placedD(2) [OF np] and own = never_placedD(3) [OF np]
  have mine: "q0 = p \<and> cid \<in> om_cancel_first (ms p)" if "sending t = Some r" "req_cid r = cid" for r
    using own [of q0 t] that by simp
  have out': "cid \<notin> set (placed_ids w')"
    using advance_moves [OF adv]
  proof
    assume "placement w w' t nxt"
    then obtain r n k where t: "t = SendCheck r n k" "wd_placed w' = wd_placed w @ [(r, n)]"
      by (auto simp: placement_def)
    have "req_cid r \<noteq> cid"
    proof
      assume c: "req_cid r = cid"
      have "cid \<in> om_cancel_first (ms q0)" "q0 = p" using mine [of r] t(1) c by simp_all
      then have "wd_placed w' = wd_placed w"
        using advance_respects_cancel [OF adv, of r] t(1) c by simp
      with t(2) show False by simp
    qed
    with t(2) out show ?thesis by (simp add: placed_ids_def)
  next
    assume "no_placement w w' t nxt"
    then show ?thesis using out by (simp add: placed_ids_def no_placement_def)
  qed
  have others: "q = p \<and> cid \<in> om_cancel_first ((ms(q0 := m')) p)"
    if "(q, t2) \<in> set xs \<union> set ys" "map_option req_cid (sending t2) = Some cid" for q t2
  proof -
    have o: "q = p" "cid \<in> om_cancel_first (ms p)" using own [of q t2] that by auto
    have l2: "life t2 = Some cid" using that(2) sending_life by auto
    have "cid \<in> set (life_ids xs) \<union> set (life_ids ys)" using that(1) l2 by (auto simp: life_ids_iff)
    then have "life t \<noteq> Some cid" using i(2) by auto
    then have "q0 = p \<longrightarrow> cid \<in> om_cancel_first m'"
      using advance_cancel_first [OF adv, of cid] o(2) by auto
    with o show ?thesis by auto
  qed
  have new: "q0 = p \<and> cid \<in> om_cancel_first m'" if n: "nxt = Some t'" and s: "map_option req_cid (sending t') = Some cid" for t'
  proof -
    obtain r' where r': "sending t' = Some r'" "req_cid r' = cid" using s by auto
    consider "sending t' = sending t" | r where "t = IntentWrite r" "t' = SendBegin r" "req_cid r \<notin> intended (events_of_world w)"
      | "placement w w' t nxt"
      using advance_moves [OF adv] n r' sending_life [of t' r'] unfolding no_placement_def by auto
    then show ?thesis
    proof cases
      case 1
      then have "q0 = p" "cid \<in> om_cancel_first (ms q0)" using mine [of r'] r' by simp_all
      then show ?thesis using advance_cancel_first [OF adv, of cid] n by auto
    next
      case 2
      then show ?thesis using r' int by simp
    next
      case 3
      then show ?thesis using n r' by (auto simp: placement_def)
    qed
  qed
  show ?thesis
  proof (rule never_placedI)
    show "cid \<in> intended (events_of_world w')" using int grows_logged(3) [OF g] by blast
    show "q = p \<and> cid \<in> om_cancel_first ((ms(q0 := m')) p)"
      if "(q, t2) \<in> set (resume_with xs q0 nxt ys)" "map_option req_cid (sending t2) = Some cid" for q t2
      using that others [of q t2] new [of t2] by (auto simp: resume_with_def split: option.splits)
  qed (rule out')
qed

lemma never_placed_quiet:
  assumes np: "never_placed p cid \<lparr>sy_world = w, sy_managers = ms, sy_tasks = ts\<rparr>"
    and g: "grows (events_of_world w) (events_of_world w')" and pl: "wd_placed w' = wd_placed w"
    and t: "\<And>q t. (q, t) \<in> set ts' \<Longrightarrow> sending t = None \<or> (q, t) \<in> set ts \<and>
      (q = p \<longrightarrow> om_cancel_first (ms' p) = om_cancel_first (ms p))"
  shows "never_placed p cid \<lparr>sy_world = w', sy_managers = ms', sy_tasks = ts'\<rparr>"
proof (rule never_placedI)
  show "cid \<in> intended (events_of_world w')" using never_placedD(1) [OF np] grows_logged(3) [OF g] by blast
  show "cid \<notin> set (placed_ids w')" using never_placedD(2) [OF np] pl by (simp add: placed_ids_def)
  show "q = p \<and> cid \<in> om_cancel_first (ms' p)"
    if "(q, t) \<in> set ts'" "map_option req_cid (sending t) = Some cid" for q t
    using t [OF that(1)] that(2) never_placedD(3) [OF np, of q t] by auto
qed

lemma om_step_never_placed:
  assumes "om_step cfg rc loads dumps s s'" and si: "send_inv s" and np: "never_placed p cid s"
  shows "never_placed p cid s'"
  using assms(1)
proof (cases rule: om_step.cases)
  case (call t w ms ts p')
  show ?thesis
    unfolding call(2) by (rule never_placed_quiet [OF np [unfolded call(1)]]) (use call_idle [OF call(3)] in auto)
next
  case (run p' i w ms t w' m' nxt xs ys)
  show ?thesis unfolding run(2) by (rule never_placed_run [OF si [unfolded run(1)] np [unfolded run(1)] run(3)])
next
  case (switch ms p' w k rows kts ts)
  show ?thesis
    unfolding switch(2) by (rule never_placed_quiet [OF np [unfolded switch(1)]]) (auto simp: events_of_world_def)
next
  case (venue_event e p' disk now mt w ms durable only_if j' m' res ts)
  show ?thesis
    unfolding venue_event(2) by (rule never_placed_quiet [OF np [unfolded venue_event(1)]])
      (use record_event_effect(1,2) [OF venue_event(4)] in \<open>auto simp: events_of_world_def same_calls_def\<close>)
next
  case (retry_writes disk now w ms p' j' b' ts)
  show ?thesis
    unfolding retry_writes(2) by (rule never_placed_quiet [OF np [unfolded retry_writes(1)]])
      (use retry_grows [OF retry_writes(3)] in \<open>auto simp: events_of_world_def\<close>)
next
  case (other_memory ms p' m' w ts)
  show ?thesis
    unfolding other_memory(2) by (rule never_placed_quiet [OF np [unfolded other_memory(1)]])
      (use other_memory(3) in \<open>auto simp: same_sends_def\<close>)
next
  case (other_entry en w ms ts disk now)
  show ?thesis
    unfolding other_entry(2) by (rule never_placed_quiet [OF np [unfolded other_entry(1)]])
      (use append_entry_grows [OF other_entry(3)] in \<open>auto simp: events_of_world_def\<close>)
next
  case (restart p' now mt w m' ms ts)
  show ?thesis
    unfolding restart(2) by (rule never_placed_quiet [OF np [unfolded restart(1)]]) auto
next
  case (started p' ts ms w)
  show ?thesis
    unfolding started(2) by (rule never_placed_quiet [OF np [unfolded started(1)]]) auto
qed

lemma om_reaches_never_placed:
  "om_reaches cfg rc loads dumps s s' \<Longrightarrow> send_inv s \<Longrightarrow> never_placed p cid s \<Longrightarrow> never_placed p cid s'"
proof (induction rule: om_reaches.induct)
  case om_refl
  then show ?case by simp
next
  case (om_trans s' s'')
  then show ?case using om_step_never_placed [OF om_trans.hyps(2)] om_reaches_send_inv [OF om_trans.hyps(1)] by blast
qed

lemma cancelled_send:
  assumes si: "send_inv s" and task: "(p, t) \<in> set (sy_tasks s)" and t: "sending t = Some r"
    and c: "req_cid r \<in> om_cancel_first (sy_managers s p)"
  shows "never_placed p (req_cid r) s"
proof -
  obtain w ms ts where s: "s = \<lparr>sy_world = w, sy_managers = ms, sy_tasks = ts\<rparr>" by (cases s)
  note i = send_invD [OF si [unfolded s]]
  have l: "life t = Some (req_cid r)" using t by (rule sending_life)
  have "q = p" if "(q, t2) \<in> set ts" "map_option req_cid (sending t2) = Some (req_cid r)" for q t2
  proof (rule ccontr)
    assume ne: "q \<noteq> p"
    have l2: "life t2 = Some (req_cid r)" using that(2) sending_life by auto
    obtain xs ys where xs: "ts = xs @ (p, t) # ys" using task s by (auto dest: split_list)
    have "(q, t2) \<in> set xs \<union> set ys" using that(1) ne xs by auto
    then have "req_cid r \<in> set (life_ids xs) \<union> set (life_ids ys)" using l2 by (auto simp: life_ids_iff)
    then show False using i(2) l by (auto simp: xs)
  qed
  moreover have "intent_logged (events_of_world w) r" "req_cid r \<notin> set (placed_ids w)"
    using i(5) [of p t] task t by (auto simp: s sends_ok_def)
  ultimately show ?thesis
    using c intent_logged_intended unfolding s by (intro never_placedI) (auto simp: s)
qed

section \<open>Properties\<close>

text \<open>C2: Nothing is sent over an engaged kill switch: whatever this manager and others on the journal do
  in between, for every order and every amendment handed to the venue the journal had the switch off
  at a moment after the start of that send, or that change, was recorded.\<close>

theorem sent_only_while_switch_off:
  assumes "om_reaches cfg rc loads dumps (first_start rc) s" and "codec_ok loads dumps"
  shows "(\<forall>(r, n) \<in> set (wd_placed (sy_world s)). off_since loads (wd_rows (sy_world s)) n) \<and>
    (\<forall>(c, n) \<in> set (wd_amended (sy_world s)). off_since loads (wd_rows (sy_world s)) n)"
  using om_reaches_switch_inv [OF assms first_start_switch] by (simp add: switch_inv_def)

lemma sent_only_while_switch_off_witness:
  "\<exists>s::om_sys. wd_placed (sy_world s) = [(sample_request, 0)] \<and> off_since sample_loads (wd_rows (sy_world s)) 0"
proof -
  obtain w m where r: "sample_reaches \<lparr>sy_world = w, sy_managers = sample_managers m,
      sy_tasks = [(0, PlaceCall sample_request)]\<rparr>" and p: "wd_placed w = [(sample_request, 0)]"
    using sample_placed by blast
  show ?thesis
    using sent_only_while_switch_off [OF r sample_codec] p
    by (intro exI [of _ "\<lparr>sy_world = w, sy_managers = sample_managers m, sy_tasks = [(0, PlaceCall sample_request)]\<rparr>"]) simp
qed

text \<open>C5: A cancel that comes before the send goes out stops it for good: once an order that is still on
  its way to \<open>place_order\<close> is noted as cancelled, no interleaving and no restart ever hands it to the
  venue.\<close>

theorem cancelled_send_never_placed:
  assumes "om_reaches cfg rc loads dumps (first_start rc) s" and "(p, t) \<in> set (sy_tasks s)"
    and "sending t = Some r" and "req_cid r \<in> om_cancel_first (sy_managers s p)"
    and "om_reaches cfg rc loads dumps s s'"
  shows "req_cid r \<notin> set (placed_ids (sy_world s'))"
proof -
  have si: "send_inv s" using om_reaches_send_inv [OF assms(1) first_start_inv] by blast
  have "never_placed p (req_cid r) s'"
    using om_reaches_never_placed [OF assms(5) si cancelled_send [OF si assms(2,3,4)]] .
  then show ?thesis by (simp add: never_placed_def)
qed

lemma cancelled_send_never_placed_witness:
  "\<exists>w m. sample_reaches \<lparr>sy_world = w, sy_managers = sample_managers m, sy_tasks = [(0, SendBegin sample_request)]\<rparr> \<and>
     om_cancel_first m = {''A1''} \<and> ''A1'' \<notin> set (placed_ids w)"
proof -
  obtain e where r: "sample_reaches \<lparr>sy_world = sample_stored_world e, sy_managers = sample_managers (sample_stored e),
     sy_tasks = [(0, SendBegin sample_request)]\<rparr>"
    using sample_intended by blast
  let ?w = "sample_stored_world e" and ?m = "(sample_stored e)\<lparr>om_cancel_first := {''A1''}\<rparr>"
  have "sample_reaches \<lparr>sy_world = ?w, sy_managers = sample_managers (sample_stored e),
     sy_tasks = (0, CancelStart ''A1'') # [(0, SendBegin sample_request)]\<rparr>"
    by (rule om_trans [OF r]) (rule call, simp)
  moreover have "sample_advance ?w (sample_stored e) (CancelStart ''A1'') = (?w, ?m, None)"
    using sample_stored_fields(1) [of e]
    by (simp add: cancel_start_def cancel_begin_def is_terminal_def new_order_def)
      (simp add: sample_stored_def sample_stored_world_def intent_write_def sample_record_defs sample_manager_defs
        sample_world_def first_start_def)
  ultimately have s: "sample_reaches \<lparr>sy_world = ?w, sy_managers = sample_managers ?m, sy_tasks = [(0, SendBegin sample_request)]\<rparr>"
    using om_trans [OF _ run [of "\<lambda>_. sample_manager_config" 0 sample_loads sample_input ?w "sample_managers (sample_stored e)"
        "CancelStart ''A1''" ?w ?m None "\<lambda>_. sample_config" sample_dumps "[]" "[(0, SendBegin sample_request)]"],
        of "first_start (\<lambda>_. sample_config)"]
    by (simp add: resume_with_def)
  have "req_cid sample_request \<notin> set (placed_ids (sy_world
      \<lparr>sy_world = ?w, sy_managers = sample_managers ?m, sy_tasks = [(0, SendBegin sample_request)]\<rparr>))"
    by (rule cancelled_send_never_placed [OF s, of 0 "SendBegin sample_request"]) (simp_all add: om_refl)
  with s show ?thesis by (intro exI [of _ ?w] exI [of _ ?m]) simp
qed

end
