(* ===== verification/SendRecovery.thy ===== *)
theory SendRecovery
  imports SendSafety
begin

text \<open>
  The send path against restarts: what memory, backlog and journal hold in any interleaving, that a placed
  order is never taken for one that was not sent, and that no order is left waiting for a send that is
  over.
\<close>

section \<open>What memory and the journal hold\<close>

lemma record_now_known:
  assumes "books_inv b" and "event_fits b e"
    and r: "record_now wr max_age now mt j b e durable None = (j', b', res)"
  shows "books_inv b' \<and>
    (case res of
       Inl err \<Rightarrow> bk_orders b' = bk_orders b
     | Inr (s, as) \<Rightarrow> next_state b e = Inr s \<and> bk_orders b' = (bk_orders b)(ev_cid e \<mapsto> s))"
proof -
  obtain j1 left err where w: "write_all wr j (bk_unjournalled b) e = (j1, left, err)"
    using prod_cases3 by blast
  let ?b0 = "b\<lparr>bk_unjournalled := left\<rparr>" and ?b1 = "b\<lparr>bk_unjournalled := left @ [e], bk_failed := True\<rparr>"
  have same: "bk_orders ?b0 = bk_orders b" "bk_orders ?b1 = bk_orders b" by simp_all
  have i: "books_inv ?b0" "books_inv ?b1"
    using assms(1) books_inv_cong [of ?b0 b] books_inv_cong [of ?b1 b] by simp_all
  have f: "event_fits ?b0 e" "event_fits ?b1 e" "next_state ?b0 e = next_state b e" "next_state ?b1 e = next_state b e"
    using assms(2) by (simp_all only: event_fits_def next_state_def same)
  obtain b2 r2 where a0: "apply_in_memory max_age now mt ?b0 e = (b2, r2)" by fastforce
  obtain b3 r3 where a1: "apply_in_memory max_age now mt ?b1 e = (b3, r3)" by fastforce
  from apply_in_memory_ok [OF i(1) f(1) a0] obtain s0 where
    s0: "r2 = Inr (s0, new_anomalies ?b0 e s0)" "next_state b e = Inr s0" "books_inv b2"
      "bk_orders b2 = (bk_orders b)(ev_cid e \<mapsto> s0)"
    using f(3) by auto
  from apply_in_memory_ok [OF i(2) f(2) a1] obtain s1 where
    s1: "r3 = Inr (s1, new_anomalies ?b1 e s1)" "next_state b e = Inr s1" "books_inv b3"
      "bk_orders b3 = (bk_orders b)(ev_cid e \<mapsto> s1)"
    using f(4) by auto
  show ?thesis
    using r w a0 a1 s0 s1 i by (cases err) (auto simp: record_now_def split: if_splits)
qed


lemma record_now_fits:
  "record_now wr max_age now mt j b e durable only_if = (j', b', res) \<Longrightarrow>
   only_if \<noteq> None \<Longrightarrow>
   (j', b') = (j, b) \<or> (\<exists>res'. record_now wr max_age now mt j b e durable None = (j', b', res'))"
  by (cases "bk_orders b (ev_cid e)") (auto simp: record_now_def split: if_splits)

lemma record_now_unknown:
  assumes "\<not> event_fits b e" and "\<not> is_intent e"
    and "record_now wr max_age now mt j b e durable None = (j', b', res)"
  shows "bk_orders b' = bk_orders b \<and> bk_open b' = bk_open b \<and> bk_filled_net b' = bk_filled_net b \<and>
    bk_seen b' = bk_seen b \<and> (\<exists>err. res = Inl err)"
proof -
  have n: "bk_orders b (ev_cid e) = None" and i: "\<And>r. ev_body e \<noteq> SubmitIntent r"
    using assms(1,2) by (auto simp: event_fits_def is_intent_def split: event_body.splits)
  have "next_state c e = Inl KeyError" if "bk_orders c = bk_orders b" for c
    using n i that by (simp add: next_state_def split: event_body.split)
  then show ?thesis
    using assms(3) by (auto simp: record_now_def apply_in_memory_def split: option.splits prod.splits if_splits)
qed

lemma write_unjournalled_left: "write_unjournalled wr j es = (j', left, r) \<Longrightarrow> set left \<subseteq> set es"
  by (induction wr j es rule: write_unjournalled.induct) (auto split: prod.splits sum.splits)

text \<open>Every event the journal or a backlog gains is the recorded one, and none is lost.\<close>

lemma record_now_logs:
  assumes "record_now (write_entry disk now) max_age t mt j b e durable only_if = (j', b', res)"
  shows "set (order_events (ej_entries j')) \<union> set (bk_unjournalled b') \<subseteq>
      set (order_events (ej_entries j)) \<union> set (bk_unjournalled b) \<union> {e}"
    and "set (order_events (ej_entries j)) \<union> set (bk_unjournalled b) \<subseteq>
      set (order_events (ej_entries j')) \<union> set (bk_unjournalled b')"
    and "set (bk_unjournalled b') \<subseteq> set (bk_unjournalled b) \<union> (if durable then {} else {e})"
    and "(\<exists>x. res = Inr x) \<Longrightarrow> only_if = None \<Longrightarrow>
      e \<in> set (order_events (ej_entries j')) \<union> set (bk_unjournalled b')"
proof -
  obtain j1 left err where w: "write_all (write_entry disk now) j (bk_unjournalled b) e = (j1, left, err)"
    using prod_cases3 by blast
  have u: "bk_unjournalled (fst (apply_in_memory a c d bb ee)) = bk_unjournalled bb" for a c d bb ee
    by (auto simp: apply_in_memory_def Let_def split: sum.splits event_body.splits)
  have l: "set (order_events (ej_entries j1)) \<union> set left =
      set (order_events (ej_entries j)) \<union> set (bk_unjournalled b) \<union> (if err = None then {e} else {})"
    "set left \<subseteq> set (bk_unjournalled b)"
  proof -
    show "set (order_events (ej_entries j1)) \<union> set left =
        set (order_events (ej_entries j)) \<union> set (bk_unjournalled b) \<union> (if err = None then {e} else {})"
    proof (cases "err = None")
      case True
      then show ?thesis using ej.write_all_logged(1) [OF w] by auto
    next
      case False
      then have "set (order_events (ej_entries j1) @ left) = set (order_events (ej_entries j) @ bk_unjournalled b)"
        using ej.write_all_logged(2) [OF w] by simp
      with False show ?thesis by (simp del: not_None_eq)
    qed
    show "set left \<subseteq> set (bk_unjournalled b)"
      using w write_unjournalled_left [of "write_entry disk now" j "bk_unjournalled b"]
      by (auto simp: write_all_def split: prod.splits option.splits sum.splits)
  qed
  have cases: "(j' = j \<and> b' = b \<and> only_if \<noteq> None) \<or>
      (j' = j1 \<and> err = None \<and> bk_unjournalled b' = left) \<or>
      (j' = j1 \<and> err \<noteq> None \<and> durable \<and> bk_unjournalled b' = left \<and> (\<exists>x. res = Inl x)) \<or>
      (j' = j1 \<and> err \<noteq> None \<and> \<not> durable \<and> bk_unjournalled b' = left @ [e])"
  proof (cases "(only_if \<noteq> None \<and> bk_orders b (ev_cid e) = None) \<or>
              (only_if \<noteq> None \<and> only_if \<noteq> Some (bk_stamp b (ev_cid e)))")
    case True
    then show ?thesis using assms by (auto simp: record_now_def split: option.splits if_splits)
  next
    case False
    let ?b0 = "b\<lparr>bk_unjournalled := left\<rparr>" and ?b1 = "b\<lparr>bk_unjournalled := left @ [e], bk_failed := True\<rparr>"
    obtain b2 r2 where a0: "apply_in_memory max_age t mt ?b0 e = (b2, r2)" by fastforce
    obtain b3 r3 where a1: "apply_in_memory max_age t mt ?b1 e = (b3, r3)" by fastforce
    have un: "bk_unjournalled b2 = left" "bk_unjournalled b3 = left @ [e]"
      using u [of max_age t mt ?b0 e] u [of max_age t mt ?b1 e] by (simp_all add: a0 a1)
    show ?thesis
    proof (cases err)
      case None
      then have "j' = j1" "b' = b2"
        using assms w False a0 by (auto simp: record_now_def split: option.splits if_splits)
      then show ?thesis using un None by simp
    next
      case (Some er)
      show ?thesis
      proof (cases durable)
        case True
        then have "j' = j1" "b' = ?b0" "res = Inl er"
          using assms w False Some by (auto simp: record_now_def split: option.splits if_splits)
        then show ?thesis using True Some by simp
      next
        case nd: False
        then have "j' = j1" "b' = b3"
          using assms w False a1 Some by (auto simp: record_now_def split: option.splits if_splits)
        then show ?thesis using un nd Some by simp
      qed
    qed
  qed
  show "set (order_events (ej_entries j')) \<union> set (bk_unjournalled b') \<subseteq>
      set (order_events (ej_entries j)) \<union> set (bk_unjournalled b) \<union> {e}"
    using cases l by (elim disjE conjE) auto
  show "set (order_events (ej_entries j)) \<union> set (bk_unjournalled b) \<subseteq>
      set (order_events (ej_entries j')) \<union> set (bk_unjournalled b')"
    using cases l by (elim disjE conjE) auto
  show "set (bk_unjournalled b') \<subseteq> set (bk_unjournalled b) \<union> (if durable then {} else {e})"
    using cases l by (elim disjE conjE) auto
  show "e \<in> set (order_events (ej_entries j')) \<union> set (bk_unjournalled b')"
    if "\<exists>x. res = Inr x" "only_if = None"
    using cases l that by (elim disjE conjE) auto
qed


lemma intended_iff: "c \<in> intended es \<longleftrightarrow> (\<exists>e \<in> set es. is_intent e \<and> ev_cid e = c)"
  by (auto simp: intended_def)

text \<open>The effect of one \<open>_record_now\<close> on a memory whose orders all have their intent in the journal.\<close>

lemma record_now_step:
  assumes inv: "books_inv b" and dom: "\<And>c. bk_orders b c \<noteq> None \<Longrightarrow> c \<in> intended (order_events (ej_entries j))"
    and proper: "\<And>r. ev_body e = SubmitIntent r \<Longrightarrow> durable \<and> req_cid r = ev_cid e"
    and rec: "record_now (write_entry disk now) max_age t mt j b e durable only_if = (j', b', res)"
  shows "books_inv b' \<and>
    ((bk_orders b' = bk_orders b \<and> (only_if = None \<longrightarrow> (\<exists>err. res = Inl err))) \<or>
     (\<exists>s as. res = Inr (s, as) \<and> event_fits b e \<and> next_state b e = Inr s \<and>
       bk_orders b' = (bk_orders b)(ev_cid e \<mapsto> s)))"
proof -
  have plain: "books_inv b1 \<and> ((bk_orders b1 = bk_orders b \<and> (\<exists>err. r1 = Inl err)) \<or>
     (\<exists>s as. r1 = Inr (s, as) \<and> event_fits b e \<and> next_state b e = Inr s \<and>
       bk_orders b1 = (bk_orders b)(ev_cid e \<mapsto> s)))"
    if r: "record_now (write_entry disk now) max_age t mt j b e durable None = (j1, b1, r1)" for j1 b1 r1
  proof (cases "event_fits b e")
    case True
    then show ?thesis using record_now_known [OF inv True r] by (auto split: sum.splits)
  next
    case False
    show ?thesis
    proof (cases "is_intent e")
      case ni: False
      note u = record_now_unknown [OF False ni r]
      then have "books_inv b1" using inv books_inv_cong [of b1 b] by simp
      with u show ?thesis by simp
    next
      case True
      then obtain q where q: "ev_body e = SubmitIntent q" by (auto simp: is_intent_def split: event_body.splits)
      have d: durable and c: "req_cid q = ev_cid e" using proper [OF q] by auto
      have "bk_orders b (ev_cid e) \<noteq> None" using False q c by (auto simp: event_fits_def)
      then have taken: "ev_cid e \<in> intended (order_events (ej_entries j))" by (rule dom)
      obtain j2 left err where w: "write_all (write_entry disk now) j (bk_unjournalled b) e = (j2, left, err)"
        using prod_cases3 by blast
      obtain er where er: "err = Some er" using write_all_grows(2) [OF w] taken True by (cases err) auto
      then have "b1 = b\<lparr>bk_unjournalled := left\<rparr>" "r1 = Inl er"
        using r w d by (auto simp: record_now_def split: option.splits)
      then show ?thesis using inv books_inv_cong [of b1 b] by simp
    qed
  qed
  show ?thesis
  proof (cases only_if)
    case None
    then show ?thesis using plain rec by simp
  next
    case (Some k)
    show ?thesis
    proof (cases "bk_orders b (ev_cid e) = None \<or> k \<noteq> bk_stamp b (ev_cid e)")
      case True
      then have "b' = b" using rec Some by (auto simp: record_now_def split: option.splits)
      with inv Some show ?thesis by simp
    next
      case False
      then have "record_now (write_entry disk now) max_age t mt j b e durable None = (j', b', res)"
        using rec Some by (auto simp: record_now_def)
      with plain Some show ?thesis by blast
    qed
  qed
qed

definition log_ok :: "event_journal \<Rightarrow> books \<Rightarrow> bool" where
  "log_ok j b \<longleftrightarrow> books_inv b \<and> list_all (\<lambda>e. \<not> is_intent e) (bk_unjournalled b) \<and>
     (\<forall>c. bk_orders b c \<noteq> None \<longrightarrow> c \<in> intended (order_events (ej_entries j)))"

definition proper_event :: "order_event \<Rightarrow> bool \<Rightarrow> bool" where
  "proper_event e durable \<longleftrightarrow> (\<forall>r. ev_body e = SubmitIntent r \<longrightarrow> durable \<and> req_cid r = ev_cid e)"

lemma record_now_log_ok:
  assumes ok: "log_ok j b" and proper: "proper_event e durable" and named: "intents_named (ej_entries j)"
    and rec: "record_now (write_entry disk now) max_age t mt j b e durable only_if = (j', b', res)"
  shows "log_ok j' b' \<and> intents_named (ej_entries j') \<and> intended (order_events (ej_entries j)) \<subseteq> intended (order_events (ej_entries j'))"
proof -
  have i: "books_inv b" "\<And>x. x \<in> set (bk_unjournalled b) \<Longrightarrow> \<not> is_intent x"
    and dom: "\<And>c. bk_orders b c \<noteq> None \<Longrightarrow> c \<in> intended (order_events (ej_entries j))"
    using ok by (auto simp: log_ok_def list_all_iff)
  have pr: "\<And>r. ev_body e = SubmitIntent r \<Longrightarrow> durable \<and> req_cid r = ev_cid e"
    using proper by (simp add: proper_event_def)
  note st = record_now_step [OF i(1) dom pr rec] and lg = record_now_logs [OF rec]
  have nb: "\<not> is_intent x" if "x \<in> set (bk_unjournalled b')" for x
  proof
    assume x: "is_intent x"
    then have "x = e" "\<not> durable" using lg(3) that i(2) by (auto split: if_splits)
    then show False using x pr by (auto simp: is_intent_def split: event_body.splits)
  qed
  have sub: "intended (order_events (ej_entries j)) \<subseteq> intended (order_events (ej_entries j'))"
    using lg(2) nb unfolding subset_iff intended_iff by blast
  have new: "c \<in> intended (order_events (ej_entries j'))" if "bk_orders b' c \<noteq> None" for c
  proof (cases "bk_orders b c = None")
    case False
    then show ?thesis using dom sub by blast
  next
    case True
    with that st have c: "c = ev_cid e" "event_fits b e" "\<exists>x. res = Inr x" by (auto split: if_splits)
    with True have "is_intent e" by (auto simp: event_fits_def is_intent_def split: event_body.splits)
    moreover from this have "only_if = None \<or> j' = j \<and> b' = b"
      using rec c True by (auto simp: record_now_def split: option.splits)
    ultimately show ?thesis using lg(4) c nb that True unfolding intended_iff by auto
  qed
  have "intents_named (ej_entries j')"
    unfolding intents_named_def
  proof (intro ballI allI impI)
    fix x r assume x: "x \<in> set (order_events (ej_entries j'))" "ev_body x = SubmitIntent r"
    then have "is_intent x" by (simp add: is_intent_def)
    then have "x \<in> set (order_events (ej_entries j)) \<or> x = e" using lg(1) x(1) i(2) by auto
    then show "req_cid r = ev_cid x" using named x(2) pr by (auto simp: intents_named_def)
  qed
  then show ?thesis using st nb new sub by (auto simp: log_ok_def list_all_iff)
qed


fun plain_task :: "task \<Rightarrow> bool" where
  "plain_task (FinalWrite cid origin body fin) = (\<forall>r. body \<noteq> SubmitIntent r)"
| "plain_task t = True"

definition same_orders :: "books \<Rightarrow> books \<Rightarrow> bool" where
  "same_orders b b' \<longleftrightarrow>
     bk_orders b' = bk_orders b \<and> bk_open b' = bk_open b \<and> bk_filled_net b' = bk_filled_net b \<and>
     bk_seen b' = bk_seen b \<and> bk_unjournalled b' = bk_unjournalled b"

lemma same_orders_refl [simp]: "same_orders b b"
  by (simp add: same_orders_def)

lemma log_ok_same: "same_orders b b' \<Longrightarrow> log_ok j b' = log_ok j b"
  using books_inv_cong [of b' b] by (simp add: log_ok_def same_orders_def)

lemma refresh_marks_same: "same_orders (om_books m) (om_books (refresh_marks cfg m r now mt q a))"
proof -
  let ?P = "\<lambda>m'. same_orders (om_books m) (om_books m')"
  have one: "?P (adopt_quote m' now mt y x)" if "?P m'" for m' y x
    using that by (auto simp: adopt_quote_def mark_quote_def same_orders_def Let_def split: option.splits if_splits)
  have two: "?P (fst (lookup_instrument cfg m' mt y x))" if "?P m'" for m' y x
    using that by (auto simp: lookup_instrument_def Let_def split: option.splits prod.splits if_splits)
  have "?P (foldl (\<lambda>m y. adopt_quote m now mt y (q y)) m (stale_symbols m r mt))"
    by (rule foldl_keeps [of ?P]) (auto intro: one)
  then have "?P (foldl (\<lambda>m' y. fst (lookup_instrument cfg m' mt y (a y)))
      (foldl (\<lambda>m y. adopt_quote m now mt y (q y)) m (stale_symbols m r mt)) (missing_symbols m r))"
    by (rule foldl_keeps [of ?P, rotated]) (rule two)
  then show ?thesis by (simp add: refresh_marks_def Let_def)
qed

lemma lookups_same:
  assumes "lookup_instrument cfg m now y a = (m', inst)"
  shows "same_orders (om_books m) (om_books (refresh_marks cfg (adopt_quote m' t mt y q) r t2 mt2 qs is))"
proof -
  have "om_books m' = om_books m"
    using assms by (auto simp: lookup_instrument_def Let_def split: option.splits prod.splits if_splits)
  moreover have "same_orders (om_books m') (om_books (adopt_quote m' t mt y q))"
    by (auto simp: adopt_quote_def mark_quote_def same_orders_def Let_def split: option.splits if_splits)
  ultimately show ?thesis
    using refresh_marks_same [of "adopt_quote m' t mt y q" cfg r t2 mt2 qs "is"] by (simp add: same_orders_def)
qed

lemma record_event_books:
  assumes "record_event cfg disk now mt j m e durable only_if = (j', m', res)"
  obtains res' where "record_now (write_entry disk now) (max_age_of m) now mt j (om_books m) e durable only_if = (j', om_books m', res')"
    and "res = map_sum id fst res'"
proof -
  obtain j1 b1 r1 where n: "record_now (write_entry disk now) (max_age_of m) now mt j (om_books m) e durable only_if = (j1, b1, r1)"
    using prod_cases3 by blast
  have "j1 = j' \<and> om_books m' = b1 \<and> res = map_sum id fst r1"
    using assms n raise_anomalies_same [of "m\<lparr>om_books := b1\<rparr>" cfg "ev_cid e"]
    by (auto simp: record_event_def split: sum.splits prod.splits)
  with n that show ?thesis by auto
qed

lemma do_record_log:
  assumes "do_record cfg i w m cid origin body durable = (w', m', res)"
    and "log_ok (wd_journal w) (om_books m)" and "intents_named (ej_entries (wd_journal w))"
    and "\<And>r. body = SubmitIntent r \<Longrightarrow> durable \<and> req_cid r = cid"
  shows "log_ok (wd_journal w') (om_books m') \<and> intents_named (ej_entries (wd_journal w'))"
proof -
  have r: "record_event cfg (in_disk i) (in_now i) (in_mono i) (wd_journal w) m
      (local_event cid (in_now i) origin body) durable None = (wd_journal w', m', res)"
    using assms(1) by (auto simp: do_record_def split: prod.splits)
  have "proper_event (local_event cid (in_now i) origin body) durable"
    using assms(4) by (simp add: proper_event_def local_event_def)
  then show ?thesis
    using record_event_books [OF r] record_now_log_ok [OF assms(2) _ assms(3)] by metis
qed

lemma log_ok_entry: "\<forall>e. en \<noteq> EOrderEvent e \<Longrightarrow> log_ok (append_entry disk now j en) b = log_ok j b"
  by (simp add: log_ok_def append_entry_grows)

lemma intents_named_entry:
  "\<forall>e. en \<noteq> EOrderEvent e \<Longrightarrow> intents_named (ej_entries (append_entry disk now j en)) = intents_named (ej_entries j)"
  by (simp add: intents_named_def append_entry_grows)

lemma finish_call_books [simp]: "om_books (finish_call fin cid m) = om_books m" "om_books (unlock m) = om_books m"
  by (simp_all add: finish_call_def unlock_def split: finish.split)

lemma close_unsent_plain: "close_unsent m cid code = Some body \<Longrightarrow> \<exists>c. body = refused_send c"
  by (auto simp: close_unsent_def split: option.splits if_splits)

lemma outcome_plain:
  "cancel_outcome a = Some (o1, SubmitIntent r) \<Longrightarrow> False" "amend_outcome a = Some (o1, SubmitIntent r) \<Longrightarrow> False"
  "refuse_amend m cid code = Some (SubmitIntent r) \<Longrightarrow> False"
  by (auto simp: cancel_outcome_def amend_outcome_def refuse_amend_def split: venue_answer.splits option.splits if_splits)

lemma cancel_begin_books: "cancel_begin m cid mt = Inr (m', c) \<Longrightarrow> om_books m' = om_books m"
  by (auto simp: cancel_begin_def split: option.splits if_splits)

lemma advance_log:
  assumes adv: "advance cfg loads i w m t = (w', m', nxt)" and ok: "log_ok (wd_journal w) (om_books m)"
    and named: "intents_named (ej_entries (wd_journal w))" and plain: "plain_task t"
  shows "log_ok (wd_journal w') (om_books m') \<and> intents_named (ej_entries (wd_journal w')) \<and>
    (case nxt of None \<Rightarrow> True | Some t' \<Rightarrow> plain_task t')"
  using adv ok named plain
  by (cases t)
    (auto simp: advance_defs log_ok_entry intents_named_entry log_ok_same [OF lookups_same] cancel_begin_books
        refused_send_def
      split: advance_splits dest: do_record_log close_unsent_plain outcome_plain)


definition log_inv :: "om_sys \<Rightarrow> bool" where
  "log_inv s \<longleftrightarrow>
     intents_named (ej_entries (wd_journal (sy_world s))) \<and>
     (\<forall>p. log_ok (wd_journal (sy_world s)) (om_books (sy_managers s p))) \<and>
     (\<forall>p t. (p, t) \<in> set (sy_tasks s) \<longrightarrow> plain_task t)"

lemma log_invI:
  assumes "intents_named (ej_entries (wd_journal w))" and "\<And>p. log_ok (wd_journal w) (om_books (ms p))"
    and "\<And>p t. (p, t) \<in> set ts \<Longrightarrow> plain_task t"
  shows "log_inv \<lparr>sy_world = w, sy_managers = ms, sy_tasks = ts\<rparr>"
  using assms unfolding log_inv_def om_sys.select_convs by blast

lemma log_invD:
  assumes "log_inv \<lparr>sy_world = w, sy_managers = ms, sy_tasks = ts\<rparr>"
  shows "intents_named (ej_entries (wd_journal w))" and "log_ok (wd_journal w) (om_books (ms p))"
    and "(p, t) \<in> set ts \<Longrightarrow> plain_task t"
  using assms unfolding log_inv_def om_sys.select_convs by blast+

lemma log_ok_grows:
  "log_ok j b \<Longrightarrow> grows (order_events (ej_entries j)) (order_events (ej_entries j')) \<Longrightarrow> log_ok j' b"
  using grows_logged(3) unfolding log_ok_def by blast

lemma retry_log:
  assumes r: "retry_unjournalled (write_entry disk now) j b = (j', b')" and ok: "log_ok j b"
    and named: "intents_named (ej_entries j)"
  shows "log_ok j' b' \<and> intents_named (ej_entries j') \<and> bk_orders b' = bk_orders b \<and>
    set (order_events (ej_entries j)) \<union> set (bk_unjournalled b) =
      set (order_events (ej_entries j')) \<union> set (bk_unjournalled b')"
proof -
  obtain left err where w: "write_unjournalled (write_entry disk now) j (bk_unjournalled b) = (j', left, err)"
      "b' = b\<lparr>bk_unjournalled := left\<rparr>"
    using r by (auto simp: retry_unjournalled_def split: prod.splits)
  have "set (order_events (ej_entries j') @ left) = set (order_events (ej_entries j) @ bk_unjournalled b)"
    using ej.write_unjournalled_logged [OF w(1)] by simp
  then have sets: "set (order_events (ej_entries j')) \<union> set left = set (order_events (ej_entries j)) \<union> set (bk_unjournalled b)"
    by simp
  note left = write_unjournalled_left [OF w(1)]
  have nb: "\<not> is_intent x" if "x \<in> set (bk_unjournalled b)" for x using ok that by (auto simp: log_ok_def list_all_iff)
  have "books_inv b'" using ok w(2) books_inv_cong [of b' b] by (simp add: log_ok_def)
  moreover have "intents_named (ej_entries j')"
    unfolding intents_named_def
  proof (intro ballI allI impI)
    fix x q assume x: "x \<in> set (order_events (ej_entries j'))" "ev_body x = SubmitIntent q"
    then have "is_intent x" by (simp add: is_intent_def)
    then have "x \<in> set (order_events (ej_entries j))" using x(1) sets nb by blast
    then show "req_cid q = ev_cid x" using named x(2) by (auto simp: intents_named_def)
  qed
  moreover have "c \<in> intended (order_events (ej_entries j'))" if "bk_orders b c \<noteq> None" for c
  proof -
    have "c \<in> intended (order_events (ej_entries j))" using ok that by (simp add: log_ok_def)
    then show ?thesis using grows_logged(3) [OF retry_grows [OF r]] by blast
  qed
  ultimately show ?thesis using left nb sets w(2) by (auto simp: log_ok_def list_all_iff)
qed

lemma replay_from_dom: "replay_from m es = Inr m' \<Longrightarrow> dom m' \<subseteq> dom m \<union> intended es"
proof (induction es arbitrary: m)
  case Nil
  then show ?case by simp
next
  case (Cons e es)
  obtain m1 where m1: "replay_step m e = Inr m1" "replay_from m1 es = Inr m'"
    using Cons.prems by (auto simp: bind_result_eq_Inr)
  have "dom m1 \<subseteq> dom m \<union> intended [e]"
    using m1(1) by (auto simp: replay_step_def bind_result_eq_Inr intended_def is_intent_def
        split: option.splits event_body.splits if_splits)
  moreover have "intended (e # es) = intended [e] \<union> intended es"
    using intended_simps(2) [of "[e]" es] by simp
  ultimately show ?case using Cons.IH [OF m1(2)] by blast
qed

lemma recover_manager_books:
  assumes "recover_manager cfg loads rc now mt j rows = Inr m"
  obtains h where "recover_books (cfg_max_reference_age rc) now mt empty_books (ej_entries j) = Inr (om_books m, h)"
proof -
  obtain b h where b: "recover_books (cfg_max_reference_age rc) now mt empty_books (ej_entries j) = Inr (b, h)"
      "m = recover_halt cfg ((blank_manager rc)\<lparr>om_books := b, om_kill := initial_kill (kill_state_from loads rows)\<rparr>) h"
    using assms by (auto simp: recover_manager_def bind_result_eq_Inr)
  have "om_books m = b" by (auto simp: b(2) recover_halt_def halt_manager_def Let_def split: option.splits prod.splits)
  with b(1) that show ?thesis by blast
qed

lemma recover_books_unjournalled:
  "recover_books a now mt empty_books rs = Inr (b, h) \<Longrightarrow> bk_unjournalled b = []"
proof -
  have k: "replay_entries a now mt b0 h0 rs = Inr (b1, h1) \<Longrightarrow> bk_unjournalled b1 = bk_unjournalled b0" for b0 h0 b1 h1
  proof (induction rs arbitrary: b0 h0)
    case (Cons r rs)
    obtain b2 h2 where r: "replay_entry a now mt b0 r = Inr (b2, h2)"
        "replay_entries a now mt b2 (or_else h2 h0) rs = Inr (b1, h1)"
      using Cons.prems by (auto simp: bind_result_eq_Inr)
    have "bk_unjournalled b2 = bk_unjournalled b0"
      using r(1) by (auto simp: replay_entry_def replay_event_def apply_adjustment_def Let_def bind_result_eq_Inr
          split: entry.splits option.splits event_body.splits if_splits)
    with Cons.IH [OF r(2)] show ?case by simp
  qed simp
  show "recover_books a now mt empty_books rs = Inr (b, h) \<Longrightarrow> bk_unjournalled b = []"
    using k by (fastforce simp: recover_books_def Let_def bind_result_eq_Inr empty_books_def)
qed

lemma recover_manager_log:
  assumes r: "recover_manager cfg loads rc now mt j rows = Inr m" and named: "intents_named (ej_entries j)"
  shows "log_ok j (om_books m) \<and> bk_unjournalled (om_books m) = [] \<and> replay (order_events (ej_entries j)) = Inr (bk_orders (om_books m))"
proof -
  obtain h where h: "recover_books (cfg_max_reference_age rc) now mt empty_books (ej_entries j) = Inr (om_books m, h)"
    using recover_manager_books [OF r] .
  have i: "books_inv (om_books m)" "replay (order_events (ej_entries j)) = Inr (bk_orders (om_books m))"
    using recover_books_inv [OF h named] by simp_all
  have "dom (bk_orders (om_books m)) \<subseteq> intended (order_events (ej_entries j))"
    using replay_from_dom i(2) by (fastforce simp: replay_def)
  then show ?thesis using i recover_books_unjournalled [OF h] by (auto simp: log_ok_def)
qed


lemma call_plain: "is_call t \<Longrightarrow> plain_task t"
  by (cases t) simp_all

lemma recovery_events_reject:
  "(c, o', body) \<in> set (recovery_events b) \<Longrightarrow> (\<exists>m k. body = Rejected m k) \<or> (\<exists>m. body = OutcomeUnknown m)"
  by (auto simp: recovery_events_def split: if_splits)

lemma om_step_log_inv:
  assumes "om_step cfg rc loads dumps s s'" and inv: "log_inv s"
  shows "log_inv s'"
  using assms(1)
proof (cases rule: om_step.cases)
  case (call t w ms ts p)
  show ?thesis unfolding call(2) using log_invD [OF inv [unfolded call(1)]] call_plain [OF call(3)]
    by (intro log_invI) auto
next
  case (run p i w ms t w' m' nxt xs ys)
  note v = log_invD [OF inv [unfolded run(1)]]
  have a: "log_ok (wd_journal w') (om_books m')" "intents_named (ej_entries (wd_journal w'))"
    "\<And>t'. nxt = Some t' \<Longrightarrow> plain_task t'"
    using advance_log [OF run(3) v(2) v(1) v(3) [of p]] by (auto split: option.splits)
  show ?thesis unfolding run(2)
  proof (rule log_invI)
    show "log_ok (wd_journal w') (om_books ((ms(p := m')) q))" for q
      using a(1) log_ok_grows [OF v(2) [of q]] advance_grows [OF run(3)] by (simp add: events_of_world_def)
    show "plain_task t2" if "(q, t2) \<in> set (resume_with xs p nxt ys)" for q t2
      using that v(3) [of q t2] a(3) by (auto simp: resume_with_def split: option.splits)
  qed (rule a(2))
next
  case (switch ms p w k rows kts ts)
  show ?thesis unfolding switch(2) using log_invD [OF inv [unfolded switch(1)]] by (intro log_invI) auto
next
  case (venue_event e p disk now mt w ms durable only_if j' m' res ts)
  note v = log_invD [OF inv [unfolded venue_event(1)]]
  obtain res' where r: "record_now (write_entry disk now) (max_age_of (ms p)) now mt (wd_journal w) (om_books (ms p)) e durable only_if
      = (j', om_books m', res')"
    using record_event_books [OF venue_event(4)] by metis
  have "proper_event e durable" using venue_event(3) by (auto simp: proper_event_def is_intent_def)
  then have a: "log_ok j' (om_books m')" "intents_named (ej_entries j')"
    using record_now_log_ok [OF v(2) _ v(1) r] by auto
  show ?thesis unfolding venue_event(2)
  proof (rule log_invI)
    show "log_ok (wd_journal (w\<lparr>wd_journal := j'\<rparr>)) (om_books ((ms(p := m')) q))" for q
      using a(1) log_ok_grows [OF v(2) [of q] record_event_effect(2) [OF venue_event(4)]] by simp
  qed (use a v(3) in auto)
next
  case (retry_writes disk now w ms p j' b' ts)
  note v = log_invD [OF inv [unfolded retry_writes(1)]]
  note a = retry_log [OF retry_writes(3) v(2) v(1)]
  show ?thesis unfolding retry_writes(2)
  proof (rule log_invI)
    show "log_ok (wd_journal (w\<lparr>wd_journal := j'\<rparr>)) (om_books ((ms(p := (ms p)\<lparr>om_books := b'\<rparr>)) q))" for q
      using a log_ok_grows [OF v(2) [of q] retry_grows [OF retry_writes(3)]] by simp
  qed (use a v(3) in auto)
next
  case (other_memory ms p m' w ts)
  note v = log_invD [OF inv [unfolded other_memory(1)]]
  have "log_ok (wd_journal w) (om_books m')"
    using v(2) [of p] other_memory(3) log_ok_same [of "om_books (ms p)" "om_books m'"]
    by (simp add: same_sends_def same_orders_def)
  then show ?thesis unfolding other_memory(2) using v by (intro log_invI) auto
next
  case (other_entry en w ms ts disk now)
  show ?thesis unfolding other_entry(2)
    using log_invD [OF inv [unfolded other_entry(1)]] log_ok_entry [OF other_entry(3)] intents_named_entry [OF other_entry(3)]
    by (intro log_invI) auto
next
  case (restart p now mt w m' ms ts)
  note v = log_invD [OF inv [unfolded restart(1)]]
  show ?thesis unfolding restart(2)
    using recover_manager_log [OF restart(3) v(1)] v recovery_events_reject
    by (intro log_invI) (auto, fastforce)
next
  case (started p ts ms w)
  show ?thesis unfolding started(2) using log_invD [OF inv [unfolded started(1)]] by (intro log_invI) auto
qed

lemma om_reaches_log_inv: "om_reaches cfg rc loads dumps s s' \<Longrightarrow> log_inv s \<Longrightarrow> log_inv s'"
  by (induction rule: om_reaches.induct) (simp_all add: om_step_log_inv)

lemma first_start_log: "log_inv (first_start rc)"
  by (simp add: log_inv_def first_start_def log_ok_def blank_manager_def empty_books_def books_inv_def held_def
      filled_total_def intents_named_def)


section \<open>No order is left waiting for a send that is over\<close>

definition pending :: "manager \<Rightarrow> string \<Rightarrow> bool" where
  "pending m cid \<longleftrightarrow> map_option st_status (order_of m cid) = Some PENDING_SUBMIT"

text \<open>A venue that restates an order as \<open>PENDING_SUBMIT\<close> puts it back there; it is excused for that id.\<close>

definition excused :: "world \<Rightarrow> manager \<Rightarrow> string \<Rightarrow> bool" where
  "excused w m cid \<longleftrightarrow>
     (\<exists>e \<in> set (events_of_world w) \<union> set (bk_unjournalled (om_books m)). ev_cid e = cid \<and> restates_pending e)"

fun handles :: "task \<Rightarrow> string \<Rightarrow> bool" where
  "handles (SendBegin r) cid = (req_cid r = cid)"
| "handles (StartWrite r) cid = (req_cid r = cid)"
| "handles (FinalWrite c _ (Rejected _ _) _) cid = (c = cid)"
| "handles _ cid = False"

lemma reject_leaves_pending:
  assumes "apply_event s e = Inr s'" and "ev_body e = Rejected m c" and "st_status s = PENDING_SUBMIT"
  shows "st_status s' \<noteq> PENDING_SUBMIT"
proof -
  have "st_status (apply_body s (ev_body e)) = REJECTED"
    using assms(2,3) by (simp add: apply_body_def transition_def)
  with assms(1) show ?thesis by (auto simp: apply_event_settle split: if_splits)
qed

lemma record_pending:
  assumes r: "record_event cfg disk now mt j m e durable only_if = (j', m', res)" and ok: "log_ok j (om_books m)"
    and proper: "proper_event e durable" and p: "pending m' c"
  shows "(pending m c \<and> (\<forall>mm k. ev_body e = Rejected mm k \<and> ev_cid e = c \<and> only_if = None \<longrightarrow> durable) \<and>
            (ev_cid e = c \<and> (\<exists>x. res = Inr x) \<and> only_if = None \<longrightarrow> (\<forall>sid. ev_body e \<noteq> SendStarted sid))) \<or>
         (is_intent e \<and> ev_cid e = c \<and> (\<exists>x. res = Inr x)) \<or>
         (ev_cid e = c \<and> restates_pending e \<and> e \<in> set (order_events (ej_entries j')) \<union> set (bk_unjournalled (om_books m')))"
proof -
  obtain res' where n: "record_now (write_entry disk now) (max_age_of m) now mt j (om_books m) e durable only_if = (j', om_books m', res')"
      and res: "res = map_sum id fst res'"
    using record_event_books [OF r] .
  have dom: "\<And>c. bk_orders (om_books m) c \<noteq> None \<Longrightarrow> c \<in> intended (order_events (ej_entries j))"
    and inv: "books_inv (om_books m)" using ok by (auto simp: log_ok_def)
  have pr: "\<And>q. ev_body e = SubmitIntent q \<Longrightarrow> durable \<and> req_cid q = ev_cid e" using proper by (simp add: proper_event_def)
  note st = record_now_step [OF inv dom pr n]
  obtain s where s: "bk_orders (om_books m') c = Some s" "st_status s = PENDING_SUBMIT"
    using p by (auto simp: pending_def order_of_def)
  consider (same) "bk_orders (om_books m') = bk_orders (om_books m)" "only_if = None \<longrightarrow> (\<exists>err. res' = Inl err)"
    | (moved) s1 as where "res' = Inr (s1, as)" "event_fits (om_books m) e" "next_state (om_books m) e = Inr s1"
        "bk_orders (om_books m') = (bk_orders (om_books m))(ev_cid e \<mapsto> s1)"
    using st by blast
  then show ?thesis
  proof cases
    case same
    then have pm: "pending m c" using p by (simp add: pending_def order_of_def)
    have "durable" if h: "ev_body e = Rejected mm k" "ev_cid e = c" "only_if = None" for mm k
    proof (rule ccontr)
      assume nd: "\<not> durable"
      have "event_fits (om_books m) e" using pm h by (auto simp: event_fits_def pending_def order_of_def)
      moreover have "record_now (write_entry disk now) (max_age_of m) now mt j (om_books m) e False None = (j', om_books m', res')"
        using n nd h(3) by simp
      ultimately obtain x where "res' = Inr x" using ej.record_now_never_loses [OF inv] by blast
      with same(2) h(3) show False by simp
    qed
    with pm same(2) res show ?thesis by auto
  next
    case moved
    show ?thesis
    proof (cases "ev_cid e = c")
      case False
      then have "pending m c" using p moved(4) by (simp add: pending_def order_of_def)
      with False show ?thesis by simp
    next
      case True
      then have s1: "st_status s1 = PENDING_SUBMIT" using s moved(4) by simp
      show ?thesis
      proof (cases "is_intent e")
        case True
        then show ?thesis using moved(1) res \<open>ev_cid e = c\<close> by simp
      next
        case ni: False
        then obtain s0 where s0: "bk_orders (om_books m) c = Some s0" "apply_event s0 e = Inr s1"
          using moved(2,3) True by (auto simp: next_state_def is_intent_def event_fits_def split: event_body.splits option.splits)
        show ?thesis
        proof (cases "restates_pending e")
          case rp: True
          show ?thesis
          proof (cases "only_if = None")
            case True
            then show ?thesis using rp \<open>ev_cid e = c\<close> record_now_logs(4) [OF n] moved(1) by auto
          next
            case oi: False
            from record_now_fits [OF n oi] show ?thesis
            proof
              assume "(j', om_books m') = (j, om_books m)"
              then have "pending m c" using p by (simp add: pending_def order_of_def)
              with rp oi show ?thesis by (auto simp: restates_pending_def)
            next
              assume "\<exists>res'. record_now (write_entry disk now) (max_age_of m) now mt j (om_books m) e durable None = (j', om_books m', res')"
              then obtain r3 where r3: "record_now (write_entry disk now) (max_age_of m) now mt j (om_books m) e durable None = (j', om_books m', r3)"
                by blast
              show ?thesis
              proof (cases r3)
                case (Inr x)
                then show ?thesis using rp \<open>ev_cid e = c\<close> record_now_logs(4) [OF r3] by auto
              next
                case (Inl er)
                then have "bk_orders (om_books m') = bk_orders (om_books m)"
                  using record_now_step [OF inv dom pr r3] by auto
                then have "pending m c" using p by (simp add: pending_def order_of_def)
                with rp oi show ?thesis by (auto simp: restates_pending_def)
              qed
            qed
          qed
        next
          case nr: False
          have "st_status s0 = PENDING_SUBMIT" using apply_event_not_pending [OF _ s0(2) nr] s1 by blast
          then have "pending m c" "\<And>mm k. ev_body e \<noteq> Rejected mm k" "\<And>sid. ev_body e \<noteq> SendStarted sid"
            using s0 s1 reject_leaves_pending [OF s0(2)] start_leaves_pending [OF s0(2)]
            by (auto simp: pending_def order_of_def)
          then show ?thesis by simp
        qed
      qed
    qed
  qed
qed


lemma pending_same: "bk_orders (om_books m') = bk_orders (om_books m) \<Longrightarrow> pending m' c = pending m c"
  by (simp add: pending_def order_of_def)

lemma close_unsent_pending:
  "pending m cid \<Longrightarrow> close_unsent m cid code = Some (refused_send code)"
  "\<not> pending m cid \<Longrightarrow> close_unsent m cid code = None"
  by (auto simp: pending_def close_unsent_def split: option.splits)

lemma excusedI:
  "e \<in> set (order_events (ej_entries (wd_journal w))) \<union> set (bk_unjournalled (om_books m)) \<Longrightarrow> ev_cid e = c \<Longrightarrow>
   restates_pending e \<Longrightarrow> excused w m c"
  unfolding excused_def events_of_world_def by blast

lemma local_event_fields [simp]:
  "ev_cid (local_event cid now origin body) = cid" "ev_body (local_event cid now origin body) = body"
  "is_intent (local_event cid now origin body) = (\<exists>r. body = SubmitIntent r)"
  by (auto simp: local_event_def is_intent_def split: event_body.splits)

text \<open>What one record does to what is pending, in the terms of \<open>do_record\<close>.\<close>

lemma do_record_pending:
  assumes d: "do_record cfg i w m cid origin body durable = (w', m', res)"
    and ok: "log_ok (wd_journal w) (om_books m)" and body: "\<And>r. body = SubmitIntent r \<Longrightarrow> durable \<and> req_cid r = cid"
    and p: "pending m' c"
  shows "excused w' m' c \<or>
    (pending m c \<and> (c = cid \<and> (\<exists>mm k. body = Rejected mm k) \<longrightarrow> durable) \<and>
       (c = cid \<and> (\<exists>x. res = Inr x) \<longrightarrow> (\<forall>sid. body \<noteq> SendStarted sid))) \<or>
    (c = cid \<and> (\<exists>r. body = SubmitIntent r) \<and> (\<exists>x. res = Inr x))"
proof -
  have r: "record_event cfg (in_disk i) (in_now i) (in_mono i) (wd_journal w) m
      (local_event cid (in_now i) origin body) durable None = (wd_journal w', m', res)"
    using d by (auto simp: do_record_def split: prod.splits)
  have "proper_event (local_event cid (in_now i) origin body) durable"
    using body by (simp add: proper_event_def local_event_def)
  from record_pending [OF r ok this p] show ?thesis
    using excusedI [of "local_event cid (in_now i) origin body" w' m' c] by (elim disjE) auto
qed

lemma do_record_excused:
  assumes "do_record cfg i w m cid origin body durable = (w', m', res)" and "excused w m c"
  shows "excused w' m' c"
proof -
  have r: "record_event cfg (in_disk i) (in_now i) (in_mono i) (wd_journal w) m
      (local_event cid (in_now i) origin body) durable None = (wd_journal w', m', res)"
    using assms(1) by (auto simp: do_record_def split: prod.splits)
  obtain res' where n: "record_now (write_entry (in_disk i) (in_now i)) (max_age_of m) (in_now i) (in_mono i) (wd_journal w)
      (om_books m) (local_event cid (in_now i) origin body) durable None = (wd_journal w', om_books m', res')"
    using record_event_books [OF r] by metis
  show ?thesis using record_now_logs(2) [OF n] assms(2) by (auto simp: excused_def events_of_world_def)
qed

lemma excused_same:
  "wd_journal w' = wd_journal w \<Longrightarrow> bk_unjournalled (om_books m') = bk_unjournalled (om_books m) \<Longrightarrow> excused w' m' c = excused w m c"
  by (simp add: excused_def events_of_world_def)


definition still_fine :: "world \<Rightarrow> manager \<Rightarrow> manager \<Rightarrow> task \<Rightarrow> task option \<Rightarrow> string \<Rightarrow> bool" where
  "still_fine w' m m' t nxt c \<longleftrightarrow>
     excused w' m' c \<or> (pending m c \<and> \<not> handles t c) \<or> (\<exists>t'. nxt = Some t' \<and> handles t' c)"

lemma stop_send_pending:
  "stop_send w m cid code = (w', m', nxt) \<Longrightarrow> pending m' cid \<Longrightarrow> \<exists>t'. nxt = Some t' \<and> handles t' cid"
  by (cases "pending m cid")
    (auto simp: stop_send_def close_unsent_pending refused_send_def finish_call_def pending_def order_of_def)

lemma refuse_send_handles:
  "refuse_send w m cid code = (w', m', nxt) \<Longrightarrow> \<exists>t'. nxt = Some t' \<and> handles t' cid"
  by (auto simp: refuse_send_def refused_send_def)

lemma stop_refuse_books:
  "stop_send w m cid code = (w', m', nxt) \<Longrightarrow> om_books m' = om_books m \<and> wd_journal w' = wd_journal w"
  "refuse_send w m cid code = (w', m', nxt) \<Longrightarrow> om_books m' = om_books m \<and> wd_journal w' = wd_journal w"
  by (auto simp: stop_send_def refuse_send_def split: option.splits)

lemma send_begin_fine:
  assumes "send_begin i w m r = (w', m', nxt)" and "pending m' c"
  shows "still_fine w' m m' (SendBegin r) nxt c"
proof (cases "req_cid r = c")
  case False
  have "bk_orders (om_books m') = bk_orders (om_books m)"
    using assms(1) unfolding send_begin_def Let_def
    by (simp split: if_splits option.splits) (auto dest: stop_refuse_books)
  then show ?thesis using False assms(2) pending_same [of m' m] by (simp add: still_fine_def)
next
  case True
  show ?thesis
    using assms(1) stop_send_pending [OF _ assms(2) [folded True], of w m _ w' nxt]
      refuse_send_handles [of w m "req_cid r" _ w' m' nxt] assms(2)
    by (auto simp: True send_begin_def Let_def still_fine_def pending_def order_of_def split: if_splits option.splits)
qed

lemma start_write_fine:
  assumes s: "start_write cfg i w m r = (w', m', nxt)" and ok: "log_ok (wd_journal w) (om_books m)" and p: "pending m' c"
  shows "still_fine w' m m' (StartWrite r) nxt c"
proof -
  obtain w1 m1 res where d: "do_record cfg i w m (req_cid r) OMS (SendStarted (mc_send_record_id cfg)) True = (w1, m1, res)"
    using prod_cases3 by blast
  have b: "om_books m' = om_books m1" "wd_journal w' = wd_journal w1"
    using s d by (auto simp: start_write_def Let_def dest: stop_refuse_books split: if_splits sum.splits)
  have p1: "pending m1 c" using p b(1) pending_same [of m' m1] by simp
  have ex: "excused w1 m1 c \<Longrightarrow> excused w' m' c" using b by (simp add: excused_def events_of_world_def)
  from do_record_pending [OF d ok _ p1]
  have "excused w1 m1 c \<or> (pending m c \<and> (c = req_cid r \<longrightarrow> \<not> (\<exists>x. res = Inr x)))" by auto
  then show ?thesis
  proof
    assume "excused w1 m1 c"
    then show ?thesis using ex by (simp add: still_fine_def)
  next
    assume a: "pending m c \<and> (c = req_cid r \<longrightarrow> \<not> (\<exists>x. res = Inr x))"
    show ?thesis
    proof (cases "c = req_cid r")
      case False
      with a show ?thesis by (simp add: still_fine_def)
    next
      case True
      then obtain er where "res = Inl er" using a by (cases res) auto
      then obtain code where "stop_send w1 m1 (req_cid r) code = (w', m', nxt)"
        using s d by (auto simp: start_write_def Let_def split: if_splits)
      then show ?thesis using stop_send_pending p True by (simp add: still_fine_def)
    qed
  qed
qed

lemma intent_write_fine:
  assumes s: "intent_write cfg i w m r = (w', m', nxt)" and ok: "log_ok (wd_journal w) (om_books m)" and p: "pending m' c"
  shows "still_fine w' m m' (IntentWrite r) nxt c"
proof -
  obtain w1 m1 res where d: "do_record cfg i w m (req_cid r) OMS (SubmitIntent r) True = (w1, m1, res)"
    using prod_cases3 by blast
  have b: "om_books m' = om_books m1" "wd_journal w' = wd_journal w1"
    using s d by (auto simp: intent_write_def split: if_splits sum.splits option.splits)
  have p1: "pending m1 c" using p b(1) pending_same [of m' m1] by simp
  have ex: "excused w1 m1 c \<Longrightarrow> excused w' m' c" using b by (simp add: excused_def events_of_world_def)
  from do_record_pending [OF d ok _ p1]
  consider "excused w1 m1 c" | "pending m c" | x where "c = req_cid r" "res = Inr x" by auto
  then show ?thesis
  proof cases
    case 1
    then show ?thesis using ex by (simp add: still_fine_def)
  next
    case 2
    then show ?thesis by (simp add: still_fine_def)
  next
    case 3
    then show ?thesis
      using s d close_unsent_pending(1) [OF p1]
      by (auto simp: intent_write_def still_fine_def refused_send_def split: if_splits)
  qed
qed

lemma final_write_fine:
  assumes s: "final_write cfg i w m cid origin body fin = (w', m', nxt)" and ok: "log_ok (wd_journal w) (om_books m)"
    and plain: "\<And>r. body \<noteq> SubmitIntent r" and p: "pending m' c"
  shows "still_fine w' m m' (FinalWrite cid origin body fin) nxt c"
proof -
  obtain w1 m1 res where d: "do_record cfg i w m cid origin body False = (w1, m1, res)"
    using prod_cases3 by blast
  have b: "om_books m' = om_books m1" "wd_journal w' = wd_journal w1" using s d by (auto simp: final_write_def)
  have p1: "pending m1 c" using p b(1) pending_same [of m' m1] by simp
  have ex: "excused w1 m1 c \<Longrightarrow> excused w' m' c" using b by (simp add: excused_def events_of_world_def)
  from do_record_pending [OF d ok _ p1] plain
  have "excused w1 m1 c \<or> (pending m c \<and> \<not> (c = cid \<and> (\<exists>mm k. body = Rejected mm k)))" by auto
  then show ?thesis using ex by (cases body) (auto simp: still_fine_def)
qed

lemma other_write_fine:
  assumes d: "do_record cfg i w m cid origin body durable = (w', m', res)" and ok: "log_ok (wd_journal w) (om_books m)"
    and "\<And>r. body \<noteq> SubmitIntent r" and "pending m'' c" and "om_books m'' = om_books m'" and "\<not> handles t c"
  shows "still_fine w' m m'' t nxt c"
proof -
  have "pending m' c" using assms(4,5) pending_same [of m'' m'] by simp
  from do_record_pending [OF d ok _ this] assms(3) have "excused w' m' c \<or> pending m c" by auto
  then show ?thesis using assms(5,6) by (auto simp: still_fine_def excused_def)
qed

lemma advance_fine:
  assumes adv: "advance cfg loads i w m t = (w', m', nxt)" and ok: "log_ok (wd_journal w) (om_books m)"
    and plain: "plain_task t" and p: "pending m' c"
  shows "still_fine w' m m' t nxt c"
proof -
  have quiet: "still_fine w' m m' t nxt c" if "bk_orders (om_books m') = bk_orders (om_books m)" "\<not> handles t c"
    using that p pending_same [of m' m] by (simp add: still_fine_def)
  show ?thesis
  proof (cases t)
    case (SubmitStart r)
    with adv show ?thesis by (intro quiet)
        (auto simp: submit_start_def lookups_same [unfolded same_orders_def] split: advance_splits)
  next
    case (SubmitWait r a b)
    with adv show ?thesis by (intro quiet) (auto simp: advance_defs split: advance_splits)
  next
    case (SubmitCheck r a b k)
    with adv show ?thesis by (intro quiet) (auto simp: advance_defs split: advance_splits)
  next
    case (RejectWrite k)
    with adv show ?thesis by (intro quiet) (auto simp: advance_defs split: advance_splits)
  next
    case (IntentWrite r)
    with adv show ?thesis using intent_write_fine [OF _ ok p] by simp
  next
    case (SendBegin r)
    with adv show ?thesis using send_begin_fine [OF _ p] by simp
  next
    case (StartWrite r)
    with adv show ?thesis using start_write_fine [OF _ ok p] by simp
  next
    case (SendCheck r n k)
    with adv show ?thesis by (intro quiet) (auto simp: advance_defs split: advance_splits)
  next
    case (PlaceCall r)
    with adv show ?thesis by (intro quiet) (auto simp: advance_defs split: advance_splits)
  next
    case (FinalWrite cid o' b f)
    with adv plain show ?thesis using final_write_fine [OF _ ok _ p] by simp
  next
    case (CancelStart k)
    with adv show ?thesis by (intro quiet) (auto simp: advance_defs cancel_begin_books split: advance_splits)
  next
    case (CancelWrite k)
    with adv show ?thesis
      using p by (auto simp: cancel_write_def split: prod.splits intro: other_write_fine [OF _ ok])
  next
    case (CancelCall k)
    with adv show ?thesis by (intro quiet) (auto simp: advance_defs split: advance_splits)
  next
    case (AmendStart k q pr)
    with adv show ?thesis by (intro quiet)
        (auto simp: amend_start_def lookups_same [unfolded same_orders_def] split: advance_splits)
  next
    case (AmendWait k q pr a b)
    with adv show ?thesis by (intro quiet) (auto simp: advance_defs split: advance_splits)
  next
    case (AmendCheck k r q pr a b km)
    with adv show ?thesis by (intro quiet) (auto simp: advance_defs split: advance_splits)
  next
    case (ReplaceWrite k q pr)
    with adv show ?thesis
      using p by (auto simp: replace_write_def split: prod.splits intro: other_write_fine [OF _ ok])
  next
    case (AmendKill k q pr n km)
    with adv show ?thesis by (intro quiet) (auto simp: advance_defs split: advance_splits)
  next
    case (AmendCall k q pr)
    with adv show ?thesis by (intro quiet) (auto simp: advance_defs split: advance_splits)
  qed
qed


lemma advance_excused:
  assumes adv: "advance cfg loads i w m t = (w', m', nxt)" and ex: "excused w m c"
  shows "excused w' m' c"
proof -
  have quiet: "excused w' m' c"
    if "events_of_world w' = events_of_world w" "bk_unjournalled (om_books m') = bk_unjournalled (om_books m)"
    using that ex by (simp add: excused_def)
  have recorded: "excused w' m' c"
    if "do_record cfg i w m cid origin body durable = (w1, m1, res)" "wd_journal w' = wd_journal w1" "om_books m' = om_books m1"
    for cid origin body durable w1 m1 res
    using do_record_excused [OF that(1) ex] that(2,3) by (simp add: excused_def events_of_world_def)
  show ?thesis
  proof (cases t)
    case (SubmitStart r)
    with adv show ?thesis by (intro quiet)
        (auto simp: submit_start_def lookups_same [unfolded same_orders_def] split: advance_splits)
  next
    case (SubmitWait r a b)
    with adv show ?thesis by (intro quiet) (auto simp: advance_defs split: advance_splits)
  next
    case (SubmitCheck r a b k)
    with adv show ?thesis by (intro quiet) (auto simp: advance_defs split: advance_splits)
  next
    case (RejectWrite k)
    with adv show ?thesis by (intro quiet) (auto simp: advance_defs events_of_world_def append_entry_grows)
  next
    case (IntentWrite r)
    obtain w1 m1 res where d: "do_record cfg i w m (req_cid r) OMS (SubmitIntent r) True = (w1, m1, res)"
      using prod_cases3 by blast
    have "wd_journal w' = wd_journal w1" "om_books m' = om_books m1"
      using adv IntentWrite d by (auto simp: intent_write_def split: if_splits option.splits sum.splits)
    then show ?thesis by (rule recorded [OF d])
  next
    case (SendBegin r)
    with adv show ?thesis by (intro quiet) (auto simp: advance_defs split: advance_splits)
  next
    case (StartWrite r)
    obtain w1 m1 res where d: "do_record cfg i w m (req_cid r) OMS (SendStarted (mc_send_record_id cfg)) True = (w1, m1, res)"
      using prod_cases3 by blast
    have "wd_journal w' = wd_journal w1" "om_books m' = om_books m1"
      using adv StartWrite d
      by (auto simp: start_write_def Let_def dest: stop_refuse_books split: if_splits sum.splits)
    then show ?thesis by (rule recorded [OF d])
  next
    case (SendCheck r n k)
    with adv show ?thesis
      by (intro quiet) (auto simp: advance_defs events_of_world_def split: advance_splits)
  next
    case (PlaceCall r)
    with adv show ?thesis by (intro quiet) (auto simp: advance_defs split: advance_splits)
  next
    case (FinalWrite cid o' b f)
    obtain w1 m1 res where d: "do_record cfg i w m cid o' b False = (w1, m1, res)" using prod_cases3 by blast
    have "wd_journal w' = wd_journal w1" "om_books m' = om_books m1"
      using adv FinalWrite d by (auto simp: final_write_def)
    then show ?thesis by (rule recorded [OF d])
  next
    case (CancelStart k)
    with adv show ?thesis by (intro quiet) (auto simp: advance_defs cancel_begin_books split: advance_splits)
  next
    case (CancelWrite k)
    with adv show ?thesis by (auto simp: cancel_write_def split: prod.splits intro: recorded)
  next
    case (CancelCall k)
    with adv show ?thesis by (intro quiet) (auto simp: advance_defs split: advance_splits)
  next
    case (AmendStart k q pr)
    with adv show ?thesis by (intro quiet)
        (auto simp: amend_start_def lookups_same [unfolded same_orders_def] split: advance_splits)
  next
    case (AmendWait k q pr a b)
    with adv show ?thesis by (intro quiet) (auto simp: advance_defs split: advance_splits)
  next
    case (AmendCheck k r q pr a b km)
    with adv show ?thesis by (intro quiet) (auto simp: advance_defs split: advance_splits)
  next
    case (ReplaceWrite k q pr)
    obtain w1 m1 res where d: "do_record cfg i w m k OMS (ReplaceRequested q pr) True = (w1, m1, res)"
      using prod_cases3 by blast
    have "wd_journal w' = wd_journal w1" "om_books m' = om_books m1"
      using adv ReplaceWrite d by (auto simp: replace_write_def)
    then show ?thesis by (rule recorded [OF d])
  next
    case (AmendKill k q pr n km)
    with adv show ?thesis
      by (intro quiet) (auto simp: advance_defs events_of_world_def split: advance_splits)
  next
    case (AmendCall k q pr)
    with adv show ?thesis by (intro quiet) (auto simp: advance_defs split: advance_splits)
  qed
qed

lemma excused_grows:
  "excused w m c \<Longrightarrow> grows (events_of_world w) (events_of_world w') \<Longrightarrow> excused w' m c"
  by (auto simp: excused_def grows_def)

definition pending_inv :: "om_sys \<Rightarrow> bool" where
  "pending_inv s \<longleftrightarrow>
     (\<forall>p c. pending (sy_managers s p) c \<longrightarrow>
        excused (sy_world s) (sy_managers s p) c \<or> (\<exists>t. (p, t) \<in> set (sy_tasks s) \<and> handles t c))"

lemma pending_invD:
  "pending_inv \<lparr>sy_world = w, sy_managers = ms, sy_tasks = ts\<rparr> \<Longrightarrow> pending (ms p) c \<Longrightarrow>
   excused w (ms p) c \<or> (\<exists>t. (p, t) \<in> set ts \<and> handles t c)"
  unfolding pending_inv_def om_sys.select_convs by blast

lemma pending_invI:
  "(\<And>p c. pending (ms p) c \<Longrightarrow> excused w (ms p) c \<or> (\<exists>t. (p, t) \<in> set ts \<and> handles t c)) \<Longrightarrow>
   pending_inv \<lparr>sy_world = w, sy_managers = ms, sy_tasks = ts\<rparr>"
  unfolding pending_inv_def om_sys.select_convs by blast

text \<open>Steps of one manager that keep every task.\<close>

lemma pending_inv_one:
  assumes inv: "pending_inv \<lparr>sy_world = w, sy_managers = ms, sy_tasks = ts\<rparr>"
    and g: "grows (events_of_world w) (events_of_world w')"
    and p: "\<And>c. pending m' c \<Longrightarrow> excused w' m' c \<or> pending (ms p) c"
    and e: "\<And>c. excused w (ms p) c \<Longrightarrow> excused w' m' c" and t: "set ts \<subseteq> set ts'"
  shows "pending_inv \<lparr>sy_world = w', sy_managers = ms(p := m'), sy_tasks = ts'\<rparr>"
proof (rule pending_invI)
  fix q c assume a: "pending ((ms(p := m')) q) c"
  show "excused w' ((ms(p := m')) q) c \<or> (\<exists>t. (q, t) \<in> set ts' \<and> handles t c)"
  proof (cases "q = p")
    case True
    then show ?thesis using a p [of c] e [of c] pending_invD [OF inv, of p c] t by auto
  next
    case False
    then show ?thesis using a pending_invD [OF inv, of q c] excused_grows [OF _ g, of "ms q" c] t by auto
  qed
qed

lemma om_step_pending_inv:
  assumes "om_step cfg rc loads dumps s s'" and log: "log_inv s" and inv: "pending_inv s"
  shows "pending_inv s'"
  using assms(1)
proof (cases rule: om_step.cases)
  case (call t w ms ts p)
  show ?thesis unfolding call(2)
    using pending_inv_one [OF inv [unfolded call(1)], of w "ms p" p "(p, t) # ts"] by auto
next
  case (run p i w ms t w' m' nxt xs ys)
  note i = pending_invD [OF inv [unfolded run(1)]] and v = log_invD [OF log [unfolded run(1)]]
  show ?thesis unfolding run(2)
  proof (rule pending_invI)
    fix q c assume a: "pending ((ms(p := m')) q) c"
    show "excused w' ((ms(p := m')) q) c \<or> (\<exists>t'. (q, t') \<in> set (resume_with xs p nxt ys) \<and> handles t' c)"
    proof (cases "q = p")
      case False
      then show ?thesis
        using a i [of q c] excused_grows [OF _ advance_grows [OF run(3)], of "ms q" c]
        by (auto simp: resume_with_def split: option.splits)
    next
      case True
      then have "pending m' c" using a by simp
      then have "still_fine w' (ms p) m' t nxt c" using advance_fine [OF run(3) v(2) v(3) [of p]] by simp
      moreover have "excused w' m' c" if "excused w (ms p) c" by (rule advance_excused [OF run(3) that])
      ultimately show ?thesis
        using i [of p c] True by (auto simp: still_fine_def resume_with_def split: option.splits)
    qed
  qed
next
  case (switch ms p w k rows kts ts)
  show ?thesis unfolding switch(2)
    by (rule pending_inv_one [OF inv [unfolded switch(1)]])
      (auto simp: events_of_world_def pending_def order_of_def excused_def)
next
  case (venue_event e p disk now mt w ms durable only_if j' m' res ts)
  note v = log_invD [OF log [unfolded venue_event(1)]]
  obtain res' where r: "record_now (write_entry disk now) (max_age_of (ms p)) now mt (wd_journal w) (om_books (ms p)) e durable only_if
      = (j', om_books m', res')"
    using record_event_books [OF venue_event(4)] by metis
  have pr: "proper_event e durable" using venue_event(3) by (auto simp: proper_event_def is_intent_def)
  show ?thesis unfolding venue_event(2)
  proof (rule pending_inv_one [OF inv [unfolded venue_event(1)]])
    show "excused (w\<lparr>wd_journal := j'\<rparr>) m' c \<or> pending (ms p) c" if "pending m' c" for c
      using record_pending [OF venue_event(4) v(2) pr that] venue_event(3) excusedI [of e "w\<lparr>wd_journal := j'\<rparr>" m' c]
      by auto
    show "excused (w\<lparr>wd_journal := j'\<rparr>) m' c" if "excused w (ms p) c" for c
      using record_now_logs(2) [OF r] that by (auto simp: excused_def events_of_world_def)
  qed (use record_event_effect(2) [OF venue_event(4)] in \<open>simp_all add: events_of_world_def\<close>)
next
  case (retry_writes disk now w ms p j' b' ts)
  note v = log_invD [OF log [unfolded retry_writes(1)]]
  note a = retry_log [OF retry_writes(3) v(2) v(1)]
  show ?thesis unfolding retry_writes(2)
    by (rule pending_inv_one [OF inv [unfolded retry_writes(1)]])
      (use a retry_grows [OF retry_writes(3)] in
        \<open>simp_all add: events_of_world_def pending_def order_of_def excused_def\<close>)
next
  case (other_memory ms p m' w ts)
  show ?thesis unfolding other_memory(2)
    by (rule pending_inv_one [OF inv [unfolded other_memory(1)]])
      (use other_memory(3) in \<open>simp_all add: same_sends_def pending_def order_of_def excused_def\<close>)
next
  case (other_entry en w ms ts disk now)
  have e: "events_of_world (w\<lparr>wd_journal := append_entry disk now (wd_journal w) en\<rparr>) = events_of_world w"
    by (simp add: events_of_world_def append_entry_grows [OF other_entry(3)])
  show ?thesis unfolding other_entry(2)
    using pending_invD [OF inv [unfolded other_entry(1)]] by (intro pending_invI) (simp add: excused_def e)
next
  case (restart p now mt w m' ms ts)
  note v = log_invD [OF log [unfolded restart(1)]] and i = pending_invD [OF inv [unfolded restart(1)]]
  have b: "books_inv (om_books m')" using recover_manager_log [OF restart(3) v(1)] by (simp add: log_ok_def)
  show ?thesis unfolding restart(2)
  proof (rule pending_invI)
    fix q c assume a: "pending ((ms(p := m')) q) c"
    show "excused w ((ms(p := m')) q) c \<or> (\<exists>t. (q, t) \<in> set (map (\<lambda>(cid, origin, body). (p, FinalWrite cid origin body FinishPlain))
                     (recovery_events (om_books m')) @ filter (\<lambda>(q, t). q \<noteq> p) ts) \<and> handles t c)"
    proof (cases "q = p")
      case False
      then show ?thesis using a i [of q c] by auto
    next
      case True
      then obtain st where st: "bk_orders (om_books m') c = Some st" "st_status st = PENDING_SUBMIT"
        using a by (auto simp: pending_def order_of_def)
      have "state_cid st = c" using b st(1) by (auto simp: books_inv_def)
      then have "st \<in> set (bk_open (om_books m'))"
        using b st by (auto simp: books_inv_def is_open_def is_terminal_def)
      then have "(c, RECONCILE, Rejected ''the send never started; never sent'' (Some ''NEVER_SENT'')) \<in> set (recovery_events (om_books m'))"
        using st(2) \<open>state_cid st = c\<close> unfolding recovery_events_def by force
      then have "(p, FinalWrite c RECONCILE (Rejected ''the send never started; never sent'' (Some ''NEVER_SENT'')) FinishPlain)
          \<in> set (map (\<lambda>(cid, origin, body). (p, FinalWrite cid origin body FinishPlain)) (recovery_events (om_books m')))"
        by force
      then show ?thesis unfolding set_append using handles.simps(3) True by blast
    qed
  qed
next
  case (started p ts ms w)
  show ?thesis unfolding started(2)
    by (rule pending_inv_one [OF inv [unfolded started(1)]]) (simp_all add: pending_def order_of_def excused_def)
qed

lemma om_reaches_pending_inv:
  "om_reaches cfg rc loads dumps s s' \<Longrightarrow> log_inv s \<Longrightarrow> pending_inv s \<Longrightarrow> pending_inv s'"
proof (induction rule: om_reaches.induct)
  case om_refl
  then show ?case by simp
next
  case (om_trans s' s'')
  then show ?case using om_step_pending_inv [OF om_trans.hyps(2)] om_reaches_log_inv [OF om_trans.hyps(1)] by blast
qed

lemma first_start_pending: "pending_inv (first_start rc)"
  by (simp add: pending_inv_def first_start_def pending_def order_of_def blank_manager_def empty_books_def)

section \<open>A placed order is never taken for one that was not sent\<close>

lemma replay_from_request:
  assumes "replay_from m es = Inr m'"
  shows "m cid = Some s \<Longrightarrow> \<exists>s'. m' cid = Some s' \<and> st_request s' = st_request s"
    and "m (req_cid r) = None \<Longrightarrow> intents_distinct es \<Longrightarrow> intent_logged es r \<Longrightarrow>
      \<exists>s'. m' (req_cid r) = Some s' \<and> st_request s' = r"
proof -
  have keep: "replay_from m es = Inr m' \<Longrightarrow> m cid = Some s \<Longrightarrow> \<exists>s'. m' cid = Some s' \<and> st_request s' = st_request s" for m es cid s
  proof (induction es arbitrary: m s)
    case (Cons e es)
    obtain m1 where m1: "replay_step m e = Inr m1" "replay_from m1 es = Inr m'"
      using Cons.prems(1) by (auto simp: bind_result_eq_Inr)
    have "\<exists>s1. m1 cid = Some s1 \<and> st_request s1 = st_request s"
    proof (cases "ev_cid e = cid")
      case True
      then show ?thesis using m1(1) Cons.prems(2) apply_event_request
        by (auto simp: replay_step_def bind_result_eq_Inr)
    next
      case False
      then show ?thesis using m1(1) Cons.prems(2)
        by (auto simp: replay_step_def bind_result_eq_Inr split: option.splits event_body.splits if_splits)
    qed
    with Cons.IH [OF m1(2)] show ?case by fastforce
  qed simp
  show "m cid = Some s \<Longrightarrow> \<exists>s'. m' cid = Some s' \<and> st_request s' = st_request s" using keep [OF assms] .
  have "replay_from m es = Inr m' \<Longrightarrow> m (req_cid r) = None \<Longrightarrow> intents_distinct es \<Longrightarrow> intent_logged es r \<Longrightarrow>
      \<exists>s'. m' (req_cid r) = Some s' \<and> st_request s' = r" for m es
  proof (induction es arbitrary: m)
    case Nil
    then show ?case by (simp add: intent_logged_def)
  next
    case (Cons e es)
    obtain m1 where m1: "replay_step m e = Inr m1" "replay_from m1 es = Inr m'"
      using Cons.prems(1) by (auto simp: bind_result_eq_Inr)
    show ?case
    proof (cases "ev_body e = SubmitIntent r \<and> ev_cid e = req_cid r")
      case True
      then have "m1 (req_cid r) = Some (new_order r)" using m1(1) Cons.prems(2) by (auto simp: replay_step_def)
      then show ?thesis using keep [OF m1(2)] by (fastforce simp: new_order_def)
    next
      case False
      then have later: "intent_logged es r" using Cons.prems(4) by (auto simp: intent_logged_def)
      have d: "intents_distinct es" using Cons.prems(3) by (auto simp: intents_distinct_def split: if_splits)
      have "m1 (req_cid r) = None"
      proof (cases "ev_cid e = req_cid r")
        case True
        then have "\<not> is_intent e"
          using Cons.prems(3) intent_logged_intended [OF later] by (auto simp: intents_distinct_def intended_def)
        then show ?thesis using m1(1) Cons.prems(2) True
          by (auto simp: replay_step_def is_intent_def split: event_body.splits)
      next
        case ne: False
        then show ?thesis using m1(1) Cons.prems(2)
          by (auto simp: replay_step_def bind_result_eq_Inr split: option.splits event_body.splits if_splits)
      qed
      then show ?thesis using Cons.IH [OF m1(2) _ d later] by blast
    qed
  qed
  then show "m (req_cid r) = None \<Longrightarrow> intents_distinct es \<Longrightarrow> intent_logged es r \<Longrightarrow>
      \<exists>s'. m' (req_cid r) = Some s' \<and> st_request s' = r" using assms by blast
qed

lemma placed_survives:
  assumes si: "send_inv s" and log: "log_inv s" and pl: "(r, n) \<in> set (wd_placed (sy_world s))"
    and rec: "recover_manager c loads rc now mt (wd_journal (sy_world s)) (wd_rows (sy_world s)) = Inr m"
    and clean: "\<And>e. e \<in> set (events_of_world (sy_world s)) \<Longrightarrow> ev_cid e = req_cid r \<Longrightarrow> \<not> restates_pending e"
  shows "\<exists>st. order_of m (req_cid r) = Some st \<and> st_request st = r \<and> st_status st \<noteq> PENDING_SUBMIT"
proof -
  have named: "intents_named (ej_entries (wd_journal (sy_world s)))" using log by (simp add: log_inv_def)
  have rep: "replay_from Map.empty (events_of_world (sy_world s)) = Inr (bk_orders (om_books m))"
    using recover_manager_log [OF rec named] by (simp add: events_of_world_def replay_def)
  have l: "intents_distinct (events_of_world (sy_world s))" "intent_logged (events_of_world (sy_world s)) r"
    "start_logged (events_of_world (sy_world s)) (req_cid r)"
    using si pl unfolding send_inv_def by fastforce+
  show ?thesis
    using replay_from_not_pending [OF rep clean disjI1, of "req_cid r"] l(3) replay_from_request(2) [OF rep _ l(1,2)]
    by (auto simp: order_of_def)
qed

section \<open>Properties\<close>

text \<open>C3: A crash never turns an order the venue may have into one that was not sent: whenever a manager
  recovers from the journal, every order handed to the venue is there with the request that was sent,
  and not as \<open>PENDING_SUBMIT\<close>, the one status a restart closes as never sent, unless the venue itself
  restated it so.\<close>

theorem placed_order_survives_restart:
  assumes "om_reaches cfg rc loads dumps (first_start rc) s" and "(r, n) \<in> set (wd_placed (sy_world s))"
    and "recover_manager c loads limits now mt (wd_journal (sy_world s)) (wd_rows (sy_world s)) = Inr m"
    and "\<And>e. e \<in> set (events_of_world (sy_world s)) \<Longrightarrow> ev_cid e = req_cid r \<Longrightarrow> \<not> restates_pending e"
  shows "\<exists>st. order_of m (req_cid r) = Some st \<and> st_request st = r \<and> st_status st \<noteq> PENDING_SUBMIT"
proof -
  have "send_inv s" using om_reaches_send_inv [OF assms(1) first_start_inv] by blast
  moreover have "log_inv s" using om_reaches_log_inv [OF assms(1) first_start_log] .
  ultimately show ?thesis using assms(2-4) by (rule placed_survives)
qed

lemma sample_recovers:
  "\<exists>b h. recover_books 5 9 0 empty_books sample_entries = Inr (b, h)"
  by (simp add: recover_books_def sample_entries_def replay_entry_def replay_event_def local_event_def
      store_order_def restamp_def Let_def apply_event_settle state_cid_def new_order_def note_unknown_def
      empty_books_def)

lemma placed_order_survives_restart_witness:
  "\<exists>m st. order_of m ''A1'' = Some st \<and> st_request st = sample_request \<and> st_status st \<noteq> PENDING_SUBMIT"
proof -
  obtain w m where r: "sample_reaches \<lparr>sy_world = w, sy_managers = sample_managers m,
      sy_tasks = [(0, PlaceCall sample_request)]\<rparr>" and p: "wd_placed w = [(sample_request, 0)]"
      "wd_rows w = []" "ej_entries (wd_journal w) = sample_entries"
    using sample_placed by blast
  obtain m' where m': "recover_manager sample_manager_config sample_loads sample_config 9 0 (wd_journal w) (wd_rows w) = Inr m'"
    using sample_recovers p(3) by (auto simp: recover_manager_def sample_config_def)
  have clean: "\<not> restates_pending e" if "e \<in> set (events_of_world w)" for e
    using that p(3) by (auto simp: events_of_world_def sample_entries_def restates_pending_def local_event_def)
  have "\<exists>st. order_of m' (req_cid sample_request) = Some st \<and> st_request st = sample_request \<and> st_status st \<noteq> PENDING_SUBMIT"
    by (rule placed_order_survives_restart [OF r, where n = 0]) (use p(1) m' clean in simp_all)
  then show ?thesis by auto
qed



end
