(* ===== verification/Reconcile.thy ===== *)
theory Reconcile
  imports SendRecovery "HOL-Library.Char_ord" "HOL-Library.List_Lexorder"
begin

text \<open>
  Reconciliation, the venue's events and the operator's changes of \<open>execution/manager.py\<close>. A pass runs
  under its own lock, so it is one function of the state it holds; each await is a \<open>pause\<close>, which says
  what the venue answered, the clocks, whether writes reach the disk, and what the other tasks of the
  process did to the manager and the journal meanwhile. The functions read as the coroutines do, with
  exceptions as the left of the result.

  Identity of order states (\<open>self._orders[cid] is not state\<close>) is equality of stamps, as in \<open>Books\<close>. The
  clocks of a stretch between two awaits are those of the pause that ends it. The detail text of a
  break is left out.
\<close>

section \<open>Pauses\<close>

datatype status_answer = StatusIs "venue_order_snapshot option" | NoSendRecord string | StatusFails

datatype cancel_answer = CancelTaken | CancelVenueError | CancelFails

type_synonym others = "world \<times> manager \<Rightarrow> world \<times> manager"

record pause =
  pz_now :: int
  pz_mono :: rat
  pz_disk :: "nat \<Rightarrow> bool"
  pz_intact :: bool
  pz_meanwhile :: others
  pz_afterwards :: others
  pz_status :: "string \<Rightarrow> status_answer"
  pz_cancel :: cancel_answer
  pz_fills :: "int \<Rightarrow> symbol option \<Rightarrow> fill list option"
  pz_open :: "venue_order_snapshot list option"
  pz_positions :: "position list option"

record pass =
  ps_world :: world
  ps_mgr :: manager
  ps_report :: recon_report
  ps_next :: nat

type_synonym 'a run = "pass \<Rightarrow> pass \<times> 'a result"

definition run_return :: "'a \<Rightarrow> 'a run" where
  "run_return x st = (st, Inr x)"

definition run_then :: "'a run \<Rightarrow> ('a \<Rightarrow> 'b run) \<Rightarrow> 'b run" where
  "run_then r f st = (case r st of (st', Inl err) \<Rightarrow> (st', Inl err) | (st', Inr x) \<Rightarrow> f x st')"

definition pause_of :: "(nat \<Rightarrow> pause) \<Rightarrow> pass \<Rightarrow> pause" where
  "pause_of pauses st = pauses (ps_next st)"

definition others_run :: "others \<Rightarrow> pass \<Rightarrow> pass" where
  "others_run f st = (case f (ps_world st, ps_mgr st) of (w, m) \<Rightarrow> st\<lparr>ps_world := w, ps_mgr := m\<rparr>)"

text \<open>Awaiting something that touches nothing here: the venue, or the journal's reader.\<close>

definition await :: "(nat \<Rightarrow> pause) \<Rightarrow> pass \<Rightarrow> pass" where
  "await pauses st =
     (others_run (pz_meanwhile (pause_of pauses st)) st)\<lparr>ps_next := ps_next st + 1\<rparr>"

definition change_report :: "(recon_report \<Rightarrow> recon_report) \<Rightarrow> pass \<Rightarrow> pass" where
  "change_report f st = st\<lparr>ps_report := f (ps_report st)\<rparr>"

definition add_break :: "break_kind \<Rightarrow> string \<Rightarrow> pass \<Rightarrow> pass" where
  "add_break k subject =
     change_report (\<lambda>r. r\<lparr>rep_breaks := rep_breaks r @ [\<lparr>rb_kind = k, rb_subject = subject\<rparr>]\<rparr>)"

definition add_resolved :: "string \<Rightarrow> pass \<Rightarrow> pass" where
  "add_resolved cid = change_report (\<lambda>r. r\<lparr>rep_resolved := rep_resolved r @ [cid]\<rparr>)"

definition incomplete :: "pass \<Rightarrow> pass" where
  "incomplete = change_report (\<lambda>r. r\<lparr>rep_complete := False\<rparr>)"

definition query_failed :: "string \<Rightarrow> pass \<Rightarrow> pass" where
  "query_failed subject st = add_break QUERY_FAILED subject (incomplete st)"

definition change_books :: "(books \<Rightarrow> books) \<Rightarrow> pass \<Rightarrow> pass" where
  "change_books f st = st\<lparr>ps_mgr := (ps_mgr st)\<lparr>om_books := f (om_books (ps_mgr st))\<rparr>\<rparr>"

abbreviation ps_books :: "pass \<Rightarrow> books" where
  "ps_books st \<equiv> om_books (ps_mgr st)"

text \<open>An order state object: the state and its stamp.\<close>

definition held_state :: "string \<Rightarrow> pass \<Rightarrow> (order_state \<times> nat) option" where
  "held_state cid st =
     map_option (\<lambda>s. (s, bk_stamp (ps_books st) cid)) (bk_orders (ps_books st) cid)"

definition read_state :: "string \<Rightarrow> (order_state \<times> nat) run" where
  "read_state cid st =
     (st, case held_state cid st of None \<Rightarrow> Inl KeyError | Some x \<Rightarrow> Inr x)"

text \<open>\<open>_record\<close>: waiting for the lock, the write and the update, and the tasks woken by it.\<close>

definition pass_record ::
    "manager_config \<Rightarrow> (nat \<Rightarrow> pause) \<Rightarrow> string \<Rightarrow> event_origin \<Rightarrow> event_body \<Rightarrow> bool \<Rightarrow> nat option \<Rightarrow>
     order_state run" where
  "pass_record cfg pauses cid origin body durable only_if st =
     (let z = pause_of pauses st; st1 = await pauses st
      in case record_event cfg (pz_disk z) (pz_now z) (pz_mono z) (wd_journal (ps_world st1)) (ps_mgr st1)
                (local_event cid (pz_now z) origin body) durable only_if of
           (j', m', res) \<Rightarrow>
             (others_run (pz_afterwards z)
                (st1\<lparr>ps_world := (ps_world st1)\<lparr>wd_journal := j'\<rparr>, ps_mgr := m'\<rparr>), res))"

text \<open>\<open>_append\<close> of a record that is no order event; the result is whether it reached the journal.\<close>

definition pass_append :: "(nat \<Rightarrow> pause) \<Rightarrow> entry \<Rightarrow> pass \<Rightarrow> pass \<times> bool" where
  "pass_append pauses en st =
     (let z = pause_of pauses st; st1 = await pauses st; j = wd_journal (ps_world st1)
      in (st1\<lparr>ps_world := (ps_world st1)\<lparr>wd_journal := append_entry (pz_disk z) (pz_now z) j en\<rparr>\<rparr>,
          pz_disk z (ej_attempts j)))"

section \<open>Asking the venue\<close>

definition venue_status :: "manager_config \<Rightarrow> (nat \<Rightarrow> pause) \<Rightarrow> string \<Rightarrow> venue_order_snapshot option run" where
  "venue_status cfg pauses cid st =
     (let z = pause_of pauses st; st1 = await pauses st
      in case pz_status z cid of
           StatusIs answer \<Rightarrow> (st1, Inr answer)
         | StatusFails \<Rightarrow> (st1, Inl VenueException)
         | NoSendRecord why \<Rightarrow>
             (case held_state cid st1 of
                None \<Rightarrow> (st1, Inl KeyError)
              | Some (s, n) \<Rightarrow>
                  if st_send_record_id s \<noteq> None \<and> st_send_record_id s = mc_send_record_id cfg
                  then (st1, Inr None)
                  else if is_open s \<and> st_status s \<noteq> UNKNOWN
                  then run_then (pass_record cfg pauses cid OMS
                                  (OutcomeUnknown (''no send record under the current store: '' @ why)) False (Some n))
                         (\<lambda>_ st2. (st2, Inl VenueException)) st1
                  else (st1, Inl VenueException)))"

section \<open>Fills\<close>

definition record_recovered_fill :: "manager_config \<Rightarrow> (nat \<Rightarrow> pause) \<Rightarrow> fill \<Rightarrow> order_state run" where
  "record_recovered_fill cfg pauses f =
     pass_record cfg pauses (fl_cid f) RECONCILE (Filled f) False None"

definition note_correction :: "fill \<Rightarrow> pass \<Rightarrow> pass" where
  "note_correction f = change_books (\<lambda>b. b\<lparr>bk_corrections := insert (fill_terms_of f) (bk_corrections b)\<rparr>)"

text \<open>One turn of the loop of \<open>_book_fills\<close>.\<close>

definition book_fill :: "manager_config \<Rightarrow> (nat \<Rightarrow> pause) \<Rightarrow> fill \<Rightarrow> unit run" where
  "book_fill cfg pauses f st =
     (case bk_orders (ps_books st) (fl_cid f) of
        None \<Rightarrow>
          (let subject = orphan_fill_subject f
           in if subject \<in> bk_orphans (ps_books st) \<union> set (map rb_subject (rep_breaks (ps_report st)))
              then (st, Inr ()) else (add_break ORPHAN_FILL subject st, Inr ()))
      | Some s \<Rightarrow>
          (let known = list_ex (\<lambda>g. fl_id g = fl_id f) (st_fills s)
           in if fl_id f \<in> st_busted s then (st, Inr ())
              else if \<not> known \<or> fill_adds_detail s f
              then run_then (record_recovered_fill cfg pauses f)
                     (\<lambda>_ st'. (add_resolved (fl_cid f) st', Inr ()))
                     (if known \<and> fill_disputes s f then note_correction f st else st)
              else if fill_disputes s f \<and> fill_terms_of f \<notin> bk_corrections (ps_books st)
              then run_then (record_recovered_fill cfg pauses f) (\<lambda>_ st'. (st', Inr ())) (note_correction f st)
              else (st, Inr ())))"

fun book_fills :: "manager_config \<Rightarrow> (nat \<Rightarrow> pause) \<Rightarrow> fill list \<Rightarrow> unit run" where
  "book_fills cfg pauses [] st = (st, Inr ())"
| "book_fills cfg pauses (f # fs) st =
     run_then (book_fill cfg pauses f) (\<lambda>_. book_fills cfg pauses fs) st"

definition recover_order_fills :: "manager_config \<Rightarrow> (nat \<Rightarrow> pause) \<Rightarrow> order_state \<Rightarrow> bool run" where
  "recover_order_fills cfg pauses s st =
     (let cid = state_cid s; z = pause_of pauses st;
          created = (case bk_created (ps_books st) cid of Some t \<Rightarrow> t | None \<Rightarrow> rep_at (ps_report st));
          st1 = await pauses st
      in case pz_fills z (created - mc_fill_lookback cfg) (Some (req_symbol (st_request s))) of
           None \<Rightarrow> (query_failed cid st1, Inr False)
         | Some fills \<Rightarrow>
             run_then (book_fills cfg pauses (filter (\<lambda>f. fl_cid f = cid) fills)) (\<lambda>_. run_return True) st1)"

definition sweep_fills :: "manager_config \<Rightarrow> (nat \<Rightarrow> pause) \<Rightarrow> bool run" where
  "sweep_fills cfg pauses st =
     (let began = (case bk_last_sweep (ps_books st) of Some t \<Rightarrow> t | None \<Rightarrow> rep_at (ps_report st));
          since = fill_window (ps_books st) (began - mc_fill_lookback cfg);
          z = pause_of pauses st; st1 = await pauses st
      in case pz_fills z since None of
           None \<Rightarrow> (query_failed ''fills'' st1, Inr False)
         | Some fills \<Rightarrow> run_then (book_fills cfg pauses fills) (\<lambda>_. run_return True) st1)"

text \<open>The loop over \<open>self._orders\<close> only takes a minimum, so the order of the keys does not matter.\<close>

definition recover_missing_fills :: "manager_config \<Rightarrow> (nat \<Rightarrow> pause) \<Rightarrow> symbol \<Rightarrow> unit run" where
  "recover_missing_fills cfg pauses y st =
     (let b = ps_books st;
          times = concat (map (\<lambda>c. case (bk_orders b c, bk_created b c) of
                                     (Some s, Some t) \<Rightarrow> if req_symbol (st_request s) = y then [t] else []
                                   | _ \<Rightarrow> []) (sorted_list_of_set (dom (bk_orders b))));
          since = (case times of [] \<Rightarrow> rep_at (ps_report st) | t # ts \<Rightarrow> fold min ts t) - mc_fill_lookback cfg;
          z = pause_of pauses st; st1 = await pauses st
      in case pz_fills z (fill_window b since) (Some y) of
           None \<Rightarrow> (query_failed (symbol_str y) st1, Inr ())
         | Some fills \<Rightarrow> book_fills cfg pauses fills st1)"

section \<open>One order\<close>

definition sync_terms :: "manager_config \<Rightarrow> (nat \<Rightarrow> pause) \<Rightarrow> venue_order_snapshot \<Rightarrow> unit run" where
  "sync_terms cfg pauses snap st =
     run_then (read_state (snap_cid snap)) (\<lambda>(s, n) st.
       if snap_quantity snap = st_quantity s \<and>
          (snap_limit_price snap = None \<or> snap_limit_price snap = st_limit_price s)
       then (st, Inr ())
       else run_then (pass_record cfg pauses (snap_cid snap) RECONCILE
                       (Replaced (Some (snap_quantity snap))
                          (case snap_limit_price snap of Some p \<Rightarrow> Some p | None \<Rightarrow> st_limit_price s)
                          (snap_venue_order_id snap)) False (Some n))
              (\<lambda>_ st'. (add_resolved (snap_cid snap) st', Inr ())) st) st"

definition status_differs :: "manager_config \<Rightarrow> manager \<Rightarrow> rat \<Rightarrow> order_state \<Rightarrow> venue_order_snapshot \<Rightarrow> bool" where
  "status_differs cfg m mt s snap =
     (if st_status s = snap_status snap then False
      else if st_status s \<in> set PENDING_STATUSES \<and> snap_status snap \<in> set WORKING_STATUSES
      then (case om_change_at m (state_cid s) of
              None \<Rightarrow> True | Some sent \<Rightarrow> mc_unknown_grace cfg \<le> mt - sent)
      else True)"

text \<open>\<open>_sync_fills\<close>, with the attempts that are left.\<close>

definition FILL_SYNC_ATTEMPTS :: nat where
  "FILL_SYNC_ATTEMPTS = 3"

fun sync_fills ::
    "manager_config \<Rightarrow> (nat \<Rightarrow> pause) \<Rightarrow> order_state \<Rightarrow> nat \<Rightarrow> venue_order_snapshot \<Rightarrow>
     venue_order_snapshot option run" where
  "sync_fills cfg pauses s 0 snap st = (incomplete st, Inr None)"
| "sync_fills cfg pauses s (Suc k) snap st =
     run_then (recover_order_fills cfg pauses s) (\<lambda>asked st.
       if \<not> asked then (st, Inr None)
       else run_then (read_state (state_cid s)) (\<lambda>(current, _) st.
         if st_filled_quantity current = snap_filled_quantity snap
         then (add_resolved (state_cid s) st, Inr (Some snap))
         else run_then (venue_status cfg pauses (state_cid s)) (\<lambda>fresh st.
           case fresh of
             None \<Rightarrow> (st, Inr None)
           | Some f \<Rightarrow>
               if snap_filled_quantity f = snap_filled_quantity snap
               then (add_break FILL_MISMATCH (state_cid s) st, Inr (Some f))
               else sync_fills cfg pauses s k f st) st) st) st"

definition RESOLVE :: "order_status list" where
  "RESOLVE = [SUBMITTING, UNKNOWN]"

text \<open>\<open>_resolve_not_found\<close>, in its two halves: before and after the protective cancel.\<close>

definition close_not_found ::
    "manager_config \<Rightarrow> (nat \<Rightarrow> pause) \<Rightarrow> order_state \<Rightarrow> nat \<Rightarrow> unit run" where
  "close_not_found cfg pauses current n st =
     (if st_status current \<in> set RESOLVE \<and> st_filled_quantity current = 0
      then run_then (pass_record cfg pauses (state_cid current) RECONCILE
                      (Rejected ''venue has no record of this order after the grace period''
                         (Some ''NOT_FOUND_AT_VENUE'')) False (Some n))
             (\<lambda>_ st'. (add_resolved (state_cid current) st', Inr ())) st
      else run_then (pass_record cfg pauses (state_cid current) RECONCILE
                      (Restated CANCELED None None ''venue no longer has this order'') False (Some n))
             (\<lambda>closed st'.
                if st_status closed \<noteq> CANCELED then (incomplete st', Inr ())
                else (add_break MISSING_AT_VENUE (state_cid current) st', Inr ())) st)"

definition look_again :: "manager_config \<Rightarrow> (nat \<Rightarrow> pause) \<Rightarrow> order_state \<Rightarrow> unit run" where
  "look_again cfg pauses s st =
     run_then (read_state (state_cid s)) (\<lambda>(_, asked) st.
     run_then (venue_status cfg pauses (state_cid s)) (\<lambda>snapshot st.
       if snapshot \<noteq> None then (st, Inr ())
       else run_then (recover_order_fills cfg pauses s) (\<lambda>answered st.
         if \<not> answered then (st, Inr ())
         else run_then (read_state (state_cid s)) (\<lambda>(current, n) st.
           if is_terminal current then (add_resolved (state_cid s) st, Inr ())
           else if n = asked then close_not_found cfg pauses current n st
           else run_then (venue_status cfg pauses (state_cid s)) (\<lambda>again st.
             if again \<noteq> None then (st, Inr ())
             else if map_option snd (held_state (state_cid s) st) \<noteq> Some n then (incomplete st, Inr ())
             else close_not_found cfg pauses current n st) st) st) st) st) st"

definition resolve_not_found :: "manager_config \<Rightarrow> (nat \<Rightarrow> pause) \<Rightarrow> order_state \<Rightarrow> unit run" where
  "resolve_not_found cfg pauses s st =
     (let cid = state_cid s; now = pz_mono (pause_of pauses st);
          first_seen = (case bk_unknown_since (ps_books st) cid of Some t \<Rightarrow> t | None \<Rightarrow> now);
          st0 = change_books (\<lambda>b. b\<lparr>bk_unknown_since := (bk_unknown_since b)(cid \<mapsto> first_seen)\<rparr>) st
      in if now - first_seen < mc_unknown_grace cfg then (incomplete st0, Inr ())
         else run_then (pass_record cfg pauses cid RECONCILE CancelRequested False None) (\<lambda>_ st1.
           let z = pause_of pauses st1; st2 = await pauses st1
           in if pz_cancel z = CancelFails then (query_failed cid st2, Inr ())
              else look_again cfg pauses s st2) st0)"

text \<open>\<open>_reconcile_order\<close>: its last part, and the part from a settled answer on.\<close>

definition restate_order :: "manager_config \<Rightarrow> (nat \<Rightarrow> pause) \<Rightarrow> string \<Rightarrow> venue_order_snapshot \<Rightarrow> unit run" where
  "restate_order cfg pauses cid snap st =
     run_then (read_state cid) (\<lambda>(current, n) st.
       let agree = (st_filled_quantity current = snap_filled_quantity snap);
           closes = is_terminal_status (snap_status snap)
       in if is_terminal current \<and> \<not> closes then (st, Inr ())
          else if \<not> agree \<and> closes then (st, Inr ())
          else if \<not> status_differs cfg (ps_mgr st) (pz_mono (pause_of pauses st)) current snap then (st, Inr ())
          else run_then (pass_record cfg pauses cid RECONCILE
                          (if st_status current = PENDING_REPLACE
                           then ReplaceRejected ''the venue did not apply the change'' None
                           else Restated (snap_status snap) (snap_venue_order_id snap)
                                  (Some (snap_filled_quantity snap)) ''reconciliation'') False (Some n))
                 (\<lambda>_ st'. (add_resolved cid st', Inr ())) st) st"

definition judge_order ::
    "manager_config \<Rightarrow> (nat \<Rightarrow> pause) \<Rightarrow> order_state \<Rightarrow> venue_order_snapshot option \<Rightarrow> unit run" where
  "judge_order cfg pauses s snapshot st =
     (let cid = state_cid s in
      if is_terminal s then (st, Inr ())
      else case snapshot of
        None \<Rightarrow> resolve_not_found cfg pauses s st
      | Some snap \<Rightarrow>
          (let st0 = change_books (\<lambda>b. b\<lparr>bk_unknown_since := (bk_unknown_since b)(cid := None)\<rparr>) st
           in if snap_symbol snap \<noteq> req_symbol (st_request s) \<or> snap_side snap \<noteq> req_side (st_request s)
              then (add_break ORPHAN_ORDER cid st0, Inr ())
              else run_then (sync_terms cfg pauses snap) (\<lambda>_ st.
                if snap_filled_quantity snap = st_filled_quantity s then restate_order cfg pauses cid snap st
                else run_then (sync_fills cfg pauses s FILL_SYNC_ATTEMPTS snap) (\<lambda>latest st.
                  case latest of
                    None \<Rightarrow> (st, Inr ())
                  | Some fresh \<Rightarrow> restate_order cfg pauses cid fresh st) st) st0))"

definition reconcile_order :: "manager_config \<Rightarrow> (nat \<Rightarrow> pause) \<Rightarrow> order_state \<Rightarrow> nat \<Rightarrow> unit run" where
  "reconcile_order cfg pauses s n st =
     (let cid = state_cid s in
      if st_status s = PENDING_SUBMIT
      then run_then (pass_record cfg pauses cid RECONCILE
                      (Rejected ''the send never started; never sent'' (Some ''NEVER_SENT'')) False None)
             (\<lambda>_ st'. (add_resolved cid st', Inr ())) st
      else run_then (venue_status cfg pauses cid) (\<lambda>snapshot st.
        if map_option snd (held_state cid st) = Some n then judge_order cfg pauses s snapshot st
        else run_then (read_state cid) (\<lambda>(s', n') st.
          run_then (venue_status cfg pauses cid) (\<lambda>snapshot st.
            if map_option snd (held_state cid st) = Some n' then judge_order cfg pauses s' snapshot st
            else (incomplete st, Inr ())) st) st) st)"

section \<open>The pass\<close>

fun reconcile_orders :: "manager_config \<Rightarrow> (nat \<Rightarrow> pause) \<Rightarrow> (order_state \<times> nat) list \<Rightarrow> pass \<Rightarrow> pass" where
  "reconcile_orders cfg pauses [] st = st"
| "reconcile_orders cfg pauses ((s, n) # rest) st =
     (if state_cid s \<in> om_submitting (ps_mgr st) then reconcile_orders cfg pauses rest st
      else (case reconcile_order cfg pauses s n
                   (change_report (\<lambda>r. r\<lparr>rep_orders_checked := rep_orders_checked r + 1\<rparr>) st) of
              (st', Inr _) \<Rightarrow> reconcile_orders cfg pauses rest st'
            | (st', Inl _) \<Rightarrow> reconcile_orders cfg pauses rest (query_failed (state_cid s) st')))"

definition current_snapshot ::
    "manager_config \<Rightarrow> (nat \<Rightarrow> pause) \<Rightarrow> venue_order_snapshot \<Rightarrow> pass \<Rightarrow> pass \<times> venue_order_snapshot option" where
  "current_snapshot cfg pauses snap st =
     (case venue_status cfg pauses (snap_cid snap) st of
        (st', Inr answer) \<Rightarrow> (st', answer)
      | (st', Inl _) \<Rightarrow> (query_failed (snap_cid snap) st', None))"

fun find_orphans_in :: "manager_config \<Rightarrow> (nat \<Rightarrow> pause) \<Rightarrow> venue_order_snapshot list \<Rightarrow> pass \<Rightarrow> pass" where
  "find_orphans_in cfg pauses [] st = st"
| "find_orphans_in cfg pauses (snap # rest) st =
     find_orphans_in cfg pauses rest
       (case bk_orders (ps_books st) (snap_cid snap) of
          None \<Rightarrow> add_break ORPHAN_ORDER (snap_cid snap) st
        | Some s \<Rightarrow>
            if \<not> is_terminal s then st
            else (case current_snapshot cfg pauses snap st of
                    (st', current) \<Rightarrow>
                      if (case current of None \<Rightarrow> True | Some c \<Rightarrow> is_terminal_status (snap_status c)) then st'
                      else add_break ORPHAN_ORDER (snap_cid snap) st'))"

definition find_orphans :: "manager_config \<Rightarrow> (nat \<Rightarrow> pause) \<Rightarrow> pass \<Rightarrow> pass" where
  "find_orphans cfg pauses st =
     (let z = pause_of pauses st; st1 = await pauses st
      in case pz_open z of
           None \<Rightarrow> query_failed ''open_orders'' st1
         | Some snaps \<Rightarrow> find_orphans_in cfg pauses snaps st1)"

definition change_suspects :: "((symbol \<rightharpoonup> rat) \<Rightarrow> (symbol \<rightharpoonup> rat)) \<Rightarrow> pass \<Rightarrow> pass" where
  "change_suspects f st = st\<lparr>ps_mgr := (ps_mgr st)\<lparr>om_suspect := f (om_suspect (ps_mgr st))\<rparr>\<rparr>"

definition our_position :: "pass \<Rightarrow> symbol \<Rightarrow> rat" where
  "our_position st y = (case net_position (ps_books st) y of None \<Rightarrow> 0 | Some q \<Rightarrow> q)"

definition positions_unverified :: "pass \<Rightarrow> pass" where
  "positions_unverified = change_report (\<lambda>r. r\<lparr>rep_positions_verified := False\<rparr>)"

text \<open>One turn of the loop of \<open>_check_positions\<close>; \<open>now\<close> was read before the loop.\<close>

definition compare_position ::
    "manager_config \<Rightarrow> (nat \<Rightarrow> pause) \<Rightarrow> rat \<Rightarrow> (symbol \<times> rat) list \<Rightarrow> symbol \<Rightarrow> unit run" where
  "compare_position cfg pauses now net y st =
     (if our_position st y = quantity_of net y then (change_suspects (\<lambda>m. m(y := None)) st, Inr ())
      else run_then (recover_missing_fills cfg pauses y) (\<lambda>_ st.
        let ours = our_position st y; z = pause_of pauses st; st1 = await pauses st
        in case pz_positions z of
             None \<Rightarrow> (query_failed (symbol_str y) (positions_unverified st1), Inr ())
           | Some fresh \<Rightarrow>
               if ours = quantity_of (net_quantities fresh) y
               then (change_suspects (\<lambda>m. m(y := None)) st1, Inr ())
               else
                 (let first_seen = (case om_suspect (ps_mgr st1) y of Some t \<Rightarrow> t | None \<Rightarrow> now);
                      st2 = change_suspects (\<lambda>m. m(y \<mapsto> first_seen)) st1
                  in if now - first_seen < mc_unknown_grace cfg then (incomplete st2, Inr ())
                     else (add_break POSITION_MISMATCH (symbol_str y) st2, Inr ()))) st)"

fun check_positions_of ::
    "manager_config \<Rightarrow> (nat \<Rightarrow> pause) \<Rightarrow> rat \<Rightarrow> (symbol \<times> rat) list \<Rightarrow> symbol list \<Rightarrow> unit run" where
  "check_positions_of cfg pauses now net [] st = (st, Inr ())"
| "check_positions_of cfg pauses now net (y # ys) st =
     run_then (compare_position cfg pauses now net y) (\<lambda>_. check_positions_of cfg pauses now net ys) st"

definition check_positions :: "manager_config \<Rightarrow> (nat \<Rightarrow> pause) \<Rightarrow> unit run" where
  "check_positions cfg pauses st =
     (if bk_baseline (ps_books st) = None \<or> \<not> mc_has_account cfg then (positions_unverified st, Inr ())
      else
        (let z = pause_of pauses st; st1 = await pauses st
         in case pz_positions z of
              None \<Rightarrow> (query_failed ''positions'' (positions_unverified st1), Inr ())
            | Some positions \<Rightarrow>
                (let net = net_quantities positions
                 in check_positions_of cfg pauses (pz_mono z) net
                      (sort_key symbol_str (remdups (map fst net @ tracked_symbols (ps_books st1)))) st1)))"

definition report_break_now :: "manager_config \<Rightarrow> (nat \<Rightarrow> pause) \<Rightarrow> recon_break \<Rightarrow> pass \<Rightarrow> pass \<times> bool" where
  "report_break_now cfg pauses item st =
     (if rb_kind item = ORPHAN_FILL \<and> rb_subject item \<in> bk_orphans (ps_books st) then (st, True)
      else
        (let halts = is_critical item \<and> mc_halt_on_break cfg;
             st0 = (if halts
                    then st\<lparr>ps_mgr := halt_manager (ps_mgr st)
                             (''reconciliation break: '' @ rb_subject item)\<rparr>
                    else st)
         in case pass_append pauses (EReconBreak (rb_kind item) (rb_subject item)) st0 of
              (st1, recorded) \<Rightarrow>
                (if recorded \<and> rb_kind item = ORPHAN_FILL
                 then change_books (\<lambda>b. b\<lparr>bk_orphans := insert (rb_subject item) (bk_orphans b)\<rparr>) st1
                 else st1, recorded)))"

fun report_breaks :: "manager_config \<Rightarrow> (nat \<Rightarrow> pause) \<Rightarrow> recon_break list \<Rightarrow> pass \<Rightarrow> pass \<times> bool list" where
  "report_breaks cfg pauses [] st = (st, [])"
| "report_breaks cfg pauses (item # rest) st =
     (case report_break_now cfg pauses item st of
        (st1, recorded) \<Rightarrow>
          (case report_breaks cfg pauses rest st1 of (st2, others) \<Rightarrow> (st2, recorded # others)))"

definition save_sweep :: "manager_config \<Rightarrow> (nat \<Rightarrow> pause) \<Rightarrow> int \<Rightarrow> pass \<Rightarrow> pass" where
  "save_sweep cfg pauses t st =
     (if (case bk_durable_sweep (ps_books st) of
            None \<Rightarrow> False | Some saved \<Rightarrow> t - saved < round_half_even (of_int (mc_fill_lookback cfg) / 4)) then st
      else (case pass_append pauses (ESweepMark t) st of
              (st1, written) \<Rightarrow>
                if written then change_books (\<lambda>b. b\<lparr>bk_durable_sweep := Some t\<rparr>) st1 else st1))"

definition blank_report :: "int \<Rightarrow> recon_report" where
  "blank_report t =
     \<lparr>rep_at = t, rep_orders_checked = 0, rep_resolved = [], rep_breaks = [], rep_complete = True,
      rep_positions_verified = True\<rparr>"

definition set_blind :: "bool \<Rightarrow> pass \<Rightarrow> pass" where
  "set_blind x st = st\<lparr>ps_mgr := (ps_mgr st)\<lparr>om_blind := x\<rparr>\<rparr>"

text \<open>The end of \<open>reconcile\<close>, once everything has been compared.\<close>

definition conclude :: "manager_config \<Rightarrow> (nat \<Rightarrow> pause) \<Rightarrow> bool \<Rightarrow> pass \<Rightarrow> pass" where
  "conclude cfg pauses swept st =
     (let breaks = rep_breaks (ps_report st);
          st0 = set_blind (list_ex (\<lambda>b. rb_kind b = QUERY_FAILED) breaks) st
      in case report_breaks cfg pauses breaks st0 of
           (st1, recorded) \<Rightarrow>
             if swept \<and> list_all id recorded \<and> bk_unjournalled (ps_books st1) = []
             then save_sweep cfg pauses (rep_at (ps_report st1))
                    (change_books (\<lambda>b. b\<lparr>bk_last_sweep := Some (rep_at (ps_report st1))\<rparr>) st1)
             else st1)"

definition merge_adjustments_now :: "(nat \<Rightarrow> pause) \<Rightarrow> pass \<Rightarrow> pass" where
  "merge_adjustments_now pauses st =
     (let z = pause_of pauses st; st1 = await pauses st
      in change_books (\<lambda>b. merge_adjustments b (ej_entries (wd_journal (ps_world st1))) (pz_intact z)) st1)"

definition reconcile :: "manager_config \<Rightarrow> (nat \<Rightarrow> pause) \<Rightarrow> recon_report run" where
  "reconcile cfg pauses st =
     (let st0 = merge_adjustments_now pauses
                  (st\<lparr>ps_report := blank_report (pz_now (pause_of pauses st))\<rparr>);
          b = ps_books st0;
          st1 = reconcile_orders cfg pauses (map (\<lambda>s. (s, bk_stamp b (state_cid s))) (open_orders b None)) st0
      in run_then (sweep_fills cfg pauses) (\<lambda>swept.
           run_then (check_positions cfg pauses) (\<lambda>_ st2.
             let st3 = conclude cfg pauses swept st2 in (st3, Inr (ps_report st3))))
           (find_orphans cfg pauses st1))"

text \<open>\<open>_reconcile_quietly\<close>: an exception that gets through leaves the manager blind.\<close>

definition reconcile_quietly :: "manager_config \<Rightarrow> (nat \<Rightarrow> pause) \<Rightarrow> pass \<Rightarrow> pass" where
  "reconcile_quietly cfg pauses st =
     (case reconcile cfg pauses st of (st', Inr _) \<Rightarrow> st' | (st', Inl _) \<Rightarrow> set_blind True st')"

section \<open>Events of the venue\<close>

definition on_venue_event :: "manager_config \<Rightarrow> (nat \<Rightarrow> pause) \<Rightarrow> order_event \<Rightarrow> unit run" where
  "on_venue_event cfg pauses e st =
     (case bk_orders (ps_books st) (ev_cid e) of
        None \<Rightarrow>
          (case pass_append pauses EAnomaly st of
             (st1, _) \<Rightarrow>
               (let item = (case ev_body e of
                              Filled f \<Rightarrow> \<lparr>rb_kind = ORPHAN_FILL, rb_subject = orphan_fill_subject f\<rparr>
                            | _ \<Rightarrow> \<lparr>rb_kind = ORPHAN_ORDER, rb_subject = ev_cid e\<rparr>)
                in case report_break_now cfg pauses item st1 of
                     (st2, recorded) \<Rightarrow>
                       (if recorded then st2 else change_books (\<lambda>b. b\<lparr>bk_failed := True\<rparr>) st2, Inr ())))
      | Some s \<Rightarrow>
          (case ev_body e of
             FillBusted fid why \<Rightarrow>
               if fid \<in> st_busted s then (st, Inr ())
               else run_then (pass_record cfg pauses (ev_cid e) (ev_origin e) (ev_body e) False None)
                      (\<lambda>_ st'. (st', Inr ())) st
           | Filled f \<Rightarrow>
               run_then (pass_record cfg pauses (ev_cid e) (ev_origin e) (ev_body e) False None)
                 (\<lambda>_ st'. (st', Inr ())) (if fill_disputes s f then note_correction f st else st)
           | _ \<Rightarrow>
               run_then (pass_record cfg pauses (ev_cid e) (ev_origin e) (ev_body e) False None)
                 (\<lambda>_ st'. (st', Inr ())) st))"

section \<open>Changes by an operator\<close>

definition blank_text :: "string \<Rightarrow> bool" where
  "blank_text s \<longleftrightarrow> strip s = []"

definition resolve_unknown ::
    "manager_config \<Rightarrow> (nat \<Rightarrow> pause) \<Rightarrow> string \<Rightarrow> string \<Rightarrow> string \<Rightarrow> order_state run" where
  "resolve_unknown cfg pauses cid operator reason st =
     (if \<not> om_started (ps_mgr st) then (st, Inl ConfigError)
      else if blank_text operator \<or> blank_text reason then (st, Inl ValidationError)
      else
        (let z = pause_of pauses st; st1 = await pauses st;
             resolution = ''resolved by '' @ operator @ '': '' @ reason
         in if \<not> pz_intact z then (st1, Inl JournalError)
            else case held_state cid st1 of
              None \<Rightarrow> (st1, Inl ValidationError)
            | Some (s, n) \<Rightarrow>
                if st_status s \<noteq> UNKNOWN then (st1, Inl OrderStateError)
                else if st_filled_quantity s = 0
                then run_then (pass_record cfg pauses cid OMS
                                (Rejected resolution (Some ''RESOLVED_BY_OPERATOR'')) True (Some n))
                       (\<lambda>r st2. (st2, if st_reject_code r \<noteq> Some ''RESOLVED_BY_OPERATOR''
                                      then Inl OrderStateError else Inr r)) st1
                else run_then (pass_record cfg pauses cid OMS (Restated CANCELED None None resolution) True (Some n))
                       (\<lambda>r st2. (st2, if st_status r \<noteq> CANCELED then Inl OrderStateError else Inr r)) st1))"

text \<open>\<open>to_decimal\<close> has already been applied to \<open>delta\<close> here; \<open>None\<close> is a value it refuses.\<close>

definition adjust_position ::
    "(nat \<Rightarrow> pause) \<Rightarrow> symbol \<Rightarrow> rat option \<Rightarrow> string \<Rightarrow> string \<Rightarrow> unit run" where
  "adjust_position pauses y delta operator reason st =
     (if blank_text operator \<or> blank_text reason then (st, Inl ValidationError)
      else if bk_baseline (ps_books st) = None then (st, Inl ConfigError)
      else case delta of
        None \<Rightarrow> (st, Inl ValidationError)
      | Some d \<Rightarrow>
          (case pass_append pauses
                  (EAdjusted [(''operator'', JStr operator), (''reason'', JStr reason)] y d) st of
             (st1, written) \<Rightarrow>
               if \<not> written then (st1, Inl JournalError) else (merge_adjustments_now pauses st1, Inr ())))"

definition update_risk_config :: "(nat \<Rightarrow> pause) \<Rightarrow> risk_config \<Rightarrow> string \<Rightarrow> unit run" where
  "update_risk_config pauses c operator st =
     (if blank_text operator then (st, Inl ValidationError)
      else case pass_append pauses (EConfigChange c) st of
        (st1, written) \<Rightarrow>
          if \<not> written then (st1, Inl JournalError)
          else (st1\<lparr>ps_mgr := (ps_mgr st1)\<lparr>om_engine := update_config (om_engine (ps_mgr st1)) c\<rparr>\<rparr>, Inr ()))"

definition establish_baseline :: "manager_config \<Rightarrow> (nat \<Rightarrow> pause) \<Rightarrow> unit run" where
  "establish_baseline cfg pauses st =
     (if bk_baseline (ps_books st) \<noteq> None then (st, Inr ())
      else
        (let z = pause_of pauses st;
             asked = (if mc_has_account cfg
                      then (await pauses st, case pz_positions z of None \<Rightarrow> Inl VenueException | Some ps \<Rightarrow> Inr (Some ps))
                      else (st, Inr (if mc_assume_flat cfg then Some [] else None)))
         in case asked of
              (st1, Inl err) \<Rightarrow> (st1, Inl err)
            | (st1, Inr None) \<Rightarrow> (st1, Inr ())
            | (st1, Inr (Some positions)) \<Rightarrow>
                (let net = net_quantities positions; z1 = pause_of pauses st1
                 in case pass_append pauses (EBaseline net) st1 of
                      (st2, written) \<Rightarrow>
                        if \<not> written then (st2, Inl JournalError)
                        else (change_books (\<lambda>b. b\<lparr>bk_baseline := Some net,
                                bk_sweep_floor := baseline_floor b (pz_now z1)\<rparr>) st2, Inr ()))))"

end
