(* ===== verification/ReconcileSafety.thy ===== *)
theory ReconcileSafety
  imports Reconcile
begin

text \<open>
  What a reconciliation pass guarantees whatever the venue answers and whatever the other tasks do
  between its awaits: fills are never dropped, the sweep window moves only past fills that are booked
  or on record, and a pass that found exposure it cannot verify leaves trading refused.
\<close>

named_theorems pass_rules \<open>every part of a pass only moves on\<close>

section \<open>Fills an order has, or had\<close>

definition settled_ids :: "order_state \<Rightarrow> string set" where
  "settled_ids s = fl_id ` set (st_fills s) \<union> st_busted s"

lemma known_fill_ids:
  assumes "find_by fl_id (fl_id f) (st_fills s) = Some known"
  shows "fl_id ` set (st_fills (apply_known_fill s known f)) = fl_id ` set (st_fills s)"
proof -
  have "fl_id (merged_fill known f) = fl_id f" using find_by_SomeD [OF assms] by simp
  then have "map fl_id (replace_by fl_id (fl_id f) (merged_fill known f) (st_fills s)) = map fl_id (st_fills s)"
    by (rule map_replace_by)
  then have "fl_id ` set (replace_by fl_id (fl_id f) (merged_fill known f) (st_fills s)) = fl_id ` set (st_fills s)"
    by (metis list.set_map)
  then show ?thesis by (auto simp: apply_known_fill_def Let_def)
qed

lemma settled_apply_fill: "settled_ids (apply_fill s f) = insert (fl_id f) (settled_ids s)"
proof (cases "fl_id f \<in> st_busted s")
  case True
  then show ?thesis by (auto simp: apply_fill_def settled_ids_def)
next
  case False
  show ?thesis
  proof (cases "find_by fl_id (fl_id f) (st_fills s)")
    case None
    with False show ?thesis by (simp add: apply_fill_def settled_ids_def)
  next
    case (Some known)
    moreover have "fl_id f \<in> fl_id ` set (st_fills s)" using find_by_SomeD [OF Some] by (metis image_eqI)
    ultimately show ?thesis using False known_fill_ids [OF Some] by (auto simp: apply_fill_def settled_ids_def)
  qed
qed

lemma settled_apply_body: "settled_ids s \<subseteq> settled_ids (apply_body s b)"
proof (cases b)
  case (Filled f)
  then show ?thesis using settled_apply_fill [of s f] by (auto simp: apply_body_def)
next
  case (FillBusted fid why)
  then show ?thesis
    by (auto simp: apply_body_def apply_bust_def settled_ids_def Let_def split: option.splits)
qed (simp_all add: apply_body_def settled_ids_def)

lemma settled_apply_event:
  assumes "apply_event s e = Inr s'"
  shows "settled_ids s \<subseteq> settled_ids s'" and "ev_body e = Filled f \<Longrightarrow> fl_id f \<in> settled_ids s'"
proof -
  have s': "s' = settle (apply_body s (ev_body e))" using assms by (auto simp: apply_event_settle split: if_splits)
  then have k: "settled_ids s' = settled_ids (apply_body s (ev_body e))" by (simp add: settled_ids_def)
  show "settled_ids s \<subseteq> settled_ids s'" using k settled_apply_body by simp
  show "fl_id f \<in> settled_ids s'" if "ev_body e = Filled f"
    using k that settled_apply_fill [of s f] by (simp add: apply_body_def)
qed

section \<open>One record\<close>

definition orders_progress :: "orders \<Rightarrow> orders \<Rightarrow> bool" where
  "orders_progress m m' \<longleftrightarrow>
     (\<forall>c s. m c = Some s \<longrightarrow> (\<exists>s'. m' c = Some s' \<and> settled_ids s \<subseteq> settled_ids s'))"

lemma orders_progress_refl [simp]: "orders_progress m m"
  by (auto simp: orders_progress_def)

lemma orders_progress_trans: "orders_progress a b \<Longrightarrow> orders_progress b c \<Longrightarrow> orders_progress a c"
  unfolding orders_progress_def by (meson subset_trans)

lemma orders_progress_upd:
  "m c = Some s \<Longrightarrow> settled_ids s \<subseteq> settled_ids s' \<Longrightarrow> orders_progress m (m(c \<mapsto> s'))"
  by (auto simp: orders_progress_def)

lemma store_order_sweeps [simp]:
  "bk_orphans (store_order a now mt b s) = bk_orphans b"
  "bk_last_sweep (store_order a now mt b s) = bk_last_sweep b"
  "bk_sweep_floor (store_order a now mt b s) = bk_sweep_floor b"
  "bk_durable_sweep (store_order a now mt b s) = bk_durable_sweep b"
  by (simp_all add: store_order_def store_index_def set_mark_def Let_def split: option.splits)

lemma apply_in_memory_event:
  assumes "apply_in_memory a now mt b e = (b', r)" and "\<not> is_intent e"
  shows "bk_orphans b' = bk_orphans b \<and> bk_last_sweep b' = bk_last_sweep b \<and> bk_sweep_floor b' = bk_sweep_floor b \<and>
    orders_progress (bk_orders b) (bk_orders b') \<and>
    (\<forall>x. r = Inr x \<longrightarrow> (\<exists>prior s. bk_orders b (ev_cid e) = Some prior \<and> apply_event prior e = Inr s \<and>
       fst x = s \<and> bk_orders b' = (bk_orders b)(ev_cid e \<mapsto> s)))"
proof (cases "next_state b e")
  case (Inl err)
  with assms show ?thesis by (auto simp: apply_in_memory_def)
next
  case (Inr s)
  obtain prior where p: "bk_orders b (ev_cid e) = Some prior" "apply_event prior e = Inr s"
    using Inr assms(2) by (auto simp: next_state_def is_intent_def split: event_body.splits option.splits)
  have cid: "state_cid s = ev_cid e"
    using p(2) apply_event_cid [OF p(2)] by (auto simp: apply_event_settle split: if_splits)
  let ?b1 = "restamp b e"
  let ?b2 = "case ev_body e of SubmitIntent r \<Rightarrow> ?b1\<lparr>bk_created := (bk_created ?b1)(ev_cid e \<mapsto> ev_ts e)\<rparr> | _ \<Rightarrow> ?b1"
  have same: "bk_orders ?b2 = bk_orders b" "bk_orphans ?b2 = bk_orphans b" "bk_last_sweep ?b2 = bk_last_sweep b"
    "bk_sweep_floor ?b2 = bk_sweep_floor b"
    by (simp_all add: restamp_def split: event_body.splits option.splits)
  have b': "b' = note_unknown (store_order a now mt ?b2 s) (ev_cid e) s mt" and r: "r = Inr (s, new_anomalies b e s)"
    using assms(1) Inr by (auto simp: apply_in_memory_def Let_def)
  have n: "bk_orders (note_unknown x c s t) = bk_orders x" "bk_orphans (note_unknown x c s t) = bk_orphans x"
    "bk_last_sweep (note_unknown x c s t) = bk_last_sweep x" "bk_sweep_floor (note_unknown x c s t) = bk_sweep_floor x"
    for x c t by (simp_all add: note_unknown_def split: option.splits)
  have o: "bk_orders b' = (bk_orders b)(ev_cid e \<mapsto> s)" by (simp add: b' n same cid)
  show ?thesis
    using p r o orders_progress_upd [where m = "bk_orders b", OF p(1) settled_apply_event(1) [OF p(2)]] by (simp add: b' n same)
qed

lemma record_now_event:
  assumes r: "record_now wr a now mt j b e durable only_if = (j', b', res)" and i: "\<not> is_intent e"
  shows "bk_orphans b' = bk_orphans b \<and> bk_last_sweep b' = bk_last_sweep b \<and> bk_sweep_floor b' = bk_sweep_floor b \<and>
    orders_progress (bk_orders b) (bk_orders b') \<and>
    (only_if = None \<longrightarrow> (\<forall>x. res = Inr x \<longrightarrow> (\<exists>prior s. bk_orders b (ev_cid e) = Some prior \<and>
       apply_event prior e = Inr s \<and> fst x = s \<and> bk_orders b' = (bk_orders b)(ev_cid e \<mapsto> s))))"
proof -
  obtain j1 left err where w: "write_all wr j (bk_unjournalled b) e = (j1, left, err)"
    using prod_cases3 by blast
  let ?b0 = "b\<lparr>bk_unjournalled := left\<rparr>" and ?c = "b\<lparr>bk_unjournalled := left @ [e], bk_failed := True\<rparr>"
  obtain b2 r2 where a2: "apply_in_memory a now mt ?b0 e = (b2, r2)" by fastforce
  obtain b3 r3 where a3: "apply_in_memory a now mt ?c e = (b3, r3)" by fastforce
  note e2 = apply_in_memory_event [OF a2 i] and e3 = apply_in_memory_event [OF a3 i]
  show ?thesis
    using r w a2 a3 e2 e3
    by (cases err) (auto simp: record_now_def split: if_splits option.splits)
qed

section \<open>What the other tasks may do\<close>

text \<open>
  Between two awaits of a pass the other tasks may record events, report orphans and engage the kill
  switch; only the pass itself judges whether exposure is verified and moves the sweep window, since
  passes run one at a time. \<open>h\<close> says that breaks halt: an orphan is then on record only once the switch
  is engaged. The assumption left is that no operator releases the switch during the pass.
\<close>

definition moves_on :: "bool \<Rightarrow> world \<times> manager \<Rightarrow> world \<times> manager \<Rightarrow> bool" where
  "moves_on h x y \<longleftrightarrow>
     orders_progress (bk_orders (om_books (snd x))) (bk_orders (om_books (snd y))) \<and>
     bk_orphans (om_books (snd x)) \<subseteq> bk_orphans (om_books (snd y)) \<and>
     (h \<longrightarrow> bk_orphans (om_books (snd y)) \<subseteq> bk_orphans (om_books (snd x)) \<or> kill_engaged (om_kill (snd y))) \<and>
     (kill_engaged (om_kill (snd x)) \<longrightarrow> kill_engaged (om_kill (snd y))) \<and>
     bk_last_sweep (om_books (snd y)) = bk_last_sweep (om_books (snd x)) \<and>
     bk_sweep_floor (om_books (snd y)) = bk_sweep_floor (om_books (snd x)) \<and>
     om_blind (snd y) = om_blind (snd x) \<and>
     (\<exists>xs. ej_entries (wd_journal (fst y)) = ej_entries (wd_journal (fst x)) @ xs)"

lemma moves_on_refl [simp]: "moves_on h x x"
  by (simp add: moves_on_def)

lemma moves_onD:
  assumes "moves_on h x y"
  shows "orders_progress (bk_orders (om_books (snd x))) (bk_orders (om_books (snd y)))"
    and "bk_orphans (om_books (snd x)) \<subseteq> bk_orphans (om_books (snd y))"
    and "h \<Longrightarrow> bk_orphans (om_books (snd y)) \<subseteq> bk_orphans (om_books (snd x)) \<or> kill_engaged (om_kill (snd y))"
    and "kill_engaged (om_kill (snd x)) \<Longrightarrow> kill_engaged (om_kill (snd y))"
    and "bk_last_sweep (om_books (snd y)) = bk_last_sweep (om_books (snd x))"
    and "bk_sweep_floor (om_books (snd y)) = bk_sweep_floor (om_books (snd x))"
    and "om_blind (snd y) = om_blind (snd x)"
    and "\<exists>xs. ej_entries (wd_journal (fst y)) = ej_entries (wd_journal (fst x)) @ xs"
  using assms unfolding moves_on_def by blast+

lemma moves_on_trans:
  assumes "moves_on h x y" and "moves_on h y z"
  shows "moves_on h x z"
proof -
  note p = moves_onD [OF assms(1)] and q = moves_onD [OF assms(2)]
  have "h \<Longrightarrow> bk_orphans (om_books (snd z)) \<subseteq> bk_orphans (om_books (snd x)) \<or> kill_engaged (om_kill (snd z))"
    using p(3) q(3) q(4) by blast
  moreover have "\<exists>xs. ej_entries (wd_journal (fst z)) = ej_entries (wd_journal (fst x)) @ xs"
    using p(8) q(8) by (metis append.assoc)
  moreover have "bk_orphans (om_books (snd x)) \<subseteq> bk_orphans (om_books (snd z))" using p(2) q(2) by (rule subset_trans)
  ultimately show ?thesis
    unfolding moves_on_def using orders_progress_trans [OF p(1) q(1)] p(4-7) q(4-7) by simp
qed

definition steady :: "bool \<Rightarrow> (nat \<Rightarrow> pause) \<Rightarrow> bool" where
  "steady h pauses \<longleftrightarrow>
     (\<forall>n x. moves_on h x (pz_meanwhile (pauses n) x) \<and> moves_on h x (pz_afterwards (pauses n) x))"

definition orphans_fine :: "bool \<Rightarrow> pass \<Rightarrow> bool" where
  "orphans_fine h st \<longleftrightarrow>
     (h \<longrightarrow> (\<forall>b \<in> set (rep_breaks (ps_report st)).
        rb_kind b = ORPHAN_FILL \<and> rb_subject b \<in> bk_orphans (ps_books st) \<longrightarrow> kill_engaged (om_kill (ps_mgr st))))"

definition advances :: "bool \<Rightarrow> pass \<Rightarrow> pass \<Rightarrow> bool" where
  "advances h st st' \<longleftrightarrow>
     moves_on h (ps_world st, ps_mgr st) (ps_world st', ps_mgr st') \<and>
     (\<exists>xs. rep_breaks (ps_report st') = rep_breaks (ps_report st) @ xs) \<and>
     rep_at (ps_report st') = rep_at (ps_report st) \<and> (orphans_fine h st \<longrightarrow> orphans_fine h st')"

lemma advances_refl [simp]: "advances h st st"
  by (simp add: advances_def)

lemma advancesD:
  assumes "advances h st st'"
  shows "moves_on h (ps_world st, ps_mgr st) (ps_world st', ps_mgr st')"
    and "\<exists>xs. rep_breaks (ps_report st') = rep_breaks (ps_report st) @ xs"
    and "rep_at (ps_report st') = rep_at (ps_report st)" and "orphans_fine h st \<Longrightarrow> orphans_fine h st'"
  using assms unfolding advances_def by blast+

lemma advances_trans:
  assumes "advances h a b" and "advances h b c"
  shows "advances h a c"
proof -
  note p = advancesD [OF assms(1)] and q = advancesD [OF assms(2)]
  have "\<exists>xs. rep_breaks (ps_report c) = rep_breaks (ps_report a) @ xs" using p(2) q(2) by (metis append.assoc)
  then show ?thesis unfolding advances_def using moves_on_trans [OF p(1) q(1)] p(3,4) q(3,4) by simp
qed

lemma advancesI:
  assumes "moves_on h (ps_world st, ps_mgr st) (ps_world st', ps_mgr st')" and "ps_report st' = ps_report st"
  shows "advances h st st'"
proof -
  have "orphans_fine h st'" if "orphans_fine h st"
    unfolding orphans_fine_def
  proof (intro impI ballI, elim conjE)
    fix b assume h: h and b: "b \<in> set (rep_breaks (ps_report st'))" "rb_kind b = ORPHAN_FILL" "rb_subject b \<in> bk_orphans (ps_books st')"
    show "kill_engaged (om_kill (ps_mgr st'))"
      using moves_onD(3) [OF assms(1) h] moves_onD(4) [OF assms(1)] that h b assms(2)
      by (auto simp: orphans_fine_def)
  qed
  then show ?thesis using assms by (simp add: advances_def)
qed

lemma advances_next [simp]: "advances h st (st'\<lparr>ps_next := k\<rparr>) = advances h st st'"
  by (simp add: advances_def orphans_fine_def)

section \<open>The parts of a pass\<close>

lemma advances_change_report:
  "rep_breaks (f (ps_report st)) = rep_breaks (ps_report st) \<Longrightarrow> rep_at (f (ps_report st)) = rep_at (ps_report st) \<Longrightarrow>
   advances h st (change_report f st)"
  by (simp add: advances_def change_report_def orphans_fine_def)

lemma advances_add_break:
  "k \<noteq> ORPHAN_FILL \<or> subject \<notin> bk_orphans (ps_books st) \<Longrightarrow> advances h st (add_break k subject st)"
  by (auto simp: advances_def add_break_def change_report_def orphans_fine_def)

lemma advances_small [pass_rules, simp]:
  "advances h st (add_resolved cid st)" "advances h st (incomplete st)"
  "advances h st (positions_unverified st)" "advances h st (query_failed subject st)"
  "advances h st (change_suspects g st)"
proof -
  show "advances h st (add_resolved cid st)" "advances h st (incomplete st)" "advances h st (positions_unverified st)"
    by (simp_all add: add_resolved_def incomplete_def positions_unverified_def advances_change_report)
  show "advances h st (query_failed subject st)"
    unfolding query_failed_def
    by (rule advances_trans [OF _ advances_add_break]) (simp_all add: incomplete_def advances_change_report)
  show "advances h st (change_suspects g st)"
    by (rule advancesI) (simp_all add: change_suspects_def moves_on_def)
qed

lemma advances_change_books:
  assumes "bk_orders (f (ps_books st)) = bk_orders (ps_books st)" "bk_orphans (f (ps_books st)) = bk_orphans (ps_books st)"
    "bk_last_sweep (f (ps_books st)) = bk_last_sweep (ps_books st)" "bk_sweep_floor (f (ps_books st)) = bk_sweep_floor (ps_books st)"
  shows "advances h st (change_books f st)"
  by (rule advancesI) (simp_all add: change_books_def moves_on_def assms)

lemma advances_others:
  assumes "\<And>x. moves_on h x (f x)"
  shows "advances h st (others_run f st)"
  using assms [of "(ps_world st, ps_mgr st)"]
  by (intro advancesI) (auto simp: others_run_def split: prod.splits)

lemma steadyD:
  "steady h pauses \<Longrightarrow> moves_on h x (pz_meanwhile (pause_of pauses st) x)"
  "steady h pauses \<Longrightarrow> moves_on h x (pz_afterwards (pause_of pauses st) x)"
  unfolding steady_def pause_of_def by blast+

lemma advances_await [pass_rules]: "steady h pauses \<Longrightarrow> advances h st (await pauses st)"
  by (simp add: await_def advances_others steadyD)

lemma halt_engages: "kill_engaged (om_kill (halt_manager m why))"
  by (auto simp: halt_manager_def engage_begin_def set_kill_def engaged_state_def kill_engaged_def Let_def
      split: prod.splits if_splits)

lemma raise_anomalies_engaged:
  "kill_engaged (om_kill m) \<Longrightarrow> kill_engaged (om_kill (foldl (raise_anomaly cfg cid) m as))"
  by (induction as arbitrary: m) (simp_all add: raise_anomaly_def halt_engages)

lemma raise_anomalies_blind: "om_blind (foldl (raise_anomaly cfg cid) m as) = om_blind m"
proof (induction as arbitrary: m)
  case (Cons a as)
  have "om_blind (raise_anomaly cfg cid m a) = om_blind m"
    by (simp add: raise_anomaly_def halt_manager_def Let_def split: prod.splits)
  with Cons show ?case by simp
qed simp

lemma write_entry_prefix: "write_entry disk now j e = (j', r) \<Longrightarrow> \<exists>xs. ej_entries j' = ej_entries j @ xs"
  by (auto simp: write_entry_def Let_def split: if_splits)

lemma write_unjournalled_prefix:
  "write_unjournalled (write_entry disk now) j es = (j', left, r) \<Longrightarrow> \<exists>xs. ej_entries j' = ej_entries j @ xs"
proof (induction es arbitrary: j)
  case (Cons e es)
  obtain j1 r1 where w: "write_entry disk now j e = (j1, r1)" by fastforce
  obtain xs where xs: "ej_entries j1 = ej_entries j @ xs" using write_entry_prefix [OF w] by blast
  show ?case
  proof (cases r1)
    case (Inl x)
    with Cons.prems w xs show ?thesis by simp
  next
    case (Inr u)
    then have "write_unjournalled (write_entry disk now) j1 es = (j', left, r)" using Cons.prems w by simp
    from Cons.IH [OF this] xs show ?thesis by (metis append.assoc)
  qed
qed simp

lemma record_now_prefix:
  assumes "record_now (write_entry disk now) a t mt j b e durable only_if = (j', b', res)"
  shows "\<exists>xs. ej_entries j' = ej_entries j @ xs"
proof -
  obtain j1 l1 r1 where u: "write_unjournalled (write_entry disk now) j (bk_unjournalled b) = (j1, l1, r1)"
    using prod_cases3 by blast
  obtain j2 r2 where w: "write_entry disk now j1 e = (j2, r2)" by fastforce
  obtain left err where wa: "write_all (write_entry disk now) j (bk_unjournalled b) e = (if r1 = None then j2 else j1, left, err)"
    using u w by (cases r1; cases r2) (auto simp: write_all_def)
  obtain xs ys where xs: "ej_entries j1 = ej_entries j @ xs" "ej_entries j2 = ej_entries j1 @ ys"
    using write_unjournalled_prefix [OF u] write_entry_prefix [OF w] by blast
  then have "\<exists>zs. ej_entries (if r1 = None then j2 else j1) = ej_entries j @ zs" by simp
  moreover have "j' = j \<or> j' = (if r1 = None then j2 else j1)"
    using assms wa by (auto simp: record_now_def split: if_splits option.splits prod.splits)
  ultimately show ?thesis by auto
qed

lemma record_event_moves:
  assumes r: "record_event cfg disk now mt j m e durable only_if = (j', m', res)" and i: "\<not> is_intent e"
  shows "moves_on h (w\<lparr>wd_journal := j\<rparr>, m) (w\<lparr>wd_journal := j'\<rparr>, m')"
    and "only_if = None \<Longrightarrow> res = Inr s \<Longrightarrow> \<exists>prior. bk_orders (om_books m) (ev_cid e) = Some prior \<and>
      apply_event prior e = Inr s \<and> bk_orders (om_books m') (ev_cid e) = Some s"
proof -
  obtain j1 b1 r1 where n: "record_now (write_entry disk now) (max_age_of m) now mt j (om_books m) e durable only_if = (j1, b1, r1)"
    using prod_cases3 by blast
  note n1 = record_now_event [OF n i] and n2 = record_now_prefix [OF n]
  have j: "j' = j1" "om_books m' = b1" "res = map_sum id fst r1"
    using r n raise_anomalies_same by (auto simp: record_event_def split: sum.splits prod.splits)
  have k: "kill_engaged (om_kill m) \<Longrightarrow> kill_engaged (om_kill m')" "om_blind m' = om_blind m"
    using r n raise_anomalies_engaged [of "m\<lparr>om_books := b1\<rparr>"] raise_anomalies_blind [of cfg _ "m\<lparr>om_books := b1\<rparr>"]
    by (auto simp: record_event_def split: sum.splits prod.splits)
  show "moves_on h (w\<lparr>wd_journal := j\<rparr>, m) (w\<lparr>wd_journal := j'\<rparr>, m')"
    using n1 n2 k by (simp add: moves_on_def j)
  show "\<exists>prior. bk_orders (om_books m) (ev_cid e) = Some prior \<and> apply_event prior e = Inr s \<and>
      bk_orders (om_books m') (ev_cid e) = Some s" if "only_if = None" "res = Inr s"
    using n1 that by (cases r1) (auto simp: j)
qed

lemma advances_then [pass_rules]:
  assumes "advances h st0 st" and "\<And>st. advances h st (fst (r st))"
    and "\<And>x st'. advances h st0 st' \<Longrightarrow> advances h st0 (fst (f x st'))"
  shows "advances h st0 (fst (run_then r f st))"
proof -
  have "advances h st0 (fst (r st))" using advances_trans assms(1,2) by blast
  then show ?thesis using assms(3) by (auto simp: run_then_def split: prod.splits sum.splits)
qed

lemma advances_pass_record:
  assumes s: "steady h pauses" and b: "\<And>r. body \<noteq> SubmitIntent r"
  shows "advances h st (fst (pass_record cfg pauses cid origin body durable only_if st))"
proof -
  let ?z = "pause_of pauses st" and ?st1 = "await pauses st"
  let ?e = "local_event cid (pz_now ?z) origin body" and ?w = "ps_world ?st1"
  obtain j' m' res where r: "record_event cfg (pz_disk ?z) (pz_now ?z) (pz_mono ?z) (wd_journal ?w) (ps_mgr ?st1)
      ?e durable only_if = (j', m', res)"
    using prod_cases3 by blast
  let ?st2 = "?st1\<lparr>ps_world := ?w\<lparr>wd_journal := j'\<rparr>, ps_mgr := m'\<rparr>"
  have "moves_on h (?w\<lparr>wd_journal := wd_journal ?w\<rparr>, ps_mgr ?st1) (?w\<lparr>wd_journal := j'\<rparr>, m')"
    using b by (intro record_event_moves(1) [OF r]) simp
  then have "advances h ?st1 ?st2" by (intro advancesI) simp_all
  moreover have "advances h st ?st1" "advances h ?st2 (others_run (pz_afterwards ?z) ?st2)"
    using advances_await [OF s] advances_others [of h "pz_afterwards ?z"] steadyD(2) [OF s] by simp_all
  ultimately have "advances h st (others_run (pz_afterwards ?z) ?st2)" using advances_trans by blast
  then show ?thesis by (simp add: pass_record_def Let_def r)
qed

lemma advances_pass_append:
  assumes "steady h pauses"
  shows "advances h st (fst (pass_append pauses en st))"
proof -
  have "advances h (await pauses st) (fst (pass_append pauses en st))"
    by (rule advancesI) (simp_all add: pass_append_def Let_def moves_on_def append_entry_def)
  then show ?thesis using advances_trans [OF advances_await [OF assms]] by blast
qed

lemma advances_read [pass_rules]: "advances h st (fst (read_state cid st))"
  by (simp add: read_state_def)

lemma advances_venue_status [pass_rules]:
  assumes "steady h pauses"
  shows "advances h st (fst (venue_status cfg pauses cid st))"
proof -
  have a: "advances h st (await pauses st)" by (rule advances_await [OF assms])
  show ?thesis
    unfolding venue_status_def Let_def
    by (auto simp: a split: status_answer.split option.split
        intro!: advances_then advances_pass_record [OF assms])
qed

lemma advances_recovered_fill [pass_rules]:
  "steady h pauses \<Longrightarrow> advances h st (fst (record_recovered_fill cfg pauses f st))"
  by (simp add: record_recovered_fill_def advances_pass_record)

lemma advances_correction [simp]: "advances h st (note_correction f st)"
  unfolding note_correction_def by (rule advances_change_books) simp_all

lemma advances_book_fill [pass_rules]:
  assumes "steady h pauses"
  shows "advances h st (fst (book_fill cfg pauses f st))"
proof -
  have rec: "advances h st (fst (run_then (record_recovered_fill cfg pauses f) g st1))"
    if "advances h st st1" "\<And>x st'. advances h st' (fst (g x st'))" for g st1
    using that(2) advances_trans by (intro advances_then [OF that(1)] advances_recovered_fill [OF assms]) blast
  show ?thesis
    unfolding book_fill_def Let_def
    by (auto split: option.split intro!: rec advances_add_break)
qed

lemma advances_book_fills [pass_rules]:
  assumes "steady h pauses"
  shows "advances h st (fst (book_fills cfg pauses fs st))"
proof (induction fs arbitrary: st)
  case (Cons f fs)
  show ?case
    using Cons.IH advances_trans by (auto intro!: advances_then advances_book_fill [OF assms])
qed simp

lemma advances_return [pass_rules, simp]: "advances h st0 (fst (run_return x st)) = advances h st0 st"
  by (simp add: run_return_def)

lemma advances_recover_order_fills [pass_rules]:
  assumes "steady h pauses"
  shows "advances h st (fst (recover_order_fills cfg pauses s st))"
proof -
  have a: "advances h st (await pauses st)" by (rule advances_await [OF assms])
  show ?thesis
    unfolding recover_order_fills_def Let_def
    by (auto split: option.split intro!: advances_then advances_book_fills [OF assms] a intro: advances_trans [OF a])
qed

lemma advances_sweep_fills [pass_rules]:
  assumes "steady h pauses"
  shows "advances h st (fst (sweep_fills cfg pauses st))"
proof -
  have a: "advances h st (await pauses st)" by (rule advances_await [OF assms])
  show ?thesis
    unfolding sweep_fills_def Let_def
    by (auto split: option.split intro!: advances_then advances_book_fills [OF assms] a intro: advances_trans [OF a])
qed

lemma advances_recover_missing_fills [pass_rules]:
  assumes "steady h pauses"
  shows "advances h st (fst (recover_missing_fills cfg pauses y st))"
proof -
  have a: "advances h st (await pauses st)" by (rule advances_await [OF assms])
  have "advances h st (fst (book_fills cfg pauses fs (await pauses st)))" for fs
    using advances_trans [OF a advances_book_fills [OF assms]] .
  then show ?thesis
    unfolding recover_missing_fills_def Let_def
    by (auto split: option.split intro: advances_trans [OF a])
qed

text \<open>
  The functions from here on compose the ones above, so each proof walks the text: a rule for each
  binding, a case for each branch.
\<close>

lemma advances_more:
  "advances h st0 st \<Longrightarrow> advances h st0 (add_resolved cid st)" "advances h st0 st \<Longrightarrow> advances h st0 (incomplete st)"
  "advances h st0 st \<Longrightarrow> advances h st0 (query_failed subject st)"
  "advances h st0 st \<Longrightarrow> advances h st0 (positions_unverified st)"
  "advances h st0 st \<Longrightarrow> advances h st0 (change_suspects g st)"
  "k \<noteq> ORPHAN_FILL \<Longrightarrow> advances h st0 st \<Longrightarrow> advances h st0 (add_break k subject st)"
  by (erule advances_trans, simp add: advances_add_break)+

lemma advances_record [pass_rules]:
  "steady h pauses \<Longrightarrow> (\<And>r. body \<noteq> SubmitIntent r) \<Longrightarrow>
   advances h st (fst (pass_record cfg pauses cid origin body durable only_if st))"
  by (rule advances_pass_record)

lemma advances_sync_terms [pass_rules]:
  "steady h pauses \<Longrightarrow> advances h st (fst (sync_terms cfg pauses snap st))"
  unfolding sync_terms_def
  by (auto intro!: advances_then advances_read advances_record advances_more split: prod.split)

lemma advances_sync_fills [pass_rules]:
  assumes "steady h pauses"
  shows "advances h st (fst (sync_fills cfg pauses s k snap st))"
proof (induction k arbitrary: snap st)
  case 0
  show ?case by simp
next
  case (Suc k)
  note IH = Suc.IH [THEN advances_trans [rotated]]
  show ?case
    by (auto simp del: not_None_eq intro!: advances_then advances_read advances_recover_order_fills [OF assms]
        advances_venue_status [OF assms] advances_more IH split: prod.split option.split)
qed

lemma advances_close_not_found [pass_rules]:
  "steady h pauses \<Longrightarrow> advances h st (fst (close_not_found cfg pauses s n st))"
  unfolding close_not_found_def
  by (auto intro!: advances_then advances_record advances_more)

lemma advances_look_again [pass_rules]:
  assumes "steady h pauses"
  shows "advances h st (fst (look_again cfg pauses s st))"
proof -
  note close = advances_close_not_found [OF assms, THEN advances_trans [rotated]]
  show ?thesis
    unfolding look_again_def
    by (auto simp del: not_None_eq intro!: advances_then advances_read advances_recover_order_fills [OF assms]
        advances_venue_status [OF assms] advances_more close split: prod.split)
qed

lemma advances_resolve_not_found [pass_rules]:
  assumes "steady h pauses"
  shows "advances h st (fst (resolve_not_found cfg pauses s st))"
proof -
  have b: "advances h st (change_books (\<lambda>b. b\<lparr>bk_unknown_since := g b\<rparr>) st)" for g
    by (rule advances_change_books) simp_all
  note look = advances_look_again [OF assms, THEN advances_trans [rotated]]
  note aw = advances_await [OF assms, THEN advances_trans [rotated]]
  show ?thesis
    unfolding resolve_not_found_def Let_def
    by (auto intro!: advances_then advances_record [OF assms] advances_more look aw b)
qed

lemma advances_restate_order [pass_rules]:
  assumes "steady h pauses"
  shows "advances h st (fst (restate_order cfg pauses cid snap st))"
  unfolding restate_order_def Let_def
  by (auto intro!: advances_then advances_read advances_record [OF assms] advances_more split: prod.split)

lemma advances_judge_order [pass_rules]:
  assumes "steady h pauses"
  shows "advances h st (fst (judge_order cfg pauses s snapshot st))"
proof -
  have b: "advances h st (change_books (\<lambda>b. b\<lparr>bk_unknown_since := g b\<rparr>) st)" for g
    by (rule advances_change_books) simp_all
  note restate = advances_restate_order [OF assms, THEN advances_trans [rotated]]
  show ?thesis
    unfolding judge_order_def Let_def
    by (auto simp del: not_None_eq intro!: advances_then advances_sync_terms [OF assms] advances_sync_fills [OF assms]
        advances_resolve_not_found [OF assms] advances_more restate b split: option.split)
qed

lemma advances_reconcile_order [pass_rules]:
  assumes "steady h pauses"
  shows "advances h st (fst (reconcile_order cfg pauses s n st))"
proof -
  note judge = advances_judge_order [OF assms, THEN advances_trans [rotated]]
  show ?thesis
    unfolding reconcile_order_def Let_def
    by (auto intro!: advances_then advances_read advances_record [OF assms] advances_venue_status [OF assms]
        advances_more judge split: prod.split)
qed

lemma advances_reconcile_orders [pass_rules]:
  assumes "steady h pauses"
  shows "advances h st (reconcile_orders cfg pauses ss st)"
proof (induction ss arbitrary: st)
  case (Cons sn ss)
  obtain s n where sn: "sn = (s, n)" by fastforce
  let ?st1 = "change_report (\<lambda>r. r\<lparr>rep_orders_checked := rep_orders_checked r + 1\<rparr>) st"
  have "advances h st (fst (reconcile_order cfg pauses s n ?st1))"
    by (rule advances_trans [OF advances_change_report advances_reconcile_order [OF assms]]) simp_all
  then have "advances h st (reconcile_orders cfg pauses ss (fst (reconcile_order cfg pauses s n ?st1)))"
    "advances h st (reconcile_orders cfg pauses ss (query_failed (state_cid s) (fst (reconcile_order cfg pauses s n ?st1))))"
    using advances_trans [OF _ Cons.IH] advances_more(3) by blast+
  then show ?case using Cons.IH by (auto simp: sn split: prod.split sum.split)
qed simp

lemma advances_find_orphans_in [pass_rules]:
  assumes "steady h pauses"
  shows "advances h st (find_orphans_in cfg pauses snaps st)"
proof (induction snaps arbitrary: st)
  case (Cons snap snaps)
  have snap: "advances h st (fst (current_snapshot cfg pauses snap st))"
    using advances_venue_status [OF assms, of st cfg "snap_cid snap"] advances_more(3)
    by (auto simp: current_snapshot_def split: prod.split sum.split)
  note IH = Cons.IH [THEN advances_trans [rotated]]
  show ?case
    using snap by (auto intro!: IH advances_more split: option.split prod.split)
qed simp

lemma advances_find_orphans [pass_rules]:
  assumes "steady h pauses"
  shows "advances h st (find_orphans cfg pauses st)"
  using advances_await [OF assms, of st] advances_find_orphans_in [OF assms, THEN advances_trans [rotated]]
  by (auto simp: find_orphans_def Let_def intro!: advances_more split: option.split)

lemma advances_compare_position [pass_rules]:
  assumes "steady h pauses"
  shows "advances h st (fst (compare_position cfg pauses now net y st))"
proof -
  note aw = advances_await [OF assms, THEN advances_trans [rotated]]
  show ?thesis
    unfolding compare_position_def Let_def
    by (auto intro!: advances_then advances_recover_missing_fills [OF assms] advances_more aw split: option.split)
qed

lemma advances_check_positions [pass_rules]:
  assumes "steady h pauses"
  shows "advances h st (fst (check_positions cfg pauses st))"
proof -
  have all: "advances h st (fst (check_positions_of cfg pauses now net ys st))" for now net ys st
  proof (induction ys arbitrary: st)
    case (Cons y ys)
    show ?case
      using Cons.IH advances_trans by (auto intro!: advances_then advances_compare_position [OF assms])
  qed simp
  note all = all [THEN advances_trans [rotated]]
  show ?thesis
    unfolding check_positions_def Let_def
    by (auto intro!: all advances_more advances_await [OF assms] split: option.split)
qed

lemma advances_merge_adjustments:
  assumes "steady h pauses"
  shows "advances h st (merge_adjustments_now pauses st)"
proof -
  have k: "bk_orders (foldl adopt_adjustment b rs) = bk_orders b \<and> bk_orphans (foldl adopt_adjustment b rs) = bk_orphans b \<and>
      bk_last_sweep (foldl adopt_adjustment b rs) = bk_last_sweep b \<and>
      bk_sweep_floor (foldl adopt_adjustment b rs) = bk_sweep_floor b" for b rs
    by (induction rs arbitrary: b)
      (simp_all add: adopt_adjustment_def apply_adjustment_def split: entry.split option.split)
  then show ?thesis
    unfolding merge_adjustments_now_def Let_def
    by (intro advances_trans [OF advances_await [OF assms] advances_change_books])
      (simp_all add: merge_adjustments_def Let_def)
qed

section \<open>No fill is dropped\<close>

definition fill_accounted :: "pass \<Rightarrow> fill \<Rightarrow> bool" where
  "fill_accounted st f \<longleftrightarrow>
     (\<exists>s. bk_orders (ps_books st) (fl_cid f) = Some s \<and> fl_id f \<in> settled_ids s) \<or>
     orphan_fill_subject f \<in> bk_orphans (ps_books st) \<union> rb_subject ` set (rep_breaks (ps_report st))"

lemma fill_accounted_advances:
  assumes "advances h st st'" and "fill_accounted st f"
  shows "fill_accounted st' f"
proof -
  note a = advancesD [OF assms(1)]
  note m = moves_onD [OF a(1)]
  have "rb_subject ` set (rep_breaks (ps_report st)) \<subseteq> rb_subject ` set (rep_breaks (ps_report st'))"
    using a(2) by auto
  moreover have "\<exists>s'. bk_orders (ps_books st') (fl_cid f) = Some s' \<and> settled_ids s \<subseteq> settled_ids s'"
    if "bk_orders (ps_books st) (fl_cid f) = Some s" for s
    using m(1) that by (simp add: orders_progress_def)
  ultimately show ?thesis using assms(2) m(2) unfolding fill_accounted_def snd_conv
    by (elim disjE exE conjE) (blast, meson Un_iff Un_mono subset_iff)
qed

lemma recovered_fill_accounted:
  assumes s: "steady h pauses" and r: "record_recovered_fill cfg pauses f st = (st', Inr x)"
  shows "fill_accounted st' f"
proof -
  let ?z = "pause_of pauses st" and ?st1 = "await pauses st"
  let ?e = "local_event (fl_cid f) (pz_now ?z) RECONCILE (Filled f)" and ?w = "ps_world ?st1"
  obtain j' m' res where e: "record_event cfg (pz_disk ?z) (pz_now ?z) (pz_mono ?z) (wd_journal ?w) (ps_mgr ?st1)
      ?e False None = (j', m', res)"
    using prod_cases3 by blast
  let ?st2 = "?st1\<lparr>ps_world := ?w\<lparr>wd_journal := j'\<rparr>, ps_mgr := m'\<rparr>"
  have st': "st' = others_run (pz_afterwards ?z) ?st2" "res = Inr x"
    using r by (simp_all add: record_recovered_fill_def pass_record_def Let_def e)
  have "\<exists>s. bk_orders (om_books m') (fl_cid f) = Some s \<and> fl_id f \<in> settled_ids s"
    using record_event_moves(2) [OF e _ _ st'(2)] settled_apply_event(2) [of _ ?e x f] by auto
  then have "fill_accounted ?st2 f" by (simp add: fill_accounted_def)
  moreover have "advances h ?st2 st'" unfolding st'(1) by (rule advances_others) (rule steadyD(2) [OF s])
  ultimately show ?thesis using fill_accounted_advances by blast
qed

lemma book_fill_accounted:
  assumes s: "steady h pauses" and r: "book_fill cfg pauses f st = (st', Inr x)"
  shows "fill_accounted st' f"
proof (cases "bk_orders (ps_books st) (fl_cid f)")
  case None
  then show ?thesis
    using r by (auto simp: book_fill_def Let_def fill_accounted_def add_break_def change_report_def split: if_splits)
next
  case (Some o')
  have rec: "fill_accounted st' f"
    if run: "run_then (record_recovered_fill cfg pauses f) g st1 = (st', Inr y)"
      and keep: "\<And>x st2. advances h st2 (fst (g x st2))" for g st1 and y :: unit
  proof -
    obtain st2 s2 where st2: "record_recovered_fill cfg pauses f st1 = (st2, Inr s2)" "g s2 st2 = (st', Inr y)"
      using run by (auto simp: run_then_def split: prod.splits sum.splits)
    show ?thesis
      using fill_accounted_advances [OF keep recovered_fill_accounted [OF s st2(1)], of s2] st2(2) by simp
  qed
  show ?thesis
  proof (cases "fl_id f \<in> st_busted o' \<or> list_ex (\<lambda>g. fl_id g = fl_id f) (st_fills o')")
    case True
    then have "fl_id f \<in> settled_ids o'" by (auto simp: settled_ids_def list_ex_iff image_iff) metis
    then have "fill_accounted st f" using Some by (simp add: fill_accounted_def)
    moreover have "advances h st st'" using advances_book_fill [OF s, of st cfg f] r by simp
    ultimately show ?thesis using fill_accounted_advances by blast
  next
    case False
    then have "run_then (record_recovered_fill cfg pauses f) (\<lambda>_ st'. (add_resolved (fl_cid f) st', Inr ())) st = (st', Inr x)"
      using r Some by (simp add: book_fill_def)
    then show ?thesis by (rule rec) simp
  qed
qed

lemma book_fills_accounted:
  assumes s: "steady h pauses"
  shows "book_fills cfg pauses fs st = (st', Inr x) \<Longrightarrow> f \<in> set fs \<Longrightarrow> fill_accounted st' f"
proof (induction fs arbitrary: st)
  case (Cons g fs)
  obtain st1 u where st1: "book_fill cfg pauses g st = (st1, Inr u)" "book_fills cfg pauses fs st1 = (st', Inr x)"
    using Cons.prems(1) by (auto simp: run_then_def split: prod.splits sum.splits)
  show ?case
  proof (cases "f = g")
    case True
    have "advances h st1 st'" using advances_book_fills [OF s, of st1 cfg fs] st1(2) by simp
    then show ?thesis using fill_accounted_advances book_fill_accounted [OF s st1(1)] True by blast
  next
    case False
    then show ?thesis using Cons.IH [OF st1(2)] Cons.prems(2) by simp
  qed
qed simp

lemma sweep_fills_accounted:
  assumes s: "steady h pauses" and r: "sweep_fills cfg pauses st = (st', Inr True)"
  shows "\<exists>n fs. pz_fills (pauses n) (fill_window (ps_books st)
      ((case bk_last_sweep (ps_books st) of Some t \<Rightarrow> t | None \<Rightarrow> rep_at (ps_report st)) - mc_fill_lookback cfg)) None = Some fs \<and>
    (\<forall>f \<in> set fs. fill_accounted st' f)"
  using r book_fills_accounted [OF s]
  by (fastforce simp: sweep_fills_def Let_def pause_of_def run_then_def run_return_def
      split: option.splits prod.splits sum.splits)

section \<open>The end of a pass\<close>

definition fine_items :: "bool \<Rightarrow> recon_break list \<Rightarrow> pass \<Rightarrow> bool" where
  "fine_items h items st \<longleftrightarrow>
     (h \<longrightarrow> (\<forall>b \<in> set items. rb_kind b = ORPHAN_FILL \<and> rb_subject b \<in> bk_orphans (ps_books st) \<longrightarrow>
        kill_engaged (om_kill (ps_mgr st))))"

lemma fine_items_moves:
  assumes "advances h st st'" and "fine_items h items st"
  shows "fine_items h items st'"
proof -
  note m = moves_onD [OF advancesD(1) [OF assms(1)]]
  show ?thesis
    using assms(2) m(3,4) unfolding fine_items_def by (simp; blast)
qed

lemma advances_halt: "advances h st (st\<lparr>ps_mgr := halt_manager (ps_mgr st) why\<rparr>)"
proof -
  have "om_books (halt_manager m why) = om_books m" "om_blind (halt_manager m why) = om_blind m" for m
    by (simp_all add: halt_manager_def Let_def split: prod.splits)
  then show ?thesis by (intro advancesI) (simp_all add: moves_on_def halt_engages)
qed

lemma report_break_effect:
  assumes s: "steady (mc_halt_on_break cfg) pauses"
  shows "advances (mc_halt_on_break cfg) st (fst (report_break_now cfg pauses item st))"
    and "is_critical item \<Longrightarrow> mc_halt_on_break cfg \<Longrightarrow> fine_items True [item] st \<Longrightarrow>
      kill_engaged (om_kill (ps_mgr (fst (report_break_now cfg pauses item st))))"
    and "snd (report_break_now cfg pauses item st) \<Longrightarrow>
      rb_subject item \<in> bk_orphans (ps_books st) \<or>
      EReconBreak (rb_kind item) (rb_subject item) \<in>
        je_entry ` set (ej_entries (wd_journal (ps_world (fst (report_break_now cfg pauses item st)))))"
proof -
  let ?h = "mc_halt_on_break cfg"
  let ?halts = "is_critical item \<and> ?h"
  let ?st0 = "if ?halts then st\<lparr>ps_mgr := halt_manager (ps_mgr st) (''reconciliation break: '' @ rb_subject item)\<rparr> else st"
  obtain st1 rec where a: "pass_append pauses (EReconBreak (rb_kind item) (rb_subject item)) ?st0 = (st1, rec)"
    by fastforce
  let ?add = "change_books (\<lambda>b. b\<lparr>bk_orphans := insert (rb_subject item) (bk_orphans b)\<rparr>) st1"
  have a0: "advances ?h st ?st0" using advances_halt by simp
  have a1: "advances ?h ?st0 st1" using advances_pass_append [OF s, of ?st0 "EReconBreak (rb_kind item) (rb_subject item)"] a by simp
  have eng0: "?halts \<Longrightarrow> kill_engaged (om_kill (ps_mgr ?st0))" by (simp add: halt_engages)
  then have eng: "?halts \<Longrightarrow> kill_engaged (om_kill (ps_mgr st1))"
    using moves_onD(4) [OF advancesD(1) [OF a1]] by simp
  have a2: "advances ?h st1 ?add" if "rb_kind item = ORPHAN_FILL"
  proof -
    have "is_critical item" using that by (simp add: is_critical_def CRITICAL_BREAKS_def)
    then show ?thesis using eng by (intro advancesI) (auto simp: change_books_def moves_on_def)
  qed
  have r: "report_break_now cfg pauses item st =
      (if rb_kind item = ORPHAN_FILL \<and> rb_subject item \<in> bk_orphans (ps_books st) then (st, True)
       else (if rec \<and> rb_kind item = ORPHAN_FILL then ?add else st1, rec))"
    by (simp only: report_break_now_def Let_def a prod.case)
  show "advances ?h st (fst (report_break_now cfg pauses item st))"
    using advances_trans [OF a0 a1] advances_trans [OF advances_trans [OF a0 a1] a2] by (simp add: r)
  show "kill_engaged (om_kill (ps_mgr (fst (report_break_now cfg pauses item st))))"
    if "is_critical item" "?h" "fine_items True [item] st"
    using that eng by (simp add: r fine_items_def change_books_def)
  have "EReconBreak (rb_kind item) (rb_subject item) \<in> je_entry ` set (ej_entries (wd_journal (ps_world st1)))" if rec
    using a that by (auto simp: pass_append_def Let_def append_entry_def)
  then show "rb_subject item \<in> bk_orphans (ps_books st) \<or>
      EReconBreak (rb_kind item) (rb_subject item) \<in>
        je_entry ` set (ej_entries (wd_journal (ps_world (fst (report_break_now cfg pauses item st)))))"
    if "snd (report_break_now cfg pauses item st)"
    using that by (auto simp: r change_books_def split: if_splits)
qed

lemma report_breaks_effect:
  assumes s: "steady (mc_halt_on_break cfg) pauses"
  shows "advances (mc_halt_on_break cfg) st (fst (report_breaks cfg pauses items st))"
    and "item \<in> set items \<Longrightarrow> is_critical item \<Longrightarrow> mc_halt_on_break cfg \<Longrightarrow> fine_items True items st \<Longrightarrow>
      kill_engaged (om_kill (ps_mgr (fst (report_breaks cfg pauses items st))))"
    and "list_all id (snd (report_breaks cfg pauses items st)) \<Longrightarrow> item \<in> set items \<Longrightarrow>
      rb_subject item \<in> bk_orphans (ps_books (fst (report_breaks cfg pauses items st))) \<or>
      EReconBreak (rb_kind item) (rb_subject item) \<in>
        je_entry ` set (ej_entries (wd_journal (ps_world (fst (report_breaks cfg pauses items st)))))"
proof -
  let ?h = "mc_halt_on_break cfg"
  show adv: "advances ?h st (fst (report_breaks cfg pauses items st))" for st items
  proof (induction items arbitrary: st)
    case (Cons i js)
    show ?case
      using advances_trans [OF report_break_effect(1) [OF s] Cons.IH]
      by (simp split: prod.split) (metis fst_conv)
  qed simp
  show "kill_engaged (om_kill (ps_mgr (fst (report_breaks cfg pauses items st))))"
    if "item \<in> set items" "is_critical item" ?h "fine_items True items st"
    using that
  proof (induction items arbitrary: st)
    case (Cons i js)
    let ?st1 = "fst (report_break_now cfg pauses i st)"
    have a: "advances ?h st ?st1" by (rule report_break_effect(1) [OF s])
    have rest: "fst (report_breaks cfg pauses (i # js) st) = fst (report_breaks cfg pauses js ?st1)"
      by (simp split: prod.split)
    show ?case
    proof (cases "item = i")
      case True
      have "fine_items True [i] st" using Cons.prems(4) by (simp add: fine_items_def)
      then have "kill_engaged (om_kill (ps_mgr ?st1))"
        using report_break_effect(2) [OF s] Cons.prems(2,3) True by blast
      then show ?thesis using moves_onD(4) [OF advancesD(1) [OF adv [of ?st1 js]]] rest by simp
    next
      case False
      have "fine_items True js ?st1"
        using fine_items_moves [OF a, of js] Cons.prems(3,4) by (simp add: fine_items_def)
      then show ?thesis using Cons.IH Cons.prems False rest by simp
    qed
  qed simp
  show "rb_subject item \<in> bk_orphans (ps_books (fst (report_breaks cfg pauses items st))) \<or>
      EReconBreak (rb_kind item) (rb_subject item) \<in>
        je_entry ` set (ej_entries (wd_journal (ps_world (fst (report_breaks cfg pauses items st)))))"
    if "list_all id (snd (report_breaks cfg pauses items st))" "item \<in> set items"
    using that
  proof (induction items arbitrary: st)
    case (Cons i js)
    let ?st1 = "fst (report_break_now cfg pauses i st)" and ?r1 = "snd (report_break_now cfg pauses i st)"
    let ?st2 = "fst (report_breaks cfg pauses js ?st1)"
    have r: "report_breaks cfg pauses (i # js) st = (?st2, ?r1 # snd (report_breaks cfg pauses js ?st1))"
      by (simp split: prod.split)
    note m1 = moves_onD [OF advancesD(1) [OF report_break_effect(1) [OF s, of st i]]]
    note m2 = moves_onD [OF advancesD(1) [OF adv [of ?st1 js]]]
    show ?case
    proof (cases "item \<in> set js")
      case True
      have "list_all id (snd (report_breaks cfg pauses js ?st1))"
        using Cons.prems(1) unfolding r snd_conv list.pred_inject by (rule conjunct2)
      from Cons.IH [OF this True] show ?thesis by (simp only: r fst_conv)
    next
      case False
      then have i: "item = i" using Cons.prems(2) by simp
      have "rb_subject i \<in> bk_orphans (ps_books st) \<or> EReconBreak (rb_kind i) (rb_subject i) \<in>
          je_entry ` set (ej_entries (wd_journal (ps_world ?st1)))"
        using report_break_effect(3) [OF s] Cons.prems(1) r by simp
      moreover have "set (ej_entries (wd_journal (ps_world ?st1))) \<subseteq> set (ej_entries (wd_journal (ps_world ?st2)))"
        using m2(8) by auto
      moreover have "bk_orphans (ps_books st) \<subseteq> bk_orphans (ps_books ?st2)" using m1(2) m2(2) by auto
      ultimately show ?thesis unfolding i by (simp only: r fst_conv) blast
    qed
  qed simp
qed

text \<open>What \<open>save_sweep\<close> changes does not matter to either claim.\<close>

lemma save_sweep_effect:
  assumes "steady h pauses"
  shows "advances h st (save_sweep cfg pauses t st)"
proof -
  have a: "advances h st (fst (pass_append pauses (ESweepMark t) st))" by (rule advances_pass_append [OF assms])
  have "advances h st1 (change_books (\<lambda>b. b\<lparr>bk_durable_sweep := Some t\<rparr>) st1)" for st1
    by (rule advances_change_books) simp_all
  then show ?thesis using a advances_trans by (auto simp: save_sweep_def split: prod.split option.split)
qed

definition stopped :: "pass \<Rightarrow> bool" where
  "stopped st \<longleftrightarrow> kill_engaged (om_kill (ps_mgr st)) \<or> om_blind (ps_mgr st)"

lemma stopped_advances: "advances h st st' \<Longrightarrow> stopped st \<Longrightarrow> stopped st'"
  using moves_onD(4,7) [OF advancesD(1)] by (fastforce simp: stopped_def)

lemma stopped_refuses: "stopped st \<Longrightarrow> trade_refusal (ps_mgr st) \<noteq> None"
  by (auto simp: stopped_def trade_refusal_def)

lemma await_report [simp]: "ps_report (await pauses st) = ps_report st"
  by (simp add: await_def others_run_def split: prod.split)

lemma pass_append_report [simp]: "ps_report (fst (pass_append pauses en st)) = ps_report st"
  by (simp add: pass_append_def Let_def)

lemma change_books_report [simp]: "ps_report (change_books f st) = ps_report st"
  by (simp add: change_books_def)

lemma report_break_report [simp]: "ps_report (fst (report_break_now cfg pauses item st)) = ps_report st"
proof -
  have "ps_report (fst (pass_append pauses en st0)) = ps_report st" if "ps_report st0 = ps_report st" for en st0
    using that by simp
  then show ?thesis
    by (auto simp: report_break_now_def Let_def split: prod.split dest!: arg_cong [where f = "\<lambda>p. ps_report (fst p)"])
qed

lemma report_breaks_report [simp]: "ps_report (fst (report_breaks cfg pauses items st)) = ps_report st"
proof (induction items arbitrary: st)
  case (Cons i js)
  have "fst (report_breaks cfg pauses (i # js) st) = fst (report_breaks cfg pauses js (fst (report_break_now cfg pauses i st)))"
    by (simp split: prod.split)
  then show ?case using Cons.IH by simp
qed simp

lemma save_sweep_report [simp]: "ps_report (save_sweep cfg pauses t st) = ps_report st"
proof -
  have "ps_report st1 = ps_report st" if "pass_append pauses (ESweepMark t) st = (st1, x)" for st1 x
    using that pass_append_report [of pauses "ESweepMark t" st] by simp
  then show ?thesis by (auto simp: save_sweep_def split: prod.split option.split)
qed

lemma conclude_effect:
  assumes s: "steady (mc_halt_on_break cfg) pauses" and fine: "orphans_fine (mc_halt_on_break cfg) st"
    and c: "conclude cfg pauses swept st = st'"
  shows "b \<in> set (rep_breaks (ps_report st)) \<Longrightarrow> rb_kind b = QUERY_FAILED \<or> (is_critical b \<and> mc_halt_on_break cfg) \<Longrightarrow> stopped st'"
    and "ps_report st' = ps_report st"
    and "bk_last_sweep (ps_books st') \<noteq> bk_last_sweep (ps_books st) \<Longrightarrow> swept \<and>
      bk_last_sweep (ps_books st') = Some (rep_at (ps_report st)) \<and>
      (fill_accounted st f \<longrightarrow>
        (\<exists>s. bk_orders (ps_books st') (fl_cid f) = Some s \<and> fl_id f \<in> settled_ids s) \<or>
        orphan_fill_subject f \<in> bk_orphans (ps_books st') \<or>
        (\<exists>k. EReconBreak k (orphan_fill_subject f) \<in> je_entry ` set (ej_entries (wd_journal (ps_world st')))))"
proof -
  let ?h = "mc_halt_on_break cfg" and ?items = "rep_breaks (ps_report st)"
  let ?st0 = "set_blind (list_ex (\<lambda>b. rb_kind b = QUERY_FAILED) ?items) st"
  obtain st1 recorded where r: "report_breaks cfg pauses ?items ?st0 = (st1, recorded)" by fastforce
  let ?moved = "swept \<and> list_all id recorded \<and> bk_unjournalled (ps_books st1) = []"
  let ?st2 = "change_books (\<lambda>b. b\<lparr>bk_last_sweep := Some (rep_at (ps_report st1))\<rparr>) st1"
  have st': "st' = (if ?moved then save_sweep cfg pauses (rep_at (ps_report st1)) ?st2 else st1)"
    using c by (simp add: conclude_def Let_def r)
  have rep: "ps_report st1 = ps_report st"
    using report_breaks_report [of cfg pauses ?items ?st0] unfolding r fst_conv by (simp add: set_blind_def)
  have a1: "advances ?h ?st0 st1" using report_breaks_effect(1) [OF s, of ?st0 ?items] r by simp
  have a2: "advances ?h ?st2 (save_sweep cfg pauses (rep_at (ps_report st1)) ?st2)" by (rule save_sweep_effect [OF s])
  show "ps_report st' = ps_report st" by (simp add: st' rep)
  have same: "stopped ?st2 = stopped st1" by (simp add: stopped_def change_books_def)
  show "stopped st'" if b: "b \<in> set ?items" "rb_kind b = QUERY_FAILED \<or> (is_critical b \<and> ?h)"
  proof -
    have "stopped st1"
    proof (cases "rb_kind b = QUERY_FAILED")
      case True
      then have "stopped ?st0" using b(1) by (auto simp: stopped_def set_blind_def list_ex_iff)
      then show ?thesis using stopped_advances a1 by blast
    next
      case False
      then have cr: "is_critical b" ?h using b(2) by simp_all
      have "fine_items True ?items ?st0" using fine cr(2) by (simp add: fine_items_def orphans_fine_def set_blind_def)
      from report_breaks_effect(2) [OF s b(1) cr this] show ?thesis
        unfolding r fst_conv by (simp add: stopped_def)
    qed
    then show ?thesis using stopped_advances [OF a2] same by (simp add: st')
  qed
  show "swept \<and> bk_last_sweep (ps_books st') = Some (rep_at (ps_report st)) \<and>
      (fill_accounted st f \<longrightarrow>
        (\<exists>s. bk_orders (ps_books st') (fl_cid f) = Some s \<and> fl_id f \<in> settled_ids s) \<or>
        orphan_fill_subject f \<in> bk_orphans (ps_books st') \<or>
        (\<exists>k. EReconBreak k (orphan_fill_subject f) \<in> je_entry ` set (ej_entries (wd_journal (ps_world st')))))"
    if diff: "bk_last_sweep (ps_books st') \<noteq> bk_last_sweep (ps_books st)"
  proof -
    note m1 = moves_onD [OF advancesD(1) [OF a1]]
    have moved: ?moved using diff m1(5) by (auto simp: st' set_blind_def split: if_splits)
    then have st'2: "st' = save_sweep cfg pauses (rep_at (ps_report st1)) ?st2" by (simp add: st')
    note m2 = moves_onD [OF advancesD(1) [OF a2]]
    have last: "bk_last_sweep (ps_books st') = Some (rep_at (ps_report st))"
      using m2(5) by (simp add: st'2 change_books_def rep)
    have up: "bk_orphans (ps_books st1) \<subseteq> bk_orphans (ps_books st')"
      "orders_progress (bk_orders (ps_books st)) (bk_orders (ps_books st'))"
      "set (ej_entries (wd_journal (ps_world st1))) \<subseteq> set (ej_entries (wd_journal (ps_world st')))"
      "bk_orphans (ps_books st) \<subseteq> bk_orphans (ps_books st')"
      using m2(1,2,8) m1(1,2) orders_progress_trans by (auto simp: st'2 change_books_def set_blind_def)
    have brk: "rb_subject i \<in> bk_orphans (ps_books st1) \<or>
        EReconBreak (rb_kind i) (rb_subject i) \<in> je_entry ` set (ej_entries (wd_journal (ps_world st1)))"
      if "i \<in> set ?items" for i
      using report_breaks_effect(3) [OF s, of ?items ?st0 i] that moved r by simp
    have "(\<exists>s. bk_orders (ps_books st') (fl_cid f) = Some s \<and> fl_id f \<in> settled_ids s) \<or>
        orphan_fill_subject f \<in> bk_orphans (ps_books st') \<or>
        (\<exists>k. EReconBreak k (orphan_fill_subject f) \<in> je_entry ` set (ej_entries (wd_journal (ps_world st'))))"
      if fa: "fill_accounted st f"
      using fa unfolding fill_accounted_def
    proof (elim disjE exE conjE)
      fix s assume "bk_orders (ps_books st) (fl_cid f) = Some s" "fl_id f \<in> settled_ids s"
      then show ?thesis using up(2) unfolding orders_progress_def by blast
    next
      assume "orphan_fill_subject f \<in> bk_orphans (ps_books st) \<union> rb_subject ` set ?items"
      then consider "orphan_fill_subject f \<in> bk_orphans (ps_books st)"
        | i where "i \<in> set ?items" "rb_subject i = orphan_fill_subject f" by auto
      then show ?thesis
      proof cases
        case 1
        then show ?thesis using up(4) by blast
      next
        case (2 i)
        have "je_entry ` set (ej_entries (wd_journal (ps_world st1))) \<subseteq>
            je_entry ` set (ej_entries (wd_journal (ps_world st')))" using up(3) by (rule image_mono)
        then show ?thesis using brk [OF 2(1)] up(1) unfolding 2(2) by blast
      qed
    qed
    with moved last show ?thesis by simp
  qed
qed

lemma reconcile_effect:
  assumes s: "steady (mc_halt_on_break cfg) pauses" and r: "reconcile cfg pauses st = (st', Inr rep)"
  shows "b \<in> set (rep_breaks rep) \<Longrightarrow> rb_kind b = QUERY_FAILED \<or> (is_critical b \<and> mc_halt_on_break cfg) \<Longrightarrow> stopped st'"
    and "bk_last_sweep (ps_books st') \<noteq> bk_last_sweep (ps_books st) \<Longrightarrow>
      bk_last_sweep (ps_books st') = Some (rep_at rep) \<and>
      (\<exists>n fs. pz_fills (pauses n) (fill_window (ps_books st)
          ((case bk_last_sweep (ps_books st) of Some t \<Rightarrow> t | None \<Rightarrow> rep_at rep) - mc_fill_lookback cfg)) None = Some fs \<and>
        (\<forall>f \<in> set fs.
          (\<exists>s. bk_orders (ps_books st') (fl_cid f) = Some s \<and> fl_id f \<in> settled_ids s) \<or>
          orphan_fill_subject f \<in> bk_orphans (ps_books st') \<or>
          (\<exists>k. EReconBreak k (orphan_fill_subject f) \<in> je_entry ` set (ej_entries (wd_journal (ps_world st'))))))"
proof -
  let ?h = "mc_halt_on_break cfg"
  let ?start = "st\<lparr>ps_report := blank_report (pz_now (pause_of pauses st))\<rparr>"
  let ?st0 = "merge_adjustments_now pauses ?start"
  let ?b = "ps_books ?st0"
  obtain st1 where st1: "st1 = find_orphans cfg pauses (reconcile_orders cfg pauses
      (map (\<lambda>s. (s, bk_stamp ?b (state_cid s))) (open_orders ?b None)) ?st0)" by blast
  obtain st2 swept where sw: "sweep_fills cfg pauses st1 = (st2, Inr swept)"
    using r by (auto simp: reconcile_def Let_def run_then_def st1 split: prod.splits sum.splits)
  obtain st3 u where cp: "check_positions cfg pauses st2 = (st3, Inr u)"
    using r sw by (auto simp: reconcile_def Let_def run_then_def st1 split: prod.splits sum.splits)
  have st': "conclude cfg pauses swept st3 = st'" and rep: "rep = ps_report st'"
    using r sw cp by (auto simp: reconcile_def Let_def run_then_def st1)
  have a1: "advances ?h ?start st1"
    unfolding st1 by (rule advances_trans [OF advances_trans [OF advances_merge_adjustments advances_reconcile_orders] advances_find_orphans])
      (rule s)+
  have a2: "advances ?h st1 st2" using advances_sweep_fills [OF s, of st1 cfg] sw by simp
  have a3: "advances ?h st2 st3" using advances_check_positions [OF s, of st2 cfg] cp by simp
  have a13: "advances ?h ?start st3" by (rule advances_trans [OF advances_trans [OF a1 a2] a3])
  have "orphans_fine ?h ?start" by (simp add: orphans_fine_def blank_report_def)
  then have fine: "orphans_fine ?h st3" using advancesD(4) [OF a13] by blast
  note c = conclude_effect [OF s fine st']
  show "stopped st'" if "b \<in> set (rep_breaks rep)" "rb_kind b = QUERY_FAILED \<or> (is_critical b \<and> ?h)"
    using c(1) [of b] that by (simp add: rep c(2))
  note m1 = moves_onD [OF advancesD(1) [OF a1]] and m13 = moves_onD [OF advancesD(1) [OF a13]]
  have at: "rep_at (ps_report st1) = rep_at rep"
    using advancesD(3) [OF a13] advancesD(3) [OF a1] by (simp add: rep c(2))
  have since: "fill_window (ps_books st1) x = fill_window (ps_books st) x" for x
    using m1(6) by (simp add: fill_window_def)
  show "bk_last_sweep (ps_books st') = Some (rep_at rep) \<and>
      (\<exists>n fs. pz_fills (pauses n) (fill_window (ps_books st)
          ((case bk_last_sweep (ps_books st) of Some t \<Rightarrow> t | None \<Rightarrow> rep_at rep) - mc_fill_lookback cfg)) None = Some fs \<and>
        (\<forall>f \<in> set fs.
          (\<exists>s. bk_orders (ps_books st') (fl_cid f) = Some s \<and> fl_id f \<in> settled_ids s) \<or>
          orphan_fill_subject f \<in> bk_orphans (ps_books st') \<or>
          (\<exists>k. EReconBreak k (orphan_fill_subject f) \<in> je_entry ` set (ej_entries (wd_journal (ps_world st'))))))"
    if diff: "bk_last_sweep (ps_books st') \<noteq> bk_last_sweep (ps_books st)"
  proof -
    have diff3: "bk_last_sweep (ps_books st') \<noteq> bk_last_sweep (ps_books st3)" using diff m13(5) by simp
    note c3 = c(3) [OF diff3]
    have sw1: "sweep_fills cfg pauses st1 = (st2, Inr True)" using sw c3 by simp
    obtain n fs where fs: "pz_fills (pauses n) (fill_window (ps_books st)
          ((case bk_last_sweep (ps_books st) of Some t \<Rightarrow> t | None \<Rightarrow> rep_at rep) - mc_fill_lookback cfg)) None = Some fs"
        and acc: "\<And>f. f \<in> set fs \<Longrightarrow> fill_accounted st2 f"
      using sweep_fills_accounted [OF s sw1] m1(5) unfolding at snd_conv since by (elim exE conjE) (simp add: that)
    have "\<And>f. f \<in> set fs \<Longrightarrow> fill_accounted st3 f" using fill_accounted_advances [OF a3] acc by blast
    then have "\<forall>f \<in> set fs. (\<exists>s. bk_orders (ps_books st') (fl_cid f) = Some s \<and> fl_id f \<in> settled_ids s) \<or>
        orphan_fill_subject f \<in> bk_orphans (ps_books st') \<or>
        (\<exists>k. EReconBreak k (orphan_fill_subject f) \<in> je_entry ` set (ej_entries (wd_journal (ps_world st'))))"
      using c3 by blast
    moreover have "bk_last_sweep (ps_books st') = Some (rep_at rep)" using c3 by (simp add: rep c(2))
    ultimately show ?thesis using fs by blast
  qed
qed

section \<open>Properties\<close>

definition sample_pause :: pause where
  "sample_pause =
     \<lparr>pz_now = 7, pz_mono = 9, pz_disk = (\<lambda>_. True), pz_intact = True, pz_meanwhile = (\<lambda>x. x),
      pz_afterwards = (\<lambda>x. x), pz_status = (\<lambda>_. StatusFails), pz_cancel = CancelTaken,
      pz_fills = (\<lambda>_ _. None), pz_open = None, pz_positions = None\<rparr>"

definition sample_pass :: pass where
  "sample_pass =
     \<lparr>ps_world = sample_world, ps_mgr = sample_ready, ps_report = blank_report 0, ps_next = 0\<rparr>"

lemma sample_steady:
  "(\<And>n. pz_meanwhile (pauses n) = (\<lambda>x. x)) \<Longrightarrow> (\<And>n. pz_afterwards (pauses n) = (\<lambda>x. x)) \<Longrightarrow> steady h pauses"
  by (simp add: steady_def)

lemmas pass_defs =
  reconcile_def merge_adjustments_now_def find_orphans_def sweep_fills_def check_positions_def conclude_def
  run_then_def run_return_def await_def others_run_def pause_of_def change_books_def change_report_def
  query_failed_def add_break_def incomplete_def positions_unverified_def set_blind_def pass_append_def
  report_break_now_def save_sweep_def Let_def

text \<open>C8: A pass that could not verify exposure leaves new orders refused: whatever the venue answers and
  whatever the other tasks do meanwhile, short of an operator releasing the switch, once a pass ends
  with a query that failed, or with a break that means exposure may be wrong while breaks halt, the
  next order is refused.\<close>

theorem unsafe_pass_stops_trading:
  assumes "steady (mc_halt_on_break cfg) pauses" and "reconcile cfg pauses st = (st', Inr rep)"
    and "b \<in> set (rep_breaks rep)" and "rb_kind b = QUERY_FAILED \<or> (is_critical b \<and> mc_halt_on_break cfg)"
  shows "trade_refusal (ps_mgr st') \<noteq> None"
  using reconcile_effect(1) [OF assms] by (rule stopped_refuses)

lemma sample_pass_runs:
  "\<exists>st'. reconcile sample_manager_config (\<lambda>_. sample_pause) sample_pass = (st', Inr (ps_report st')) \<and>
     rep_breaks (ps_report st') =
       [\<lparr>rb_kind = QUERY_FAILED, rb_subject = ''open_orders''\<rparr>, \<lparr>rb_kind = QUERY_FAILED, rb_subject = ''fills''\<rparr>]"
  by (simp add: pass_defs sample_pass_def sample_pause_def sample_ready_def blank_manager_def empty_books_def
      sample_world_def first_start_def blank_report_def open_orders_def merge_adjustments_def fill_window_def
      sample_manager_config_def append_entry_def is_critical_def CRITICAL_BREAKS_def)

lemma unsafe_pass_stops_trading_witness:
  "\<exists>st'. reconcile sample_manager_config (\<lambda>_. sample_pause) sample_pass = (st', Inr (ps_report st')) \<and>
     trade_refusal (ps_mgr st') \<noteq> None"
proof -
  obtain st' where r: "reconcile sample_manager_config (\<lambda>_. sample_pause) sample_pass = (st', Inr (ps_report st'))"
      and b: "rep_breaks (ps_report st') =
        [\<lparr>rb_kind = QUERY_FAILED, rb_subject = ''open_orders''\<rparr>, \<lparr>rb_kind = QUERY_FAILED, rb_subject = ''fills''\<rparr>]"
    using sample_pass_runs by blast
  have "trade_refusal (ps_mgr st') \<noteq> None"
    by (rule unsafe_pass_stops_trading [OF sample_steady r, of "\<lparr>rb_kind = QUERY_FAILED, rb_subject = ''fills''\<rparr>"])
      (simp_all add: sample_pause_def b)
  with r show ?thesis by blast
qed


definition sample_sweep :: pause where
  "sample_sweep = sample_pause\<lparr>pz_open := Some [], pz_fills := (\<lambda>_ _. Some [sample_fill])\<rparr>"

lemma sample_sweep_runs:
  "\<exists>st'. reconcile sample_manager_config (\<lambda>_. sample_sweep) sample_pass = (st', Inr (ps_report st')) \<and>
     bk_last_sweep (ps_books st') = Some 7 \<and> rep_at (ps_report st') = 7"
  by (simp add: pass_defs sample_pass_def sample_sweep_def sample_pause_def sample_ready_def blank_manager_def empty_books_def
      sample_world_def first_start_def blank_report_def open_orders_def merge_adjustments_def fill_window_def
      sample_manager_config_def append_entry_def is_critical_def CRITICAL_BREAKS_def book_fill_def
      halt_manager_def engage_begin_def split: prod.split)


end
