(* ===== verification/ReconcileEvidence.thy ===== *)
theory ReconcileEvidence
  imports ReconcileSafety
begin

text \<open>
  When reconciliation closes an order. Nothing but its own fills, an answer of the venue that agrees on
  the fills, or a search that came up empty after the protective cancel does.
\<close>

section \<open>Orders the other tasks leave alone\<close>

definition same_order :: "string \<Rightarrow> books \<Rightarrow> books \<Rightarrow> bool" where
  "same_order cid b b' \<longleftrightarrow> bk_orders b' cid = bk_orders b cid \<and> bk_unknown_since b' cid = bk_unknown_since b cid"

definition leaves_order :: "string \<Rightarrow> (nat \<Rightarrow> pause) \<Rightarrow> bool" where
  "leaves_order cid pauses \<longleftrightarrow>
     (\<forall>n x. same_order cid (om_books (snd x)) (om_books (snd (pz_meanwhile (pauses n) x))) \<and>
        same_order cid (om_books (snd x)) (om_books (snd (pz_afterwards (pauses n) x))))"

text \<open>What can be said of the order under an id at any moment of a pass.\<close>

definition order_is :: "string \<Rightarrow> (order_state \<Rightarrow> bool) \<Rightarrow> pass \<Rightarrow> bool" where
  "order_is cid P st \<longleftrightarrow> (\<exists>s. bk_orders (ps_books st) cid = Some s \<and> state_cid s = cid \<and> P s)"

definition only_filled :: "order_state \<Rightarrow> bool" where
  "only_filled s \<longleftrightarrow> (is_terminal s \<longrightarrow> st_status s = FILLED)"

text \<open>Events that close an order only by filling it.\<close>

fun mild :: "event_body \<Rightarrow> bool" where
  "mild (Rejected _ _) = False"
| "mild (Canceled _) = False"
| "mild Expired = False"
| "mild (Restated _ _ _ _) = False"
| "mild (SubmitIntent _) = False"
| "mild _ = True"

lemma working_status_filled: "is_terminal_status (working_status s) \<Longrightarrow> working_status s = FILLED"
  by (auto simp: working_status_def split: if_splits)

lemma mild_transition:
  assumes "only_filled s" and "mild b" and "kind_of b = k" and "\<And>f. b \<noteq> Filled f" and "\<And>i w. b \<noteq> FillBusted i w"
  shows "only_filled (transition s k)"
proof -
  have "is_terminal_status t \<Longrightarrow> map_of (transitions k) (st_status s) = Some (To t) \<Longrightarrow> t = FILLED \<or> t = st_status s" for t
    using assms(2-5) by (cases b; cases "st_status s") (auto simp: ALL_LIVE_def WORKING_STATUSES_def PENDING_STATUSES_def)
  then show ?thesis
    using assms(1) working_status_filled [of s]
    by (auto simp: transition_def only_filled_def is_terminal_def split: option.splits target.splits)
qed

lemma mild_apply_event:
  assumes "only_filled s" and "mild (ev_body e)" and "apply_event s e = Inr s'"
  shows "only_filled s'"
proof -
  have "only_filled (apply_body s (ev_body e))"
  proof (cases "ev_body e")
    case (Filled f)
    then show ?thesis
      using assms(1)
      by (auto simp: apply_body_def apply_fill_def apply_new_fill_def only_filled_def is_terminal_def Let_def
          split: option.splits)
  next
    case (FillBusted i w)
    then show ?thesis
      using assms(1)
      by (auto simp: apply_body_def apply_bust_def only_filled_def is_terminal_def Let_def split: option.splits)
  next
    case (Replaced q p v)
    have t: "only_filled (transition s K_replaced)"
      by (rule mild_transition [OF assms(1,2)]) (simp_all add: Replaced)
    then show ?thesis
      using working_status_filled
      by (auto simp: Replaced apply_body_def apply_replaced_def only_filled_def is_terminal_def Let_def)
  next
    case (ReplaceRequested q p)
    have "only_filled (transition s K_replace_requested)"
      by (rule mild_transition [OF assms(1,2)]) (simp_all add: ReplaceRequested)
    then show ?thesis by (auto simp: ReplaceRequested apply_body_def only_filled_def is_terminal_def)
  qed (use assms(2) mild_transition [OF assms(1,2) HOL.refl] in \<open>auto simp: apply_body_def only_filled_def is_terminal_def\<close>)
  with assms(3) show ?thesis by (auto simp: apply_event_settle only_filled_def is_terminal_def split: if_splits)
qed

section \<open>One record, seen from one order\<close>

lemma record_now_orders:
  assumes r: "record_now wr a now mt j b e durable only_if = (j', b', res)" and i: "\<not> is_intent e"
  shows "(bk_orders b' = bk_orders b \<and> (\<forall>x. res = Inr x \<longrightarrow> only_if \<noteq> None \<and> bk_orders b (ev_cid e) = Some (fst x))) \<or>
    (\<exists>prior s as. bk_orders b (ev_cid e) = Some prior \<and> apply_event prior e = Inr s \<and>
       bk_orders b' = (bk_orders b)(ev_cid e \<mapsto> s) \<and> res = Inr (s, as))"
proof -
  obtain j1 left err where w: "write_all wr j (bk_unjournalled b) e = (j1, left, err)"
    using prod_cases3 by blast
  let ?b0 = "b\<lparr>bk_unjournalled := left\<rparr>" and ?c = "b\<lparr>bk_unjournalled := left @ [e], bk_failed := True\<rparr>"
  obtain b2 r2 where a2: "apply_in_memory a now mt ?b0 e = (b2, r2)" by fastforce
  obtain b3 r3 where a3: "apply_in_memory a now mt ?c e = (b3, r3)" by fastforce
  have both: "(bk_orders b1 = bk_orders b \<and> (\<exists>x. r1 = Inl x)) \<or>
      (\<exists>prior s as. bk_orders b (ev_cid e) = Some prior \<and> apply_event prior e = Inr s \<and>
         bk_orders b1 = (bk_orders b)(ev_cid e \<mapsto> s) \<and> r1 = Inr (s, as))"
    if "apply_in_memory a now mt b0 e = (b1, r1)" "bk_orders b0 = bk_orders b" for b0 b1 r1
  proof (cases r1)
    case (Inl x)
    then show ?thesis using that by (auto simp: apply_in_memory_def Let_def split: sum.splits)
  next
    case (Inr x)
    then show ?thesis using apply_in_memory_event [OF that(1) i] that(2) by (cases x) auto
  qed
  show ?thesis
    using r w a2 a3 both [OF a2] both [OF a3]
    by (cases err) (auto simp: record_now_def split: if_splits option.splits)
qed

lemma leaves_orderD:
  assumes "leaves_order cid pauses"
  shows "bk_orders (ps_books (await pauses st)) cid = bk_orders (ps_books st) cid"
    and "bk_unknown_since (ps_books (await pauses st)) cid = bk_unknown_since (ps_books st) cid"
    and "bk_orders (ps_books (others_run (pz_afterwards (pause_of pauses st)) st2)) cid = bk_orders (ps_books st2) cid"
proof -
  have "same_order cid (om_books (snd x)) (om_books (snd (pz_meanwhile (pauses n) x)))"
    "same_order cid (om_books (snd x)) (om_books (snd (pz_afterwards (pauses n) x)))" for n x
    using assms unfolding leaves_order_def by blast+
  from this(1) [of "(ps_world st, ps_mgr st)" "ps_next st"] this(2) [of "(ps_world st2, ps_mgr st2)" "ps_next st"]
  show "bk_orders (ps_books (await pauses st)) cid = bk_orders (ps_books st) cid"
    "bk_unknown_since (ps_books (await pauses st)) cid = bk_unknown_since (ps_books st) cid"
    "bk_orders (ps_books (others_run (pz_afterwards (pause_of pauses st)) st2)) cid = bk_orders (ps_books st2) cid"
    by (auto simp: await_def others_run_def pause_of_def same_order_def split: prod.split)
qed

lemma pass_record_order:
  assumes l: "leaves_order cid pauses" and i: "\<And>r. body \<noteq> SubmitIntent r"
    and r: "pass_record cfg pauses c origin body durable only_if st = (st', res)"
    and s: "bk_orders (ps_books st) cid = Some s"
  shows "\<exists>s'. bk_orders (ps_books st') cid = Some s' \<and>
    (s' = s \<or> (\<exists>now. apply_event s (local_event c now origin body) = Inr s')) \<and>
    (\<forall>x. c = cid \<longrightarrow> res = Inr x \<longrightarrow>
       x = s' \<and> (only_if = None \<longrightarrow> (\<exists>now. apply_event s (local_event c now origin body) = Inr s')))"
proof -
  let ?z = "pause_of pauses st" and ?st1 = "await pauses st"
  let ?e = "local_event c (pz_now ?z) origin body" and ?w = "ps_world ?st1" and ?m = "ps_mgr ?st1"
  have s1: "bk_orders (ps_books ?st1) cid = Some s" using s by (simp add: leaves_orderD(1) [OF l])
  obtain j' m' res' where e: "record_event cfg (pz_disk ?z) (pz_now ?z) (pz_mono ?z) (wd_journal ?w) ?m ?e durable only_if = (j', m', res')"
    using prod_cases3 by blast
  let ?st2 = "?st1\<lparr>ps_world := ?w\<lparr>wd_journal := j'\<rparr>, ps_mgr := m'\<rparr>"
  have st': "st' = others_run (pz_afterwards ?z) ?st2" "res = res'" using r by (simp_all add: pass_record_def Let_def e)
  obtain r1 where n: "record_now (write_entry (pz_disk ?z) (pz_now ?z)) (max_age_of ?m) (pz_now ?z) (pz_mono ?z)
      (wd_journal ?w) (om_books ?m) ?e durable only_if = (j', om_books m', r1)" "res' = map_sum id fst r1"
    using record_event_books [OF e] by blast
  have "\<not> is_intent ?e" using i by simp
  note o = record_now_orders [OF n(1) this]
  have here: "bk_orders (ps_books st') cid = bk_orders (om_books m') cid" by (simp add: st' leaves_orderD(3) [OF l])
  have res: "res = Inr x \<Longrightarrow> \<exists>as. r1 = Inr (x, as)" for x using n(2) st'(2) by (cases r1) auto
  show ?thesis
    using o
  proof (elim disjE exE conjE)
    assume same: "bk_orders (om_books m') = bk_orders (om_books ?m)"
      and old: "\<forall>x. r1 = Inr x \<longrightarrow> only_if \<noteq> None \<and> bk_orders (om_books ?m) (ev_cid ?e) = Some (fst x)"
    have "x = s \<and> only_if \<noteq> None" if "c = cid" "res = Inr x" for x
      using res [OF that(2)] old s1 that(1) by auto
    then show ?thesis using here same s1 by auto
  next
    fix prior s' as
    assume p: "bk_orders (om_books ?m) (ev_cid ?e) = Some prior" "apply_event prior ?e = Inr s'"
      and up: "bk_orders (om_books m') = (bk_orders (om_books ?m))(ev_cid ?e \<mapsto> s')" and r1: "r1 = Inr (s', as)"
    show ?thesis
    proof (cases "c = cid")
      case True
      have "x = s'" if "res = Inr x" for x using res [OF that] r1 by auto
      then show ?thesis using True p up s1 here by auto
    next
      case False
      then show ?thesis using up s1 here by simp
    qed
  qed
qed

lemma pass_record_mild:
  assumes "leaves_order cid pauses" and "mild body" and "pass_record cfg pauses c origin body durable only_if st = (st', res)"
    and "order_is cid only_filled st"
  shows "order_is cid only_filled st'"
proof -
  obtain s where s: "bk_orders (ps_books st) cid = Some s" "state_cid s = cid" "only_filled s"
    using assms(4) by (auto simp: order_is_def)
  have i: "\<And>r. body \<noteq> SubmitIntent r" using assms(2) by auto
  obtain s' where s': "bk_orders (ps_books st') cid = Some s'"
      "s' = s \<or> (\<exists>now. apply_event s (local_event c now origin body) = Inr s')"
    using pass_record_order [OF assms(1) i assms(3) s(1)] by (elim exE conjE) (rule that)
  from s'(2) have "state_cid s' = cid \<and> only_filled s'"
  proof (elim disjE exE)
    fix now assume e: "apply_event s (local_event c now origin body) = Inr s'"
    show ?thesis using apply_event_cid [OF e] mild_apply_event [OF s(3) _ e] assms(2) s(2) by simp
  qed (use s(2,3) in simp)
  then show ?thesis using s'(1) by (simp add: order_is_def)
qed

text \<open>Parts of a pass that keep such an order, when they return.\<close>

definition keeps_filled :: "string \<Rightarrow> 'a run \<Rightarrow> bool" where
  "keeps_filled cid r \<longleftrightarrow>
     (\<forall>st st' x. r st = (st', Inr x) \<longrightarrow> order_is cid only_filled st \<longrightarrow> order_is cid only_filled st')"

lemma keeps_filledD:
  "keeps_filled cid r \<Longrightarrow> r st = (st', Inr x) \<Longrightarrow> order_is cid only_filled st \<Longrightarrow> order_is cid only_filled st'"
  by (auto simp: keeps_filled_def)

lemma keeps_then: "keeps_filled cid r \<Longrightarrow> (\<And>x. keeps_filled cid (f x)) \<Longrightarrow> keeps_filled cid (run_then r f)"
  by (fastforce simp: keeps_filled_def run_then_def split: prod.splits sum.splits)

lemma order_is_same [simp]:
  "order_is cid P (add_resolved c st) = order_is cid P st" "order_is cid P (incomplete st) = order_is cid P st"
  "order_is cid P (query_failed x st) = order_is cid P st" "order_is cid P (note_correction f st) = order_is cid P st"
  "order_is cid P (add_break k x st) = order_is cid P st"
  by (simp_all add: order_is_def add_resolved_def incomplete_def query_failed_def add_break_def change_report_def
      note_correction_def change_books_def)

lemma order_is_await [simp]: "leaves_order cid pauses \<Longrightarrow> order_is cid P (await pauses st) = order_is cid P st"
  by (simp add: order_is_def leaves_orderD(1))

lemma keeps_simple:
  "keeps_filled cid (run_return x)" "keeps_filled cid (\<lambda>st. (st, Inr x))" "keeps_filled cid (read_state c)"
  "keeps_filled cid (\<lambda>st. (add_resolved c st, Inr x))" "keeps_filled cid (\<lambda>st. (incomplete st, Inr x))"
  "keeps_filled cid (\<lambda>st. (add_break k c st, Inr x))"
  by (auto simp: keeps_filled_def run_return_def read_state_def)

lemma keeps_if: "keeps_filled cid f \<Longrightarrow> keeps_filled cid g \<Longrightarrow> keeps_filled cid (\<lambda>st. if b then f st else g st)"
  by (auto simp: keeps_filled_def)

lemma keeps_pass_record:
  "leaves_order cid pauses \<Longrightarrow> mild body \<Longrightarrow> keeps_filled cid (pass_record cfg pauses c origin body durable only_if)"
  using pass_record_mild by (fastforce simp: keeps_filled_def)

lemma venue_status_answer:
  assumes l: "leaves_order cid pauses" and v: "venue_status cfg pauses c st = (st', Inr answer)"
  shows "bk_orders (ps_books st') cid = bk_orders (ps_books st) cid"
    and "bk_unknown_since (ps_books st') cid = bk_unknown_since (ps_books st) cid"
    and "ps_next st' = ps_next st + 1"
    and "pz_status (pauses (ps_next st)) c = StatusIs answer \<or>
      (answer = None \<and> (\<exists>why. pz_status (pauses (ps_next st)) c = NoSendRecord why))"
proof -
  have "st' = await pauses st \<and> (pz_status (pauses (ps_next st)) c = StatusIs answer \<or>
      (answer = None \<and> (\<exists>why. pz_status (pauses (ps_next st)) c = NoSendRecord why)))"
    using v by (auto simp: venue_status_def Let_def pause_of_def run_then_def
        split: status_answer.splits option.splits prod.splits if_splits sum.splits)
  then show "bk_orders (ps_books st') cid = bk_orders (ps_books st) cid"
    "bk_unknown_since (ps_books st') cid = bk_unknown_since (ps_books st) cid"
    "ps_next st' = ps_next st + 1"
    "pz_status (pauses (ps_next st)) c = StatusIs answer \<or>
      (answer = None \<and> (\<exists>why. pz_status (pauses (ps_next st)) c = NoSendRecord why))"
    by (simp_all add: leaves_orderD [OF l]) (simp add: await_def)
qed

lemma keeps_venue_status: "leaves_order cid pauses \<Longrightarrow> keeps_filled cid (venue_status cfg pauses c)"
  using venue_status_answer(1) by (fastforce simp: keeps_filled_def order_is_def)

lemma keeps_book_fill: "leaves_order cid pauses \<Longrightarrow> keeps_filled cid (book_fill cfg pauses f)"
proof -
  assume l: "leaves_order cid pauses"
  have rec: "order_is cid only_filled st'"
    if "run_then (record_recovered_fill cfg pauses f) g st1 = (st', Inr ())" "order_is cid only_filled st1"
      "\<And>x. keeps_filled cid (g x)" for g st1 st'
    using keeps_filledD [OF keeps_then [OF keeps_pass_record [OF l] that(3)] that(1) [unfolded record_recovered_fill_def] that(2)]
    by simp
  show ?thesis
    unfolding keeps_filled_def book_fill_def Let_def
    by (auto split: option.splits if_splits intro: keeps_simple dest!: rec)
qed

lemma keeps_book_fills: "leaves_order cid pauses \<Longrightarrow> keeps_filled cid (book_fills cfg pauses fs)"
proof (induction fs)
  case Nil
  then show ?case by (simp add: keeps_filled_def)
next
  case (Cons f fs)
  then show ?case
    using keeps_then [OF keeps_book_fill, of cid pauses "\<lambda>_. book_fills cfg pauses fs" cfg f]
    by (simp add: keeps_filled_def)
qed

lemma keeps_recover_order_fills: "leaves_order cid pauses \<Longrightarrow> keeps_filled cid (recover_order_fills cfg pauses s)"
  unfolding keeps_filled_def recover_order_fills_def Let_def
  by (auto split: option.splits dest!: keeps_filledD [OF keeps_then [OF keeps_book_fills keeps_simple(1)], rotated])

lemma keeps_sync_terms: "leaves_order cid pauses \<Longrightarrow> keeps_filled cid (sync_terms cfg pauses snap)"
  unfolding sync_terms_def
  by (auto intro!: keeps_then keeps_simple keeps_if keeps_pass_record split: prod.split)

section \<open>What closes an order\<close>

definition venue_closed :: "string \<Rightarrow> (nat \<Rightarrow> pause) \<Rightarrow> order_state \<Rightarrow> bool" where
  "venue_closed cid pauses s \<longleftrightarrow>
     (\<exists>i snap. pz_status (pauses i) cid = StatusIs (Some snap) \<and> is_terminal_status (snap_status snap) \<and>
        snap_filled_quantity snap = st_filled_quantity s)"

text \<open>
  The search for a missing order: the protective cancel went through, then the venue had no such order,
  then it was asked for fills and the order has every one it named.
\<close>

definition searched :: "string \<Rightarrow> (nat \<Rightarrow> pause) \<Rightarrow> order_state \<Rightarrow> bool" where
  "searched cid pauses s \<longleftrightarrow>
     (\<exists>i since y fs. pz_cancel (pauses i) \<noteq> CancelFails \<and>
        (pz_status (pauses (i + 1)) cid = StatusIs None \<or> (\<exists>why. pz_status (pauses (i + 1)) cid = NoSendRecord why)) \<and>
        pz_fills (pauses (i + 2)) since (Some y) = Some fs \<and>
        (\<forall>f \<in> set fs. fl_cid f = cid \<longrightarrow> fl_id f \<in> settled_ids s))"

definition answers :: "string \<Rightarrow> (nat \<Rightarrow> pause) \<Rightarrow> venue_order_snapshot \<Rightarrow> bool" where
  "answers cid pauses snap \<longleftrightarrow> (\<exists>i. pz_status (pauses i) cid = StatusIs (Some snap))"

lemma sync_fills_keeps:
  assumes l: "leaves_order (state_cid s) pauses"
  shows "sync_fills cfg pauses s k snap st = (st', Inr latest) \<Longrightarrow> order_is (state_cid s) only_filled st \<Longrightarrow>
    answers (state_cid s) pauses snap \<Longrightarrow>
    order_is (state_cid s) only_filled st' \<and> (\<forall>fresh. latest = Some fresh \<longrightarrow> answers (state_cid s) pauses fresh)"
proof (induction k arbitrary: snap st)
  case 0
  then show ?case by auto
next
  case (Suc k)
  obtain st1 asked where a: "recover_order_fills cfg pauses s st = (st1, Inr asked)"
    using Suc.prems(1) by (auto simp: run_then_def split: prod.splits sum.splits)
  have o1: "order_is (state_cid s) only_filled st1"
    using keeps_filledD [OF keeps_recover_order_fills [OF l] a Suc.prems(2)] .
  show ?case
  proof (cases asked)
    case False
    then show ?thesis using Suc.prems(1) a o1 by (simp add: run_then_def)
  next
    case asked: True
    obtain current n where c: "held_state (state_cid s) st1 = Some (current, n)"
      using Suc.prems(1) a asked by (auto simp: run_then_def read_state_def split: option.splits)
    show ?thesis
    proof (cases "st_filled_quantity current = snap_filled_quantity snap")
      case True
      then show ?thesis using Suc.prems(1,3) a asked c o1 by (auto simp: run_then_def read_state_def)
    next
      case False
      then obtain st2 fresh where v: "venue_status cfg pauses (state_cid s) st1 = (st2, Inr fresh)"
        using Suc.prems(1) a asked c by (auto simp: run_then_def read_state_def split: prod.splits sum.splits)
      have o2: "order_is (state_cid s) only_filled st2"
        using keeps_filledD [OF keeps_venue_status [OF l] v o1] .
      show ?thesis
      proof (cases fresh)
        case None
        then show ?thesis using Suc.prems(1) a asked c False v o2 by (auto simp: run_then_def read_state_def)
      next
        case (Some f)
        have f: "answers (state_cid s) pauses f"
          using venue_status_answer(4) [OF l v] Some by (auto simp: answers_def)
        show ?thesis
          using Suc.prems(1) a asked c False v o2 Some f Suc.IH [of f st2]
          by (auto simp: run_then_def read_state_def split: if_splits)
      qed
    qed
  qed
qed

definition closed_fairly :: "string \<Rightarrow> (nat \<Rightarrow> pause) \<Rightarrow> order_state \<Rightarrow> bool" where
  "closed_fairly cid pauses s \<longleftrightarrow>
     (is_terminal s \<longrightarrow> st_status s = FILLED \<or> venue_closed cid pauses s \<or> searched cid pauses s)"

lemma order_is_imp: "order_is cid P st \<Longrightarrow> (\<And>s. P s \<Longrightarrow> Q s) \<Longrightarrow> order_is cid Q st"
  by (auto simp: order_is_def)

lemma filled_is_fair: "order_is cid only_filled st \<Longrightarrow> order_is cid (closed_fairly cid pauses) st"
  by (erule order_is_imp) (simp add: only_filled_def closed_fairly_def)

lemma restate_order_fair:
  assumes l: "leaves_order cid pauses" and o: "order_is cid only_filled st" and a: "answers cid pauses snap"
    and r: "restate_order cfg pauses cid snap st = (st', Inr x)"
  shows "order_is cid (closed_fairly cid pauses) st'"
proof -
  obtain s where s: "bk_orders (ps_books st) cid = Some s" "state_cid s = cid" "only_filled s"
    using o by (auto simp: order_is_def)
  let ?body = "if st_status s = PENDING_REPLACE then ReplaceRejected ''the venue did not apply the change'' None
      else Restated (snap_status snap) (snap_venue_order_id snap) (Some (snap_filled_quantity snap)) ''reconciliation''"
  let ?agree = "st_filled_quantity s = snap_filled_quantity snap"
  show ?thesis
  proof (cases "st' = st")
    case True
    then show ?thesis using filled_is_fair [OF o] by simp
  next
    case False
    then obtain st1 r1 n where rec: "pass_record cfg pauses cid RECONCILE ?body False (Some n) st = (st1, Inr r1)"
        "st' = add_resolved cid st1" and agree: "is_terminal_status (snap_status snap) \<longrightarrow> ?agree"
      using r s(1) by (auto simp: restate_order_def run_then_def read_state_def held_state_def Let_def
          split: if_splits prod.splits sum.splits)
    obtain s' where s': "bk_orders (ps_books st1) cid = Some s'"
        "s' = s \<or> (\<exists>now. apply_event s (local_event cid now RECONCILE ?body) = Inr s')"
      using pass_record_order [OF l _ rec(1) s(1)] by (auto split: if_splits)
    have "state_cid s' = cid \<and> closed_fairly cid pauses s'"
      using s'(2)
    proof (elim disjE exE)
      assume "s' = s"
      then show ?thesis using s(2,3) by (simp add: closed_fairly_def only_filled_def)
    next
      fix now assume e: "apply_event s (local_event cid now RECONCILE ?body) = Inr s'"
      have "closed_fairly cid pauses s'"
      proof (cases "st_status s = PENDING_REPLACE")
        case True
        then have "only_filled s'" using mild_apply_event [OF s(3) _ e] by simp
        then show ?thesis by (simp add: closed_fairly_def only_filled_def)
      next
        case False
        then have "st_status s' = snap_status snap" "st_filled_quantity s' = st_filled_quantity s"
          using e by (auto simp: apply_event_settle apply_body_def split: if_splits)
        then show ?thesis
          using agree a by (auto simp: closed_fairly_def venue_closed_def is_terminal_def answers_def)
      qed
      then show ?thesis using apply_event_cid [OF e] s(2) by simp
    qed
    then show ?thesis using s'(1) by (simp add: rec(2) order_is_def add_resolved_def change_report_def)
  qed
qed

lemma searched_more: "searched cid pauses s \<Longrightarrow> settled_ids s \<subseteq> settled_ids s' \<Longrightarrow> searched cid pauses s'"
  unfolding searched_def by blast

lemma close_not_found_fair:
  assumes l: "leaves_order (state_cid s) pauses" and o: "bk_orders (ps_books st) (state_cid s) = Some s"
    and open': "\<not> is_terminal s" and sr: "searched (state_cid s) pauses s"
    and r: "close_not_found cfg pauses s n st = (st', Inr x)"
  shows "order_is (state_cid s) (closed_fairly (state_cid s) pauses) st'"
proof -
  obtain body st1 r1 where rec: "pass_record cfg pauses (state_cid s) RECONCILE body False (Some n) st = (st1, Inr r1)"
      and same: "bk_orders (ps_books st') = bk_orders (ps_books st1)" and plain: "\<And>r. body \<noteq> SubmitIntent r"
    using r by (auto simp: close_not_found_def run_then_def add_resolved_def incomplete_def add_break_def change_report_def
        split: if_splits prod.splits sum.splits)
  obtain s' where s': "bk_orders (ps_books st1) (state_cid s) = Some s'"
      "s' = s \<or> (\<exists>now. apply_event s (local_event (state_cid s) now RECONCILE body) = Inr s')"
    using pass_record_order [OF l plain rec o] by blast
  have "state_cid s' = state_cid s \<and> closed_fairly (state_cid s) pauses s'"
    using s'(2)
  proof (elim disjE exE)
    fix now assume e: "apply_event s (local_event (state_cid s) now RECONCILE body) = Inr s'"
    show ?thesis
      using apply_event_cid [OF e] searched_more [OF sr settled_apply_event(1) [OF e]] by (simp add: closed_fairly_def)
  qed (use sr in \<open>simp add: closed_fairly_def\<close>)
  then show ?thesis using s'(1) same by (auto simp: order_is_def)
qed

lemma run_thenD:
  "run_then r f st = (st', Inr y) \<Longrightarrow> \<exists>st1 x. r st = (st1, Inr x) \<and> f x st1 = (st', Inr y)"
  by (auto simp: run_then_def split: prod.splits sum.splits)

lemma run_thenE:
  assumes "run_then r f st = (st', Inr y)"
  obtains st1 x where "r st = (st1, Inr x)" and "f x st1 = (st', Inr y)"
  using run_thenD [OF assms] by blast

lemma read_stateD: "read_state cid st = (st', Inr (s, n)) \<Longrightarrow> st' = st \<and> bk_orders (ps_books st) cid = Some s"
  by (auto simp: read_state_def held_state_def split: option.splits)

text \<open>Fills of the order that are booked stay booked.\<close>

definition has_ids :: "string \<Rightarrow> string set \<Rightarrow> pass \<Rightarrow> bool" where
  "has_ids cid ids = order_is cid (\<lambda>s. ids \<subseteq> settled_ids s)"

lemma pass_record_ids:
  assumes l: "leaves_order cid pauses" and i: "\<And>r. body \<noteq> SubmitIntent r" and h: "has_ids cid ids st"
    and r: "pass_record cfg pauses c origin body durable only_if st = (st', res)"
  shows "has_ids cid ids st'"
    and "c = cid \<Longrightarrow> body = Filled f \<Longrightarrow> only_if = None \<Longrightarrow> res = Inr x \<Longrightarrow> has_ids cid (insert (fl_id f) ids) st'"
proof -
  obtain s where s: "bk_orders (ps_books st) cid = Some s" "state_cid s = cid" "ids \<subseteq> settled_ids s"
    using h by (auto simp: has_ids_def order_is_def)
  obtain s' where s': "bk_orders (ps_books st') cid = Some s'"
      "s' = s \<or> (\<exists>now. apply_event s (local_event c now origin body) = Inr s')"
      "\<And>x. c = cid \<Longrightarrow> res = Inr x \<Longrightarrow> only_if = None \<Longrightarrow> \<exists>now. apply_event s (local_event c now origin body) = Inr s'"
    using pass_record_order [OF l i r s(1)] by blast
  have up: "state_cid s' = cid" "ids \<subseteq> settled_ids s'"
    using s'(2) s(2,3) apply_event_cid settled_apply_event(1) by blast+
  then show "has_ids cid ids st'" using s'(1) by (simp add: has_ids_def order_is_def)
  show "has_ids cid (insert (fl_id f) ids) st'" if c: "c = cid" "body = Filled f" "only_if = None" "res = Inr x"
  proof -
    obtain now where e: "apply_event s (local_event c now origin body) = Inr s'" using s'(3) c by blast
    have "fl_id f \<in> settled_ids s'" using settled_apply_event(2) [OF e] c(2) by simp
    then show ?thesis using up s'(1) by (simp add: has_ids_def order_is_def)
  qed
qed

lemma has_ids_same [simp]:
  "has_ids cid ids (add_resolved c st) = has_ids cid ids st" "has_ids cid ids (note_correction f st) = has_ids cid ids st"
  by (simp_all add: has_ids_def)

lemma book_fill_ids:
  assumes l: "leaves_order cid pauses" and h: "has_ids cid ids st" and c: "fl_cid f = cid"
    and r: "book_fill cfg pauses f st = (st', Inr x)"
  shows "has_ids cid (insert (fl_id f) ids) st'"
proof -
  obtain s where s: "bk_orders (ps_books st) cid = Some s" "state_cid s = cid" "ids \<subseteq> settled_ids s"
    using h by (auto simp: has_ids_def order_is_def)
  have s1: "bk_orders (ps_books st) (fl_cid f) = Some s" using s(1) c by simp
  show ?thesis
  proof (cases "fl_id f \<in> settled_ids s")
    case True
    then have here: "has_ids cid (insert (fl_id f) ids) st" using s by (simp add: has_ids_def order_is_def)
    have keep: "has_ids cid (insert (fl_id f) ids) st2"
      if "record_recovered_fill cfg pauses f st1 = (st2, Inr y)" "has_ids cid (insert (fl_id f) ids) st1" for st1 st2 y
      using pass_record_ids(1) [OF l _ that(2) that(1) [unfolded record_recovered_fill_def]] by simp
    show ?thesis
      using r here s1
      by (auto simp: book_fill_def Let_def dest!: run_thenD split: if_splits) (erule keep, simp)+
  next
    case False
    then have "run_then (record_recovered_fill cfg pauses f) (\<lambda>_ st'. (add_resolved (fl_cid f) st', Inr ())) st = (st', Inr x)"
      using r s(1) c by (auto simp: book_fill_def Let_def settled_ids_def list_ex_iff image_iff split: if_splits)
    then obtain st1 y where st1: "record_recovered_fill cfg pauses f st = (st1, Inr y)" "st' = add_resolved (fl_cid f) st1"
      by (auto dest!: run_thenD)
    show ?thesis
      using pass_record_ids(2) [OF l _ h st1(1) [unfolded record_recovered_fill_def], of f y] c by (simp add: st1(2))
  qed
qed

lemma book_fills_ids:
  "leaves_order cid pauses \<Longrightarrow> has_ids cid ids st \<Longrightarrow> \<forall>f \<in> set fs. fl_cid f = cid \<Longrightarrow>
   book_fills cfg pauses fs st = (st', Inr x) \<Longrightarrow> has_ids cid (ids \<union> fl_id ` set fs) st'"
proof (induction fs arbitrary: st ids)
  case (Cons f fs)
  obtain st1 y where st1: "book_fill cfg pauses f st = (st1, Inr y)" "book_fills cfg pauses fs st1 = (st', Inr x)"
    using Cons.prems(4) by (auto dest!: run_thenD)
  have "has_ids cid (insert (fl_id f) ids) st1"
    using book_fill_ids [OF Cons.prems(1,2) _ st1(1)] Cons.prems(3) by simp
  from Cons.IH [OF Cons.prems(1) this _ st1(2)] Cons.prems(3) show ?case by simp
qed simp

lemma recover_order_fills_asked:
  assumes l: "leaves_order (state_cid s) pauses" and h: "has_ids (state_cid s) {} st"
    and r: "recover_order_fills cfg pauses s st = (st', Inr True)"
  shows "\<exists>since fs. pz_fills (pauses (ps_next st)) since (Some (req_symbol (st_request s))) = Some fs \<and>
    has_ids (state_cid s) (fl_id ` set (filter (\<lambda>f. fl_cid f = state_cid s) fs)) st'"
proof -
  let ?since = "(case bk_created (ps_books st) (state_cid s) of Some t \<Rightarrow> t | None \<Rightarrow> rep_at (ps_report st)) - mc_fill_lookback cfg"
  obtain fs u where fs: "pz_fills (pauses (ps_next st)) ?since (Some (req_symbol (st_request s))) = Some fs"
      "book_fills cfg pauses (filter (\<lambda>f. fl_cid f = state_cid s) fs) (await pauses st) = (st', Inr u)"
    using r by (auto simp: recover_order_fills_def Let_def pause_of_def run_return_def dest!: run_thenD split: option.splits)
  have "has_ids (state_cid s) {} (await pauses st)" using h l by (simp add: has_ids_def)
  from book_fills_ids [OF l this _ fs(2)] fs(1) show ?thesis by auto
qed

lemma look_again_fair:
  assumes l: "leaves_order (state_cid s) pauses" and o: "order_is (state_cid s) only_filled st"
    and c: "pz_cancel (pauses i) \<noteq> CancelFails" and i: "ps_next st = i + 1"
    and r: "look_again cfg pauses s st = (st', Inr x)"
  shows "order_is (state_cid s) (closed_fairly (state_cid s) pauses) st'"
proof -
  let ?cid = "state_cid s"
  obtain s0 n0 where s0: "read_state ?cid st = (st, Inr (s0, n0))"
    using r by (auto simp: look_again_def dest!: run_thenD) (metis prod.exhaust read_stateD)
  let ?final = "\<lambda>(current, n) st.
      if is_terminal current then (add_resolved ?cid st, Inr ())
      else if n = n0 then close_not_found cfg pauses current n st
      else run_then (venue_status cfg pauses ?cid) (\<lambda>again st.
        if again \<noteq> None then (st, Inr ())
        else if map_option snd (held_state ?cid st) \<noteq> Some n then (incomplete st, Inr ())
        else close_not_found cfg pauses current n st) st"
  let ?asked = "\<lambda>answered st. if \<not> answered then (st, Inr ()) else run_then (read_state ?cid) ?final st"
  let ?found = "\<lambda>snapshot st. if snapshot \<noteq> None then (st, Inr ())
      else run_then (recover_order_fills cfg pauses s) ?asked st"
  have "run_then (venue_status cfg pauses ?cid) ?found st = (st', Inr x)"
    using r s0 by (simp add: look_again_def run_then_def [of "read_state ?cid" _ st])
  then obtain st1 snapshot where v: "venue_status cfg pauses ?cid st = (st1, Inr snapshot)"
      and r1: "?found snapshot st1 = (st', Inr x)"
    by (rule run_thenE) (rule that)
  have o1: "order_is ?cid only_filled st1" using keeps_filledD [OF keeps_venue_status [OF l] v o] .
  show ?thesis
  proof (cases snapshot)
    case (Some y)
    then show ?thesis using r1 filled_is_fair [OF o1] by auto
  next
    case None
    have none: "pz_status (pauses (i + 1)) ?cid = StatusIs None \<or> (\<exists>why. pz_status (pauses (i + 1)) ?cid = NoSendRecord why)"
      using venue_status_answer(4) [OF l v] None by (simp add: i)
    have next1: "ps_next st1 = i + 2" using venue_status_answer(3) [OF l v] i by simp
    have "run_then (recover_order_fills cfg pauses s) ?asked st1 = (st', Inr x)" using r1 None by simp
    then obtain st2 answered where a: "recover_order_fills cfg pauses s st1 = (st2, Inr answered)"
        and r2: "?asked answered st2 = (st', Inr x)"
      by (rule run_thenE) (rule that)
    have o2: "order_is ?cid only_filled st2" using keeps_filledD [OF keeps_recover_order_fills [OF l] a o1] .
    show ?thesis
    proof (cases answered)
      case False
      then show ?thesis using r2 filled_is_fair [OF o2] by auto
    next
      case True
      have "has_ids ?cid {} st1" using o1 by (auto simp: has_ids_def order_is_def)
      then obtain since fs where fs: "pz_fills (pauses (i + 2)) since (Some (req_symbol (st_request s))) = Some fs"
          "has_ids ?cid (fl_id ` set (filter (\<lambda>f. fl_cid f = ?cid) fs)) st2"
        using recover_order_fills_asked [OF l, of st1 cfg st2] a True by (auto simp: next1)
      obtain current where cur: "bk_orders (ps_books st2) ?cid = Some current" "state_cid current = ?cid"
          "only_filled current" "fl_id ` set (filter (\<lambda>f. fl_cid f = ?cid) fs) \<subseteq> settled_ids current"
        using o2 fs(2) by (auto simp: has_ids_def order_is_def)
      have sr: "searched ?cid pauses current"
        unfolding searched_def using c none fs(1) cur(4)
        by (intro exI [of _ i] exI [of _ since] exI [of _ "req_symbol (st_request s)"] exI [of _ fs]) auto
      let ?n = "bk_stamp (ps_books st2) ?cid"
      show ?thesis
      proof (cases "is_terminal current")
        case t: True
        then show ?thesis using r2 True cur filled_is_fair [OF o2]
          by (auto simp: run_then_def read_state_def held_state_def)
      next
        case open': False
        have close: "order_is ?cid (closed_fairly ?cid pauses) st'"
          if "close_not_found cfg pauses current ?n st3 = (st', Inr x)" "bk_orders (ps_books st3) ?cid = Some current" for st3
          using close_not_found_fair [of current pauses st3 cfg ?n st' x] l cur(2) open' sr that by simp
        show ?thesis
        proof (cases "?n = n0")
          case same: True
          then have "close_not_found cfg pauses current ?n st2 = (st', Inr x)"
            using r2 True cur(1) open' by (simp add: run_then_def read_state_def held_state_def)
          then show ?thesis using close cur(1) by blast
        next
          case moved: False
          have "run_then (venue_status cfg pauses ?cid) (\<lambda>again st.
              if again \<noteq> None then (st, Inr ())
              else if map_option snd (held_state ?cid st) \<noteq> Some ?n then (incomplete st, Inr ())
              else close_not_found cfg pauses current ?n st) st2 = (st', Inr x)"
            using r2 True cur(1) open' moved by (simp add: run_then_def [of "read_state ?cid"] read_state_def held_state_def)
          then obtain st3 again where ag: "venue_status cfg pauses ?cid st2 = (st3, Inr again)"
              "(if again \<noteq> None then (st3, Inr ())
                else if map_option snd (held_state ?cid st3) \<noteq> Some ?n then (incomplete st3, Inr ())
                else close_not_found cfg pauses current ?n st3) = (st', Inr x)"
            by (rule run_thenE) (rule that)
          have b3: "bk_orders (ps_books st3) ?cid = Some current" using venue_status_answer(1) [OF l ag(1)] cur(1) by simp
          have "order_is ?cid (closed_fairly ?cid pauses) st3"
            using filled_is_fair [OF keeps_filledD [OF keeps_venue_status [OF l] ag(1) o2]] .
          then show ?thesis using ag(2) close [OF _ b3] by (auto split: if_splits)
        qed
      qed
    qed
  qed
qed

lemma resolve_not_found_fair:
  assumes l: "leaves_order (state_cid s) pauses" and o: "order_is (state_cid s) only_filled st"
    and r: "resolve_not_found cfg pauses s st = (st', Inr x)"
  shows "order_is (state_cid s) (closed_fairly (state_cid s) pauses) st'"
proof -
  let ?cid = "state_cid s" and ?now = "pz_mono (pause_of pauses st)"
  let ?first = "case bk_unknown_since (ps_books st) ?cid of Some t \<Rightarrow> t | None \<Rightarrow> ?now"
  let ?st0 = "change_books (\<lambda>b. b\<lparr>bk_unknown_since := (bk_unknown_since b)(?cid \<mapsto> ?first)\<rparr>) st"
  have o0: "order_is ?cid only_filled ?st0" using o by (simp add: order_is_def change_books_def)
  show ?thesis
  proof (cases "?now - ?first < mc_unknown_grace cfg")
    case True
    then have "st' = incomplete ?st0" using r unfolding resolve_not_found_def Let_def by simp
    then show ?thesis using filled_is_fair [OF o0] by simp
  next
    case False
    let ?after = "\<lambda>(_ :: order_state) st1. let z = pause_of pauses st1; st2 = await pauses st1
      in if pz_cancel z = CancelFails then (query_failed ?cid st2, Inr ()) else look_again cfg pauses s st2"
    have "run_then (pass_record cfg pauses ?cid RECONCILE CancelRequested False None) ?after ?st0 = (st', Inr x)"
      using r False unfolding resolve_not_found_def by (simp add: Let_def)
    then obtain st1 y where rec: "pass_record cfg pauses ?cid RECONCILE CancelRequested False None ?st0 = (st1, Inr y)"
        and a: "?after y st1 = (st', Inr x)"
      by (rule run_thenE) (rule that)
    have o1: "order_is ?cid only_filled st1" by (rule pass_record_mild [OF l _ rec o0]) simp
    then have o2: "order_is ?cid only_filled (await pauses st1)" using l by simp
    show ?thesis
    proof (cases "pz_cancel (pause_of pauses st1) = CancelFails")
      case True
      then have "st' = query_failed ?cid (await pauses st1)" using a by (simp add: Let_def)
      then show ?thesis using filled_is_fair [OF o2] by simp
    next
      case False
      have "look_again cfg pauses s (await pauses st1) = (st', Inr x)" using a False by (simp add: Let_def)
      moreover have "ps_next (await pauses st1) = ps_next st1 + 1" by (simp add: await_def)
      ultimately show ?thesis using look_again_fair [OF l o2 False [unfolded pause_of_def]] by blast
    qed
  qed
qed

lemma judge_order_fair:
  assumes l: "leaves_order (state_cid s) pauses" and o: "order_is (state_cid s) only_filled st"
    and sn: "\<And>snap. snapshot = Some snap \<Longrightarrow> answers (state_cid s) pauses snap"
    and r: "judge_order cfg pauses s snapshot st = (st', Inr x)"
  shows "order_is (state_cid s) (closed_fairly (state_cid s) pauses) st'"
proof -
  let ?cid = "state_cid s"
  show ?thesis
  proof (cases "is_terminal s")
    case True
    then show ?thesis using r filled_is_fair [OF o] by (auto simp: judge_order_def)
  next
    case open': False
    show ?thesis
    proof (cases snapshot)
      case None
      then show ?thesis using r open' resolve_not_found_fair [OF l o] by (simp add: judge_order_def Let_def)
    next
      case (Some snap)
      let ?st0 = "change_books (\<lambda>b. b\<lparr>bk_unknown_since := (bk_unknown_since b)(?cid := None)\<rparr>) st"
      have o0: "order_is ?cid only_filled ?st0" using o by (simp add: order_is_def change_books_def)
      show ?thesis
      proof (cases "snap_symbol snap \<noteq> req_symbol (st_request s) \<or> snap_side snap \<noteq> req_side (st_request s)")
        case True
        then have "st' = add_break ORPHAN_ORDER ?cid ?st0"
          using r open' Some unfolding judge_order_def Let_def by auto
        then show ?thesis using filled_is_fair [OF o0] by simp
      next
        case False
        let ?latest = "\<lambda>latest st. case latest of None \<Rightarrow> (st, Inr ()) | Some fresh \<Rightarrow> restate_order cfg pauses ?cid fresh st"
        let ?terms = "\<lambda>(_ :: unit) st.
            if snap_filled_quantity snap = st_filled_quantity s then restate_order cfg pauses ?cid snap st
            else run_then (sync_fills cfg pauses s FILL_SYNC_ATTEMPTS snap) ?latest st"
        have "run_then (sync_terms cfg pauses snap) ?terms ?st0 = (st', Inr x)"
          using r open' Some False unfolding judge_order_def Let_def by simp
        then obtain st1 u where t: "sync_terms cfg pauses snap ?st0 = (st1, Inr u)" and r1: "?terms u st1 = (st', Inr x)"
          by (rule run_thenE) (rule that)
        have o1: "order_is ?cid only_filled st1" using keeps_filledD [OF keeps_sync_terms [OF l] t o0] .
        show ?thesis
        proof (cases "snap_filled_quantity snap = st_filled_quantity s")
          case True
          then show ?thesis using r1 restate_order_fair [OF l o1 sn [OF Some]] by simp
        next
          case False
          then have "run_then (sync_fills cfg pauses s FILL_SYNC_ATTEMPTS snap) ?latest st1 = (st', Inr x)" using r1 by simp
          then obtain st2 latest where f: "sync_fills cfg pauses s FILL_SYNC_ATTEMPTS snap st1 = (st2, Inr latest)"
              and r2: "?latest latest st2 = (st', Inr x)"
            by (rule run_thenE) (rule that)
          note f2 = sync_fills_keeps [OF l f o1 sn [OF Some]]
          show ?thesis
            using r2 f2 filled_is_fair restate_order_fair [OF l] by (cases latest) auto
        qed
      qed
    qed
  qed
qed

lemma reconcile_order_fair:
  assumes l: "leaves_order (state_cid s) pauses" and b: "bk_orders (ps_books st) (state_cid s) = Some s"
    and open': "\<not> is_terminal s" and np: "st_status s \<noteq> PENDING_SUBMIT"
    and r: "reconcile_order cfg pauses s n st = (st', Inr x)"
  shows "order_is (state_cid s) (closed_fairly (state_cid s) pauses) st'"
proof -
  let ?cid = "state_cid s"
  have o: "order_is ?cid only_filled st" using b open' by (simp add: order_is_def only_filled_def)
  let ?twice = "\<lambda>n' (s' :: order_state) snapshot st. if map_option snd (held_state ?cid st) = Some n'
      then judge_order cfg pauses s' snapshot st else (incomplete st, Inr ())"
  let ?moved = "\<lambda>(s', n') st. run_then (venue_status cfg pauses ?cid) (?twice n' s') st"
  let ?first = "\<lambda>snapshot st. if map_option snd (held_state ?cid st) = Some n then judge_order cfg pauses s snapshot st
      else run_then (read_state ?cid) ?moved st"
  have "run_then (venue_status cfg pauses ?cid) ?first st = (st', Inr x)"
    using r np by (simp add: reconcile_order_def Let_def)
  then obtain st1 snapshot where v: "venue_status cfg pauses ?cid st = (st1, Inr snapshot)"
      and r1: "?first snapshot st1 = (st', Inr x)"
    by (rule run_thenE) (rule that)
  have o1: "order_is ?cid only_filled st1" using keeps_filledD [OF keeps_venue_status [OF l] v o] .
  have b1: "bk_orders (ps_books st1) ?cid = Some s" using venue_status_answer(1) [OF l v] b by simp
  have a1: "snapshot = Some snap \<Longrightarrow> answers ?cid pauses snap" for snap
    using venue_status_answer(4) [OF l v] by (auto simp: answers_def)
  show ?thesis
  proof (cases "map_option snd (held_state ?cid st1) = Some n")
    case True
    then show ?thesis using r1 judge_order_fair [OF l o1 a1] by simp
  next
    case False
    then have "run_then (read_state ?cid) ?moved st1 = (st', Inr x)" using r1 by simp
    then have "run_then (venue_status cfg pauses ?cid) (?twice (bk_stamp (ps_books st1) ?cid) s) st1 = (st', Inr x)"
      using b1 by (simp add: run_then_def [of "read_state ?cid"] read_state_def held_state_def)
    then obtain st2 again where v2: "venue_status cfg pauses ?cid st1 = (st2, Inr again)"
        and r2: "?twice (bk_stamp (ps_books st1) ?cid) s again st2 = (st', Inr x)"
      by (rule run_thenE) (rule that)
    have o2: "order_is ?cid only_filled st2" using keeps_filledD [OF keeps_venue_status [OF l] v2 o1] .
    have a2: "again = Some snap \<Longrightarrow> answers ?cid pauses snap" for snap
      using venue_status_answer(4) [OF l v2] by (auto simp: answers_def)
    show ?thesis
      using r2 judge_order_fair [OF l o2 a2] filled_is_fair [OF o2] by (auto split: if_splits)
  qed
qed

section \<open>Properties\<close>


definition sample_sent :: order_state where
  "sample_sent = (new_order sample_request)\<lparr>st_status := ACCEPTED\<rparr>"

definition sample_closed_snapshot :: venue_order_snapshot where
  "sample_closed_snapshot =
     \<lparr>snap_cid = ''A1'', snap_venue_order_id = None, snap_symbol = sample_symbol, snap_side = BUY,
      snap_quantity = st_quantity sample_sent, snap_filled_quantity = 0, snap_status = CANCELED,
      snap_limit_price = None, snap_ts = 3\<rparr>"

definition sample_asked :: pause where
  "sample_asked = sample_pause\<lparr>pz_status := (\<lambda>_. StatusIs (Some sample_closed_snapshot))\<rparr>"

definition sample_working :: pass where
  "sample_working = sample_pass\<lparr>ps_mgr := sample_ready\<lparr>om_books :=
     (om_books sample_ready)\<lparr>bk_orders := [''A1'' \<mapsto> sample_sent], bk_open := [sample_sent]\<rparr>\<rparr>\<rparr>"

lemma sample_asked_fields [simp]:
  "pz_meanwhile sample_asked = (\<lambda>x. x)" "pz_afterwards sample_asked = (\<lambda>x. x)"
  "pz_status sample_asked = (\<lambda>_. StatusIs (Some sample_closed_snapshot))" "pz_now sample_asked = 7"
  "pz_mono sample_asked = 9" "pz_disk sample_asked = (\<lambda>_. True)"
  by (simp_all add: sample_asked_def sample_pause_def)

lemma sample_sent_fields [simp]:
  "state_cid sample_sent = ''A1''" "st_status sample_sent = ACCEPTED" "st_filled_quantity sample_sent = 0"
  "st_request sample_sent = sample_request" "is_terminal sample_sent = False"
  by (simp_all add: sample_sent_def new_order_def state_cid_def is_terminal_def)

lemma sample_working_fields [simp]:
  "bk_orders (ps_books sample_working) = [''A1'' \<mapsto> sample_sent]" "bk_stamp (ps_books sample_working) c = 0"
  "bk_unjournalled (ps_books sample_working) = []"
  "ps_next sample_working = 0"
  by (simp_all add: sample_working_def sample_pass_def sample_ready_def blank_manager_def empty_books_def)

lemma sample_closed_fields [simp]:
  "snap_cid sample_closed_snapshot = ''A1''" "snap_symbol sample_closed_snapshot = req_symbol sample_request"
  "snap_side sample_closed_snapshot = req_side sample_request" "snap_filled_quantity sample_closed_snapshot = 0"
  by (simp_all add: sample_closed_snapshot_def sample_request_def)

lemma sample_closing:
  "\<exists>s. apply_event sample_sent (local_event ''A1'' 7 RECONCILE (Restated CANCELED None (Some 0) ''reconciliation'')) = Inr s \<and>
     st_status s = CANCELED \<and> st_anomalies s = []"
  by (simp add: apply_event_settle apply_body_def local_event_def sample_sent_def new_order_def state_cid_def
      apply_restated_def PENDING_STATUSES_def is_terminal_def note_if_def)

lemma sample_records:
  assumes o: "bk_orders (ps_books (st::pass)) ''A1'' = Some sample_sent" and z: "bk_stamp (ps_books st) ''A1'' = 0"
    and u: "bk_unjournalled (ps_books st) = []"
  shows "\<exists>st' s. pass_record sample_manager_config (\<lambda>_. sample_asked) ''A1'' RECONCILE
      (Restated CANCELED None (Some 0) ''reconciliation'') False (Some 0) st = (st', Inr s) \<and>
     bk_orders (ps_books st') ''A1'' = Some s \<and> st_status s = CANCELED"
proof -
  let ?e = "local_event ''A1'' 7 RECONCILE (Restated CANCELED None (Some 0) ''reconciliation'')"
  obtain s where s: "apply_event sample_sent ?e = Inr s" "st_status s = CANCELED" "st_anomalies s = []"
    using sample_closing by blast
  let ?j = "wd_journal (ps_world st)" and ?b = "ps_books st" and ?m = "ps_mgr st"
  obtain j where w: "write_entry (\<lambda>_. True) 7 ?j ?e = (j, Inr ())"
    by (simp add: write_entry_def Let_def is_intent_def local_event_def)
  have wa: "write_all (write_entry (\<lambda>_. True) 7) ?j [] ?e = (j, [], None)" by (simp add: write_all_def w)
  let ?c = "?b\<lparr>bk_unjournalled := []\<rparr>"
  have n: "next_state ?c ?e = Inr s" using o s(1) by (simp add: next_state_def local_event_def)
  have an: "new_anomalies ?c ?e s = []" using o s(3) by (simp add: new_anomalies_def local_event_def)
  obtain b where a: "apply_in_memory (max_age_of ?m) 7 9 ?c ?e = (b, Inr (s, []))"
    by (simp add: apply_in_memory_def n an Let_def)
  have "state_cid s = ''A1''" using apply_event_cid [OF s(1)] by simp
  then have bo: "bk_orders b ''A1'' = Some s"
    using a by (auto simp: apply_in_memory_def n Let_def)
  have r: "record_now (write_entry (\<lambda>_. True) 7) (max_age_of ?m) 7 9 ?j ?b ?e False (Some 0) = (j, b, Inr (s, []))"
    using o z u wa a by (simp add: record_now_def)
  show ?thesis
    using r bo s(2) by (simp add: pass_record_def Let_def record_event_def await_def others_run_def pause_of_def)
qed

lemma sample_closes:
  "\<exists>st' s'. reconcile_order sample_manager_config (\<lambda>_. sample_asked) sample_sent 0 sample_working = (st', Inr ()) \<and>
     bk_orders (ps_books st') ''A1'' = Some s' \<and> st_status s' = CANCELED"
proof -
  let ?p = "\<lambda>_ :: nat. sample_asked"
  let ?st1 = "sample_working\<lparr>ps_next := Suc 0\<rparr>"
  let ?st2 = "change_books (\<lambda>b. b\<lparr>bk_unknown_since := (bk_unknown_since b)(''A1'' := None)\<rparr>) ?st1"
  have v: "venue_status sample_manager_config ?p ''A1'' sample_working = (?st1, Inr (Some sample_closed_snapshot))"
    by (simp add: venue_status_def Let_def await_def others_run_def pause_of_def)
  have t: "sync_terms sample_manager_config ?p sample_closed_snapshot ?st2 = (?st2, Inr ())"
    by (simp add: sync_terms_def run_then_def Reconcile.read_state_def held_state_def change_books_def
        sample_closed_snapshot_def sample_sent_def new_order_def)
  obtain st3 r where rec: "pass_record sample_manager_config ?p ''A1'' RECONCILE
      (Restated CANCELED None (Some 0) ''reconciliation'') False (Some 0) ?st2 = (st3, Inr r)"
      and o3: "bk_orders (ps_books st3) ''A1'' = Some r" and st: "st_status r = CANCELED"
    using sample_records [of ?st2] by (auto simp: change_books_def)
  have "restate_order sample_manager_config ?p ''A1'' sample_closed_snapshot ?st2 = (add_resolved ''A1'' st3, Inr ())"
    using rec by (simp add: restate_order_def run_then_def Reconcile.read_state_def held_state_def change_books_def
        sample_closed_snapshot_def status_differs_def Let_def PENDING_STATUSES_def)
  then have "reconcile_order sample_manager_config ?p sample_sent 0 sample_working = (add_resolved ''A1'' st3, Inr ())"
    using v t by (simp add: reconcile_order_def judge_order_def run_then_def held_state_def)
  then show ?thesis using o3 st by (simp add: add_resolved_def change_report_def)
qed


end
