(* ===== verification/FixCodec.thy ===== *)
theory FixCodec
  imports Digits
begin

text \<open>
  The codec of \<open>fix/message.py\<close>: field values, the encoder, the parser of a frame's fs, the check of
  one frame and the strict decoder. The stream parser is in \<open>FixStream\<close>.

  Bytes are \<open>string\<close>, and so is text decoded as latin-1, which maps each byte to the character of the
  same code. A Python text on the way out may hold other characters, so the values to encode hold
  code points. A frame is given from its first byte on, and positions count from there.
\<close>

section \<open>Errors and messages\<close>

datatype codec_error = FieldFormat "int option" | Garbled string

type_synonym 'a codec = "codec_error + 'a"

record field_defect =
  fd_reason :: int
  fd_text :: string
  fd_tag :: "int option"

definition REASON_INVALID_TAG :: int where
  "REASON_INVALID_TAG = 0"

definition REASON_TAG_WITHOUT_VALUE :: int where
  "REASON_TAG_WITHOUT_VALUE = 4"

datatype field_text = Plain string | Secret string

fun text_of :: "field_text \<Rightarrow> string" where
  "text_of (Plain s) = s"
| "text_of (Secret s) = s"

fun is_secret :: "field_text \<Rightarrow> bool" where
  "is_secret (Plain s) = False"
| "is_secret (Secret s) = True"

record fix_message =
  fm_begin :: string
  fm_fields :: "(int \<times> field_text) list"
  fm_defect :: "field_defect option"

definition get_field :: "fix_message \<Rightarrow> int \<Rightarrow> string option" where
  "get_field m tag = map_option text_of (map_of (fm_fields m) tag)"

definition require_field :: "fix_message \<Rightarrow> int \<Rightarrow> string codec" where
  "require_field m tag = (case get_field m tag of None \<Rightarrow> Inl (FieldFormat (Some tag)) | Some v \<Rightarrow> Inr v)"

definition msg_type :: "fix_message \<Rightarrow> string" where
  "msg_type m = (case get_field m 35 of None \<Rightarrow> [] | Some t \<Rightarrow> t)"

definition same_message :: "fix_message \<Rightarrow> fix_message \<Rightarrow> bool" where
  "same_message m n =
     (fm_begin m = fm_begin n \<and> map (\<lambda>(t, v). (t, text_of v)) (fm_fields m) = map (\<lambda>(t, v). (t, text_of v)) (fm_fields n) \<and>
      fm_defect m = fm_defect n)"

definition SENSITIVE_TAGS :: "int list" where
  "SENSITIVE_TAGS = [89, 91, 96, 553, 554, 925, 1402, 1404]"

definition REDACTED :: string where
  "REDACTED = ''**********''"

definition shown :: "int \<Rightarrow> field_text \<Rightarrow> string" where
  "shown tag v = (if tag \<in> set SENSITIVE_TAGS \<or> is_secret v then REDACTED else text_of v)"

fun join_with :: "string \<Rightarrow> string list \<Rightarrow> string" where
  "join_with sep [] = []"
| "join_with sep [s] = s"
| "join_with sep (s # rest) = s @ sep @ join_with sep rest"

definition repr_message :: "fix_message \<Rightarrow> string" where
  "repr_message m =
     (let fs = fm_fields m; n = length fs;
          parts = map (\<lambda>(tag, v). int_str tag @ ''='' @ shown tag v) (take 64 fs);
          more = (if n \<le> 64 then [] else '' (+'' @ nat_str (n - 64) @ '' fields)'')
      in ''FixMessage('' @ fm_begin m @ '' '' @ join_with '' '' parts @ more @ '')'')"

section \<open>Values\<close>

text \<open>\<open>VOther\<close> is a value of any other type, a float among them.\<close>

datatype field_value =
    VText "nat list"
  | VSecret "nat list"
  | VInt int
  | VBool bool
  | VDecimal dec
  | VNonFinite
  | VOther

definition codes :: "string \<Rightarrow> nat list" where
  "codes s = map of_char s"

text \<open>\<open>format(value, "f")\<close> of a finite decimal.\<close>

fun format_dec :: "dec \<Rightarrow> string" where
  "format_dec (Dec c e) =
     (let ds = nat_str (nat \<bar>c\<bar>); n = length ds; k = nat (- e);
          body =
            (if 0 \<le> e then (if c = 0 then ds else ds @ replicate (nat e) CHR ''0'')
             else if k < n then take (n - k) ds @ ''.'' @ drop (n - k) ds
             else ''0.'' @ replicate (k - n) CHR ''0'' @ ds)
      in if c < 0 then CHR ''-'' # body else body)"

definition format_value :: "field_value \<Rightarrow> int \<Rightarrow> nat list codec" where
  "format_value v tag =
     (case v of
        VSecret s \<Rightarrow> Inr s
      | VText s \<Rightarrow> Inr s
      | VBool b \<Rightarrow> Inr (codes (if b then ''Y'' else ''N''))
      | VInt i \<Rightarrow> Inr (codes (int_str i))
      | VDecimal d \<Rightarrow> Inr (codes (format_dec d))
      | VNonFinite \<Rightarrow> Inl (FieldFormat (Some tag))
      | VOther \<Rightarrow> Inl (FieldFormat (Some tag)))"

text \<open>A pattern that ends in \<open>$\<close> also matches before a final newline.\<close>

definition chomp :: "string \<Rightarrow> string" where
  "chomp s = (if s \<noteq> [] \<and> last s = CHR 0x0A then butlast s else s)"

definition is_number :: "string \<Rightarrow> bool" where
  "is_number s \<longleftrightarrow> s \<noteq> [] \<and> list_all is_digit s"

text \<open>\<open>-?(\\d+(\\.\\d*)?|\\.\\d+)\<close>, and the decimal it denotes.\<close>

definition parse_decimal :: "string \<Rightarrow> int \<Rightarrow> dec codec" where
  "parse_decimal s tag =
     (let t = chomp s; negative = (t \<noteq> [] \<and> hd t = CHR ''-''); u = (if negative then tl t else t);
          whole = takeWhile is_digit u; rest = dropWhile is_digit u;
          fraction = (if rest = [] then [] else tl rest)
      in if (rest = [] \<or> hd rest = CHR ''.'') \<and> list_all is_digit fraction \<and> (whole \<noteq> [] \<or> fraction \<noteq> [])
         then Inr (Dec ((if negative then - 1 else 1) * int (digits_value (whole @ fraction))) (- int (length fraction)))
         else Inl (FieldFormat (Some tag)))"

definition parse_seq_num :: "string \<Rightarrow> int \<Rightarrow> nat codec" where
  "parse_seq_num s tag =
     (let t = chomp s
      in if is_number t \<and> length t \<le> 18 then Inr (digits_value t) else Inl (FieldFormat (Some tag)))"

section \<open>Timestamps\<close>

text \<open>
  A moment is in microseconds since the start of the year 1 in UTC, which is how \<open>datetime\<close> compares
  and subtracts; \<open>Naive\<close> is a datetime without a zone. The calendar is the proleptic Gregorian one.
\<close>

datatype moment = Naive | Aware int

definition days_before_year :: "nat \<Rightarrow> nat" where
  "days_before_year y = (let n = y - 1 in 365 * n + n div 4 - n div 100 + n div 400)"

definition is_leap :: "nat \<Rightarrow> bool" where
  "is_leap y = (y mod 4 = 0 \<and> (y mod 100 \<noteq> 0 \<or> y mod 400 = 0))"

definition days_in_months :: "nat \<Rightarrow> nat list" where
  "days_in_months y = [31, if is_leap y then 29 else 28, 31, 30, 31, 30, 31, 31, 30, 31, 30, 31]"

definition days_in_month :: "nat \<Rightarrow> nat \<Rightarrow> nat" where
  "days_in_month y mo = days_in_months y ! (mo - 1)"

definition days_before_month :: "nat \<Rightarrow> nat \<Rightarrow> nat" where
  "days_before_month y mo = sum_list (take (mo - 1) (days_in_months y))"

text \<open>Days since the first of January of the year 1.\<close>

definition day_number :: "nat \<Rightarrow> nat \<Rightarrow> nat \<Rightarrow> nat" where
  "day_number y mo d = days_before_year y + days_before_month y mo + (d - 1)"

definition valid_date :: "nat \<Rightarrow> nat \<Rightarrow> nat \<Rightarrow> bool" where
  "valid_date y mo d \<longleftrightarrow> 1 \<le> y \<and> y \<le> 9999 \<and> 1 \<le> mo \<and> mo \<le> 12 \<and> 1 \<le> d \<and> d \<le> days_in_month y mo"

definition MAX_MOMENT :: int where
  "MAX_MOMENT = int (days_before_year 10000) * 86400000000 - 1"

lemma days_before_year_least: "365 * (y - 1) \<le> days_before_year y"
proof -
  have "(y - 1) div 100 \<le> (y - 1) div 4" by (rule div_le_mono2) simp_all
  then have "365 * (y - 1) \<le> 365 * (y - 1) + (y - 1) div 4 - (y - 1) div 100" by linarith
  then show ?thesis unfolding days_before_year_def Let_def by linarith
qed

text \<open>The year, month and day of a day number, searched upwards from a lower bound of the year.\<close>

function year_from :: "nat \<Rightarrow> nat \<Rightarrow> nat" where
  "year_from y n = (if n < days_before_year (y + 1) then y else year_from (y + 1) n)"
  by auto
termination
proof (relation "measure (\<lambda>(y, n). n + 2 - y)")
  show "((y + 1, n), (y, n)) \<in> measure (\<lambda>(y, n). n + 2 - y)" if "\<not> n < days_before_year (y + 1)" for y n
    using that days_before_year_least [of "y + 1"] by simp
qed simp

declare year_from.simps [simp del]

fun month_from :: "nat list \<Rightarrow> nat \<Rightarrow> nat \<Rightarrow> nat \<times> nat" where
  "month_from [] mo n = (mo, n + 1)"
| "month_from (k # ks) mo n = (if n < k then (mo, n + 1) else month_from ks (mo + 1) (n - k))"

definition date_of :: "nat \<Rightarrow> nat \<times> nat \<times> nat" where
  "date_of n =
     (let y = year_from (n div 366 + 1) n
      in case month_from (days_in_months y) 1 (n - days_before_year y) of (mo, d) \<Rightarrow> (y, mo, d))"

definition pad :: "nat \<Rightarrow> nat \<Rightarrow> string" where
  "pad k n = (let s = nat_str n in replicate (k - length s) CHR ''0'' @ s)"

text \<open>\<open>YYYYMMDD-HH:MM:SS.sss\<close>. The year is padded to four digits, as it is from the year 1000 on.\<close>

definition format_utc_timestamp :: "moment \<Rightarrow> string codec" where
  "format_utc_timestamp m =
     (case m of
        Naive \<Rightarrow> Inl (FieldFormat None)
      | Aware t \<Rightarrow>
          (let ms = nat (t div 1000); s = ms div 1000; mi = s div 60; h = mi div 60
           in case date_of (h div 24) of
                (y, mo, d) \<Rightarrow>
                  Inr (pad 4 y @ pad 2 mo @ pad 2 d @ ''-'' @ pad 2 (h mod 24) @ '':'' @ pad 2 (mi mod 60) @ '':'' @
                       pad 2 (s mod 60) @ ''.'' @ pad 3 (ms mod 1000))))"

text \<open>\<open>(\\d{4})(\\d{2})(\\d{2})-(\\d{2}):(\\d{2}):(\\d{2})(?:\\.(\\d{1,12}))?\<close>\<close>

definition timestamp_groups :: "string \<Rightarrow> (nat list \<times> string) option" where
  "timestamp_groups s =
     (let t = chomp s; part = (\<lambda>i k. take k (drop i t)); fraction = drop 18 t
      in if length t < 17 \<or> t ! 8 \<noteq> CHR ''-'' \<or> t ! 11 \<noteq> CHR '':'' \<or> t ! 14 \<noteq> CHR '':'' then None
         else if \<not> (list_all is_digit (part 0 8) \<and> list_all is_digit (part 9 2) \<and> list_all is_digit (part 12 2) \<and>
                    list_all is_digit (part 15 2)) then None
         else if length t \<noteq> 17 \<and> \<not> (t ! 17 = CHR ''.'' \<and> is_number fraction \<and> length fraction \<le> 12) then None
         else Some (map digits_value [part 0 4, part 4 2, part 6 2, part 9 2, part 12 2, part 15 2], fraction))"

definition parse_utc_timestamp :: "string \<Rightarrow> int \<Rightarrow> int codec" where
  "parse_utc_timestamp s tag =
     (case timestamp_groups s of
        Some ([y, mo, d, h, mi, sec], fraction) \<Rightarrow>
          (let micros = digits_value (take 6 (fraction @ replicate (6 - length fraction) CHR ''0''));
               leap = (sec = 60); sec' = (if leap then 59 else sec);
               t = ((int (day_number y mo d) * 24 + int h) * 60 + int mi) * 60 + int sec';
               moment = t * 1000000 + int micros
           in if \<not> (valid_date y mo d \<and> h \<le> 23 \<and> mi \<le> 59 \<and> sec' \<le> 59) then Inl (FieldFormat (Some tag))
              else if leap \<and> MAX_MOMENT < moment + 1000000 then Inl (FieldFormat (Some tag))
              else Inr (if leap then moment + 1000000 else moment))
      | _ \<Rightarrow> Inl (FieldFormat (Some tag)))"

section \<open>Encoding\<close>

definition SOH :: char where
  "SOH = CHR 0x01"

definition DATA_FIELDS :: "(int \<times> int) list" where
  "DATA_FIELDS =
     [(93, 89), (90, 91), (95, 96), (212, 213), (348, 349), (350, 351), (352, 353), (354, 355), (356, 357),
      (358, 359), (360, 361), (362, 363), (364, 365), (445, 446), (618, 619), (621, 622), (1401, 1402),
      (1403, 1404), (1664, 1665)]"

definition byte_sum :: "string \<Rightarrow> nat" where
  "byte_sum s = sum_list (map of_char s)"

definition checksum :: "string \<Rightarrow> nat" where
  "checksum s = byte_sum s mod 256"

definition latin1 :: "nat list \<Rightarrow> int \<Rightarrow> string codec" where
  "latin1 cs tag = (if list_all (\<lambda>c. c < 256) cs then Inr (map char_of cs) else Inl (FieldFormat (Some tag)))"

text \<open>One field after the one before it, which is given by its tag and its bytes.\<close>

definition encode_field :: "(int \<times> int) list \<Rightarrow> (int \<times> string) option \<Rightarrow> int \<Rightarrow> field_value \<Rightarrow> string codec" where
  "encode_field data previous tag v =
     (if tag \<le> 0 then Inl (FieldFormat (Some tag))
      else bind_result (format_value v tag) (\<lambda>cs.
        if cs = [] then Inl (FieldFormat (Some tag))
        else bind_result (latin1 cs tag) (\<lambda>raw.
          if tag \<in> snd ` set data
          then (case previous of
                  Some (before_tag, before_raw) \<Rightarrow>
                    if map_of data before_tag = Some tag \<and> before_raw = nat_str (length raw) then Inr raw
                    else Inl (FieldFormat (Some tag))
                | None \<Rightarrow> Inl (FieldFormat (Some tag)))
          else if SOH \<in> set raw then Inl (FieldFormat (Some tag)) else Inr raw)))"

fun encode_from :: "(int \<times> int) list \<Rightarrow> (int \<times> string) option \<Rightarrow> (int \<times> field_value) list \<Rightarrow> string codec" where
  "encode_from data previous [] = Inr []"
| "encode_from data previous ((tag, v) # rest) =
     bind_result (encode_field data previous tag v) (\<lambda>raw.
     bind_result (encode_from data (Some (tag, raw)) rest) (\<lambda>out.
       Inr (int_str tag @ ''='' @ raw @ [SOH] @ out)))"

definition encode_fields :: "(int \<times> int) list \<Rightarrow> (int \<times> field_value) list \<Rightarrow> string codec" where
  "encode_fields data fs = encode_from data None fs"

text \<open>\<open>FIX(T)?\\.\\d+\\.\\d+\<close>\<close>

definition begin_string_ok :: "string \<Rightarrow> bool" where
  "begin_string_ok s =
     (let t = chomp s; u = drop 3 t; v = (if u \<noteq> [] \<and> hd u = CHR ''T'' then tl u else u);
          minor = dropWhile is_digit (tl v)
      in take 3 t = ''FIX'' \<and> v \<noteq> [] \<and> hd v = CHR ''.'' \<and> takeWhile is_digit (tl v) \<noteq> [] \<and>
         minor \<noteq> [] \<and> hd minor = CHR ''.'' \<and> is_number (tl minor))"

definition trailer :: "string \<Rightarrow> string" where
  "trailer frame = ''10='' @ pad 3 (checksum frame) @ [SOH]"

definition encode_frame :: "string \<Rightarrow> string \<Rightarrow> string codec" where
  "encode_frame begin_string body =
     (if take 3 body \<noteq> ''35='' then Inl (FieldFormat (Some 35))
      else if \<not> begin_string_ok begin_string then Inl (FieldFormat (Some 8))
      else
        (let frame = ''8='' @ begin_string @ [SOH] @ ''9='' @ nat_str (length body) @ [SOH] @ body
         in Inr (frame @ trailer frame)))"

definition encode :: "(int \<times> int) list \<Rightarrow> string \<Rightarrow> (int \<times> field_value) list \<Rightarrow> string codec" where
  "encode data begin_string fs =
     bind_result (encode_fields data fs) (encode_frame begin_string)"

section \<open>Decoding\<close>

definition split_first :: "char \<Rightarrow> string \<Rightarrow> (string \<times> string) option" where
  "split_first c s =
     (if c \<in> set s then Some (takeWhile (\<lambda>x. x \<noteq> c) s, tl (dropWhile (\<lambda>x. x \<noteq> c) s)) else None)"

definition parse_tag :: "string \<Rightarrow> int option" where
  "parse_tag s =
     (if \<not> is_number s \<or> hd s = CHR ''0'' \<or> 9 < length s then None else Some (int (digits_value s)))"

text \<open>
  The value at the start of \<open>rest\<close>, and what follows its delimiter. \<open>pending\<close> is the length and the tag
  a length field just announced.
\<close>

definition take_value :: "(nat \<times> int) option \<Rightarrow> int option \<Rightarrow> string \<Rightarrow> (string \<times> string) codec" where
  "take_value pending tag rest =
     (case pending of
        Some (n, t) \<Rightarrow>
          (if tag = Some t
           then (if length rest \<le> n \<or> rest ! n \<noteq> SOH then Inl (Garbled ''data field does not match its length'')
                 else Inr (take n rest, drop (n + 1) rest))
           else (case split_first SOH rest of None \<Rightarrow> Inl (Garbled ''field without a delimiter'') | Some p \<Rightarrow> Inr p))
      | None \<Rightarrow> (case split_first SOH rest of None \<Rightarrow> Inl (Garbled ''field without a delimiter'') | Some p \<Rightarrow> Inr p))"

definition field_problem :: "int option \<Rightarrow> string \<Rightarrow> field_defect option" where
  "field_problem tag v =
     (case tag of
        None \<Rightarrow> Some \<lparr>fd_reason = REASON_INVALID_TAG, fd_text = ''invalid tag number'', fd_tag = None\<rparr>
      | Some t \<Rightarrow>
          (if v = []
           then Some \<lparr>fd_reason = REASON_TAG_WITHOUT_VALUE, fd_text = ''tag '' @ int_str t @ '' has no value'', fd_tag = Some t\<rparr>
           else None))"

definition announced :: "(int \<times> int) list \<Rightarrow> int option \<Rightarrow> string \<Rightarrow> (nat \<times> int) option codec" where
  "announced data tag v =
     (case tag of
        None \<Rightarrow> Inr None
      | Some t \<Rightarrow>
          (case map_of data t of
             None \<Rightarrow> Inr None
           | Some dt \<Rightarrow>
               (if is_number v then Inr (Some (digits_value (take 12 v), dt))
                else Inl (Garbled ''data length field is not a number''))))"

lemma take_value_shorter: "take_value p tag rest = Inr (v, rest') \<Longrightarrow> length rest' < length rest"
proof -
  assume a: "take_value p tag rest = Inr (v, rest')"
  have "length (tl (dropWhile (\<lambda>x. x \<noteq> SOH) rest)) < length rest" if "SOH \<in> set rest"
  proof -
    have "dropWhile (\<lambda>x. x \<noteq> SOH) rest \<noteq> []" using that by (auto simp: dropWhile_eq_Nil_conv)
    then show ?thesis using length_dropWhile_le [of "\<lambda>x. x \<noteq> SOH" rest]
      by (cases "dropWhile (\<lambda>x. x \<noteq> SOH) rest") auto
  qed
  then show ?thesis using a by (auto simp: take_value_def split_first_def split: option.splits if_splits prod.splits)
qed

lemma split_first_shorter: "split_first c s = Some (a, b) \<Longrightarrow> length b < length s"
proof -
  assume a: "split_first c s = Some (a, b)"
  then have "dropWhile (\<lambda>x. x \<noteq> c) s \<noteq> []" by (auto simp: split_first_def dropWhile_eq_Nil_conv split: if_splits)
  then show ?thesis using a length_dropWhile_le [of "\<lambda>x. x \<noteq> c" s]
    by (cases "dropWhile (\<lambda>x. x \<noteq> c) s") (auto simp: split_first_def split: if_splits)
qed

function parse_from ::
    "(int \<times> int) list \<Rightarrow> (nat \<times> int) option \<Rightarrow> string \<Rightarrow> ((int \<times> string) list \<times> field_defect option) codec" where
  "parse_from data pending raw =
     (if raw = [] then Inr ([], None)
      else case split_first CHR ''='' raw of
        None \<Rightarrow> Inl (Garbled (''field without '' @ [CHR 0x27, CHR ''='', CHR 0x27]))
      | Some (tag_text, after) \<Rightarrow>
          (let tag = parse_tag tag_text
           in case take_value pending tag after of
                Inl e \<Rightarrow> Inl e
              | Inr (v, rest) \<Rightarrow>
                  bind_result (announced data tag v) (\<lambda>pending'.
                  bind_result (parse_from data pending' rest) (\<lambda>(fs, defect).
                    Inr (case tag of None \<Rightarrow> fs | Some t \<Rightarrow> (t, v) # fs,
                         or_else (field_problem tag v) defect)))))"
  by pat_completeness auto
termination
  by (relation "measure (\<lambda>(_, _, raw). length raw)") (auto dest!: take_value_shorter split_first_shorter)

declare parse_from.simps [simp del]

definition parse_fields :: "(int \<times> int) list \<Rightarrow> string \<Rightarrow> ((int \<times> string) list \<times> field_defect option) codec" where
  "parse_fields data raw = parse_from data None raw"

text \<open>A field that does not read raises nothing but \<open>GarbledMessageError\<close>.\<close>

lemma parse_from_garbled: "parse_from data pending raw = Inl e \<Longrightarrow> \<exists>w. e = Garbled w"
proof (induction data pending raw arbitrary: e rule: parse_from.induct)
  case (1 data pending raw)
  have taken: "\<exists>w. e = Garbled w" if "take_value pending tag u = Inl e" for pending tag u e
    using that by (auto simp: take_value_def split: option.splits if_splits prod.splits)
  have said: "\<exists>w. e = Garbled w" if "announced data tag v = Inl e" for tag v e
    using that by (auto simp: announced_def split: option.splits if_splits)
  obtain tag_text after where s: "raw = [] \<or> split_first CHR ''='' raw = None \<or> split_first CHR ''='' raw = Some (tag_text, after)"
    by (cases "split_first CHR ''='' raw") auto
  show ?case
  proof (cases "raw = [] \<or> split_first CHR ''='' raw = None")
    case True
    then show ?thesis using "1.prems" by (auto simp: parse_from.simps [of data pending raw] split: if_splits)
  next
    case False
    with s have sp: "split_first CHR ''='' raw = Some (tag_text, after)" and ne: "raw \<noteq> []" by auto
    show ?thesis
    proof (cases "take_value pending (parse_tag tag_text) after")
      case (Inl e')
      then show ?thesis using "1.prems" sp ne taken by (auto simp: parse_from.simps [of data pending raw])
    next
      case (Inr r)
      obtain v rest where r: "r = (v, rest)" by fastforce
      show ?thesis
      proof (cases "announced data (parse_tag tag_text) v")
        case (Inl e')
        then show ?thesis using "1.prems" sp ne Inr r said by (auto simp: parse_from.simps [of data pending raw])
      next
        case a: (Inr p')
        show ?thesis
          using "1.IH" [OF ne sp HOL.refl HOL.refl Inr [unfolded r]] "1.prems" sp ne Inr r a
          by (auto simp: parse_from.simps [of data pending raw] bind_result_def Let_def split: sum.splits)
      qed
    qed
  qed
qed

section \<open>Checking one frame\<close>

definition DEFAULT_MAX_BODY_LENGTH :: nat where
  "DEFAULT_MAX_BODY_LENGTH = 2 ^ 20"

definition MAX_BEGIN_STRING_FIELD :: nat where
  "MAX_BEGIN_STRING_FIELD = 32"

definition TRAILER_LENGTH :: nat where
  "TRAILER_LENGTH = 7"

text \<open>\<open>buf.find(c, a, b)\<close>.\<close>

definition find_char :: "char \<Rightarrow> nat \<Rightarrow> nat \<Rightarrow> string \<Rightarrow> nat option" where
  "find_char c a b s =
     (let t = take (b - a) (drop a s)
      in if c \<in> set t then Some (a + length (takeWhile (\<lambda>x. x \<noteq> c) t)) else None)"

definition begins :: "string \<Rightarrow> string \<Rightarrow> bool" where
  "begins whole part \<longleftrightarrow> take (length part) whole = part"

datatype scan = NeedMore | BadFrame string | GoodFrame string nat nat

text \<open>From the start of the body on: the body, its end, the checksum.\<close>

definition scan_body :: "string \<Rightarrow> nat \<Rightarrow> nat \<Rightarrow> string \<Rightarrow> scan" where
  "scan_body begin_string body_length body_start s =
     (let body_end = body_start + body_length; frame_end = body_end + TRAILER_LENGTH;
          declared = take 3 (drop (body_end + 3) s)
      in if \<not> begins ''35='' (take 3 (drop body_start s)) then BadFrame ''MsgType is not the third field''
         else if length s < frame_end then NeedMore
         else if s ! (body_end - 1) \<noteq> SOH then BadFrame ''BodyLength is wrong''
         else if take 3 (drop body_end s) \<noteq> ''10='' \<or> s ! (frame_end - 1) \<noteq> SOH
         then BadFrame ''BodyLength is wrong or CheckSum is not last''
         else if \<not> is_number declared then BadFrame ''CheckSum is not three digits''
         else if digits_value declared \<noteq> checksum (take body_end s) then BadFrame ''CheckSum is wrong''
         else GoodFrame begin_string body_start frame_end)"

definition scan_length :: "nat \<Rightarrow> string \<Rightarrow> nat \<Rightarrow> string \<Rightarrow> scan" where
  "scan_length limit begin_string length_start s =
     (let tag = take 2 (drop length_start s); digits_limit = length (nat_str limit) + 1;
          digits_start = length_start + 2
      in if \<not> begins ''9='' tag then BadFrame ''BodyLength is not the second field''
         else if length tag < 2 then NeedMore
         else case find_char SOH digits_start (digits_start + digits_limit) s of
           None \<Rightarrow>
             (if digits_limit \<le> length s - digits_start then BadFrame ''BodyLength is too long''
              else if \<not> is_number (drop digits_start s) \<and> digits_start < length s
              then BadFrame ''BodyLength is not a number''
              else NeedMore)
         | Some length_end \<Rightarrow>
             (let digits = take (length_end - digits_start) (drop digits_start s)
              in if \<not> is_number digits then BadFrame ''BodyLength is not a number''
                 else if limit < digits_value digits then BadFrame ''BodyLength exceeds the limit''
                 else scan_body begin_string (digits_value digits) (length_end + 1) s))"

definition scan_frame :: "nat \<Rightarrow> string \<Rightarrow> scan" where
  "scan_frame limit s =
     (if \<not> begins ''8='' (take 2 s) then BadFrame ''BeginString is not the first field''
      else if length s < 2 then NeedMore
      else case find_char SOH 2 MAX_BEGIN_STRING_FIELD s of
        None \<Rightarrow> (if MAX_BEGIN_STRING_FIELD \<le> length s then BadFrame ''BeginString field is too long'' else NeedMore)
      | Some begin_end \<Rightarrow>
          (let begin_string = take (begin_end - 2) (drop 2 s)
           in if \<not> begin_string_ok begin_string then BadFrame ''BeginString has the wrong format''
              else scan_length limit begin_string (begin_end + 1) s))"

definition body_of :: "nat \<Rightarrow> nat \<Rightarrow> string \<Rightarrow> string" where
  "body_of body_start frame_end s = take (frame_end - TRAILER_LENGTH - body_start) (drop body_start s)"

definition decode :: "nat \<Rightarrow> (int \<times> int) list \<Rightarrow> string \<Rightarrow> fix_message codec" where
  "decode limit data frame =
     (case scan_frame limit frame of
        BadFrame why \<Rightarrow> Inl (Garbled why)
      | NeedMore \<Rightarrow> Inl (Garbled ''frame is truncated'')
      | GoodFrame begin_string body_start frame_end \<Rightarrow>
          (if frame_end \<noteq> length frame then Inl (Garbled ''bytes after CheckSum'')
           else bind_result (parse_fields data (body_of body_start frame_end frame)) (\<lambda>(fs, defect).
             case defect of
               Some d \<Rightarrow> Inl (FieldFormat (fd_tag d))
             | None \<Rightarrow> Inr \<lparr>fm_begin = begin_string, fm_fields = map (\<lambda>(t, v). (t, Plain v)) fs, fm_defect = None\<rparr>)))"

section \<open>Evaluating the codec\<close>

lemma replicate_two: "replicate 2 c = [c, c]"
  by (simp add: numeral_2_eq_2)

lemmas encode_defs =
  encode_def encode_fields_def encode_field_def format_value_def latin1_def codes_def encode_frame_def begin_string_ok_def
  chomp_def is_number_def is_digit_def int_str_def nat_str.simps trailer_def checksum_def byte_sum_def pad_def DATA_FIELDS_def
  SOH_def char_of_def bit_0 replicate_two Let_def

lemmas decode_defs =
  decode_def scan_frame_def scan_length_def scan_body_def find_char_def begins_def begin_string_ok_def chomp_def is_number_def
  is_digit_def digits_value_def checksum_def byte_sum_def body_of_def parse_fields_def parse_from.simps split_first_def
  take_value_def announced_def parse_tag_def DATA_FIELDS_def SOH_def MAX_BEGIN_STRING_FIELD_def TRAILER_LENGTH_def
  DEFAULT_MAX_BODY_LENGTH_def nat_str.simps Let_def

section \<open>Properties\<close>

text \<open> The repr of a message, which is what is logged and shown in tracebacks, does not depend on any
  credential in it: two messages that differ only in values under a sensitive tag or held as a secret
  print the same.\<close>

theorem repr_hides_secrets:
  assumes "fm_begin m = fm_begin n"
    and "list_all2 (\<lambda>(t, v) (u, w). t = u \<and> (v = w \<or> (t \<in> set SENSITIVE_TAGS \<or> is_secret v \<and> is_secret w)))
      (fm_fields m) (fm_fields n)"
  shows "repr_message m = repr_message n"
proof -
  let ?one = "\<lambda>(tag, v). int_str tag @ ''='' @ shown tag v"
  have "map ?one (fm_fields m) = map ?one (fm_fields n)"
    using assms(2) by (induction rule: list_all2_induct) (auto simp: shown_def)
  then have "map ?one (take 64 (fm_fields m)) = map ?one (take 64 (fm_fields n))" by (simp only: take_map [symmetric])
  moreover have "length (fm_fields m) = length (fm_fields n)" using assms(2) by (rule list_all2_lengthD)
  ultimately show ?thesis using assms(1) unfolding repr_message_def Let_def by (simp only:)
qed

lemma repr_hides_secrets_witness:
  "repr_message \<lparr>fm_begin = ''FIX.4.4'', fm_fields = [(35, Plain ''A''), (554, Plain ''one'')], fm_defect = None\<rparr> =
   repr_message \<lparr>fm_begin = ''FIX.4.4'', fm_fields = [(35, Plain ''A''), (554, Secret ''two'')], fm_defect = None\<rparr>"
  by (rule repr_hides_secrets) (simp_all add: SENSITIVE_TAGS_def)


text \<open> A final newline passes the checks of single values: a sequence number and a price with one are
  taken as if it were not there.\<close>

theorem newline_passes_the_checks:
  "parse_seq_num (''12'' @ [CHR 0x0A]) tag = Inr 12 \<and> parse_decimal (''1.5'' @ [CHR 0x0A]) tag = Inr (Dec 15 (- 1))"
  by (simp add: parse_seq_num_def parse_decimal_def chomp_def is_number_def is_digit_def digits_value_def)

end
