(* ===== verification/FixStream.thy ===== *)
theory FixStream
  imports FixCodec
begin

text \<open>
  The stream parser of \<open>fix/message.py\<close>, which turns chunks of bytes into messages, and what makes it
  right: a frame is judged the same way whatever follows it, so the chunks do not matter, and what is
  buffered is bounded.
\<close>

section \<open>The parser\<close>

datatype parsed = Parsed fix_message | GarbledFrame string

record fix_parser =
  fp_max :: nat
  fp_data :: "(int \<times> int) list"
  fp_buffer :: string
  fp_synced :: bool

definition new_parser :: "int \<Rightarrow> (int \<times> int) list \<Rightarrow> fix_parser result" where
  "new_parser max_body data =
     (if max_body \<le> 0 then Inl ValueError
      else Inr \<lparr>fp_max = nat max_body, fp_data = data, fp_buffer = [], fp_synced = True\<rparr>)"

definition max_buffered :: "fix_parser \<Rightarrow> nat" where
  "max_buffered p = MAX_BEGIN_STRING_FIELD + 3 + length (nat_str (fp_max p)) + 2 + fp_max p + TRAILER_LENGTH"

text \<open>From the \<open>8=\<close> of the first \<open><SOH>8=\<close> on.\<close>

fun after_marker :: "string \<Rightarrow> string option" where
  "after_marker [] = None"
| "after_marker (c # s) = (if c = SOH \<and> take 2 s = ''8='' then Some s else after_marker s)"

definition marker_tail :: "string \<Rightarrow> string" where
  "marker_tail s =
     (if s \<noteq> [] \<and> last s = SOH then [SOH]
      else if 2 \<le> length s \<and> drop (length s - 2) s = [SOH, CHR ''8''] then [SOH, CHR ''8''] else [])"

lemma after_marker_shorter: "after_marker s = Some t \<Longrightarrow> length t < length s"
  by (induction s) (auto split: if_splits)

lemma scan_body_end:
  "scan_body b n start s = GoodFrame b' i j \<Longrightarrow>
     b' = b \<and> i = start \<and> j = start + n + TRAILER_LENGTH \<and> j \<le> length s"
  unfolding scan_body_def Let_def by (auto split: if_splits)

lemma scan_length_end:
  assumes "scan_length limit b start s = GoodFrame b' i j"
  shows "start < i \<and> i \<le> j - TRAILER_LENGTH \<and> TRAILER_LENGTH \<le> j \<and> j \<le> length s"
proof -
  obtain k n where "find_char SOH (start + 2) (start + 2 + (length (nat_str limit) + 1)) s = Some k"
      and "scan_body b n (k + 1) s = GoodFrame b' i j"
    using assms unfolding scan_length_def Let_def by (auto split: if_splits option.splits)
  then show ?thesis by (auto dest!: scan_body_end simp: find_char_def Let_def split: if_splits)
qed

lemma scan_frame_end:
  assumes "scan_frame limit s = GoodFrame b i j"
  shows "0 < i \<and> i \<le> j - TRAILER_LENGTH \<and> TRAILER_LENGTH \<le> j \<and> j \<le> length s"
proof -
  obtain start b' where "scan_length limit b' start s = GoodFrame b i j"
    using assms unfolding scan_frame_def Let_def by (auto split: if_splits option.splits)
  from scan_length_end [OF this] show ?thesis by auto
qed

text \<open>The loop of \<open>feed\<close>: what it returns, what stays buffered, and whether it is in step.\<close>

function drain :: "nat \<Rightarrow> (int \<times> int) list \<Rightarrow> bool \<Rightarrow> string \<Rightarrow> parsed list \<times> string \<times> bool" where
  "drain limit data synced s =
     (if s = [] then ([], [], synced)
      else if \<not> synced
      then (case after_marker s of
              None \<Rightarrow> ([], marker_tail s, False)
            | Some t \<Rightarrow> drain limit data True t)
      else case scan_frame limit s of
        NeedMore \<Rightarrow> ([], s, True)
      | BadFrame why \<Rightarrow> (case drain limit data False s of (out, rest) \<Rightarrow> (GarbledFrame why # out, rest))
      | GoodFrame begin_string body_start frame_end \<Rightarrow>
          (case parse_fields data (body_of body_start frame_end s) of
             Inl (Garbled why) \<Rightarrow> (case drain limit data False s of (out, rest) \<Rightarrow> (GarbledFrame why # out, rest))
           | Inl (FieldFormat _) \<Rightarrow> ([], s, True)
           | Inr (fs, defect) \<Rightarrow>
               (case drain limit data True (drop frame_end s) of
                  (out, rest) \<Rightarrow>
                    (Parsed \<lparr>fm_begin = begin_string, fm_fields = map (\<lambda>(t, v). (t, Plain v)) fs, fm_defect = defect\<rparr> # out,
                     rest))))"
  by pat_completeness auto
termination
  by (relation "measures [\<lambda>(_, _, _, s). length s, \<lambda>(_, _, synced, _). if synced then 1 else 0]")
    (auto dest!: after_marker_shorter scan_frame_end simp: TRAILER_LENGTH_def)

declare drain.simps [simp del]

definition feed :: "fix_parser \<Rightarrow> string \<Rightarrow> parsed list \<times> fix_parser" where
  "feed p bytes =
     (case drain (fp_max p) (fp_data p) (fp_synced p) (fp_buffer p @ bytes) of
        (out, rest, synced) \<Rightarrow> (out, p\<lparr>fp_buffer := rest, fp_synced := synced\<rparr>))"

fun feed_all :: "fix_parser \<Rightarrow> string list \<Rightarrow> parsed list \<times> fix_parser" where
  "feed_all p [] = ([], p)"
| "feed_all p (c # cs) =
     (case feed p c of (out, p') \<Rightarrow> (case feed_all p' cs of (out', p'') \<Rightarrow> (out @ out', p'')))"

section \<open>A verdict does not depend on what follows\<close>

lemma begins_append:
  "\<not> begins w (take n (drop k s)) \<Longrightarrow> \<not> begins w (take n (drop k (s @ t)))"
proof -
  assume no: "\<not> begins w (take n (drop k s))"
  let ?p = "take n (drop k s)" and ?q = "take n (drop k (s @ t))"
  have pre: "?p = take (length ?p) ?q" by (simp add: min_def)
  show ?thesis
  proof
    assume "begins w ?q"
    then have "take (length ?q) w = ?q" by (simp only: begins_def)
    then have "take (length ?p) (take (length ?q) w) = ?p" using pre by simp
    moreover have "length ?p \<le> length ?q" by simp
    ultimately have "take (length ?p) w = ?p" by (simp add: min_absorb1)
    with no show False unfolding begins_def by blast
  qed
qed

lemma find_char_append: "find_char c a b s = Some k \<Longrightarrow> find_char c a b (s @ t) = Some k"
proof -
  assume f: "find_char c a b s = Some k"
  let ?p = "take (b - a) (drop a s)"
  have p: "take (b - a) (drop a (s @ t)) = ?p @ take (b - a - length (drop a s)) (drop (a - length s) t)" by simp
  have c: "c \<in> set ?p" and k: "k = a + length (takeWhile (\<lambda>x. x \<noteq> c) ?p)"
    using f by (auto simp: find_char_def Let_def split: if_splits)
  have "takeWhile (\<lambda>x. x \<noteq> c) (?p @ u) = takeWhile (\<lambda>x. x \<noteq> c) ?p" for u
    using c by (subst takeWhile_append1) auto
  then show ?thesis using c k unfolding find_char_def Let_def p by auto
qed

lemma find_char_bounds: "find_char c a b s = Some k \<Longrightarrow> a \<le> k \<and> k < b \<and> k < length s \<and> s ! k = c"
proof -
  assume f: "find_char c a b s = Some k"
  let ?p = "take (b - a) (drop a s)"
  have c: "c \<in> set ?p" and k: "k = a + length (takeWhile (\<lambda>x. x \<noteq> c) ?p)"
    using f by (auto simp: find_char_def Let_def split: if_splits)
  have l: "length (takeWhile (\<lambda>x. x \<noteq> c) ?p) < length ?p"
  proof -
    have "takeWhile (\<lambda>x. x \<noteq> c) ?p \<noteq> ?p" using c by (auto simp: takeWhile_eq_all_conv)
    then have "length (takeWhile (\<lambda>x. x \<noteq> c) ?p) \<noteq> length ?p" by (metis takeWhile_eq_take take_all_iff order_refl)
    then show ?thesis using length_takeWhile_le [of "\<lambda>x. x \<noteq> c" ?p] by linarith
  qed
  have n: "?p ! length (takeWhile (\<lambda>x. x \<noteq> c) ?p) = c" using nth_length_takeWhile [OF l] by simp
  then show ?thesis using k l by (auto simp: nth_append)
qed

lemma find_char_None: "find_char c a b s = None \<Longrightarrow> b \<le> length s \<Longrightarrow> find_char c a b (s @ t) = None"
  by (auto simp: find_char_def Let_def split: if_splits)

lemma scan_body_append:
  "scan_body b n start s = GoodFrame b' i j \<Longrightarrow> scan_body b n start (s @ t) = GoodFrame b' i j"
  "scan_body b n start s = BadFrame w \<Longrightarrow> \<exists>w'. scan_body b n start (s @ t) = BadFrame w'"
proof -
  let ?e = "start + n" and ?f = "start + n + TRAILER_LENGTH"
  have eq: "scan_body b n start (s @ t) = scan_body b n start s" if f: "?f \<le> length s"
  proof -
    have "take 3 (drop (?e + 3) (s @ t)) = take 3 (drop (?e + 3) s)" "take 3 (drop ?e (s @ t)) = take 3 (drop ?e s)"
        "take ?e (s @ t) = take ?e s" "(s @ t) ! (?e - 1) = s ! (?e - 1)" "(s @ t) ! (?f - 1) = s ! (?f - 1)"
        "take 3 (drop start (s @ t)) = take 3 (drop start s)" "(length (s @ t) < ?f) = (length s < ?f)"
      using f by (auto simp: TRAILER_LENGTH_def nth_append)
    then show ?thesis unfolding scan_body_def Let_def by (simp only:)
  qed
  show "scan_body b n start s = GoodFrame b' i j \<Longrightarrow> scan_body b n start (s @ t) = GoodFrame b' i j"
    using eq scan_body_end [of b n start s b' i j] by auto
  show "scan_body b n start s = BadFrame w \<Longrightarrow> \<exists>w'. scan_body b n start (s @ t) = BadFrame w'"
  proof (cases "?f \<le> length s")
    case False
    assume "scan_body b n start s = BadFrame w"
    then have "\<not> begins ''35='' (take 3 (drop start s))" using False by (auto simp: scan_body_def Let_def split: if_splits)
    from begins_append [OF this, of t] show ?thesis by (simp add: scan_body_def Let_def)
  qed (use eq in simp)
qed

lemma not_number_append:
  "\<not> is_number (drop k s) \<Longrightarrow> k < length s \<Longrightarrow> \<exists>x \<in> set (drop k s). \<not> is_digit x"
  by (auto simp: is_number_def list_all_iff)

lemma scan_length_append:
  "scan_length limit b start s = GoodFrame b' i j \<Longrightarrow> scan_length limit b start (s @ t) = GoodFrame b' i j"
  "scan_length limit b start s = BadFrame w \<Longrightarrow> \<exists>w'. scan_length limit b start (s @ t) = BadFrame w'"
proof -
  let ?tag = "\<lambda>s. take 2 (drop start s)" and ?d = "start + 2" and ?n = "length (nat_str limit) + 1"
  have tag: "?tag (s @ t) = ?tag s" if "\<not> length (?tag s) < 2" using that by auto
  have found: "\<exists>r. scan_length limit b start (s @ t) = r \<and>
      (scan_length limit b start s = GoodFrame b' i j \<longrightarrow> r = GoodFrame b' i j) \<and>
      (scan_length limit b start s = BadFrame w \<longrightarrow> (\<exists>w'. r = BadFrame w'))"
    if g: "begins ''9='' (?tag s)" "\<not> length (?tag s) < 2" and k: "find_char SOH ?d (?d + ?n) s = Some k" for k
  proof -
    have digits: "take (k - ?d) (drop ?d (s @ t)) = take (k - ?d) (drop ?d s)"
      using find_char_bounds [OF k] by (auto simp: not_le)
    define D where "D = take (k - ?d) (drop ?d s)"
    let ?r = "\<lambda>s. if \<not> is_number D then BadFrame ''BodyLength is not a number''
         else if limit < digits_value D then BadFrame ''BodyLength exceeds the limit''
         else scan_body b (digits_value D) (k + 1) s"
    have "scan_length limit b start (s @ t) = ?r (s @ t)"
      unfolding scan_length_def Let_def tag [OF g(2)] digits find_char_append [OF k] option.case D_def [symmetric]
      using g by (simp only: not_True_eq_False if_False)
    moreover have "scan_length limit b start s = ?r s"
      unfolding scan_length_def Let_def digits k option.case D_def [symmetric]
      using g by (simp only: not_True_eq_False if_False)
    ultimately show ?thesis using scan_body_append [of b "digits_value D" "k + 1" s] by auto
  qed
  show "scan_length limit b start s = GoodFrame b' i j \<Longrightarrow> scan_length limit b start (s @ t) = GoodFrame b' i j"
  proof -
    assume a: "scan_length limit b start s = GoodFrame b' i j"
    then obtain k where "begins ''9='' (?tag s)" "\<not> length (?tag s) < 2" "find_char SOH ?d (?d + ?n) s = Some k"
      unfolding scan_length_def Let_def by (auto split: if_splits option.splits)
    from found [OF this] a show ?thesis by auto
  qed
  show "\<exists>w'. scan_length limit b start (s @ t) = BadFrame w'" if a: "scan_length limit b start s = BadFrame w"
  proof (cases "begins ''9='' (?tag s)")
    case False
    from begins_append [OF this, of t] show ?thesis by (simp add: scan_length_def Let_def)
  next
    case True
    then have two: "\<not> length (?tag s) < 2"
      using a unfolding scan_length_def Let_def by (auto simp del: length_take split: if_splits)
    show ?thesis
    proof (cases "find_char SOH ?d (?d + ?n) s")
      case (Some k)
      from found [OF True two this] a show ?thesis by auto
    next
      case None
      show ?thesis
      proof (cases "?n \<le> length s - ?d")
        case True
        then have "find_char SOH ?d (?d + ?n) (s @ t) = None" by (intro find_char_None [OF None]) simp
        moreover have "?n \<le> length (s @ t) - ?d" using True by simp
        ultimately show ?thesis
          using \<open>begins ''9='' (?tag s)\<close> two unfolding scan_length_def Let_def tag [OF two]
          by (simp del: take_append drop_append length_append length_take)
      next
        case False
        then have "\<not> is_number (drop ?d s)" and d: "?d < length s"
          using a True two None unfolding scan_length_def Let_def by (auto simp del: length_take split: if_splits)
        then obtain x where x: "x \<in> set (drop ?d s)" "\<not> is_digit x" using not_number_append by blast
        have far: "length s \<le> k" if k: "find_char SOH ?d (?d + ?n) (s @ t) = Some k" for k
        proof (rule ccontr)
          assume "\<not> length s \<le> k"
          moreover obtain i where "k = ?d + i" using find_char_bounds [OF k] le_Suc_ex by blast
          ultimately have "SOH \<in> set (take (?d + ?n - ?d) (drop ?d s))"
            using find_char_bounds [OF k] False d by (auto simp: in_set_conv_nth nth_append intro!: exI [of _ i])
          then show False using None by (simp add: find_char_def Let_def split: if_splits)
        qed
        have "\<not> is_number (take (k - ?d) (drop ?d (s @ t)))" if "length s \<le> k" for k
          using x d that by (auto simp: is_number_def list_all_iff)
        moreover have "\<not> is_number (drop ?d (s @ t))" using x d by (auto simp: is_number_def list_all_iff)
        moreover have "?d < length (s @ t)" using d by simp
        ultimately show ?thesis
          using far \<open>begins ''9='' (?tag s)\<close> two
          unfolding scan_length_def Let_def tag [OF two]
          by (cases "find_char SOH ?d (?d + ?n) (s @ t)") (simp_all del: take_append drop_append length_append length_take)
      qed
    qed
  qed
qed

lemma scan_frame_append:
  "scan_frame limit s = GoodFrame b i j \<Longrightarrow> scan_frame limit (s @ t) = GoodFrame b i j"
  "scan_frame limit s = BadFrame w \<Longrightarrow> \<exists>w'. scan_frame limit (s @ t) = BadFrame w'"
proof -
  let ?m = MAX_BEGIN_STRING_FIELD
  have tag: "take 2 (s @ t) = take 2 s" if "\<not> length s < 2" using that by simp
  have found: "\<exists>r. scan_frame limit (s @ t) = r \<and>
      (scan_frame limit s = GoodFrame b i j \<longrightarrow> r = GoodFrame b i j) \<and>
      (scan_frame limit s = BadFrame w \<longrightarrow> (\<exists>w'. r = BadFrame w'))"
    if g: "begins ''8='' (take 2 s)" "\<not> length s < 2" and k: "find_char SOH 2 ?m s = Some k" for k
  proof -
    define B where "B = take (k - 2) (drop 2 s)"
    have B: "take (k - 2) (drop 2 (s @ t)) = B" using find_char_bounds [OF k] by (auto simp: B_def not_le)
    have l: "\<not> length (s @ t) < 2" using g(2) by simp
    let ?r = "\<lambda>s. if \<not> begin_string_ok B then BadFrame ''BeginString has the wrong format''
         else scan_length limit B (k + 1) s"
    have "scan_frame limit (s @ t) = ?r (s @ t)"
      unfolding scan_frame_def Let_def tag [OF g(2)] find_char_append [OF k] option.case B
      using g l by (simp only: not_True_eq_False if_False)
    moreover have "scan_frame limit s = ?r s"
      unfolding scan_frame_def Let_def k option.case B_def [symmetric]
      using g by (simp only: not_True_eq_False if_False)
    ultimately show ?thesis using scan_length_append [of limit B "k + 1" s] by auto
  qed
  show "scan_frame limit (s @ t) = GoodFrame b i j" if a: "scan_frame limit s = GoodFrame b i j"
  proof -
    obtain k where "begins ''8='' (take 2 s)" "\<not> length s < 2" "find_char SOH 2 ?m s = Some k"
      using a unfolding scan_frame_def Let_def by (auto simp del: length_take split: if_splits option.splits)
    from found [OF this] a show ?thesis by auto
  qed
  show "\<exists>w'. scan_frame limit (s @ t) = BadFrame w'" if a: "scan_frame limit s = BadFrame w"
  proof (cases "begins ''8='' (take 2 s)")
    case False
    with begins_append [of "''8=''" 2 0 s t] show ?thesis by (simp add: scan_frame_def)
  next
    case True
    then have two: "\<not> length s < 2" using a unfolding scan_frame_def by (auto split: if_splits)
    show ?thesis
    proof (cases "find_char SOH 2 ?m s")
      case (Some k)
      from found [OF True two this] a show ?thesis by auto
    next
      case None
      then have m: "?m \<le> length s" using a True two unfolding scan_frame_def by (auto split: if_splits)
      then show ?thesis
        using True two find_char_None [OF None m, of t] unfolding scan_frame_def tag [OF two] by simp
    qed
  qed
qed

section \<open>The chunks do not matter\<close>

text \<open>What is returned, up to the reason given for skipping bytes.\<close>

fun shape :: "parsed \<Rightarrow> parsed" where
  "shape (Parsed m) = Parsed m"
| "shape (GarbledFrame w) = GarbledFrame []"

lemma after_marker_append: "after_marker s = Some u \<Longrightarrow> after_marker (s @ t) = Some (u @ t)"
proof (induction s)
  case (Cons c s)
  show ?case
  proof (cases "c = SOH \<and> take 2 s = ''8=''")
    case True
    then have "2 \<le> length s" by (metis length_take list.size(3,4) min.cobounded1 numeral_2_eq_2 One_nat_def add_0 plus_1_eq_Suc)
    then show ?thesis using True Cons by auto
  next
    case False
    then have u: "after_marker (s @ t) = Some (u @ t)" using Cons by (auto split: if_splits)
    have "take 2 (s @ t) = take 2 s" if "2 \<le> length s" using that by simp
    moreover have "2 \<le> length s" using False Cons.prems by (cases s; cases "tl s") (auto split: if_splits)
    ultimately show ?thesis using False u by auto
  qed
qed simp

lemma SOH_chars [simp]: "SOH \<noteq> CHR ''8''" "CHR ''8'' \<noteq> SOH" "SOH \<noteq> CHR ''=''" "CHR ''='' \<noteq> SOH"
  by (simp_all add: SOH_def)

lemma marker_tail_Cons: "2 \<le> length s \<Longrightarrow> marker_tail (c # s) = marker_tail s"
proof -
  assume "2 \<le> length s"
  then obtain n where "length s = Suc (Suc n)" by (metis add_2_eq_Suc le_Suc_ex)
  then show ?thesis by (auto simp: marker_tail_def)
qed

lemma after_marker_tail: "after_marker s = None \<Longrightarrow> after_marker (marker_tail s @ t) = after_marker (s @ t)"
proof (induction s)
  case (Cons c s)
  show ?case
  proof (cases "2 \<le> length s")
    case True
    then have "take 2 (s @ t) = take 2 s" by simp
    then show ?thesis using Cons True by (auto simp: marker_tail_Cons split: if_splits)
  next
    case False
    then consider "s = []" | d where "s = [d]" by (cases s; cases "tl s") auto
    then show ?thesis by cases (auto simp: marker_tail_def)
  qed
qed (simp add: marker_tail_def)

lemma marker_tail_append: "marker_tail (marker_tail s @ t) = marker_tail (s @ t)"
proof (induction s)
  case (Cons c s)
  show ?case
  proof (cases "2 \<le> length s")
    case True
    then show ?thesis using Cons by (simp add: marker_tail_Cons)
  next
    case False
    then consider "s = []" | d where "s = [d]" by (cases s; cases "tl s") auto
    then show ?thesis
    proof cases
      case 1
      then show ?thesis by (cases t; cases "tl t") (auto simp: marker_tail_def)
    next
      case (2 d)
      have t: "t = [] \<or> (\<exists>x. t = [x]) \<or> (\<exists>x y u. t = x # y # u)" by (cases t; cases "tl t") auto
      show ?thesis
        using t unfolding 2
        by (elim disjE exE) (auto simp: marker_tail_def marker_tail_Cons Suc_diff_le numeral_2_eq_2)
    qed
  qed
qed (simp add: marker_tail_def)

text \<open>Feeding \<open>s\<close> and then \<open>t\<close> is feeding \<open>s @ t\<close>.\<close>

definition same_output :: "parsed list \<times> string \<times> bool \<Rightarrow> parsed list \<times> string \<times> bool \<Rightarrow> bool" where
  "same_output a b \<longleftrightarrow> map shape (fst a) = map shape (fst b) \<and> snd a = snd b"

definition drain_more :: "nat \<Rightarrow> (int \<times> int) list \<Rightarrow> string \<Rightarrow> parsed list \<times> string \<times> bool \<Rightarrow> parsed list \<times> string \<times> bool" where
  "drain_more limit data t r =
     (case r of (out, rest, synced) \<Rightarrow>
        (case drain limit data synced (rest @ t) of (out', r') \<Rightarrow> (out @ out', r')))"

lemma drain_nil [simp]: "drain limit data k [] = ([], [], k)"
  by (subst drain.simps) simp

lemma drain_good:
  "scan_frame limit s = GoodFrame b i j \<Longrightarrow> parse_fields data (body_of i j s) = Inr (fs, defect) \<Longrightarrow>
   drain limit data True s =
     (case drain limit data True (drop j s) of (out, rest) \<Rightarrow>
        (Parsed \<lparr>fm_begin = b, fm_fields = map (\<lambda>(t, v). (t, Plain v)) fs, fm_defect = defect\<rparr> # out, rest))"
  using scan_frame_end [of limit s b i j] by (subst drain.simps) (auto simp: TRAILER_LENGTH_def)

lemma drain_bad:
  "scan_frame limit s = BadFrame w \<Longrightarrow>
   drain limit data True s = (case drain limit data False s of (out, rest) \<Rightarrow> (GarbledFrame w # out, rest))"
  by (subst drain.simps) (auto simp: scan_frame_def begins_def)

lemma drain_garbled:
  "scan_frame limit s = GoodFrame b i j \<Longrightarrow> parse_fields data (body_of i j s) = Inl (Garbled w) \<Longrightarrow>
   drain limit data True s = (case drain limit data False s of (out, rest) \<Rightarrow> (GarbledFrame w # out, rest))"
  using scan_frame_end [of limit s b i j] by (subst drain.simps) (auto simp: TRAILER_LENGTH_def)

lemma same_output_refl [simp]: "same_output r r"
  by (simp add: same_output_def)

lemma same_output_Cons:
  "same_output r q \<Longrightarrow> shape x = shape y \<Longrightarrow>
   same_output (case r of (out, rest) \<Rightarrow> (x # out, rest)) (case q of (out, rest) \<Rightarrow> (y # out, rest))"
  by (cases r; cases q) (simp add: same_output_def)

lemma drain_more_Cons:
  "drain_more limit data t (case r of (out, rest) \<Rightarrow> (x # out, rest)) =
   (case drain_more limit data t r of (out, rest) \<Rightarrow> (x # out, rest))"
  by (cases r) (simp add: drain_more_def split: prod.split)

lemma drain_unsynced:
  "drain limit data False s =
     (case after_marker s of None \<Rightarrow> ([], marker_tail s, False) | Some t \<Rightarrow> drain limit data True t)"
  by (subst drain.simps) (simp add: marker_tail_def)

lemma drain_unsynced_tail: "after_marker s = None \<Longrightarrow> drain limit data False (marker_tail s @ t) = drain limit data False (s @ t)"
  unfolding drain_unsynced after_marker_tail marker_tail_append by (rule HOL.refl)

lemma drain_append: "same_output (drain limit data k (s @ t)) (drain_more limit data t (drain limit data k s))"
proof (induction limit data k s rule: drain.induct)
  case (1 limit data k s)
  show ?case
  proof (cases "s = []")
    case True
    then show ?thesis by (simp add: drain_more_def)
  next
    case ne: False
    show ?thesis
    proof (cases k)
      case False
      show ?thesis
      proof (cases "after_marker s")
        case None
        then have "drain limit data False s = ([], marker_tail s, False)" using ne by (simp add: drain_unsynced)
        then show ?thesis using False drain_unsynced_tail [OF None] by (simp add: drain_more_def)
      next
        case (Some u)
        then show ?thesis using "1.IH"(1) [OF ne] False ne after_marker_append [OF Some] by (simp add: drain_unsynced)
      qed
    next
      case True
      show ?thesis
      proof (cases "scan_frame limit s")
        case NeedMore
        then have "drain limit data True s = ([], s, True)" using ne by (subst drain.simps) simp
        then show ?thesis using True by (simp add: drain_more_def)
      next
        case (BadFrame w)
        obtain w' where w': "scan_frame limit (s @ t) = BadFrame w'" using scan_frame_append(2) [OF BadFrame] by blast
        show ?thesis
          using "1.IH"(2) [OF ne _ BadFrame] True
          by (simp add: drain_bad [OF BadFrame] drain_bad [OF w'] drain_more_Cons same_output_Cons)
      next
        case (GoodFrame b i j)
        note g = scan_frame_append(1) [OF GoodFrame, of t]
        have j: "j \<le> length s" "TRAILER_LENGTH \<le> j" "i \<le> j - TRAILER_LENGTH" using scan_frame_end [OF GoodFrame] by auto
        have body: "body_of i j (s @ t) = body_of i j s" using j by (simp add: body_of_def TRAILER_LENGTH_def)
        show ?thesis
        proof (cases "parse_fields data (body_of i j s)")
          case (Inl e)
          show ?thesis
          proof (cases e)
            case (Garbled w)
            then show ?thesis
              using "1.IH"(3) [OF ne _ GoodFrame Inl Garbled] True Inl drain_garbled [OF GoodFrame, of data w]
                drain_garbled [OF g, of data w] body by (simp add: drain_more_Cons same_output_Cons)
          next
            case (FieldFormat f)
            then have "drain limit data True s = ([], s, True)" using ne GoodFrame Inl by (subst drain.simps) simp
            then show ?thesis using True by (simp add: drain_more_def)
          qed
        next
          case (Inr r)
          obtain fs defect where r: "r = (fs, defect)" by fastforce
          show ?thesis
            using "1.IH"(4) [OF ne _ GoodFrame Inr r [symmetric]] True Inr r j drain_good [OF GoodFrame, of data fs defect]
              drain_good [OF g, of data fs defect] body by (simp add: drain_more_Cons same_output_Cons)
        qed
      qed
    qed
  qed
qed

lemma feed_all_one:
  "map shape (fst (feed_all p (c # cs))) = map shape (fst (feed p (concat (c # cs)))) \<and>
   snd (feed_all p (c # cs)) = snd (feed p (concat (c # cs)))"
proof (induction cs arbitrary: p c)
  case Nil
  then show ?case by (simp split: prod.split)
next
  case (Cons d cs)
  obtain out rest k where d: "drain (fp_max p) (fp_data p) (fp_synced p) (fp_buffer p @ c) = (out, rest, k)"
    using prod_cases3 by blast
  let ?p = "p\<lparr>fp_buffer := rest, fp_synced := k\<rparr>"
  have f: "feed p c = (out, ?p)" by (simp add: feed_def d)
  have "same_output (drain (fp_max p) (fp_data p) (fp_synced p) (fp_buffer p @ concat (c # d # cs)))
      (drain_more (fp_max p) (fp_data p) (concat (d # cs)) (out, rest, k))"
    using drain_append [of "fp_max p" "fp_data p" "fp_synced p" "fp_buffer p @ c" "concat (d # cs)"] by (simp add: d)
  moreover obtain out2 q where two: "feed_all ?p (d # cs) = (out2, q)" by fastforce
  moreover obtain out3 q3 where three: "feed ?p (concat (d # cs)) = (out3, q3)" by fastforce
  ultimately show ?case
    using Cons [of ?p d]
    by (simp add: f del: feed_all.simps(2) add: feed_all.simps(2) [of p c])
      (auto simp: feed_def drain_more_def same_output_def split: prod.splits)
qed

section \<open>What is buffered is bounded\<close>

lemma scan_body_more: "scan_body b n start s = NeedMore \<Longrightarrow> length s < start + n + TRAILER_LENGTH"
  unfolding scan_body_def Let_def by (auto split: if_splits)

lemma scan_length_more:
  assumes "scan_length limit b start s = NeedMore"
  shows "length s < start + 3 + length (nat_str limit) + limit + TRAILER_LENGTH + 1"
proof -
  let ?d = "start + 2" and ?n = "length (nat_str limit) + 1"
  show ?thesis
  proof (cases "find_char SOH ?d (?d + ?n) s")
    case None
    then have "length (take 2 (drop start s)) < 2 \<or> length s - ?d < ?n"
      using assms unfolding scan_length_def Let_def by (auto simp del: length_take split: if_splits)
    then show ?thesis by auto
  next
    case (Some k)
    then have "length (take 2 (drop start s)) < 2 \<or> (\<exists>n. n \<le> limit \<and> scan_body b n (k + 1) s = NeedMore)"
      using assms unfolding scan_length_def Let_def by (auto simp del: length_take simp: not_less split: if_splits)
    then show ?thesis using find_char_bounds [OF Some] by (auto dest!: scan_body_more)
  qed
qed

lemma scan_frame_more:
  assumes "scan_frame limit s = NeedMore"
  shows "length s < MAX_BEGIN_STRING_FIELD + 3 + length (nat_str limit) + limit + TRAILER_LENGTH + 1"
proof -
  consider "length s < 2" | "length s < MAX_BEGIN_STRING_FIELD"
    | b k where "find_char SOH 2 MAX_BEGIN_STRING_FIELD s = Some k" "scan_length limit b (k + 1) s = NeedMore"
    using assms unfolding scan_frame_def Let_def by (auto split: if_splits option.splits)
  then show ?thesis
  proof cases
    case (3 b k)
    then show ?thesis using find_char_bounds [OF 3(1)] scan_length_more [OF 3(2)] by auto
  qed (auto simp: MAX_BEGIN_STRING_FIELD_def)
qed

lemma drain_buffered:
  "drain limit data k s = (out, rest, k') \<Longrightarrow>
   length rest < MAX_BEGIN_STRING_FIELD + 3 + length (nat_str limit) + limit + TRAILER_LENGTH + 1"
proof (induction limit data k s arbitrary: out rest k' rule: drain.induct)
  case (1 limit data k s)
  let ?small = "\<lambda>rest. length rest < MAX_BEGIN_STRING_FIELD + 3 + length (nat_str limit) + limit + TRAILER_LENGTH + 1"
  show ?case
  proof (cases "s = []")
    case True
    then show ?thesis using "1.prems" by simp
  next
    case ne: False
    show ?thesis
    proof (cases k)
      case False
      then show ?thesis
        using "1.prems" "1.IH"(1) [OF ne]
        by (auto simp: drain_unsynced marker_tail_def MAX_BEGIN_STRING_FIELD_def split: option.splits if_splits)
    next
      case True
      show ?thesis
      proof (cases "scan_frame limit s")
        case NeedMore
        then show ?thesis using "1.prems" True ne scan_frame_more [OF NeedMore] by (subst (asm) drain.simps) auto
      next
        case (BadFrame w)
        then show ?thesis using "1.prems" True "1.IH"(2) [OF ne _ BadFrame] by (auto simp: drain_bad split: prod.splits)
      next
        case (GoodFrame b i j)
        show ?thesis
        proof (cases "parse_fields data (body_of i j s)")
          case (Inl e)
          then obtain w where w: "e = Garbled w"
            using parse_from_garbled [of data None "body_of i j s" e] by (auto simp: parse_fields_def)
          show ?thesis
            using "1.prems" True "1.IH"(3) [OF ne _ GoodFrame Inl w] drain_garbled [OF GoodFrame Inl [unfolded w]]
            by (auto split: prod.splits)
        next
          case (Inr r)
          obtain fs defect where r: "r = (fs, defect)" by fastforce
          show ?thesis
            using "1.prems" True "1.IH"(4) [OF ne _ GoodFrame Inr r [symmetric]] drain_good [OF GoodFrame Inr [unfolded r]]
            by (auto split: prod.splits)
        qed
      qed
    qed
  qed
qed

lemma feed_buffered: "length (fp_buffer (snd (feed p bytes))) < max_buffered p"
  using drain_buffered [of "fp_max p" "fp_data p" "fp_synced p" "fp_buffer p @ bytes"]
  by (auto simp: feed_def max_buffered_def split: prod.split)

section \<open>Properties\<close>

text \<open>C27: How the network cuts the stream into chunks does not matter: feeding the chunks one by one returns
  what feeding them joined returns, messages and skipped stretches alike, and leaves the parser in the
  same state. Only the wording of why bytes were skipped may differ.\<close>

theorem chunks_do_not_matter:
  "map shape (fst (feed_all p (c # cs))) = map shape (fst (feed p (concat (c # cs)))) \<and>
   snd (feed_all p (c # cs)) = snd (feed p (concat (c # cs)))"
  by (rule feed_all_one)

text \<open> A peer cannot make the parser hold more than it announces: whatever bytes arrive, what is buffered
  after a feed is below \<open>max_buffered\<close>.\<close>

theorem parser_buffer_bounded: "length (fp_buffer (snd (feed p bytes))) < max_buffered p"
  by (rule feed_buffered)

end
