(* ===== verification/FixRoundtrip.thy ===== *)
theory FixRoundtrip
  imports FixStream
begin

text \<open>
  What the encoder of \<open>fix/message.py\<close> writes, the decoder and the stream parser read back: the bytes of
  each field, in order. \<open>wire_fields\<close> is what the fields look like on the wire.
\<close>

section \<open>Numbers on the wire\<close>

lemma nat_str_is_digit: "ch \<in> set (nat_str n) \<Longrightarrow> is_digit ch"
  using nat_str_digits by (auto simp: is_digit_def)

lemma is_number_nat_str [simp]: "is_number (nat_str n)"
  using nat_str_nonempty nat_str_is_digit by (auto simp: is_number_def list_all_iff)

lemma SOH_not_digit [simp]: "\<not> is_digit SOH"
  by (simp add: is_digit_def SOH_def)

lemma equals_not_digit [simp]: "\<not> is_digit CHR ''=''" "\<not> is_digit CHR ''.''" "\<not> is_digit CHR 0x0A"
  by (simp_all add: is_digit_def)

lemma not_in_nat_str: "\<not> is_digit c \<Longrightarrow> c \<notin> set (nat_str n)"
  using nat_str_is_digit by blast

lemma length_nat_str_le: "n < 10 ^ k \<Longrightarrow> 0 < k \<Longrightarrow> length (nat_str n) \<le> k"
proof (induction n arbitrary: k rule: nat_str.induct)
  case (1 n)
  show ?case
  proof (cases "n < 10")
    case False
    then obtain j where j: "k = Suc j" "0 < j" using "1.prems" by (cases k; cases "k - 1") auto
    have "n div 10 < 10 ^ j" using "1.prems" j by auto
    from "1.IH" [OF False this j(2)] show ?thesis using False j by (subst nat_str.simps) simp
  qed (use "1.prems" in \<open>subst nat_str.simps, simp\<close>)
qed

lemma length_nat_str_mono: "m \<le> n \<Longrightarrow> length (nat_str m) \<le> length (nat_str n)"
proof (induction m arbitrary: n rule: nat_str.induct)
  case (1 m)
  show ?case
  proof (cases "m < 10")
    case True
    then show ?thesis using nat_str_nonempty [of n] by (subst nat_str.simps) (cases "nat_str n", auto)
  next
    case False
    then have "length (nat_str (m div 10)) \<le> length (nat_str (n div 10))"
      using "1.IH" "1.prems" by (simp add: div_le_mono)
    then show ?thesis using False "1.prems" by (subst (1 2) nat_str.simps) simp
  qed
qed

lemma hd_nat_str_zero: "0 < n \<Longrightarrow> hd (nat_str n) \<noteq> CHR ''0''"
proof (induction n rule: nat_str.induct)
  case (1 n)
  show ?case
  proof (cases "n < 10")
    case True
    have "(char_of (48 + n) :: char) \<noteq> CHR ''0''"
    proof
      assume "(char_of (48 + n) :: char) = CHR ''0''"
      then have "(of_char (char_of (48 + n) :: char) :: nat) = of_char CHR ''0''" by simp
      then show False using True "1.prems" by (simp add: of_char_of)
    qed
    then show ?thesis using True by (subst nat_str.simps) simp
  next
    case False
    then show ?thesis using "1.IH" nat_str_nonempty by (subst nat_str.simps) (simp add: hd_append)
  qed
qed

lemma parse_tag_int_str: "0 < t \<Longrightarrow> t < 10 ^ 9 \<Longrightarrow> parse_tag (int_str t) = Some t"
  using length_nat_str_le [of "nat t" 9] hd_nat_str_zero [of "nat t"] nat_less_iff [of t "10 ^ 9"]
  by (simp add: parse_tag_def int_str_def digits_value_nat_str)

section \<open>Fields\<close>

definition wire_bytes :: "int \<Rightarrow> field_value \<Rightarrow> string codec" where
  "wire_bytes tag v = bind_result (format_value v tag) (\<lambda>cs. latin1 cs tag)"

definition wire_fields :: "(int \<times> field_value) list \<Rightarrow> (int \<times> string) list" where
  "wire_fields fs = map (\<lambda>(tag, v). (tag, case wire_bytes tag v of Inr raw \<Rightarrow> raw | Inl _ \<Rightarrow> [])) fs"

text \<open>The encoder takes more than the parser: longer tags, and a length field that is no number.\<close>

definition readable :: "(int \<times> int) list \<Rightarrow> (int \<times> string) list \<Rightarrow> bool" where
  "readable data ws \<longleftrightarrow>
     (\<forall>(tag, raw) \<in> set ws. tag < 10 ^ 9 \<and> length raw < 10 ^ 12 \<and> (tag \<in> fst ` set data \<longrightarrow> is_number raw))"

definition pending_after :: "(int \<times> int) list \<Rightarrow> (int \<times> string) option \<Rightarrow> (nat \<times> int) option" where
  "pending_after data previous =
     (case previous of
        None \<Rightarrow> None
      | Some (tag, raw) \<Rightarrow> map_option (\<lambda>dt. (digits_value (take 12 raw), dt)) (map_of data tag))"

lemma encode_field_ok:
  assumes "encode_field data previous tag v = Inr raw"
  shows "0 < tag \<and> wire_bytes tag v = Inr raw \<and> raw \<noteq> [] \<and>
    (if tag \<in> snd ` set data
     then \<exists>t. previous = Some (t, nat_str (length raw)) \<and> map_of data t = Some tag
     else SOH \<notin> set raw)"
  using assms
  by (auto simp: encode_field_def wire_bytes_def latin1_def bind_result_def split: if_splits sum.splits option.splits prod.splits)

lemma encode_from_Cons:
  assumes "encode_from data previous ((tag, v) # rest) = Inr raw"
  obtains w out where "encode_field data previous tag v = Inr w"
    and "encode_from data (Some (tag, w)) rest = Inr out" and "raw = int_str tag @ ''='' @ w @ [SOH] @ out"
  using assms by (auto simp: bind_result_def split: sum.splits)

lemma split_first_here: "c \<notin> set a \<Longrightarrow> split_first c (a @ c # b) = Some (a, b)"
  by (induction a) (auto simp: split_first_def)

lemma take_value_encoded:
  assumes e: "encode_field data previous tag v = Inr w" and l: "length w < 10 ^ 12"
  shows "take_value (pending_after data previous) (Some tag) (w @ SOH # out) = Inr (w, out)"
proof (cases "tag \<in> snd ` set data")
  case True
  then obtain t where p: "previous = Some (t, nat_str (length w))" "map_of data t = Some tag"
    using encode_field_ok [OF e] by auto
  have "take 12 (nat_str (length w)) = nat_str (length w)" using length_nat_str_le [OF l] by simp
  then show ?thesis using p by (simp add: take_value_def pending_after_def digits_value_nat_str)
next
  case False
  then have "SOH \<notin> set w" using encode_field_ok [OF e] by simp
  note s = split_first_here [OF this]
  have "pending_after data previous \<noteq> Some (n, tag)" for n
    using False by (force simp: pending_after_def dest: map_of_SomeD split: option.splits prod.splits)
  then show ?thesis by (auto simp: take_value_def s split: option.split)
qed

lemma parse_encoded:
  "encode_from data previous fs = Inr raw \<Longrightarrow> readable data (wire_fields fs) \<Longrightarrow>
   parse_from data (pending_after data previous) raw = Inr (wire_fields fs, None)"
proof (induction fs arbitrary: previous raw)
  case Nil
  then show ?case by (simp add: wire_fields_def parse_from.simps)
next
  case (Cons f fs)
  obtain tag v where f: "f = (tag, v)" by fastforce
  obtain w out where e: "encode_field data previous tag v = Inr w" "encode_from data (Some (tag, w)) fs = Inr out"
      and raw: "raw = int_str tag @ ''='' @ w @ [SOH] @ out"
    using Cons.prems(1) unfolding f by (rule encode_from_Cons)
  note ok = encode_field_ok [OF e(1)]
  have w: "wire_fields (f # fs) = (tag, w) # wire_fields fs" using ok by (simp add: wire_fields_def f)
  have r: "readable data (wire_fields fs)" and t: "tag < 10 ^ 9" and l: "length w < 10 ^ 12"
      and n: "tag \<in> fst ` set data \<Longrightarrow> is_number w"
    using Cons.prems(2) by (auto simp: w readable_def)
  have tag: "CHR ''='' \<notin> set (int_str tag)" using ok not_in_nat_str by (simp add: int_str_def)
  have a: "announced data (Some tag) w = Inr (pending_after data (Some (tag, w)))"
  proof (cases "map_of data tag")
    case (Some dt)
    then have "tag \<in> fst ` set data" using map_of_SomeD by force
    then show ?thesis using n Some by (simp add: announced_def pending_after_def)
  qed (simp add: announced_def pending_after_def)
  have sp: "split_first CHR ''='' raw = Some (int_str tag, w @ SOH # out)" using split_first_here [OF tag] by (simp add: raw)
  have ne: "raw \<noteq> []" by (simp add: raw)
  show ?case
    using Cons.IH [OF e(2) r] ok t ne
    by (simp add: parse_from.simps [of data _ raw] sp parse_tag_int_str Let_def take_value_encoded [OF e(1) l] a w field_problem_def)
qed

lemma encode_fields_end:
  "encode_from data previous fs = Inr raw \<Longrightarrow> fs \<noteq> [] \<Longrightarrow> raw \<noteq> [] \<and> last raw = SOH"
proof (induction fs arbitrary: previous raw)
  case (Cons f fs)
  obtain tag v where f: "f = (tag, v)" by fastforce
  obtain w out where "encode_from data (Some (tag, w)) fs = Inr out" "raw = int_str tag @ ''='' @ w @ [SOH] @ out"
    using Cons.prems(1) unfolding f by (rule encode_from_Cons)
  then show ?case using Cons.IH [of "Some (tag, w)" out] by (cases fs) auto
qed simp

section \<open>Frames\<close>

lemma digits_value_zeros: "digits_value (replicate k CHR ''0'' @ s) = digits_value s"
  by (induction k) (simp_all add: digits_value_def)

lemma digits_value_pad [simp]: "digits_value (pad k n) = n"
  by (simp add: pad_def Let_def digits_value_zeros digits_value_nat_str)

lemma is_number_pad [simp]: "is_number (pad k n)"
  using nat_str_nonempty nat_str_is_digit by (auto simp: pad_def Let_def is_number_def list_all_iff is_digit_def)

lemma length_pad: "n < 10 ^ k \<Longrightarrow> 0 < k \<Longrightarrow> length (pad k n) = k"
  using length_nat_str_le [of n k] by (simp add: pad_def Let_def)

lemma find_char_here:
  "length u = a \<Longrightarrow> c \<notin> set v \<Longrightarrow> length v < k - a \<Longrightarrow> find_char c a k (u @ v @ c # w) = Some (a + length v)"
proof -
  assume u: "length u = a" and v: "c \<notin> set v" and l: "length v < k - a"
  have t: "take (k - a) (drop a (u @ v @ c # w)) = v @ c # take (k - a - length v - 1) w"
    using u l by (simp add: take_Cons')
  show ?thesis using v unfolding find_char_def Let_def t by (simp add: takeWhile_append)
qed

lemma chomp_cases: "s = chomp s \<or> s = chomp s @ [CHR 0x0A]"
  unfolding chomp_def by (metis append_butlast_last_id)

lemma begin_string_chars:
  assumes "begin_string_ok s"
  shows "SOH \<notin> set s"
proof -
  define t where "t = chomp s"
  define u where "u = drop 3 t"
  define v where "v = (if u \<noteq> [] \<and> hd u = CHR ''T'' then tl u else u)"
  define minor where "minor = dropWhile is_digit (tl v)"
  have a: "take 3 t = ''FIX''" "v \<noteq> []" "hd v = CHR ''.''" "minor \<noteq> []" "hd minor = CHR ''.''" "is_number (tl minor)"
    using assms unfolding begin_string_ok_def Let_def t_def u_def v_def minor_def by auto
  have "set minor \<subseteq> {CHR ''.''} \<union> Collect is_digit" using a by (cases minor) (auto simp: is_number_def list_all_iff)
  moreover have "set (tl v) \<subseteq> Collect is_digit \<union> set minor"
    unfolding minor_def by (metis Un_iff mem_Collect_eq set_append set_takeWhileD subsetI takeWhile_dropWhile_id)
  ultimately have "set v \<subseteq> {CHR ''.''} \<union> Collect is_digit" using a by (cases v) auto
  then have "set u \<subseteq> {CHR ''T'', CHR ''.''} \<union> Collect is_digit" unfolding v_def by (cases u) (auto split: if_splits)
  moreover have "set t = set (take 3 t) \<union> set u" unfolding u_def by (metis append_take_drop_id set_append)
  ultimately have "set t \<subseteq> set ''FIX'' \<union> {CHR ''T'', CHR ''.''} \<union> Collect is_digit" using a(1) by auto
  moreover have "set s \<subseteq> set t \<union> {CHR 0x0A}" using chomp_cases [of s] unfolding t_def by (metis Un_iff list.set(1,2) set_append subsetI)
  ultimately show ?thesis by (auto simp: SOH_def is_digit_def)
qed

lemma scan_encoded:
  assumes e: "encode_frame b body = Inr frame" and b: "length b \<le> 29" and l: "length body \<le> limit"
    and soh: "last body = SOH"
  shows "\<exists>i. scan_frame limit (frame @ rest) = GoodFrame b i (length frame) \<and> body_of i (length frame) (frame @ rest) = body"
proof -
  let ?ds = "nat_str (length body)"
  define h1 where "h1 = ''8='' @ b @ [SOH]"
  define h2 where "h2 = h1 @ ''9='' @ ?ds @ [SOH]"
  define c where "c = checksum (h2 @ body)"
  have ok: "take 3 body = ''35=''" "begin_string_ok b" and f: "frame = h2 @ body @ ''10='' @ pad 3 c @ [SOH]"
    using e by (auto simp: encode_frame_def Let_def trailer_def h1_def h2_def c_def split: if_splits)
  have c: "c < 10 ^ 3" by (simp add: c_def checksum_def less_trans [OF mod_less_divisor])
  have p3: "length (pad 3 c) = 3" using length_pad [OF c] by simp
  have ne: "body \<noteq> []" using ok(1) by auto
  let ?s = "frame @ rest"
  have len: "length frame = length h2 + length body + 7" using p3 by (simp add: f)
  have scan3: "scan_body b (length body) (length h2) ?s = GoodFrame b (length h2) (length frame)"
  proof -
    have d1: "drop (length h2) ?s = body @ ''10='' @ pad 3 c @ [SOH] @ rest" by (simp add: f)
    have d2: "drop (length h2 + length body) ?s = ''10='' @ pad 3 c @ [SOH] @ rest" by (simp add: f)
    have d3: "drop (length h2 + length body + 3) ?s = pad 3 c @ [SOH] @ rest" by (simp add: f)
    have d4: "take (length h2 + length body) ?s = h2 @ body" by (simp add: f)
    have n1: "?s ! (length h2 + length body - 1) = SOH"
      using soh ne by (cases "length body") (simp_all add: f nth_append last_conv_nth)
    have n2: "?s ! (length h2 + length body + TRAILER_LENGTH - 1) = SOH"
      using p3 by (simp add: f nth_append TRAILER_LENGTH_def)
    have "body = ''35='' @ drop 3 body" using append_take_drop_id [of 3 body] by (simp add: ok(1))
    then have t3: "take 3 (body @ x) = ''35=''" for x by (metis append_assoc append_eq_conv_conj length_Cons list.size(3) numeral_3_eq_3)
    show ?thesis
      unfolding scan_body_def Let_def d1 d2 d3 d4 n1 n2
      using t3 p3 len by (simp add: begins_def TRAILER_LENGTH_def c_def [symmetric])
  qed
  have scan2: "scan_length limit b (length h1) ?s = GoodFrame b (length h2) (length frame)"
  proof -
    have d1: "drop (length h1) ?s = ''9='' @ ?ds @ [SOH] @ body @ ''10='' @ pad 3 c @ [SOH] @ rest" by (simp add: f h2_def)
    have d2: "drop (length h1 + 2) ?s = ?ds @ [SOH] @ body @ ''10='' @ pad 3 c @ [SOH] @ rest" by (simp add: f h2_def)
    have "length ?ds < length h1 + 2 + (length (nat_str limit) + 1) - (length h1 + 2)" using length_nat_str_mono [OF l] by simp
    from find_char_here [OF _ not_in_nat_str [OF SOH_not_digit] this, of "h1 @ ''9=''"]
    have k: "find_char SOH (length h1 + 2) (length h1 + 2 + (length (nat_str limit) + 1)) ?s = Some (length h1 + 2 + length ?ds)"
      by (simp add: f h2_def)
    have end2: "length h1 + 2 + length ?ds + 1 = length h2" by (simp add: h2_def)
    show ?thesis
      unfolding scan_length_def Let_def d1 d2 k option.case end2
      using l scan3 by (simp add: begins_def digits_value_nat_str)
  qed
  have "scan_frame limit ?s = GoodFrame b (length h2) (length frame)"
  proof -
    have d1: "take 2 ?s = ''8=''" by (simp add: f h2_def h1_def)
    have d2: "drop 2 ?s = b @ [SOH] @ ''9='' @ ?ds @ [SOH] @ body @ ''10='' @ pad 3 c @ [SOH] @ rest" by (simp add: f h2_def h1_def)
    from find_char_here [of "''8=''" 2 SOH b MAX_BEGIN_STRING_FIELD] b begin_string_chars [OF ok(2)]
    have k: "find_char SOH 2 MAX_BEGIN_STRING_FIELD ?s = Some (2 + length b)"
      by (simp add: f h2_def h1_def MAX_BEGIN_STRING_FIELD_def)
    have start: "2 + length b + 1 = length h1" by (simp add: h1_def)
    have l2: "\<not> length ?s < 2" by (simp add: len)
    show ?thesis
      unfolding scan_frame_def Let_def d1 d2 k option.case start
      using l2 ok(2) scan2 by (simp add: begins_def)
  qed
  moreover have "body_of (length h2) (length frame) ?s = body"
    using len by (simp add: body_of_def TRAILER_LENGTH_def f)
  ultimately show ?thesis by blast
qed

section \<open>Messages\<close>

definition message_of :: "string \<Rightarrow> (int \<times> field_value) list \<Rightarrow> fix_message" where
  "message_of b fs =
     \<lparr>fm_begin = b, fm_fields = map (\<lambda>(tag, raw). (tag, Plain raw)) (wire_fields fs), fm_defect = None\<rparr>"

text \<open>Frames the parser is able to take: the encoder alone does not bound the BeginString or the body.\<close>

definition sendable :: "nat \<Rightarrow> (int \<times> int) list \<Rightarrow> string \<times> (int \<times> field_value) list \<Rightarrow> bool" where
  "sendable limit data m =
     (case m of (b, fs) \<Rightarrow>
        length b \<le> 29 \<and> readable data (wire_fields fs) \<and>
        (case encode_fields data fs of Inr body \<Rightarrow> length body \<le> limit | Inl _ \<Rightarrow> False))"

lemma encoded_frame:
  assumes "encode data b fs = Inr frame" and "sendable limit data (b, fs)"
  obtains i where "scan_frame limit (frame @ rest) = GoodFrame b i (length frame)"
    and "parse_fields data (body_of i (length frame) (frame @ rest)) = Inr (wire_fields fs, None)"
proof -
  obtain body where body: "encode_fields data fs = Inr body" and e: "encode_frame b body = Inr frame"
    using assms(1) by (auto simp: encode_def bind_result_def split: sum.splits)
  have s: "length b \<le> 29" "readable data (wire_fields fs)" "length body \<le> limit" using assms(2) body by (auto simp: sendable_def)
  have "fs \<noteq> []" using e body by (auto simp: encode_fields_def encode_frame_def split: if_splits)
  then have "last body = SOH" using encode_fields_end body by (auto simp: encode_fields_def)
  then obtain i where "scan_frame limit (frame @ rest) = GoodFrame b i (length frame)" "body_of i (length frame) (frame @ rest) = body"
    using scan_encoded [OF e s(1,3)] by blast
  moreover have "parse_fields data body = Inr (wire_fields fs, None)"
    using parse_encoded [of data None fs body] body s(2) by (simp add: parse_fields_def encode_fields_def pending_after_def)
  ultimately show ?thesis using that by simp
qed

lemma decode_encode:
  assumes "encode data b fs = Inr frame" and "sendable limit data (b, fs)"
  shows "decode limit data frame = Inr (message_of b fs)"
proof -
  obtain i where "scan_frame limit (frame @ []) = GoodFrame b i (length frame)"
      "parse_fields data (body_of i (length frame) (frame @ [])) = Inr (wire_fields fs, None)"
    using encoded_frame [OF assms] by blast
  then show ?thesis by (simp add: decode_def message_of_def)
qed

text \<open>A stream of frames, in one piece and then in any pieces.\<close>

fun encode_all :: "(int \<times> int) list \<Rightarrow> (string \<times> (int \<times> field_value) list) list \<Rightarrow> string codec" where
  "encode_all data [] = Inr []"
| "encode_all data ((b, fs) # rest) =
     bind_result (encode data b fs) (\<lambda>frame. bind_result (encode_all data rest) (\<lambda>out. Inr (frame @ out)))"

lemma drain_encoded:
  "encode_all data ms = Inr bytes \<Longrightarrow> list_all (sendable limit data) ms \<Longrightarrow>
   drain limit data True bytes = (map (\<lambda>(b, fs). Parsed (message_of b fs)) ms, [], True)"
proof (induction ms arbitrary: bytes)
  case (Cons m ms)
  obtain b fs where m: "m = (b, fs)" by fastforce
  obtain frame out where e: "encode data b fs = Inr frame" "encode_all data ms = Inr out" "bytes = frame @ out"
    using Cons.prems(1) by (auto simp: m bind_result_def split: sum.splits)
  have s: "sendable limit data (b, fs)" "list_all (sendable limit data) ms" using Cons.prems(2) by (simp_all add: m)
  obtain i where "scan_frame limit (frame @ out) = GoodFrame b i (length frame)"
      "parse_fields data (body_of i (length frame) (frame @ out)) = Inr (wire_fields fs, None)"
    using encoded_frame [OF e(1) s(1)] by blast
  from drain_good [OF this] Cons.IH [OF e(2) s(2)] show ?case by (simp add: e(3) m message_of_def)
qed simp

lemma shape_parsed: "map shape xs = map (\<lambda>m. Parsed (f m)) ms \<Longrightarrow> xs = map (\<lambda>m. Parsed (f m)) ms"
proof (induction ms arbitrary: xs)
  case (Cons m ms)
  then obtain x ys where "xs = x # ys" "shape x = Parsed (f m)" "map shape ys = map (\<lambda>m. Parsed (f m)) ms" by auto
  then show ?case using Cons.IH by (cases x) auto
qed simp

lemma stream_encoded:
  assumes "encode_all data ms = Inr (concat chunks)" and "list_all (sendable (fp_max p) data) ms"
    and "fp_data p = data" and "fp_buffer p = []" and "fp_synced p"
  shows "feed_all p chunks = (map (\<lambda>(b, fs). Parsed (message_of b fs)) ms, p)"
proof (cases chunks)
  case Nil
  then have "ms = []" using assms(1)
    by (cases ms) (auto simp: bind_result_def encode_def encode_frame_def Let_def split: sum.splits if_splits)
  then show ?thesis using Nil by simp
next
  case (Cons c cs)
  have p: "p\<lparr>fp_buffer := [], fp_synced := True\<rparr> = p" using assms(4,5) by simp
  have f: "feed p (concat chunks) = (map (\<lambda>(b, fs). Parsed (message_of b fs)) ms, p)"
    using drain_encoded [OF assms(1,2)] assms(3-5) p by (simp add: feed_def)
  have "map shape (fst (feed_all p chunks)) = map (\<lambda>m. Parsed (case m of (b, fs) \<Rightarrow> message_of b fs)) ms"
    using feed_all_one [of p c cs] f unfolding Cons by (simp add: case_prod_unfold comp_def)
  from shape_parsed [OF this] have "fst (feed_all p chunks) = map (\<lambda>(b, fs). Parsed (message_of b fs)) ms"
    by (simp add: case_prod_unfold)
  moreover have "snd (feed_all p chunks) = p" using feed_all_one [of p c cs] f unfolding Cons by simp
  ultimately show ?thesis by (metis prod.collapse)
qed

section \<open>Properties\<close>

text \<open>C26: What was encoded is read back: a stream of encoded messages, cut into any chunks, gives a parser that
  is in step exactly these messages, each field's bytes in order, and nothing stays in the buffer. The
  BeginString, the tags and the bodies have to be within what the parser takes.\<close>

theorem encoded_stream_is_read_back:
  assumes "encode_all data ms = Inr (concat chunks)" and "list_all (sendable (fp_max p) data) ms"
    and "fp_data p = data" and "fp_buffer p = []" and "fp_synced p"
  shows "feed_all p chunks = (map (\<lambda>(b, fs). Parsed (message_of b fs)) ms, p)"
  using assms by (rule stream_encoded)

definition sample_parser :: fix_parser where
  "sample_parser = \<lparr>fp_max = 1000, fp_data = DATA_FIELDS, fp_buffer = [], fp_synced = True\<rparr>"

definition sample_fields :: "(int \<times> field_value) list" where
  "sample_fields = [(35, VText (codes ''D'')), (95, VInt 3), (96, VText [65, 1, 255]), (54, VInt 1)]"

definition sample_body :: string where
  "sample_body = ''35=D'' @ [SOH] @ ''95=3'' @ [SOH] @ ''96='' @ [CHR ''A'', SOH, CHR 0xFF] @ [SOH] @ ''54=1'' @ [SOH]"

definition sample_frame :: string where
  "sample_frame = ''8=FIX.4.4'' @ [SOH] @ ''9=22'' @ [SOH] @ sample_body @ ''10=139'' @ [SOH]"

lemma sample_body_encoded: "encode_fields DATA_FIELDS sample_fields = Inr sample_body"
  by (simp add: encode_defs sample_fields_def sample_body_def)

lemma sample_frame_encoded: "encode DATA_FIELDS ''FIX.4.4'' sample_fields = Inr sample_frame"
  by (simp add: encode_def sample_body_encoded) (simp add: encode_defs sample_body_def sample_frame_def)

lemma sample_wire: "wire_fields sample_fields = [(35, ''D''), (95, ''3''), (96, [CHR ''A'', SOH, CHR 0xFF]), (54, ''1'')]"
  by (simp add: wire_fields_def sample_fields_def wire_bytes_def encode_defs)

lemma sample_sendable: "sendable 1000 DATA_FIELDS (''FIX.4.4'', sample_fields)"
  by (simp add: sendable_def readable_def sample_wire sample_body_encoded) (simp add: sample_body_def DATA_FIELDS_def is_number_def is_digit_def)

lemma encoded_stream_is_read_back_witness:
  "feed_all sample_parser [take 7 sample_frame, drop 7 sample_frame @ sample_frame] =
     ([Parsed (message_of ''FIX.4.4'' sample_fields), Parsed (message_of ''FIX.4.4'' sample_fields)], sample_parser)"
  using encoded_stream_is_read_back
    [of DATA_FIELDS "[(''FIX.4.4'', sample_fields), (''FIX.4.4'', sample_fields)]"
        "[take 7 sample_frame, drop 7 sample_frame @ sample_frame]" sample_parser]
  by (simp add: sample_frame_encoded sample_sendable sample_parser_def append_assoc [symmetric] del: append_assoc)

end
