(* ===== verification/FixStore.thy ===== *)
theory FixStore
  imports Prelude
begin

text \<open>
  \<open>fix/store.py\<close>: the durable state of a FIX session, in memory and in the tables of one SQLite file that
  several sessions share, keyed by the session's name. Each statement of the SQLite store is a function
  of the tables; what makes it the store of its session is \<open>view\<close>, the in-memory store read off the rows
  of one session.

  Payloads, timestamps and message bodies are texts the store does not look into. Rows are in \<open>rowid\<close>
  order; where a query has no \<open>ORDER BY\<close>, SQLite may return them in another. A transaction takes
  whether the file takes it: if not, it is rolled back and \<open>FixStoreError\<close> is raised. An integer that
  does not fit SQLite's 64 bits raises the same error.
\<close>

section \<open>Records\<close>

record stored_message =
  sm_seq :: nat
  sm_type :: string
  sm_time :: string
  sm_body :: string

record stored_execution =
  se_cid :: string
  se_exec :: string
  se_digest :: string
  se_fill :: "string option"
  se_busted :: bool
  se_received :: string
  se_latest :: int

record quarantined =
  qu_seq :: nat
  qu_type :: string
  qu_content :: string
  qu_reason :: string
  qu_received :: string
  qu_halted :: bool
  qu_released_by :: "string option"
  qu_release_reason :: "string option"
  qu_released_at :: "string option"

datatype store_error = FixStoreError

definition exec_key :: "stored_execution \<Rightarrow> string \<times> string" where
  "exec_key e = (se_cid e, se_exec e)"

definition unreleased :: "quarantined \<Rightarrow> bool" where
  "unreleased q \<longleftrightarrow> qu_released_by q = None"

definition release_row :: "string \<Rightarrow> string \<Rightarrow> string \<Rightarrow> quarantined \<Rightarrow> quarantined" where
  "release_row operator reason t q =
     q\<lparr>qu_released_by := Some operator, qu_release_reason := Some reason, qu_released_at := Some t\<rparr>"

section \<open>The store in memory\<close>

record memory_store =
  ms_id :: string
  ms_next_out :: nat
  ms_next_in :: nat
  ms_messages :: "nat \<rightharpoonup> stored_message"
  ms_orders :: "string \<rightharpoonup> string"
  ms_open :: "string set"
  ms_period :: "string option"
  ms_complete :: bool
  ms_wire :: "string \<rightharpoonup> string"
  ms_executions :: "stored_execution list"
  ms_quarantine :: "quarantined list"

definition new_memory_store :: "string \<Rightarrow> memory_store" where
  "new_memory_store i =
     \<lparr>ms_id = i, ms_next_out = 1, ms_next_in = 1, ms_messages = Map.empty, ms_orders = Map.empty, ms_open = {},
      ms_period = None, ms_complete = False, ms_wire = Map.empty, ms_executions = [], ms_quarantine = []\<rparr>"

definition mem_allocate :: "stored_message option \<Rightarrow> memory_store \<Rightarrow> memory_store \<times> nat" where
  "mem_allocate m s =
     (let seq = ms_next_out s;
          s1 = (case m of None \<Rightarrow> s | Some x \<Rightarrow> s\<lparr>ms_messages := (ms_messages s)(seq \<mapsto> x\<lparr>sm_seq := seq\<rparr>)\<rparr>)
      in (s1\<lparr>ms_next_out := seq + 1\<rparr>, seq))"

definition mem_set_next_inbound :: "nat \<Rightarrow> memory_store \<Rightarrow> memory_store" where
  "mem_set_next_inbound n s = s\<lparr>ms_next_in := n\<rparr>"

definition mem_messages :: "nat \<Rightarrow> nat \<Rightarrow> memory_store \<Rightarrow> stored_message list" where
  "mem_messages a b s = List.map_filter (ms_messages s) [a ..< b + 1]"

definition mem_reset_sequences :: "memory_store \<Rightarrow> memory_store" where
  "mem_reset_sequences s = s\<lparr>ms_next_out := 1, ms_next_in := 1, ms_messages := Map.empty\<rparr>"

definition mem_set_reset_period :: "string \<Rightarrow> memory_store \<Rightarrow> memory_store" where
  "mem_set_reset_period p s = s\<lparr>ms_period := Some p\<rparr>"

definition mem_set_inbound_complete :: "bool \<Rightarrow> memory_store \<Rightarrow> memory_store" where
  "mem_set_inbound_complete c s = s\<lparr>ms_complete := c\<rparr>"

definition mem_put_order :: "string \<Rightarrow> string \<Rightarrow> bool \<Rightarrow> memory_store \<Rightarrow> memory_store" where
  "mem_put_order cid payload is_open s =
     s\<lparr>ms_orders := (ms_orders s)(cid \<mapsto> payload), ms_open := (if is_open then insert cid (ms_open s) else ms_open s - {cid})\<rparr>"

definition mem_delete_order :: "string \<Rightarrow> memory_store \<Rightarrow> memory_store" where
  "mem_delete_order cid s =
     s\<lparr>ms_orders := (ms_orders s)(cid := None), ms_open := ms_open s - {cid},
       ms_wire := (\<lambda>w. if ms_wire s w = Some cid then None else ms_wire s w)\<rparr>"

definition mem_link_wire_id :: "string \<Rightarrow> string \<Rightarrow> memory_store \<Rightarrow> memory_store" where
  "mem_link_wire_id w cid s = s\<lparr>ms_wire := (ms_wire s)(w \<mapsto> cid)\<rparr>"

definition mem_execution :: "string \<Rightarrow> string \<Rightarrow> memory_store \<Rightarrow> stored_execution option" where
  "mem_execution cid x s = find_by exec_key (cid, x) (ms_executions s)"

definition mem_add_execution :: "stored_execution \<Rightarrow> memory_store \<Rightarrow> memory_store" where
  "mem_add_execution e s =
     (case find_by exec_key (exec_key e) (ms_executions s) of
        Some _ \<Rightarrow> s | None \<Rightarrow> s\<lparr>ms_executions := ms_executions s @ [e]\<rparr>)"

definition mem_bust :: "string \<Rightarrow> string \<Rightarrow> memory_store \<Rightarrow> memory_store" where
  "mem_bust cid x s =
     (case find_by exec_key (cid, x) (ms_executions s) of
        None \<Rightarrow> s
      | Some known \<Rightarrow> s\<lparr>ms_executions := replace_by exec_key (cid, x) (known\<lparr>se_busted := True\<rparr>) (ms_executions s)\<rparr>)"

definition mem_quarantine :: "quarantined \<Rightarrow> memory_store \<Rightarrow> memory_store" where
  "mem_quarantine q s = s\<lparr>ms_quarantine := ms_quarantine s @ [q]\<rparr>"

definition maybe :: "('a \<Rightarrow> 's \<Rightarrow> 's) \<Rightarrow> 'a option \<Rightarrow> 's \<Rightarrow> 's" where
  "maybe f x s = (case x of None \<Rightarrow> s | Some y \<Rightarrow> f y s)"

definition mem_record_report ::
    "string \<Rightarrow> string option \<Rightarrow> bool \<Rightarrow> stored_execution option \<Rightarrow> string option \<Rightarrow> quarantined option \<Rightarrow>
     memory_store \<Rightarrow> memory_store" where
  "mem_record_report cid payload is_open execution bust q s =
     maybe mem_quarantine q (maybe (mem_bust cid) bust (maybe mem_add_execution execution
       (maybe (\<lambda>p. mem_put_order cid p is_open) payload s)))"

definition mem_fills_since :: "int \<Rightarrow> memory_store \<Rightarrow> stored_execution list" where
  "mem_fills_since t s = filter (\<lambda>e. se_fill e \<noteq> None \<and> \<not> se_busted e \<and> t \<le> se_latest e) (ms_executions s)"

definition mem_busted_executions :: "memory_store \<Rightarrow> stored_execution list" where
  "mem_busted_executions s = filter se_busted (ms_executions s)"

definition mem_release_quarantine :: "string \<Rightarrow> string \<Rightarrow> string \<Rightarrow> nat \<Rightarrow> memory_store \<Rightarrow> memory_store \<times> nat" where
  "mem_release_quarantine operator reason t expected s =
     (let n = length (filter unreleased (ms_quarantine s))
      in if n \<noteq> expected then (s, n)
         else (s\<lparr>ms_quarantine := map (\<lambda>q. if unreleased q then release_row operator reason t q else q) (ms_quarantine s)\<rparr>, n))"

section \<open>The tables\<close>

record sequence_row =
  sr_next_out :: nat
  sr_next_in :: nat
  sr_period :: "string option"
  sr_complete :: bool

record order_row =
  or_cid :: string
  or_payload :: string
  or_open :: bool

record fix_tables =
  ft_identity :: "(string \<times> string) list"
  ft_sequence :: "(string \<times> sequence_row) list"
  ft_outbound :: "(string \<times> stored_message) list"
  ft_order :: "(string \<times> order_row) list"
  ft_wire :: "(string \<times> string \<times> string) list"
  ft_execution :: "(string \<times> stored_execution) list"
  ft_quarantine :: "(string \<times> quarantined) list"

definition MAX_INTEGER :: nat where
  "MAX_INTEGER = 2 ^ 63 - 1"

text \<open>\<open>_transaction\<close>: committed, or rolled back with the error.\<close>

definition transaction :: "bool \<Rightarrow> (fix_tables \<Rightarrow> fix_tables \<times> 'a) \<Rightarrow> fix_tables \<Rightarrow> fix_tables \<times> (store_error + 'a)" where
  "transaction taken f db = (if taken then (case f db of (db', x) \<Rightarrow> (db', Inr x)) else (db, Inl FixStoreError))"

text \<open>\<open>INSERT OR REPLACE\<close> and \<open>INSERT OR IGNORE\<close> under a primary key.\<close>

definition insert_or_replace :: "('r \<Rightarrow> 'k) \<Rightarrow> 'r \<Rightarrow> 'r list \<Rightarrow> 'r list" where
  "insert_or_replace key r rows = filter (\<lambda>x. key x \<noteq> key r) rows @ [r]"

definition insert_or_ignore :: "('r \<Rightarrow> 'k) \<Rightarrow> 'r \<Rightarrow> 'r list \<Rightarrow> 'r list" where
  "insert_or_ignore key r rows = (if find_by key (key r) rows = None then rows @ [r] else rows)"

definition order_key :: "string \<times> order_row \<Rightarrow> string \<times> string" where
  "order_key r = (fst r, or_cid (snd r))"

definition outbound_key :: "string \<times> stored_message \<Rightarrow> string \<times> nat" where
  "outbound_key r = (fst r, sm_seq (snd r))"

definition wire_key :: "string \<times> string \<times> string \<Rightarrow> string \<times> string" where
  "wire_key r = (fst r, fst (snd r))"

definition execution_key :: "string \<times> stored_execution \<Rightarrow> string \<times> string \<times> string" where
  "execution_key r = (fst r, exec_key (snd r))"

definition change_sequence :: "string \<Rightarrow> (sequence_row \<Rightarrow> sequence_row) \<Rightarrow> fix_tables \<Rightarrow> fix_tables" where
  "change_sequence se f db = db\<lparr>ft_sequence := map (\<lambda>(k, r). (k, if k = se then f r else r)) (ft_sequence db)\<rparr>"

definition sequence_of :: "string \<Rightarrow> fix_tables \<Rightarrow> sequence_row" where
  "sequence_of se db =
     (case map_of (ft_sequence db) se of
        Some r \<Rightarrow> r | None \<Rightarrow> \<lparr>sr_next_out = 1, sr_next_in = 1, sr_period = None, sr_complete = False\<rparr>)"

text \<open>Opening the store of a session: its row of numbers and its random id, unless they are there.\<close>

definition sql_open :: "string \<Rightarrow> string \<Rightarrow> fix_tables \<Rightarrow> fix_tables" where
  "sql_open se fresh_id db =
     db\<lparr>ft_sequence := insert_or_ignore fst (se, \<lparr>sr_next_out = 1, sr_next_in = 1, sr_period = None, sr_complete = False\<rparr>) (ft_sequence db),
        ft_identity := insert_or_ignore fst (se, fresh_id) (ft_identity db)\<rparr>"

definition sql_store_id :: "string \<Rightarrow> fix_tables \<Rightarrow> string option" where
  "sql_store_id se db = map_of (ft_identity db) se"

definition sql_next_outbound :: "string \<Rightarrow> fix_tables \<Rightarrow> nat" where
  "sql_next_outbound se db = sr_next_out (sequence_of se db)"

definition sql_next_inbound :: "string \<Rightarrow> fix_tables \<Rightarrow> nat" where
  "sql_next_inbound se db = sr_next_in (sequence_of se db)"

definition sql_allocate :: "bool \<Rightarrow> string \<Rightarrow> stored_message option \<Rightarrow> fix_tables \<Rightarrow> fix_tables \<times> (store_error + nat)" where
  "sql_allocate taken se m db =
     transaction (taken \<and> sql_next_outbound se db < MAX_INTEGER) (\<lambda>db.
       let seq = sql_next_outbound se db;
           db1 = (case m of None \<Rightarrow> db
                  | Some x \<Rightarrow> db\<lparr>ft_outbound := insert_or_replace outbound_key (se, x\<lparr>sm_seq := seq\<rparr>) (ft_outbound db)\<rparr>)
       in (change_sequence se (\<lambda>r. r\<lparr>sr_next_out := seq + 1\<rparr>) db1, seq)) db"

definition sql_set_next_inbound :: "bool \<Rightarrow> string \<Rightarrow> nat \<Rightarrow> fix_tables \<Rightarrow> fix_tables \<times> (store_error + unit)" where
  "sql_set_next_inbound taken se n =
     transaction (taken \<and> n \<le> MAX_INTEGER) (\<lambda>db. (change_sequence se (\<lambda>r. r\<lparr>sr_next_in := n\<rparr>) db, ()))"

definition sql_messages :: "string \<Rightarrow> nat \<Rightarrow> nat \<Rightarrow> fix_tables \<Rightarrow> stored_message list" where
  "sql_messages se a b db =
     sort_key sm_seq (map snd (filter (\<lambda>(k, m). k = se \<and> a \<le> sm_seq m \<and> sm_seq m \<le> b) (ft_outbound db)))"

definition sql_reset_sequences :: "bool \<Rightarrow> string \<Rightarrow> fix_tables \<Rightarrow> fix_tables \<times> (store_error + unit)" where
  "sql_reset_sequences taken se =
     transaction taken (\<lambda>db.
       ((change_sequence se (\<lambda>r. r\<lparr>sr_next_out := 1, sr_next_in := 1\<rparr>) db)
          \<lparr>ft_outbound := filter (\<lambda>r. fst r \<noteq> se) (ft_outbound db)\<rparr>, ()))"

definition sql_set_reset_period :: "bool \<Rightarrow> string \<Rightarrow> string \<Rightarrow> fix_tables \<Rightarrow> fix_tables \<times> (store_error + unit)" where
  "sql_set_reset_period taken se p = transaction taken (\<lambda>db. (change_sequence se (\<lambda>r. r\<lparr>sr_period := Some p\<rparr>) db, ()))"

definition sql_set_inbound_complete :: "bool \<Rightarrow> string \<Rightarrow> bool \<Rightarrow> fix_tables \<Rightarrow> fix_tables \<times> (store_error + unit)" where
  "sql_set_inbound_complete taken se c = transaction taken (\<lambda>db. (change_sequence se (\<lambda>r. r\<lparr>sr_complete := c\<rparr>) db, ()))"

definition insert_order :: "string \<Rightarrow> string \<Rightarrow> string \<Rightarrow> bool \<Rightarrow> fix_tables \<Rightarrow> fix_tables" where
  "insert_order se cid payload is_open db =
     db\<lparr>ft_order := insert_or_replace order_key (se, \<lparr>or_cid = cid, or_payload = payload, or_open = is_open\<rparr>) (ft_order db)\<rparr>"

definition sql_put_order :: "bool \<Rightarrow> string \<Rightarrow> string \<Rightarrow> string \<Rightarrow> bool \<Rightarrow> fix_tables \<Rightarrow> fix_tables \<times> (store_error + unit)" where
  "sql_put_order taken se cid payload is_open = transaction taken (\<lambda>db. (insert_order se cid payload is_open db, ()))"

definition sql_delete_order :: "bool \<Rightarrow> string \<Rightarrow> string \<Rightarrow> fix_tables \<Rightarrow> fix_tables \<times> (store_error + unit)" where
  "sql_delete_order taken se cid =
     transaction taken (\<lambda>db.
       (db\<lparr>ft_order := filter (\<lambda>r. order_key r \<noteq> (se, cid)) (ft_order db),
           ft_wire := filter (\<lambda>(k, w, c). \<not> (k = se \<and> c = cid)) (ft_wire db)\<rparr>, ()))"

definition sql_get_order :: "string \<Rightarrow> string \<Rightarrow> fix_tables \<Rightarrow> string option" where
  "sql_get_order se cid db = map_option (or_payload \<circ> snd) (find_by order_key (se, cid) (ft_order db))"

definition sql_open_orders :: "string \<Rightarrow> fix_tables \<Rightarrow> string list" where
  "sql_open_orders se db = map (or_payload \<circ> snd) (filter (\<lambda>(k, r). k = se \<and> or_open r) (ft_order db))"

definition sql_link_wire_id :: "bool \<Rightarrow> string \<Rightarrow> string \<Rightarrow> string \<Rightarrow> fix_tables \<Rightarrow> fix_tables \<times> (store_error + unit)" where
  "sql_link_wire_id taken se w cid =
     transaction taken (\<lambda>db. (db\<lparr>ft_wire := insert_or_replace wire_key (se, w, cid) (ft_wire db)\<rparr>, ()))"

definition sql_resolve_wire_id :: "string \<Rightarrow> string \<Rightarrow> fix_tables \<Rightarrow> string option" where
  "sql_resolve_wire_id se w db = map_option (snd \<circ> snd) (find_by wire_key (se, w) (ft_wire db))"

definition sql_execution :: "string \<Rightarrow> string \<Rightarrow> string \<Rightarrow> fix_tables \<Rightarrow> stored_execution option" where
  "sql_execution se cid x db = map_option snd (find_by execution_key (se, cid, x) (ft_execution db))"

definition insert_execution :: "string \<Rightarrow> stored_execution \<Rightarrow> fix_tables \<Rightarrow> fix_tables" where
  "insert_execution se e db =
     db\<lparr>ft_execution := insert_or_ignore execution_key (se, e\<lparr>se_busted := False\<rparr>) (ft_execution db)\<rparr>"

definition update_busted :: "string \<Rightarrow> string \<Rightarrow> string \<Rightarrow> fix_tables \<Rightarrow> fix_tables" where
  "update_busted se cid x db =
     db\<lparr>ft_execution := map (\<lambda>(k, e). (k, if k = se \<and> exec_key e = (cid, x) then e\<lparr>se_busted := True\<rparr> else e)) (ft_execution db)\<rparr>"

definition insert_quarantine :: "string \<Rightarrow> quarantined \<Rightarrow> fix_tables \<Rightarrow> fix_tables" where
  "insert_quarantine se q db = db\<lparr>ft_quarantine := ft_quarantine db @ [(se, q)]\<rparr>"

definition sql_record_report ::
    "bool \<Rightarrow> string \<Rightarrow> string \<Rightarrow> string option \<Rightarrow> bool \<Rightarrow> stored_execution option \<Rightarrow> string option \<Rightarrow> quarantined option \<Rightarrow>
     fix_tables \<Rightarrow> fix_tables \<times> (store_error + unit)" where
  "sql_record_report taken se cid payload is_open execution bust q =
     transaction taken (\<lambda>db.
       (maybe (insert_quarantine se) q (maybe (update_busted se cid) bust (maybe (insert_execution se) execution
          (maybe (\<lambda>p. insert_order se cid p is_open) payload db))), ()))"

definition executions_of :: "string \<Rightarrow> fix_tables \<Rightarrow> stored_execution list" where
  "executions_of se db = map snd (filter (\<lambda>r. fst r = se) (ft_execution db))"

definition sql_fills_since :: "string \<Rightarrow> int \<Rightarrow> fix_tables \<Rightarrow> stored_execution list" where
  "sql_fills_since se t db = filter (\<lambda>e. t \<le> se_latest e \<and> se_fill e \<noteq> None \<and> \<not> se_busted e) (executions_of se db)"

definition sql_busted_executions :: "string \<Rightarrow> fix_tables \<Rightarrow> stored_execution list" where
  "sql_busted_executions se db = filter se_busted (executions_of se db)"

definition sql_quarantine :: "bool \<Rightarrow> string \<Rightarrow> quarantined \<Rightarrow> fix_tables \<Rightarrow> fix_tables \<times> (store_error + unit)" where
  "sql_quarantine taken se q = transaction taken (\<lambda>db. (insert_quarantine se q db, ()))"

definition sql_quarantined :: "string \<Rightarrow> fix_tables \<Rightarrow> quarantined list" where
  "sql_quarantined se db = map snd (filter (\<lambda>r. fst r = se) (ft_quarantine db))"

definition sql_release_quarantine ::
    "bool \<Rightarrow> string \<Rightarrow> string \<Rightarrow> string \<Rightarrow> string \<Rightarrow> nat \<Rightarrow> fix_tables \<Rightarrow> fix_tables \<times> (store_error + nat)" where
  "sql_release_quarantine taken se operator reason t expected =
     transaction taken (\<lambda>db.
       let n = length (filter (\<lambda>(k, q). k = se \<and> unreleased q) (ft_quarantine db))
       in if n \<noteq> expected then (db, n)
          else (db\<lparr>ft_quarantine :=
                     map (\<lambda>(k, q). (k, if k = se \<and> unreleased q then release_row operator reason t q else q)) (ft_quarantine db)\<rparr>, n))"

end
