(* ===== verification/FixStoreRefine.thy ===== *)
theory FixStoreRefine
  imports FixStore
begin

text \<open>
  The SQLite store of \<open>fix/store.py\<close> is the store in memory, session by session: \<open>view\<close> reads the store
  of one session off the tables, and every operation commutes with it and leaves the other sessions as
  they are, or fails and changes nothing. \<open>sequence_store\<close> is the part of the interface the session's
  outbound numbers rest on; both stores provide it.
\<close>

section \<open>The rows of one session\<close>

definition view :: "string \<Rightarrow> fix_tables \<Rightarrow> memory_store" where
  "view se db =
     \<lparr>ms_id = (case sql_store_id se db of Some i \<Rightarrow> i | None \<Rightarrow> []),
      ms_next_out = sql_next_outbound se db, ms_next_in = sql_next_inbound se db,
      ms_messages = (\<lambda>n. map_option snd (find_by outbound_key (se, n) (ft_outbound db))),
      ms_orders = (\<lambda>cid. sql_get_order se cid db),
      ms_open = (\<lambda>r. or_cid (snd r)) ` {r \<in> set (ft_order db). fst r = se \<and> or_open (snd r)},
      ms_period = sr_period (sequence_of se db), ms_complete = sr_complete (sequence_of se db),
      ms_wire = (\<lambda>w. sql_resolve_wire_id se w db),
      ms_executions = executions_of se db, ms_quarantine = sql_quarantined se db\<rparr>"

text \<open>The primary keys, and the rows opening the store puts there.\<close>

definition keys_ok :: "fix_tables \<Rightarrow> bool" where
  "keys_ok db \<longleftrightarrow>
     distinct (map fst (ft_sequence db)) \<and> distinct (map outbound_key (ft_outbound db)) \<and>
     distinct (map order_key (ft_order db)) \<and> distinct (map wire_key (ft_wire db)) \<and>
     distinct (map execution_key (ft_execution db))"

definition opened :: "string \<Rightarrow> fix_tables \<Rightarrow> bool" where
  "opened se db \<longleftrightarrow> se \<in> fst ` set (ft_sequence db)"

lemma find_by_filter_ne: "k \<noteq> j \<Longrightarrow> find_by key k (filter (\<lambda>x. key x \<noteq> j) xs) = find_by key k xs"
  by (induction xs) auto

lemma find_by_insert_or_replace:
  "find_by key k (insert_or_replace key r rows) = (if k = key r then Some r else find_by key k rows)"
proof (cases "k = key r")
  case True
  then have "find_by key k (filter (\<lambda>x. key x \<noteq> key r) rows) = None" by (auto simp: find_by_None_iff)
  then show ?thesis using True by (simp add: insert_or_replace_def find_by_append)
next
  case False
  then show ?thesis by (auto simp: insert_or_replace_def find_by_append find_by_filter_ne split: option.split)
qed

lemma distinct_insert_or_replace: "distinct (map key rows) \<Longrightarrow> distinct (map key (insert_or_replace key r rows))"
  by (auto simp: insert_or_replace_def distinct_map_filter)

lemma distinct_insert_or_ignore: "distinct (map key rows) \<Longrightarrow> distinct (map key (insert_or_ignore key r rows))"
  by (auto simp: insert_or_ignore_def find_by_None_iff)

lemma set_insert_or_replace: "set (insert_or_replace key r rows) = insert r {x \<in> set rows. key x \<noteq> key r}"
  by (auto simp: insert_or_replace_def)

section \<open>The numbers of a session\<close>

lemma map_of_change: "map_of (map (\<lambda>(k, r). (k, if k = se then f r else r)) rows) s =
    (if s = se then map_option f (map_of rows s) else map_of rows s)"
  by (induction rows) auto

lemma sequence_of_change:
  "opened se db \<Longrightarrow> sequence_of s (change_sequence se f db) = (if s = se then f (sequence_of s db) else sequence_of s db)"
  by (auto simp: sequence_of_def change_sequence_def map_of_change opened_def map_of_eq_None_iff split: option.split)

lemma change_sequence_fields [simp]:
  "ft_identity (change_sequence se f db) = ft_identity db" "ft_outbound (change_sequence se f db) = ft_outbound db"
  "ft_order (change_sequence se f db) = ft_order db" "ft_wire (change_sequence se f db) = ft_wire db"
  "ft_execution (change_sequence se f db) = ft_execution db" "ft_quarantine (change_sequence se f db) = ft_quarantine db"
  by (simp_all add: change_sequence_def)

lemma change_sequence_keys [simp]: "map fst (ft_sequence (change_sequence se f db)) = map fst (ft_sequence db)"
  by (simp add: change_sequence_def case_prod_unfold comp_def)

lemma opened_iff: "opened se db \<longleftrightarrow> se \<in> set (map fst (ft_sequence db))"
  by (simp add: opened_def)

lemma sequence_of_cong: "ft_sequence db' = ft_sequence db \<Longrightarrow> sequence_of se db' = sequence_of se db"
  by (simp add: sequence_of_def)

lemmas view_defs =
  view_def sql_next_outbound_def sql_next_inbound_def sql_get_order_def sql_resolve_wire_id_def executions_of_def
  sql_quarantined_def sql_store_id_def

section \<open>Operations that write\<close>

datatype store_op =
    Allocate "stored_message option"
  | SetNextInbound nat
  | ResetSequences
  | SetResetPeriod string
  | SetInboundComplete bool
  | PutOrder string string bool
  | DeleteOrder string
  | LinkWireId string string
  | RecordReport string "string option" bool "stored_execution option" "string option" "quarantined option"
  | Quarantine quarantined
  | ReleaseQuarantine string string string nat

fun mem_step :: "store_op \<Rightarrow> memory_store \<Rightarrow> memory_store \<times> nat" where
  "mem_step (Allocate m) s = mem_allocate m s"
| "mem_step (SetNextInbound n) s = (mem_set_next_inbound n s, 0)"
| "mem_step ResetSequences s = (mem_reset_sequences s, 0)"
| "mem_step (SetResetPeriod p) s = (mem_set_reset_period p s, 0)"
| "mem_step (SetInboundComplete c) s = (mem_set_inbound_complete c s, 0)"
| "mem_step (PutOrder cid p b) s = (mem_put_order cid p b s, 0)"
| "mem_step (DeleteOrder cid) s = (mem_delete_order cid s, 0)"
| "mem_step (LinkWireId w cid) s = (mem_link_wire_id w cid s, 0)"
| "mem_step (RecordReport cid p b e x q) s = (mem_record_report cid p b e x q s, 0)"
| "mem_step (Quarantine q) s = (mem_quarantine q s, 0)"
| "mem_step (ReleaseQuarantine o' r t n) s = mem_release_quarantine o' r t n s"

definition nothing :: "fix_tables \<times> (store_error + unit) \<Rightarrow> fix_tables \<times> (store_error + nat)" where
  "nothing r = (fst r, map_sum id (\<lambda>_. 0) (snd r))"

fun sql_step :: "bool \<Rightarrow> string \<Rightarrow> store_op \<Rightarrow> fix_tables \<Rightarrow> fix_tables \<times> (store_error + nat)" where
  "sql_step k se (Allocate m) db = sql_allocate k se m db"
| "sql_step k se (SetNextInbound n) db = nothing (sql_set_next_inbound k se n db)"
| "sql_step k se ResetSequences db = nothing (sql_reset_sequences k se db)"
| "sql_step k se (SetResetPeriod p) db = nothing (sql_set_reset_period k se p db)"
| "sql_step k se (SetInboundComplete c) db = nothing (sql_set_inbound_complete k se c db)"
| "sql_step k se (PutOrder cid p b) db = nothing (sql_put_order k se cid p b db)"
| "sql_step k se (DeleteOrder cid) db = nothing (sql_delete_order k se cid db)"
| "sql_step k se (LinkWireId w cid) db = nothing (sql_link_wire_id k se w cid db)"
| "sql_step k se (RecordReport cid p b e x q) db = nothing (sql_record_report k se cid p b e x q db)"
| "sql_step k se (Quarantine q) db = nothing (sql_quarantine k se q db)"
| "sql_step k se (ReleaseQuarantine o' r t n) db = sql_release_quarantine k se o' r t n db"

text \<open>A report's execution is new when it is recorded; it is busted only by a later report.\<close>

fun new_execution :: "store_op \<Rightarrow> bool" where
  "new_execution (RecordReport cid p b (Some e) x q) \<longleftrightarrow> \<not> se_busted e"
| "new_execution _ \<longleftrightarrow> True"

text \<open>What one step on the tables does, from the side of every session.\<close>

definition simulates :: "string \<Rightarrow> (memory_store \<Rightarrow> memory_store) \<Rightarrow> fix_tables \<Rightarrow> fix_tables \<Rightarrow> bool" where
  "simulates se f db db' \<longleftrightarrow>
     keys_ok db' \<and> view se db' = f (view se db) \<and> (\<forall>s. s \<noteq> se \<longrightarrow> view s db' = view s db) \<and>
     (\<forall>s. opened s db' = opened s db)"

lemma simulatesD:
  "simulates se f db db' \<Longrightarrow> keys_ok db'" "simulates se f db db' \<Longrightarrow> view se db' = f (view se db)"
  "simulates se f db db' \<Longrightarrow> s \<noteq> se \<Longrightarrow> view s db' = view s db" "simulates se f db db' \<Longrightarrow> opened s db' = opened s db"
  by (auto simp: simulates_def)

lemma simulates_id: "keys_ok db \<Longrightarrow> simulates se (\<lambda>s. s) db db"
  by (simp add: simulates_def)

lemma simulates_then: "simulates se f db db1 \<Longrightarrow> simulates se g db1 db2 \<Longrightarrow> simulates se (\<lambda>s. g (f s)) db db2"
  by (simp add: simulates_def)

lemma simulates_change:
  assumes "keys_ok db" and "opened se db"
    and "\<And>v. sr_next_out (g v) = a (sr_next_out v) \<and> sr_next_in (g v) = b (sr_next_in v) \<and> sr_period (g v) = p (sr_period v) \<and>
      sr_complete (g v) = c (sr_complete v)"
  shows "simulates se (\<lambda>s. s\<lparr>ms_next_out := a (ms_next_out s), ms_next_in := b (ms_next_in s),
      ms_period := p (ms_period s), ms_complete := c (ms_complete s)\<rparr>) db (change_sequence se g db)"
  using assms
  by (auto simp: simulates_def view_defs sequence_of_change keys_ok_def opened_iff simp del: list.map set_map)

lemma simulates_insert_order:
  assumes "keys_ok db"
  shows "simulates se (mem_put_order cid payload is_open) db (insert_order se cid payload is_open db)"
proof -
  let ?r = "(se, \<lparr>or_cid = cid, or_payload = payload, or_open = is_open\<rparr>)"
  have k: "keys_ok (insert_order se cid payload is_open db)"
    using assms distinct_insert_or_replace [of order_key "ft_order db" ?r] by (simp add: keys_ok_def insert_order_def)
  have f: "sql_get_order s c (insert_order se cid payload is_open db) =
      (if s = se \<and> c = cid then Some payload else sql_get_order s c db)" for s c
    by (simp add: sql_get_order_def insert_order_def find_by_insert_or_replace order_key_def)
  have ins: "{x \<in> insert a A. P x} = (if P a then insert a {x \<in> A. P x} else {x \<in> A. P x})" for a P and A :: "(string \<times> order_row) set"
    by auto
  have o: "(\<lambda>r. or_cid (snd r)) ` {r \<in> set (ft_order (insert_order se cid payload is_open db)). fst r = s \<and> or_open (snd r)} =
      (let u = (\<lambda>r. or_cid (snd r)) ` {r \<in> set (ft_order db). fst r = s \<and> or_open (snd r)}
       in if s \<noteq> se then u else if is_open then insert cid u else u - {cid})" for s
  proof -
    have r: "ft_order (insert_order se cid payload is_open db) = insert_or_replace order_key ?r (ft_order db)"
      by (simp add: insert_order_def)
    show ?thesis unfolding r set_insert_or_replace ins by (auto simp: order_key_def Let_def)
  qed
  have rest: "ft_sequence (insert_order se cid payload is_open db) = ft_sequence db" by (simp add: insert_order_def)
  have q: "sequence_of s (insert_order se cid payload is_open db) = sequence_of s db" for s by (rule sequence_of_cong [OF rest])
  show ?thesis
    using k f o q
    by (auto simp: simulates_def view_def mem_put_order_def opened_def rest sql_next_outbound_def sql_next_inbound_def
        Let_def fun_eq_iff)
      (simp_all add: insert_order_def sql_store_id_def sql_resolve_wire_id_def executions_of_def sql_quarantined_def)
qed

text \<open>A change of one table leaves what the other tables show.\<close>

lemma view_cong_sequence:
  assumes "ft_sequence db' = ft_sequence db" and "ft_identity db' = ft_identity db"
  shows "ms_id (view s db') = ms_id (view s db)" "ms_next_out (view s db') = ms_next_out (view s db)"
    "ms_next_in (view s db') = ms_next_in (view s db)" "ms_period (view s db') = ms_period (view s db)"
    "ms_complete (view s db') = ms_complete (view s db)" "opened s db' = opened s db"
proof -
  have q: "sequence_of s db' = sequence_of s db" by (rule sequence_of_cong [OF assms(1)])
  show "ms_id (view s db') = ms_id (view s db)" "ms_next_out (view s db') = ms_next_out (view s db)"
      "ms_next_in (view s db') = ms_next_in (view s db)" "ms_period (view s db') = ms_period (view s db)"
      "ms_complete (view s db') = ms_complete (view s db)" "opened s db' = opened s db"
    using assms q by (simp_all add: view_def sql_store_id_def sql_next_outbound_def sql_next_inbound_def opened_def)
qed

lemma filter_fst_insert_or_ignore:
  "map snd (filter (\<lambda>r. fst r = s) (insert_or_ignore execution_key (se, e) rows)) =
     (let es = map snd (filter (\<lambda>r. fst r = s) rows)
      in if s = se \<and> find_by exec_key (exec_key e) es = None then es @ [e] else es)"
proof -
  have f: "map_option snd (find_by execution_key (se, k) rows) = find_by exec_key k (map snd (filter (\<lambda>r. fst r = se) rows))" for k
    by (induction rows) (auto simp: execution_key_def)
  show ?thesis
    by (cases "find_by execution_key (se, exec_key e) rows") (auto simp: insert_or_ignore_def execution_key_def Let_def f [symmetric])
qed

lemma simulates_insert_execution:
  assumes "keys_ok db" and "\<not> se_busted e"
  shows "simulates se (mem_add_execution e) db (insert_execution se e db)"
proof -
  have e: "e\<lparr>se_busted := False\<rparr> = e" using assms(2) by simp
  let ?db = "insert_execution se e db"
  have k: "keys_ok ?db"
    using assms distinct_insert_or_ignore [of execution_key "ft_execution db" "(se, e)"] by (simp add: keys_ok_def insert_execution_def e)
  have "executions_of s ?db = (let es = executions_of s db
      in if s = se \<and> find_by exec_key (exec_key e) es = None then es @ [e] else es)" for s
    by (simp add: executions_of_def insert_execution_def filter_fst_insert_or_ignore e)
  then have x: "ms_executions (view s ?db) = (let es = ms_executions (view s db)
      in if s = se \<and> find_by exec_key (exec_key e) es = None then es @ [e] else es)" for s
    by (simp add: view_def)
  have same: "ms_messages (view s ?db) = ms_messages (view s db)" "ms_orders (view s ?db) = ms_orders (view s db)"
      "ms_open (view s ?db) = ms_open (view s db)" "ms_wire (view s ?db) = ms_wire (view s db)"
      "ms_quarantine (view s ?db) = ms_quarantine (view s db)" for s
    by (simp_all add: view_defs insert_execution_def)
  have t: "ft_sequence ?db = ft_sequence db" "ft_identity ?db = ft_identity db" by (simp_all add: insert_execution_def)
  show ?thesis
    unfolding simulates_def using k x same view_cong_sequence [OF t]
    by (auto simp: mem_add_execution_def Let_def split: option.split intro!: memory_store.equality)
qed

lemma update_busted_keys: "map execution_key (ft_execution (update_busted se cid x db)) = map execution_key (ft_execution db)"
  by (auto simp: update_busted_def execution_key_def exec_key_def)

lemma replace_by_map:
  "distinct (map key xs) \<Longrightarrow> find_by key k xs = Some y \<Longrightarrow> (\<And>z. key (g z) = key z) \<Longrightarrow>
   replace_by key k (g y) xs = map (\<lambda>z. if key z = k then g z else z) xs"
proof (induction xs)
  case (Cons a xs)
  show ?case
  proof (cases "key a = k")
    case True
    moreover have "key a \<notin> key ` set xs" using Cons.prems(1) by simp
    ultimately have "map (\<lambda>z. if key z = k then g z else z) xs = xs" by (intro map_idI) (metis imageI)
    with True show ?thesis using Cons.prems(2) by simp
  next
    case False
    then show ?thesis using Cons by simp
  qed
qed simp

lemma executions_of_distinct: "keys_ok db \<Longrightarrow> distinct (map exec_key (executions_of se db))"
proof -
  have "distinct (map execution_key rows) \<Longrightarrow> distinct (map exec_key (map snd (filter (\<lambda>r. fst r = se) rows)))" for rows
    by (induction rows) (auto simp: execution_key_def image_iff)
  then show "keys_ok db \<Longrightarrow> ?thesis" by (simp add: keys_ok_def executions_of_def)
qed

lemma simulates_update_busted:
  assumes "keys_ok db"
  shows "simulates se (mem_bust cid x) db (update_busted se cid x db)"
proof -
  let ?db = "update_busted se cid x db" and ?f = "\<lambda>e. if exec_key e = (cid, x) then e\<lparr>se_busted := True\<rparr> else e"
  have fields: "ft_sequence ?db = ft_sequence db" "ft_outbound ?db = ft_outbound db" "ft_order ?db = ft_order db" "ft_wire ?db = ft_wire db"
    by (simp_all add: update_busted_def)
  have k: "keys_ok ?db" using assms unfolding keys_ok_def update_busted_keys fields .
  have ex: "executions_of s ?db = (if s = se then map ?f (executions_of s db) else executions_of s db)" for s
    by (auto simp: executions_of_def update_busted_def filter_map comp_def case_prod_unfold)
  have b: "mem_bust cid x m = m\<lparr>ms_executions := map ?f (ms_executions m)\<rparr>" if "distinct (map exec_key (ms_executions m))" for m
  proof (cases "find_by exec_key (cid, x) (ms_executions m)")
    case None
    then have "map ?f (ms_executions m) = ms_executions m" by (intro map_idI) (auto simp: find_by_None_iff image_iff)
    then show ?thesis using None by (simp add: mem_bust_def)
  next
    case (Some y)
    have "exec_key (e\<lparr>se_busted := True\<rparr>) = exec_key e" for e by (simp add: exec_key_def)
    from replace_by_map [OF that Some this] show ?thesis using Some by (simp add: mem_bust_def)
  qed
  have d: "distinct (map exec_key (ms_executions (view se db)))" using executions_of_distinct [OF assms] by (simp add: view_def)
  have same: "ms_messages (view s ?db) = ms_messages (view s db)" "ms_orders (view s ?db) = ms_orders (view s db)"
      "ms_open (view s ?db) = ms_open (view s db)" "ms_wire (view s ?db) = ms_wire (view s db)"
      "ms_quarantine (view s ?db) = ms_quarantine (view s db)" for s
    by (simp_all add: view_defs update_busted_def)
  have t: "ft_sequence ?db = ft_sequence db" "ft_identity ?db = ft_identity db" by (simp_all add: update_busted_def)
  have x: "ms_executions (view s ?db) = (if s = se then map ?f (ms_executions (view s db)) else ms_executions (view s db))" for s
    using ex by (simp add: view_def)
  show ?thesis
    unfolding simulates_def using k x same view_cong_sequence [OF t] b [OF d]
    by (auto intro!: memory_store.equality)
qed

lemma simulates_insert_quarantine:
  "keys_ok db \<Longrightarrow> simulates se (mem_quarantine q) db (insert_quarantine se q db)"
  by (auto simp: simulates_def mem_quarantine_def insert_quarantine_def view_defs keys_ok_def opened_def sequence_of_def)

lemma simulates_maybe:
  assumes "keys_ok db" and "\<And>y db. x = Some y \<Longrightarrow> keys_ok db \<Longrightarrow> simulates se (f y) db (g y db)"
  shows "simulates se (maybe f x) db (maybe g x db)"
  using assms simulates_id by (cases x) (auto simp: maybe_def simulates_def)

lemma simulates_record_report:
  assumes "keys_ok db" and "new_execution (RecordReport cid payload is_open execution bust q)"
  shows "simulates se (mem_record_report cid payload is_open execution bust q) db
    (maybe (insert_quarantine se) q (maybe (update_busted se cid) bust (maybe (insert_execution se) execution
       (maybe (\<lambda>p. insert_order se cid p is_open) payload db))))"
proof -
  have e: "\<not> se_busted y" if "execution = Some y" for y using assms(2) that by simp
  have 1: "simulates se (maybe (\<lambda>p. mem_put_order cid p is_open) payload) db (maybe (\<lambda>p. insert_order se cid p is_open) payload db)"
    by (rule simulates_maybe [OF assms(1)]) (rule simulates_insert_order)
  have 2: "simulates se (maybe mem_add_execution execution) db1 (maybe (insert_execution se) execution db1)" if "keys_ok db1" for db1
    by (rule simulates_maybe [OF that]) (rule simulates_insert_execution, use e in auto)
  have 3: "simulates se (maybe (mem_bust cid) bust) db1 (maybe (update_busted se cid) bust db1)" if "keys_ok db1" for db1
    by (rule simulates_maybe [OF that]) (rule simulates_update_busted)
  have 4: "simulates se (maybe mem_quarantine q) db1 (maybe (insert_quarantine se) q db1)" if "keys_ok db1" for db1
    by (rule simulates_maybe [OF that]) (rule simulates_insert_quarantine)
  note a = simulates_then [OF 1 2 [OF simulatesD(1) [OF 1]]]
  note b = simulates_then [OF a 3 [OF simulatesD(1) [OF a]]]
  note c = simulates_then [OF b 4 [OF simulatesD(1) [OF b]]]
  have "mem_record_report cid payload is_open execution bust q =
      (\<lambda>s. maybe mem_quarantine q (maybe (mem_bust cid) bust (maybe mem_add_execution execution
         (maybe (\<lambda>p. mem_put_order cid p is_open) payload s))))"
    by (rule ext) (simp add: mem_record_report_def)
  then show ?thesis using c by simp
qed

lemma simulates_link:
  assumes "keys_ok db"
  shows "simulates se (mem_link_wire_id w cid) db (db\<lparr>ft_wire := insert_or_replace wire_key (se, w, cid) (ft_wire db)\<rparr>)"
  using assms distinct_insert_or_replace [of wire_key "ft_wire db" "(se, w, cid)"]
  by (auto simp: simulates_def view_defs keys_ok_def mem_link_wire_id_def opened_def sequence_of_def find_by_insert_or_replace
      wire_key_def fun_eq_iff)

lemma simulates_release:
  assumes "keys_ok db"
  shows "simulates se (\<lambda>s. s\<lparr>ms_quarantine := map (\<lambda>q. if unreleased q then release_row o' r t q else q) (ms_quarantine s)\<rparr>) db
    (db\<lparr>ft_quarantine := map (\<lambda>(k, q). (k, if k = se \<and> unreleased q then release_row o' r t q else q)) (ft_quarantine db)\<rparr>)"
proof -
  let ?g = "\<lambda>(k, q). (k, if k = se \<and> unreleased q then release_row o' r t q else q)"
  have "map snd (filter (\<lambda>r. fst r = s) (map ?g rows)) =
      (let qs = map snd (filter (\<lambda>r. fst r = s) rows) in if s = se then map (\<lambda>q. if unreleased q then release_row o' r t q else q) qs else qs)" for s rows
    by (induction rows) (auto simp: Let_def)
  then show ?thesis
    using assms by (auto simp: simulates_def view_defs keys_ok_def opened_def sequence_of_def Let_def)
qed

lemma simulates_allocate:
  assumes "keys_ok db" and "opened se db"
  shows "simulates se (\<lambda>s. fst (mem_allocate m s)) db
    (change_sequence se (\<lambda>r. r\<lparr>sr_next_out := sql_next_outbound se db + 1\<rparr>)
       (case m of None \<Rightarrow> db
        | Some x \<Rightarrow> db\<lparr>ft_outbound := insert_or_replace outbound_key (se, x\<lparr>sm_seq := sql_next_outbound se db\<rparr>) (ft_outbound db)\<rparr>))"
proof -
  let ?n = "sql_next_outbound se db"
  let ?db = "case m of None \<Rightarrow> db | Some x \<Rightarrow> db\<lparr>ft_outbound := insert_or_replace outbound_key (se, x\<lparr>sm_seq := ?n\<rparr>) (ft_outbound db)\<rparr>"
  have put: "simulates se (\<lambda>s. case m of None \<Rightarrow> s | Some x \<Rightarrow> s\<lparr>ms_messages := (ms_messages s)(?n \<mapsto> x\<lparr>sm_seq := ?n\<rparr>)\<rparr>) db ?db"
  proof (cases m)
    case (Some x)
    then show ?thesis
      using assms(1) distinct_insert_or_replace [of outbound_key "ft_outbound db" "(se, x\<lparr>sm_seq := ?n\<rparr>)"]
      by (auto simp: simulates_def view_defs keys_ok_def opened_def sequence_of_def find_by_insert_or_replace outbound_key_def fun_eq_iff)
  qed (simp add: simulates_id assms(1))
  have o: "opened se ?db" using assms(2) simulatesD(4) [OF put] by simp
  have n: "sql_next_outbound se ?db = ?n" by (simp add: sql_next_outbound_def sequence_of_def split: option.split)
  have "simulates se (\<lambda>s. s\<lparr>ms_next_out := ?n + 1\<rparr>) ?db (change_sequence se (\<lambda>r. r\<lparr>sr_next_out := ?n + 1\<rparr>) ?db)"
    using simulates_change [OF simulatesD(1) [OF put] o, of "\<lambda>r. r\<lparr>sr_next_out := ?n + 1\<rparr>" "\<lambda>_. ?n + 1" "\<lambda>v. v" "\<lambda>v. v" "\<lambda>v. v"] by simp
  from simulates_then [OF put this] show ?thesis
    by (auto simp: simulates_def mem_allocate_def Let_def view_def split: option.split)
qed

lemma sql_step_simulates:
  assumes "keys_ok db" and "opened se db" and "new_execution op" and "sql_step k se op db = (db', Inr n)"
  shows "simulates se (\<lambda>s. fst (mem_step op s)) db db' \<and> n = snd (mem_step op (view se db))"
proof -
  note sim = simulates_change [OF assms(1,2)]
  show ?thesis
  proof (cases op)
    case (Allocate m)
    then show ?thesis
      using assms(4) simulates_allocate [OF assms(1,2), of m]
      by (auto simp: sql_allocate_def transaction_def Let_def mem_allocate_def view_def split: if_splits)
  next
    case (SetNextInbound v)
    then show ?thesis
      using assms(4) sim [of "\<lambda>r. r\<lparr>sr_next_in := v\<rparr>" "\<lambda>x. x" "\<lambda>_. v" "\<lambda>x. x" "\<lambda>x. x"]
      by (auto simp: nothing_def sql_set_next_inbound_def transaction_def mem_set_next_inbound_def split: if_splits)
  next
    case ResetSequences
    let ?db = "change_sequence se (\<lambda>r. r\<lparr>sr_next_out := 1, sr_next_in := 1\<rparr>) db"
    have a: "simulates se (\<lambda>s. s\<lparr>ms_next_out := 1, ms_next_in := 1\<rparr>) db ?db"
      using sim [of "\<lambda>r. r\<lparr>sr_next_out := 1, sr_next_in := 1\<rparr>" "\<lambda>_. 1" "\<lambda>_. 1" "\<lambda>x. x" "\<lambda>x. x"] by simp
    have f: "find_by outbound_key (s, j) (filter (\<lambda>r. fst r \<noteq> se) rows) = (if s = se then None else find_by outbound_key (s, j) rows)" for s j rows
    proof (induction rows)
      case (Cons r rows)
      have "outbound_key r = (fst r, sm_seq (snd r))" by (simp add: outbound_key_def)
      with Cons show ?case by auto
    qed simp
    have "simulates se (\<lambda>s. s\<lparr>ms_messages := Map.empty\<rparr>) ?db (?db\<lparr>ft_outbound := filter (\<lambda>r. fst r \<noteq> se) (ft_outbound db)\<rparr>)"
      using simulatesD(1) [OF a]
      by (auto simp: simulates_def view_defs keys_ok_def opened_def sequence_of_def f fun_eq_iff distinct_map_filter)
    from simulates_then [OF a this] show ?thesis
      using assms(4) ResetSequences by (auto simp: nothing_def sql_reset_sequences_def transaction_def mem_reset_sequences_def split: if_splits)
  next
    case (SetResetPeriod p)
    then show ?thesis
      using assms(4) sim [of "\<lambda>r. r\<lparr>sr_period := Some p\<rparr>" "\<lambda>x. x" "\<lambda>x. x" "\<lambda>_. Some p" "\<lambda>x. x"]
      by (auto simp: nothing_def sql_set_reset_period_def transaction_def mem_set_reset_period_def split: if_splits)
  next
    case (SetInboundComplete c)
    then show ?thesis
      using assms(4) sim [of "\<lambda>r. r\<lparr>sr_complete := c\<rparr>" "\<lambda>x. x" "\<lambda>x. x" "\<lambda>x. x" "\<lambda>_. c"]
      by (auto simp: nothing_def sql_set_inbound_complete_def transaction_def mem_set_inbound_complete_def split: if_splits)
  next
    case (PutOrder cid p b)
    then show ?thesis
      using assms(4) simulates_insert_order [OF assms(1), of se cid p b]
      by (auto simp: nothing_def sql_put_order_def transaction_def split: if_splits)
  next
    case (DeleteOrder cid)
    have f: "find_by order_key (s, c) (filter (\<lambda>r. order_key r \<noteq> (se, cid)) rows) =
        (if (s, c) = (se, cid) then None else find_by order_key (s, c) rows)" for s c rows
      by (induction rows) auto
    have w: "map_option (snd \<circ> snd) (find_by wire_key (s, v) (filter (\<lambda>(k, w, c). \<not> (k = se \<and> c = cid)) rows)) =
        (let r = map_option (snd \<circ> snd) (find_by wire_key (s, v) rows) in if s = se \<and> r = Some cid then None else r)"
      if "distinct (map wire_key rows)" for s v rows
      using that
    proof (induction rows)
      case (Cons r rows)
      obtain a b c where r: "r = (a, b, c)" by (cases r)
      have k: "wire_key (a, b, c) = (a, b)" for a b c by (simp add: wire_key_def)
      have "find_by wire_key (wire_key r) rows = None" using Cons.prems by (simp add: find_by_None_iff)
      moreover have "find_by wire_key (wire_key r) (filter P rows) = None" for P
        using Cons.prems by (auto simp: find_by_None_iff)
      ultimately show ?case using Cons by (auto simp: r k Let_def)
    qed simp
    let ?db = "db\<lparr>ft_order := filter (\<lambda>r. order_key r \<noteq> (se, cid)) (ft_order db),
          ft_wire := filter (\<lambda>(k, w, c). \<not> (k = se \<and> c = cid)) (ft_wire db)\<rparr>"
    have k: "keys_ok ?db" using assms(1) by (simp add: keys_ok_def distinct_map_filter)
    have orders: "ms_orders (view s ?db) = (if s = se then (ms_orders (view s db))(cid := None) else ms_orders (view s db))" for s
      by (auto simp: view_def sql_get_order_def f fun_eq_iff)
    have open': "ms_open (view s ?db) = (if s = se then ms_open (view s db) - {cid} else ms_open (view s db))" for s
      by (auto simp: view_def order_key_def)
    have wire: "ms_wire (view s ?db) = (if s = se then (\<lambda>v. if ms_wire (view s db) v = Some cid then None else ms_wire (view s db) v)
        else ms_wire (view s db))" for s
      using assms(1) w [of "ft_wire db" s] by (simp add: view_def sql_resolve_wire_id_def keys_ok_def Let_def fun_eq_iff)
    have same: "ms_messages (view s ?db) = ms_messages (view s db)" "ms_executions (view s ?db) = ms_executions (view s db)"
        "ms_quarantine (view s ?db) = ms_quarantine (view s db)" for s
      by (simp_all add: view_defs)
    have t: "ft_sequence ?db = ft_sequence db" "ft_identity ?db = ft_identity db" by simp_all
    have "simulates se (mem_delete_order cid) db ?db"
      unfolding simulates_def using k orders open' wire same view_cong_sequence [OF t]
      by (auto simp: mem_delete_order_def intro!: memory_store.equality)
    then show ?thesis
      using assms(4) DeleteOrder by (auto simp: nothing_def sql_delete_order_def transaction_def split: if_splits)
  next
    case (LinkWireId w cid)
    then show ?thesis
      using assms(4) simulates_link [OF assms(1), of se w cid]
      by (auto simp: nothing_def sql_link_wire_id_def transaction_def split: if_splits)
  next
    case (RecordReport cid p b e x q)
    then show ?thesis
      using assms(3,4) simulates_record_report [OF assms(1), of cid p b e x q se]
      by (auto simp: nothing_def sql_record_report_def transaction_def split: if_splits)
  next
    case (Quarantine q)
    then show ?thesis
      using assms(4) simulates_insert_quarantine [OF assms(1), of se q]
      by (auto simp: nothing_def sql_quarantine_def transaction_def split: if_splits)
  next
    case (ReleaseQuarantine o' r t n')
    have "length (filter (\<lambda>(k, q). k = se \<and> unreleased q) rows) = length (filter unreleased (map snd (filter (\<lambda>r. fst r = se) rows)))" for rows
      by (induction rows) auto
    then have l: "length (filter (\<lambda>(k, q). k = se \<and> unreleased q) (ft_quarantine db)) = length (filter unreleased (ms_quarantine (view se db)))"
      by (simp add: view_def sql_quarantined_def)
    show ?thesis
      using assms(4) simulates_release [OF assms(1), of se o' r t] simulates_id [OF assms(1), of se] ReleaseQuarantine
      by (auto simp: sql_release_quarantine_def transaction_def l mem_release_quarantine_def Let_def simulates_def split: if_splits)
  qed
qed

lemma sql_step_fails: "sql_step k se op db = (db', Inl e) \<Longrightarrow> db' = db"
  by (cases op)
    (auto simp: nothing_def transaction_def Let_def sql_allocate_def sql_set_next_inbound_def sql_reset_sequences_def sql_set_reset_period_def
      sql_set_inbound_complete_def sql_put_order_def sql_delete_order_def sql_link_wire_id_def sql_record_report_def sql_quarantine_def
      sql_release_quarantine_def split: if_splits prod.splits)

section \<open>A run of many sessions on one file\<close>

text \<open>Each call is of one session, with whether the file takes it.\<close>

fun store_run :: "(bool \<times> string \<times> store_op) list \<Rightarrow> fix_tables \<Rightarrow> fix_tables" where
  "store_run [] db = db"
| "store_run ((k, se, op) # rest) db = store_run rest (fst (sql_step k se op db))"

text \<open>What the calls of one session that did not fail do to a store in memory.\<close>

fun memory_run :: "string \<Rightarrow> (bool \<times> string \<times> store_op) list \<Rightarrow> fix_tables \<Rightarrow> memory_store \<Rightarrow> memory_store" where
  "memory_run se [] db s = s"
| "memory_run se ((k, se', op) # rest) db s =
     (case sql_step k se' op db of
        (db', Inl _) \<Rightarrow> memory_run se rest db' s
      | (db', Inr _) \<Rightarrow> memory_run se rest db' (if se' = se then fst (mem_step op s) else s))"

definition calls_ok :: "(bool \<times> string \<times> store_op) list \<Rightarrow> fix_tables \<Rightarrow> bool" where
  "calls_ok calls db \<longleftrightarrow> (\<forall>(k, se, op) \<in> set calls. opened se db \<and> new_execution op)"

lemma store_run_view:
  "keys_ok db \<Longrightarrow> calls_ok calls db \<Longrightarrow>
   keys_ok (store_run calls db) \<and> view se (store_run calls db) = memory_run se calls db (view se db)"
proof (induction calls arbitrary: db)
  case (Cons c calls)
  obtain k se' op where c: "c = (k, se', op)" by (cases c)
  obtain db' r where s: "sql_step k se' op db = (db', r)" by fastforce
  show ?case
  proof (cases r)
    case (Inl e)
    then have "db' = db" using sql_step_fails s by blast
    then show ?thesis using Cons s Inl by (simp add: c calls_ok_def)
  next
    case (Inr n)
    have o: "opened se' db" "new_execution op" using Cons.prems(2) by (auto simp: c calls_ok_def)
    have sim: "simulates se' (\<lambda>s. fst (mem_step op s)) db db'"
      using sql_step_simulates [OF Cons.prems(1) o] s Inr by blast
    have "calls_ok calls db'" using Cons.prems(2) simulatesD(4) [OF sim] by (auto simp: c calls_ok_def)
    with Cons.IH [OF simulatesD(1) [OF sim]] show ?thesis
      using simulatesD(2,3) [OF sim] s Inr by (auto simp: c)
  qed
qed (simp add: calls_ok_def)

section \<open>Reading back\<close>

lemma keyed_lists_eq:
  assumes "sorted (map f xs)" and "sorted (map f ys)" and "distinct (map f xs)" and "distinct (map f ys)" and "set xs = set ys"
  shows "xs = ys"
proof -
  have "map f xs = map f ys"
    by (rule sorted_distinct_set_unique [OF assms(1,3,2,4)]) (simp add: assms(5))
  moreover have "inj_on f (set xs \<union> set ys)" using assms(3,5) by (simp add: distinct_map)
  ultimately show ?thesis by (rule map_inj_on)
qed

lemma sql_messages_view:
  assumes "keys_ok db"
  shows "sql_messages se a b db = mem_messages a b (view se db)"
proof -
  let ?rows = "filter (\<lambda>(k, m). k = se \<and> a \<le> sm_seq m \<and> sm_seq m \<le> b) (ft_outbound db)"
  let ?L = "\<lambda>n. map_option snd (find_by outbound_key (se, n) (ft_outbound db))"
  have d: "distinct (map outbound_key (ft_outbound db))" using assms by (simp add: keys_ok_def)
  have look: "?L n = Some m \<longleftrightarrow> (se, m) \<in> set (ft_outbound db) \<and> sm_seq m = n" for n m
    using find_by_distinct [OF d, of "(se, m)"] by (auto dest!: find_by_SomeD simp: outbound_key_def)
  have dr: "distinct (map sm_seq (map snd ?rows))"
  proof -
    have "distinct (map outbound_key ?rows)" using d by (simp add: distinct_map_filter)
    moreover have "map outbound_key ?rows = map (\<lambda>m. (se, sm_seq m)) (map snd ?rows)" by (auto simp: outbound_key_def)
    ultimately show ?thesis by (simp add: distinct_map inj_on_def)
  qed
  have ds: "distinct (map sm_seq (sort_key sm_seq (map snd ?rows)))"
  proof -
    have "mset (map f (sort_key f xs)) = mset (map f xs)" for f :: "stored_message \<Rightarrow> nat" and xs
      by (simp only: mset_map mset_sort)
    then show ?thesis using dr mset_eq_imp_distinct_iff by blast
  qed
  have m: "map sm_seq (List.map_filter ?L ns) = filter (\<lambda>n. ?L n \<noteq> None) ns" for ns
    using look by (induction ns) (auto simp: map_filter_simps split: option.split)
  show ?thesis
    unfolding sql_messages_def mem_messages_def view_def memory_store.simps
  proof (rule keyed_lists_eq [of sm_seq])
    show "sorted (map sm_seq (List.map_filter ?L [a ..< b + 1]))" "distinct (map sm_seq (List.map_filter ?L [a ..< b + 1]))"
      unfolding m by (rule sorted_wrt_filter [OF sorted_upt], rule distinct_filter [OF distinct_upt])
    show "set (sort_key sm_seq (map snd ?rows)) = set (List.map_filter ?L [a ..< b + 1])"
    proof (rule set_eqI)
      fix x
      have "x \<in> set (List.map_filter ?L ns) \<longleftrightarrow> (\<exists>n \<in> set ns. ?L n = Some x)" for ns
        by (force simp: List.map_filter_def)
      moreover have "x \<in> set (map snd ?rows) \<longleftrightarrow> (se, x) \<in> set (ft_outbound db) \<and> a \<le> sm_seq x \<and> sm_seq x \<le> b" by force
      ultimately show "x \<in> set (sort_key sm_seq (map snd ?rows)) \<longleftrightarrow> x \<in> set (List.map_filter ?L [a ..< b + 1])"
        using look by auto
    qed
  qed (use ds in simp_all)
qed

section \<open>The interface of the outbound numbers\<close>

text \<open>
  A store gives out numbers and keeps messages under them. \<open>'c\<close> is what a call may depend on besides
  the message: nothing in memory, whether the write goes through on a file.
\<close>

locale sequence_store =
  fixes next_out :: "'s \<Rightarrow> nat"
    and lookup :: "nat \<Rightarrow> 's \<Rightarrow> stored_message option"
    and allocate :: "'c \<Rightarrow> stored_message option \<Rightarrow> 's \<Rightarrow> 's \<times> nat option"
    and ok :: "'s \<Rightarrow> bool"
  assumes given: "ok s \<Longrightarrow> allocate c m s = (s', Some n) \<Longrightarrow>
      n = next_out s \<and> next_out s' = n + 1 \<and> ok s' \<and>
      (\<forall>k. lookup k s' = (if k = n \<and> m \<noteq> None then map_option (\<lambda>x. x\<lparr>sm_seq := n\<rparr>) m else lookup k s))"
    and refused: "allocate c m s = (s', None) \<Longrightarrow> s' = s"
begin

text \<open>A run of calls, and the numbers it gave out with what was to be kept under each.\<close>

fun allocations :: "('c \<times> stored_message option) list \<Rightarrow> 's \<Rightarrow> 's \<times> (nat \<times> stored_message option) list" where
  "allocations [] s = (s, [])"
| "allocations ((c, m) # rest) s =
     (case allocate c m s of
        (s', None) \<Rightarrow> allocations rest s'
      | (s', Some n) \<Rightarrow> (case allocations rest s' of (s'', ns) \<Rightarrow> (s'', (n, m) # ns)))"

lemma allocations_consecutive:
  "ok s \<Longrightarrow> allocations calls s = (s', ns) \<Longrightarrow>
   map fst ns = [next_out s ..< next_out s + length ns] \<and> next_out s' = next_out s + length ns \<and> ok s' \<and>
   (\<forall>k < next_out s. lookup k s' = lookup k s) \<and>
   (\<forall>(n, m) \<in> set ns. m \<noteq> None \<longrightarrow> lookup n s' = map_option (\<lambda>x. x\<lparr>sm_seq := n\<rparr>) m)"
proof (induction calls arbitrary: s s' ns)
  case (Cons call calls)
  obtain c m where call: "call = (c, m)" by fastforce
  obtain s1 r where a: "allocate c m s = (s1, r)" by fastforce
  show ?case
  proof (cases r)
    case None
    then have "s1 = s" using refused a by simp
    then show ?thesis using Cons a None by (simp add: call)
  next
    case (Some n)
    obtain s2 ms where rest: "allocations calls s1 = (s2, ms)" by fastforce
    note g = given [OF Cons.prems(1) a [unfolded Some]]
    have ih: "map fst ms = [next_out s1 ..< next_out s1 + length ms]" "next_out s2 = next_out s1 + length ms" "ok s2"
        "\<And>k. k < next_out s1 \<Longrightarrow> lookup k s2 = lookup k s1"
        "\<And>k x. (k, x) \<in> set ms \<Longrightarrow> x \<noteq> None \<Longrightarrow> lookup k s2 = map_option (\<lambda>y. y\<lparr>sm_seq := k\<rparr>) x"
      using Cons.IH [OF _ rest] g by auto
    have r: "s' = s2" "ns = (n, m) # ms" using Cons.prems(2) a Some rest by (simp_all add: call)
    have kept: "lookup n s2 = lookup n s1" using g by (intro ih(4)) simp
    have early: "lookup k s2 = lookup k s1" if "k < next_out s" for k using g that by (intro ih(4)) simp
    have u: "map fst ns = [next_out s ..< next_out s + length ns]"
      using g ih(1) upt_conv_Cons [of n "n + length ns"] by (simp add: r del: upt_Suc)
    show ?thesis
      using u g ih(2,3) ih(5) kept early unfolding r by auto
  qed
qed simp

lemma allocations_distinct: "ok s \<Longrightarrow> allocations calls s = (s', ns) \<Longrightarrow> distinct (map fst ns)"
  using allocations_consecutive [of s calls s' ns] by simp

end

interpretation mem: sequence_store ms_next_out "\<lambda>n s. ms_messages s n"
    "\<lambda>(c :: unit) m s. (case mem_allocate m s of (s', n) \<Rightarrow> (s', Some n))" "\<lambda>_. True"
  by unfold_locales (auto simp: mem_allocate_def Let_def split: option.splits)

definition sql_give :: "string \<Rightarrow> bool \<Rightarrow> stored_message option \<Rightarrow> fix_tables \<Rightarrow> fix_tables \<times> nat option" where
  "sql_give se taken m db =
     (case sql_allocate taken se m db of (db', Inl _) \<Rightarrow> (db', None) | (db', Inr n) \<Rightarrow> (db', Some n))"

definition sql_stored :: "string \<Rightarrow> nat \<Rightarrow> fix_tables \<Rightarrow> stored_message option" where
  "sql_stored se n db = (case sql_messages se n n db of [] \<Rightarrow> None | m # _ \<Rightarrow> Some m)"

lemma sql_stored_view: "keys_ok db \<Longrightarrow> sql_stored se n db = ms_messages (view se db) n"
  by (simp add: sql_stored_def sql_messages_view mem_messages_def map_filter_simps split: option.split)

interpretation sql: sequence_store "sql_next_outbound se" "sql_stored se" "sql_give se" "\<lambda>db. keys_ok db \<and> opened se db" for se
proof unfold_locales
  fix db c m db' n
  assume ok: "keys_ok db \<and> opened se db" and a: "sql_give se c m db = (db', Some n)"
  then have s: "sql_step c se (Allocate m) db = (db', Inr n)" by (auto simp: sql_give_def split: prod.splits sum.splits)
  have sim: "simulates se (\<lambda>s. fst (mem_allocate m s)) db db'" and n: "n = snd (mem_allocate m (view se db))"
    using sql_step_simulates [OF _ _ _ s] ok by auto
  have v: "view se db' = fst (mem_allocate m (view se db))" using simulatesD(2) [OF sim] .
  have o: "sql_next_outbound se x = ms_next_out (view se x)" for x by (simp add: view_def)
  have k: "keys_ok db'" "opened se db'" using simulatesD(1,4) [OF sim] ok by auto
  show "n = sql_next_outbound se db \<and> sql_next_outbound se db' = n + 1 \<and> (keys_ok db' \<and> opened se db') \<and>
      (\<forall>j. sql_stored se j db' =
        (if j = n \<and> m \<noteq> None then map_option (\<lambda>x. x\<lparr>sm_seq := n\<rparr>) m else sql_stored se j db))"
    using k ok n v by (auto simp: sql_stored_view o mem_allocate_def Let_def split: option.splits)
next
  fix c m db db'
  assume "sql_give se c m db = (db', None)"
  then show "db' = db" using sql_step_fails [of c se "Allocate m" db db'] by (auto simp: sql_give_def split: prod.splits sum.splits)
qed

text \<open>The calls of one session on the file, each with whether the write goes through.\<close>

definition sql_allocations ::
    "string \<Rightarrow> (bool \<times> stored_message option) list \<Rightarrow> fix_tables \<Rightarrow> fix_tables \<times> (nat \<times> stored_message option) list" where
  "sql_allocations se = sequence_store.allocations (sql_give se)"

section \<open>Opening a store\<close>

definition empty_tables :: fix_tables where
  "empty_tables = \<lparr>ft_identity = [], ft_sequence = [], ft_outbound = [], ft_order = [], ft_wire = [], ft_execution = [], ft_quarantine = []\<rparr>"

lemma keys_ok_open: "keys_ok db \<Longrightarrow> keys_ok (sql_open se i db)"
  by (simp add: keys_ok_def sql_open_def distinct_insert_or_ignore)

text \<open>A file opened again is as it was left, and the other sessions of the file are not touched.\<close>

lemma open_again:
  "opened se db \<Longrightarrow> sql_store_id se db \<noteq> None \<Longrightarrow> sql_open se i db = db"
  by (auto simp: sql_open_def insert_or_ignore_def opened_def sql_store_id_def find_by_None_iff map_of_eq_None_iff image_iff
      intro!: fix_tables.equality)

lemma view_open_fresh: "view se (sql_open se i empty_tables) = new_memory_store i"
  by (simp add: view_defs sequence_of_def sql_open_def insert_or_ignore_def empty_tables_def new_memory_store_def)

text \<open>Two sessions on one file, one write refused.\<close>

definition example_calls :: "(bool \<times> string \<times> store_op) list" where
  "example_calls =
     [(True, ''A'', Allocate (Some \<lparr>sm_seq = 0, sm_type = ''D'', sm_time = ''t'', sm_body = ''b''\<rparr>)),
      (True, ''B'', Allocate None),
      (False, ''A'', SetNextInbound 7)]"

section \<open>Properties\<close>

text \<open>C28: The SQLite store is the store in memory, session by session. Whatever calls the sessions of one
  file make, and whichever of them the file refuses, the rows of a session read as the in-memory store
  on which just its own calls that went through were made, and the primary keys hold. A refused call
  changes nothing, and no call of another session does. Executions are recorded before they are busted,
  as the order entry records them.\<close>

theorem sqlite_store_is_the_memory_store:
  assumes "keys_ok db" and "calls_ok calls db"
  shows "keys_ok (store_run calls db) \<and> view se (store_run calls db) = memory_run se calls db (view se db)"
  by (rule store_run_view [OF assms])

lemma sqlite_store_is_the_memory_store_witness:
  "ms_next_out (view ''A'' (store_run example_calls (sql_open ''A'' ''i'' (sql_open ''B'' ''j'' empty_tables)))) = 2"
proof -
  have k: "keys_ok (sql_open ''A'' ''i'' (sql_open ''B'' ''j'' empty_tables))"
    by (intro keys_ok_open) (simp add: keys_ok_def empty_tables_def)
  have c: "calls_ok example_calls (sql_open ''A'' ''i'' (sql_open ''B'' ''j'' empty_tables))"
    by (simp add: calls_ok_def example_calls_def opened_def sql_open_def insert_or_ignore_def empty_tables_def)
  show ?thesis
    using sqlite_store_is_the_memory_store [OF k c, of "''A''"]
    by (simp add: example_calls_def sql_allocate_def transaction_def sql_next_outbound_def sequence_of_def sql_open_def
        insert_or_ignore_def empty_tables_def change_sequence_def insert_or_replace_def MAX_INTEGER_def nothing_def
        sql_set_next_inbound_def mem_allocate_def view_def)
qed

text \<open>C29: The outbound numbers of a session are given out without a gap and never twice, whichever writes
  fail, and a message asked to be kept with its number is found again under exactly that number.\<close>

theorem outbound_numbers_are_consecutive:
  assumes "keys_ok db" and "opened se db" and "sql_allocations se calls db = (db', ns)"
  shows "map fst ns = [sql_next_outbound se db ..< sql_next_outbound se db + length ns] \<and>
    sql_next_outbound se db' = sql_next_outbound se db + length ns \<and>
    (\<forall>(n, m) \<in> set ns. m \<noteq> None \<longrightarrow> sql_stored se n db' = map_option (\<lambda>x. x\<lparr>sm_seq := n\<rparr>) m)"
proof -
  have ok: "keys_ok db \<and> opened se db" using assms(1,2) by simp
  show ?thesis
    using sql.allocations_consecutive [OF ok, of calls db' ns] assms(3) by (simp add: sql_allocations_def)
qed

lemma outbound_numbers_are_consecutive_witness:
  "map fst (snd (sql_allocations ''A'' [(True, None), (False, None), (True, None)] (sql_open ''A'' ''i'' empty_tables))) = [1, 2]"
proof -
  let ?db = "sql_open ''A'' ''i'' empty_tables"
  let ?r = "sql_allocations ''A'' [(True, None), (False, None), (True, None)] ?db"
  have k: "keys_ok ?db" "opened ''A'' ?db"
    by (simp_all add: keys_ok_open keys_ok_def empty_tables_def opened_def sql_open_def insert_or_ignore_def)
  have n: "sql_next_outbound ''A'' ?db = 1"
    by (simp add: sql_next_outbound_def sequence_of_def sql_open_def insert_or_ignore_def empty_tables_def)
  have l: "length (snd ?r) = 2"
    by (simp add: sql_allocations_def sql_give_def sql_allocate_def transaction_def sql_next_outbound_def sequence_of_def
        sql_open_def insert_or_ignore_def empty_tables_def change_sequence_def MAX_INTEGER_def)
  have e: "sql_allocations ''A'' [(True, None), (False, None), (True, None)] ?db = (fst ?r, snd ?r)" by simp
  have "map fst (snd ?r) = [1 ..< 3]"
    using outbound_numbers_are_consecutive [OF k e] n l by (simp del: upt_Suc add: numeral_3_eq_3)
  then show ?thesis by (simp add: upt_rec)
qed

end
