(* ===== verification/FixSession.thy ===== *)
theory FixSession
  imports FixStream FixStore
begin

text \<open>
  \<open>fix/session.py\<close>: one FIX initiator session. A coroutine is a function of the session that returns it
  changed, with a value or the exception that ended it. At every \<open>await\<close> the other tasks of the session
  run (the timer, senders, \<open>stop\<close>), time passes, and what is awaited succeeds, fails or is cut off by a
  cancellation; the session carries these answers as a script, so a statement about every script is one
  about every schedule. What the session does to the outside is kept in a log, newest first.

  The store is the in-memory one, which \<open>FixStoreRefine\<close> shows to be the SQLite one of this session. Time
  is in microseconds; \<open>monotonic()\<close> and \<open>now()\<close> are two clocks.
\<close>

section \<open>Configuration\<close>

definition BEGIN_STRINGS :: "string list" where
  "BEGIN_STRINGS = [''FIX.4.2'', ''FIX.4.4'', ''FIXT.1.1'']"

definition ADMIN_TYPES :: "string list" where
  "ADMIN_TYPES = [''0'', ''1'', ''2'', ''3'', ''4'', ''5'', ''A'']"

definition SYNC_RETRY :: int where
  "SYNC_RETRY = 1000000"

definition REJECT_REQUIRED_TAG_MISSING :: int where
  "REJECT_REQUIRED_TAG_MISSING = 1"

definition REJECT_VALUE_INCORRECT :: int where
  "REJECT_VALUE_INCORRECT = 5"

definition REJECT_INCORRECT_FORMAT :: int where
  "REJECT_INCORRECT_FORMAT = 6"

definition REJECT_COMP_ID :: int where
  "REJECT_COMP_ID = 9"

definition REJECT_SENDING_TIME :: int where
  "REJECT_SENDING_TIME = 10"

record fix_config =
  fc_begin :: string
  fc_sender :: string
  fc_target :: string
  fc_heartbeat :: int
  fc_appl_ver :: "string option"
  fc_username :: "field_text option"
  fc_password :: "field_text option"
  fc_logon :: "(int \<times> field_text) list"
  fc_reset_on_logon :: bool
  fc_period :: "int \<Rightarrow> string"
  fc_logon_timeout :: int
  fc_logout_timeout :: int
  fc_skew :: "int option"
  fc_stale :: int
  fc_resend_timeout :: "int option"
  fc_max_resends :: nat
  fc_max_reconnects :: "nat option"

text \<open>\<open>__post_init__\<close>; an empty \<open>default_appl_ver_id\<close> counts as missing.\<close>

definition check_config :: "fix_config \<Rightarrow> unit result" where
  "check_config cfg =
     (let fixt = (fc_begin cfg = ''FIXT.1.1''); ver = (fc_appl_ver cfg \<noteq> None \<and> fc_appl_ver cfg \<noteq> Some []);
          plain = (\<lambda>v. v \<noteq> None \<and> \<not> is_secret (the v))
      in if fc_begin cfg \<notin> set BEGIN_STRINGS then Inl ConfigError
         else if fixt \<and> \<not> ver then Inl ConfigError
         else if \<not> fixt \<and> ver then Inl ConfigError
         else if fc_heartbeat cfg \<le> 0 then Inl ConfigError
         else if plain (fc_username cfg) \<or> plain (fc_password cfg) then Inl ConfigError
         else if list_ex (\<lambda>(tag, v). tag \<in> set SENSITIVE_TAGS \<and> \<not> is_secret v) (fc_logon cfg) then Inl ConfigError
         else Inr ())"

definition session_id :: "fix_config \<Rightarrow> string" where
  "session_id cfg = fc_begin cfg @ '':'' @ fc_sender cfg @ ''->'' @ fc_target cfg"

definition collect_secrets :: "fix_config \<Rightarrow> string list" where
  "collect_secrets cfg =
     filter (\<lambda>s. s \<noteq> [])
       (map text_of (filter is_secret (map snd (fc_logon cfg)) @
          (case fc_password cfg of None \<Rightarrow> [] | Some p \<Rightarrow> [p]) @ (case fc_username cfg of None \<Rightarrow> [] | Some u \<Rightarrow> [u])))"

text \<open>\<open>str.replace\<close>, of a text that is not empty.\<close>

function replace_all :: "string \<Rightarrow> string \<Rightarrow> string \<Rightarrow> string" where
  "replace_all old new s =
     (if s = [] \<or> old = [] then s
      else if take (length old) s = old then new @ replace_all old new (drop (length old) s)
      else hd s # replace_all old new (tl s))"
  by auto
termination
  by (relation "measure (\<lambda>(_, _, s). length s)") auto

declare replace_all.simps [simp del]

definition scrub :: "fix_config \<Rightarrow> string \<Rightarrow> string" where
  "scrub cfg text = fold (\<lambda>secret t. replace_all secret REDACTED t) (collect_secrets cfg) text"

section \<open>The session\<close>

datatype session_state = Stopped | Connecting | LogonSent | Syncing | Ready | LogoutSent | Disconnected | FailedState

datatype session_error = SequenceTooLow string | LogonRejected string | SessionFailed string

text \<open>
  The exceptions: \<open>_DisconnectError\<close>, \<open>_TerminalError\<close>, \<open>FixStoreError\<close>, \<open>ApplicationRejectError\<close>,
  \<open>CancelledError\<close>, and any other.
\<close>

datatype ending =
    Disconnect string
  | Terminal session_error
  | StoreFails
  | AppReject int string "int option"
  | Cancelled
  | Internal

text \<open>
  How an \<open>await\<close> ends. A store call that is cut off may still have taken effect, since its thread runs on.
\<close>

datatype outcome = Done | Raises ending | CutOff bool

text \<open>What the other tasks do meanwhile: the timer's requests, a message sent, and \<open>stop\<close> logging out.\<close>

datatype other = TimerSync | TimerTest | TimerResend | Sends "stored_message option" | Stops int

record answer =
  an_elapsed :: nat
  an_wall :: int
  an_others :: "other list"
  an_outcome :: outcome

record out_frame =
  of_seq :: nat
  of_type :: string
  of_body :: string
  of_dup :: bool
  of_orig :: "string option"
  of_time :: string

datatype event =
    Received fix_message
  | Delivered fix_message
  | DiscardReported fix_message
  | LossReported nat "nat option"
  | UnreadReported nat
  | RejectSeen fix_message
  | NumbersReset
  | NextInStored nat
  | CompleteStored bool
  | Wrote out_frame
  | BecameReady

record fix_session =
  ss_state :: session_state
  ss_listener :: bool
  ss_store :: memory_store
  ss_failure :: "session_error option"
  ss_next_in :: nat
  ss_mono :: int
  ss_now :: int
  ss_last_sent :: int
  ss_last_received :: int
  ss_test_at :: "int option"
  ss_deadline :: "int option"
  ss_counter :: nat
  ss_sync_ids :: "string list"
  ss_sync_sent :: int
  ss_synced :: bool
  ss_target :: "nat option"
  ss_resend_at :: int
  ss_resends :: nat
  ss_awaiting :: "string option"
  ss_script :: "answer list"
  ss_log :: "event list"

text \<open>A session over a store just made, with a listener.\<close>

definition new_session :: "string \<Rightarrow> int \<Rightarrow> int \<Rightarrow> fix_session" where
  "new_session i mono' now =
     \<lparr>ss_state = Stopped, ss_listener = True, ss_store = new_memory_store i, ss_failure = None, ss_next_in = 1, ss_mono = mono',
      ss_now = now, ss_last_sent = 0, ss_last_received = 0, ss_test_at = None, ss_deadline = None, ss_counter = 0, ss_sync_ids = [],
      ss_sync_sent = 0, ss_synced = False, ss_target = None, ss_resend_at = 0, ss_resends = 0, ss_awaiting = None, ss_script = [],
      ss_log = []\<rparr>"

type_synonym 'a act = "fix_session \<Rightarrow> fix_session \<times> (ending + 'a)"

section \<open>Coroutines\<close>

definition pure_act :: "'a \<Rightarrow> 'a act" where
  "pure_act x s = (s, Inr x)"

definition raise_act :: "ending \<Rightarrow> 'a act" where
  "raise_act e s = (s, Inl e)"

definition bind_act :: "'a act \<Rightarrow> ('a \<Rightarrow> 'b act) \<Rightarrow> 'b act" where
  "bind_act f g s = (case f s of (s', Inl e) \<Rightarrow> (s', Inl e) | (s', Inr x) \<Rightarrow> g x s')"

definition ask :: "(fix_session \<Rightarrow> 'a act) \<Rightarrow> 'a act" where
  "ask f s = f s s"

definition upd :: "(fix_session \<Rightarrow> fix_session) \<Rightarrow> unit act" where
  "upd f s = (f s, Inr ())"

definition when_act :: "bool \<Rightarrow> unit act \<Rightarrow> unit act" where
  "when_act b f = (if b then f else pure_act ())"

fun do_all :: "unit act list \<Rightarrow> unit act" where
  "do_all [] = pure_act ()"
| "do_all (f # fs) = bind_act f (\<lambda>_. do_all fs)"

declare do_all.simps [simp del]

lemma do_all_one: "do_all [f] = f"
  by (rule ext) (auto simp: do_all.simps bind_act_def pure_act_def split: prod.split sum.split)

lemma do_all_two: "do_all (f # g # fs) = bind_act f (\<lambda>_. do_all (g # fs))"
  by (simp add: do_all.simps)

text \<open>\<open>contextlib.suppress(_DisconnectError, FixStoreError)\<close>\<close>

definition suppress :: "unit act \<Rightarrow> unit act" where
  "suppress f s =
     (case f s of
        (s', Inl e) \<Rightarrow> (case e of Disconnect _ \<Rightarrow> (s', Inr ()) | StoreFails \<Rightarrow> (s', Inr ()) | _ \<Rightarrow> (s', Inl e))
      | r \<Rightarrow> r)"

definition lift_codec :: "'a codec \<Rightarrow> 'a act" where
  "lift_codec r = (case r of Inl _ \<Rightarrow> raise_act Internal | Inr x \<Rightarrow> pure_act x)"

definition note_event :: "event \<Rightarrow> fix_session \<Rightarrow> fix_session" where
  "note_event e s = s\<lparr>ss_log := e # ss_log s\<rparr>"

definition sync_id :: "nat \<Rightarrow> string" where
  "sync_id n = ''SYNC'' @ nat_str n"

text \<open>
  Another task's step. Nothing of another task is written while the reader holds the send lock; what the
  timer does before it waits for the lock is.
\<close>

definition other_step :: "bool \<Rightarrow> other \<Rightarrow> fix_session \<Rightarrow> fix_session" where
  "other_step locked o' s =
     (case o' of
        TimerSync \<Rightarrow>
          (if ss_state s = Syncing
           then s\<lparr>ss_counter := ss_counter s + 1, ss_sync_ids := sync_id (ss_counter s + 1) # ss_sync_ids s, ss_sync_sent := ss_mono s\<rparr>
           else s)
      | TimerTest \<Rightarrow> s\<lparr>ss_counter := ss_counter s + 1, ss_test_at := Some (ss_mono s)\<rparr>
      | TimerResend \<Rightarrow> (if ss_target s \<noteq> None then s\<lparr>ss_resend_at := ss_mono s, ss_resends := ss_resends s + 1\<rparr> else s)
      | Sends m \<Rightarrow> (if locked then s else s\<lparr>ss_store := fst (mem_allocate m (ss_store s)), ss_last_sent := ss_mono s\<rparr>)
      | Stops deadline \<Rightarrow>
          (if ss_state s \<in> {Ready, Syncing} then s\<lparr>ss_deadline := Some deadline, ss_state := LogoutSent\<rparr> else s))"

definition pause :: "bool \<Rightarrow> fix_session \<Rightarrow> fix_session \<times> outcome" where
  "pause locked s =
     (case ss_script s of
        [] \<Rightarrow> (s, Done)
      | a # rest \<Rightarrow>
          (fold (other_step locked) (an_others a)
             (s\<lparr>ss_script := rest, ss_mono := ss_mono s + int (an_elapsed a), ss_now := ss_now s + an_wall a\<rparr>),
           an_outcome a))"

text \<open>\<open>run_store\<close>, with what to log once the store has it.\<close>

definition store_call :: "bool \<Rightarrow> event list \<Rightarrow> (memory_store \<Rightarrow> memory_store \<times> 'a) \<Rightarrow> 'a act" where
  "store_call locked evs f s =
     (let (s1, out) = pause locked s; (st, x) = f (ss_store s1);
          applied = s1\<lparr>ss_store := st, ss_log := evs @ ss_log s1\<rparr>
      in case out of
           Done \<Rightarrow> (applied, Inr x)
         | Raises _ \<Rightarrow> (s1, Inl StoreFails)
         | CutOff took \<Rightarrow> (if took then applied else s1, Inl Cancelled))"

definition listener_call :: "bool \<Rightarrow> event \<Rightarrow> unit act" where
  "listener_call locked e s =
     (let (s1, out) = pause locked s
      in case out of
           Done \<Rightarrow> (note_event e s1, Inr ())
         | Raises x \<Rightarrow> (s1, Inl x)
         | CutOff _ \<Rightarrow> (s1, Inl Cancelled))"

definition wait_lock :: "unit act" where
  "wait_lock s =
     (let (s1, out) = pause False s in case out of CutOff _ \<Rightarrow> (s1, Inl Cancelled) | _ \<Rightarrow> (s1, Inr ()))"

section \<open>Outbound\<close>

definition header_fields :: "fix_config \<Rightarrow> out_frame \<Rightarrow> (int \<times> field_value) list" where
  "header_fields cfg f =
     [(35, VText (codes (of_type f))), (49, VText (codes (fc_sender cfg))), (56, VText (codes (fc_target cfg))),
      (34, VInt (int (of_seq f)))] @
     (if of_dup f then [(43, VText (codes ''Y''))] else []) @
     [(52, VText (codes (of_time f)))] @
     (case of_orig f of None \<Rightarrow> [] | Some t \<Rightarrow> [(122, VText (codes t))])"

definition frame_bytes :: "fix_config \<Rightarrow> out_frame \<Rightarrow> string codec" where
  "frame_bytes cfg f =
     bind_result (encode_fields DATA_FIELDS (header_fields cfg f)) (\<lambda>h. encode_frame (fc_begin cfg) (h @ of_body f))"

text \<open>\<open>_write\<close> of a frame that was built; \<open>Wrote\<close> is logged when the bytes are handed to the transport.\<close>

definition write_frame :: "fix_config \<Rightarrow> out_frame \<Rightarrow> unit act" where
  "write_frame cfg f =
     bind_act (lift_codec (frame_bytes cfg f)) (\<lambda>_ s.
       let (s1, out) = pause True (note_event (Wrote f) s)
       in case out of
            Done \<Rightarrow> (s1\<lparr>ss_last_sent := ss_mono s1\<rparr>, Inr ())
          | Raises _ \<Rightarrow> (s1, Inl (Disconnect ''write failed''))
          | CutOff _ \<Rightarrow> (s1, Inl Cancelled))"

definition time_text :: "fix_session \<Rightarrow> string codec" where
  "time_text s = format_utc_timestamp (Aware (ss_now s))"

definition send_admin_locked :: "fix_config \<Rightarrow> string \<Rightarrow> (int \<times> field_value) list \<Rightarrow> unit act" where
  "send_admin_locked cfg ty fs =
     bind_act (store_call True [] (mem_allocate None)) (\<lambda>seq.
     bind_act (lift_codec (encode_fields DATA_FIELDS fs)) (\<lambda>body.
     bind_act (ask (\<lambda>s. lift_codec (time_text s))) (\<lambda>t.
       write_frame cfg \<lparr>of_seq = seq, of_type = ty, of_body = body, of_dup = False, of_orig = None, of_time = t\<rparr>)))"

definition send_admin :: "fix_config \<Rightarrow> string \<Rightarrow> (int \<times> field_value) list \<Rightarrow> unit act" where
  "send_admin cfg ty fs = do_all [wait_lock, send_admin_locked cfg ty fs]"

definition say :: "string \<Rightarrow> field_value" where
  "say s = VText (codes s)"

datatype send_error = NotReady session_state | SessionDown session_error | BadFields | StoreFailed | Ambiguous nat | OtherError ending

definition require_ready :: "fix_session \<Rightarrow> send_error + unit" where
  "require_ready s =
     (case ss_failure s of
        Some e \<Rightarrow> Inl (SessionDown e)
      | None \<Rightarrow> if ss_state s \<noteq> Ready then Inl (NotReady (ss_state s)) else Inr ())"

text \<open>
  One application message. \<open>on_allocated\<close> is the caller's; the number is returned, or how it failed. A
  cancellation or another error is passed on.
\<close>

definition send_application :: "fix_config \<Rightarrow> string \<Rightarrow> (int \<times> field_value) list \<Rightarrow> fix_session \<Rightarrow> fix_session \<times> (send_error + nat)" where
  "send_application cfg ty fs s =
     (case encode_fields DATA_FIELDS fs of
        Inl _ \<Rightarrow> (s, Inl BadFields)
      | Inr body \<Rightarrow>
          (case wait_lock s of
             (s1, Inl e) \<Rightarrow> (s1, Inl (OtherError e))
           | (s1, Inr _) \<Rightarrow>
               (case require_ready s1 of
                  Inl e \<Rightarrow> (s1, Inl e)
                | Inr _ \<Rightarrow>
                    (case time_text s1 of
                       Inl _ \<Rightarrow> (s1, Inl BadFields)
                     | Inr t \<Rightarrow>
                         (case store_call True [] (mem_allocate (Some \<lparr>sm_seq = 0, sm_type = ty, sm_time = t, sm_body = body\<rparr>)) s1 of
                            (s2, Inl StoreFails) \<Rightarrow> (s2, Inl StoreFailed)
                          | (s2, Inl e) \<Rightarrow> (s2, Inl (OtherError e))
                          | (s2, Inr seq) \<Rightarrow>
                              (case write_frame cfg
                                  \<lparr>of_seq = seq, of_type = ty, of_body = body, of_dup = False, of_orig = None, of_time = t\<rparr> s2 of
                                 (s3, Inl (Disconnect _)) \<Rightarrow> (s3, Inl (Ambiguous seq))
                               | (s3, Inl e) \<Rightarrow> (s3, Inl (OtherError e))
                               | (s3, Inr _) \<Rightarrow> (s3, Inr seq)))))))"

definition send_reject :: "fix_config \<Rightarrow> nat \<Rightarrow> int \<Rightarrow> string \<Rightarrow> int option \<Rightarrow> unit act" where
  "send_reject cfg ref reason text tag =
     send_admin cfg ''3''
       ([(45, VInt (int ref))] @ (case tag of None \<Rightarrow> [] | Some t \<Rightarrow> [(371, VInt t)]) @ [(373, VInt reason), (58, say text)])"

definition field_value_of :: "field_text \<Rightarrow> field_value" where
  "field_value_of v = (case v of Plain s \<Rightarrow> VText (codes s) | Secret s \<Rightarrow> VSecret (codes s))"

definition logon_message :: "fix_config \<Rightarrow> bool \<Rightarrow> (int \<times> field_value) list" where
  "logon_message cfg reset =
     [(98, VInt 0), (108, VInt (fc_heartbeat cfg))] @
     (if reset then [(141, say ''Y'')] else []) @
     (case fc_username cfg of None \<Rightarrow> [] | Some u \<Rightarrow> [(553, field_value_of u)]) @
     (case fc_password cfg of None \<Rightarrow> [] | Some p \<Rightarrow> [(554, field_value_of p)]) @
     (case fc_appl_ver cfg of None \<Rightarrow> [] | Some v \<Rightarrow> [(1137, say v)]) @
     map (\<lambda>(tag, v). (tag, field_value_of v)) (fc_logon cfg)"

text \<open>\<open>_reset_numbers\<close>, under the send lock.\<close>

definition reset_numbers :: "unit act" where
  "reset_numbers =
     do_all [store_call True [NumbersReset] (\<lambda>st. (mem_reset_sequences st, ())),
             upd (\<lambda>s. s\<lparr>ss_next_in := 1, ss_target := None\<rparr>)]"

definition store_complete :: "bool \<Rightarrow> bool \<Rightarrow> unit act" where
  "store_complete locked b = store_call locked [CompleteStored b] (\<lambda>st. (mem_set_inbound_complete b st, ()))"

definition report_unread_before_reset :: "unit act" where
  "report_unread_before_reset =
     ask (\<lambda>s.
       if ss_next_in s \<le> 1 \<or> \<not> ss_listener s then pure_act ()
       else bind_act (store_call True [] (\<lambda>st. (st, ms_complete st))) (\<lambda>complete.
         if complete then pure_act () else ask (\<lambda>s. listener_call True (UnreadReported (ss_next_in s)))))"

definition send_logon :: "fix_config \<Rightarrow> unit act" where
  "send_logon cfg =
     do_all
       [upd (\<lambda>s. s\<lparr>ss_awaiting := None\<rparr>),
        wait_lock,
        ask (\<lambda>s.
          when_act (fc_reset_on_logon cfg)
            (let period = fc_period cfg (ss_now s)
             in bind_act (store_call True [] (\<lambda>st. (st, ms_period st))) (\<lambda>last.
                  when_act (Some period \<noteq> last)
                    (do_all [report_unread_before_reset, reset_numbers, upd (\<lambda>s. s\<lparr>ss_awaiting := Some period\<rparr>)])))),
        store_complete True False,
        upd (\<lambda>s. s\<lparr>ss_state := LogonSent\<rparr>),
        ask (\<lambda>s. send_admin_locked cfg ''A'' (logon_message cfg (ss_awaiting s \<noteq> None)))]"

definition begin_logout :: "fix_config \<Rightarrow> string \<Rightarrow> unit act" where
  "begin_logout cfg text =
     do_all [upd (\<lambda>s. s\<lparr>ss_deadline := Some (ss_mono s + fc_logout_timeout cfg), ss_state := LogoutSent\<rparr>),
             send_admin cfg ''5'' [(58, say text)]]"

definition send_resend_request :: "fix_config \<Rightarrow> unit act" where
  "send_resend_request cfg =
     do_all [upd (\<lambda>s. s\<lparr>ss_resend_at := ss_mono s, ss_resends := ss_resends s + 1\<rparr>),
             ask (\<lambda>s. send_admin cfg ''2'' [(7, VInt (int (ss_next_in s))), (16, VInt 0)])]"

definition terminate :: "fix_config \<Rightarrow> string \<Rightarrow> 'a act" where
  "terminate cfg text = bind_act (suppress (send_admin cfg ''5'' [(58, say text)])) (\<lambda>_. raise_act (Disconnect text))"

definition send_sync_request :: "fix_config \<Rightarrow> unit act" where
  "send_sync_request cfg =
     do_all [upd (\<lambda>s. s\<lparr>ss_counter := ss_counter s + 1, ss_sync_ids := sync_id (ss_counter s + 1) # ss_sync_ids s, ss_sync_sent := ss_mono s\<rparr>),
             ask (\<lambda>s. send_admin cfg ''1'' [(112, say (sync_id (ss_counter s)))])]"

section \<open>Inbound numbers\<close>

definition maybe_ready :: "unit act" where
  "maybe_ready =
     ask (\<lambda>s. when_act (ss_state s = Syncing \<and> ss_synced s \<and> ss_target s = None)
       (upd (\<lambda>s. note_event BecameReady (s\<lparr>ss_state := Ready\<rparr>))))"

definition catch_up :: "fix_config \<Rightarrow> fix_session \<Rightarrow> fix_session" where
  "catch_up cfg s =
     (if ss_target s = None then s
      else s\<lparr>ss_resend_at := ss_mono s, ss_resends := min (ss_resends s) 1,
             ss_deadline := (if ss_state s = Syncing then Some (ss_mono s + fc_logon_timeout cfg) else ss_deadline s)\<rparr>)"

definition gap_closed :: "fix_session \<Rightarrow> bool" where
  "gap_closed s = (case ss_target s of None \<Rightarrow> False | Some t \<Rightarrow> t < ss_next_in s)"

definition advance :: "fix_config \<Rightarrow> bool \<Rightarrow> nat option \<Rightarrow> unit act" where
  "advance cfg locked to =
     bind_act (ask (\<lambda>s. pure_act (case to of None \<Rightarrow> ss_next_in s + 1 | Some n \<Rightarrow> n))) (\<lambda>n.
       do_all
         [store_call locked [NextInStored n] (\<lambda>st. (mem_set_next_inbound n st, ())),
          upd (\<lambda>s. catch_up cfg (s\<lparr>ss_next_in := n\<rparr>)),
          ask (\<lambda>s.
            when_act (gap_closed s)
              (do_all
                 [upd (\<lambda>s. s\<lparr>ss_target := None, ss_resends := 0\<rparr>),
                  when_act (ss_state s = Syncing \<and> \<not> ss_synced s) (send_sync_request cfg)])),
          maybe_ready])"

definition step_on :: "fix_config \<Rightarrow> unit act" where
  "step_on cfg = advance cfg False None"

section \<open>Inbound checks\<close>

definition is_admin :: "fix_message \<Rightarrow> bool" where
  "is_admin m \<longleftrightarrow> msg_type m \<in> set ADMIN_TYPES"

text \<open>The number of a message, 0 if it is missing or malformed.\<close>

definition seq_of :: "fix_message \<Rightarrow> nat" where
  "seq_of m = (case parse_seq_num (case get_field m 34 of None \<Rightarrow> [] | Some t \<Rightarrow> t) 34 of Inl _ \<Rightarrow> 0 | Inr n \<Rightarrow> n)"

definition required_seq :: "fix_message \<Rightarrow> int \<Rightarrow> nat codec" where
  "required_seq m tag = bind_result (require_field m tag) (\<lambda>t. parse_seq_num t tag)"

definition poss_dup :: "fix_message \<Rightarrow> bool" where
  "poss_dup m \<longleftrightarrow> get_field m 43 = Some ''Y''"

definition discard :: "fix_message \<Rightarrow> nat \<Rightarrow> unit act" where
  "discard m seq =
     ask (\<lambda>s. when_act (ss_listener s \<and> seq = ss_next_in s \<and> \<not> is_admin m) (listener_call False (DiscardReported m)))"

definition check_sending_time :: "fix_config \<Rightarrow> fix_message \<Rightarrow> nat \<Rightarrow> nat \<Rightarrow> int option act" where
  "check_sending_time cfg m seq expected =
     (case get_field m 52 of
        None \<Rightarrow>
          bind_act
            (do_all [discard m seq, send_reject cfg seq REJECT_REQUIRED_TAG_MISSING ''SendingTime missing'' (Some 52),
                     when_act (seq = expected) (step_on cfg)])
            (\<lambda>_. pure_act None)
      | Some raw \<Rightarrow>
          ask (\<lambda>s.
            let parsed = (case parse_utc_timestamp raw 52 of Inl _ \<Rightarrow> None | Inr t \<Rightarrow> Some t);
                late = (\<lambda>t. case fc_skew cfg of None \<Rightarrow> False | Some limit \<Rightarrow> limit < \<bar>ss_now s - t\<bar>);
                problem = ''SendingTime accuracy problem''
            in case parsed of
                 Some t \<Rightarrow>
                   if late t
                   then bind_act (do_all [discard m seq, send_reject cfg seq REJECT_SENDING_TIME problem (Some 52),
                                          when_act (seq = expected) (step_on cfg)]) (\<lambda>_. terminate cfg problem)
                   else pure_act (Some t)
               | None \<Rightarrow>
                   bind_act (do_all [discard m seq, send_reject cfg seq REJECT_SENDING_TIME problem (Some 52),
                                     when_act (seq = expected) (step_on cfg)]) (\<lambda>_. terminate cfg problem)))"

definition check_orig_sending_time :: "fix_config \<Rightarrow> fix_message \<Rightarrow> nat \<Rightarrow> int \<Rightarrow> bool \<Rightarrow> bool act" where
  "check_orig_sending_time cfg m seq sending_time adv =
     (case get_field m 122 of
        None \<Rightarrow>
          if msg_type m = ''4'' then pure_act True
          else bind_act
            (do_all [discard m seq, send_reject cfg seq REJECT_REQUIRED_TAG_MISSING ''OrigSendingTime missing'' (Some 122),
                     when_act adv (step_on cfg)]) (\<lambda>_. pure_act False)
      | Some raw \<Rightarrow>
          (case parse_utc_timestamp raw 122 of
             Inl _ \<Rightarrow>
               bind_act
                 (do_all [discard m seq, send_reject cfg seq REJECT_INCORRECT_FORMAT ''bad OrigSendingTime'' (Some 122),
                          when_act adv (step_on cfg)]) (\<lambda>_. pure_act False)
           | Inr original \<Rightarrow>
               if sending_time < original
               then bind_act
                 (do_all [discard m seq, send_reject cfg seq REJECT_SENDING_TIME ''OrigSendingTime after SendingTime'' (Some 122),
                          when_act adv (step_on cfg)]) (\<lambda>_. terminate cfg ''SendingTime accuracy problem'')
               else pure_act True))"

definition fail_too_low :: "fix_config \<Rightarrow> nat \<Rightarrow> nat \<Rightarrow> 'a act" where
  "fail_too_low cfg expected seq =
     (let text = ''MsgSeqNum too low, expecting '' @ nat_str expected @ '' but received '' @ nat_str seq
      in bind_act (suppress (send_admin cfg ''5'' [(58, say text)])) (\<lambda>_. raise_act (Terminal (SequenceTooLow text))))"

definition on_logon_refused :: "fix_config \<Rightarrow> fix_message \<Rightarrow> 'a act" where
  "on_logon_refused cfg m =
     (let why = (case get_field m 58 of None \<Rightarrow> [] | Some t \<Rightarrow> t);
          text = scrub cfg (if why = [] then ''no reason given'' else why)
      in raise_act (Terminal (LogonRejected (''FIX logon refused: '' @ text))))"

section \<open>Resending\<close>

text \<open>What is written for the numbers from one on, and whether a gap is open before it.\<close>

datatype resent = Again stored_message | Gap nat nat

definition is_stale :: "fix_config \<Rightarrow> fix_session \<Rightarrow> stored_message \<Rightarrow> bool codec" where
  "is_stale cfg s r = bind_result (parse_utc_timestamp (sm_time r) 52) (\<lambda>t. Inr (fc_stale cfg < ss_now s - t))"

definition write_resent :: "fix_config \<Rightarrow> resent \<Rightarrow> unit act" where
  "write_resent cfg x =
     bind_act (ask (\<lambda>s. lift_codec (time_text s))) (\<lambda>t.
       case x of
         Again r \<Rightarrow>
           write_frame cfg \<lparr>of_seq = sm_seq r, of_type = sm_type r, of_body = sm_body r, of_dup = True, of_orig = Some (sm_time r), of_time = t\<rparr>
       | Gap a b \<Rightarrow>
           bind_act (lift_codec (encode_fields DATA_FIELDS [(123, say ''Y''), (36, VInt (int b))])) (\<lambda>body.
             write_frame cfg \<lparr>of_seq = a, of_type = ''4'', of_body = body, of_dup = True, of_orig = Some t, of_time = t\<rparr>))"

text \<open>The loop of \<open>_resend\<close> over the numbers still to come; staleness is judged when a number's turn comes.\<close>

fun resend_loop :: "fix_config \<Rightarrow> (nat \<rightharpoonup> stored_message) \<Rightarrow> nat \<Rightarrow> nat option \<Rightarrow> nat list \<Rightarrow> unit act" where
  "resend_loop cfg stored end_seq gap [] =
     (case gap of None \<Rightarrow> pure_act () | Some g \<Rightarrow> write_resent cfg (Gap g (end_seq + 1)))"
| "resend_loop cfg stored end_seq gap (seq # seqs) =
     bind_act
       (case stored seq of
          None \<Rightarrow> pure_act None
        | Some r \<Rightarrow> ask (\<lambda>s. bind_act (lift_codec (is_stale cfg s r)) (\<lambda>stale. pure_act (if stale then None else Some r))))
       (\<lambda>kept.
          case kept of
            None \<Rightarrow> resend_loop cfg stored end_seq (if gap = None then Some seq else gap) seqs
          | Some r \<Rightarrow>
              do_all
                [case gap of None \<Rightarrow> pure_act () | Some g \<Rightarrow> write_resent cfg (Gap g seq),
                 write_resent cfg (Again r),
                 resend_loop cfg stored end_seq None seqs])"

definition resend :: "fix_config \<Rightarrow> nat \<Rightarrow> nat \<Rightarrow> unit act" where
  "resend cfg begin_seq end_seq =
     do_all
       [wait_lock,
        bind_act (store_call True [] (\<lambda>st. (st, ms_next_out st))) (\<lambda>next_out.
          let last = next_out - 1; e = (if end_seq = 0 \<or> last < end_seq then last else end_seq)
          in if begin_seq < 1 \<or> e < begin_seq then pure_act ()
             else bind_act (store_call True [] (\<lambda>st. (st, mem_messages begin_seq e st))) (\<lambda>ms.
               do_all
                 [resend_loop cfg (map_of (map (\<lambda>r. (sm_seq r, r)) ms)) e None [begin_seq ..< e + 1],
                  upd (\<lambda>s. if ss_state s = Syncing then s\<lparr>ss_deadline := Some (ss_mono s + fc_logon_timeout cfg)\<rparr> else s)]))]"

definition on_resend_request :: "fix_config \<Rightarrow> fix_message \<Rightarrow> nat \<Rightarrow> unit act" where
  "on_resend_request cfg m seq =
     (let text = ''BeginSeqNo or EndSeqNo missing or invalid''
      in case required_seq m 7 of
           Inl _ \<Rightarrow> send_reject cfg seq REJECT_REQUIRED_TAG_MISSING text (Some 7)
         | Inr b \<Rightarrow>
             (case required_seq m 16 of
                Inl _ \<Rightarrow> send_reject cfg seq REJECT_REQUIRED_TAG_MISSING text (Some 16)
              | Inr e \<Rightarrow> resend cfg b e))"

section \<open>Handling a message\<close>

definition on_logon_confirmed :: "fix_config \<Rightarrow> unit act" where
  "on_logon_confirmed cfg = upd (\<lambda>s. s\<lparr>ss_deadline := Some (ss_mono s + fc_logon_timeout cfg), ss_state := Syncing\<rparr>)"

definition after_logon :: "fix_config \<Rightarrow> unit act" where
  "after_logon cfg =
     do_all
       [ask (\<lambda>s.
          case ss_awaiting s of
            None \<Rightarrow> pure_act ()
          | Some period \<Rightarrow>
              do_all [upd (\<lambda>s. s\<lparr>ss_awaiting := None\<rparr>), store_call False [] (\<lambda>st. (mem_set_reset_period period st, ()))]),
        send_sync_request cfg]"

definition on_gap :: "fix_config \<Rightarrow> fix_message \<Rightarrow> nat \<Rightarrow> unit act" where
  "on_gap cfg m seq =
     do_all
       [if msg_type m = ''A'' then on_logon_confirmed cfg
        else when_act (msg_type m = ''2'' \<and> \<not> poss_dup m) (on_resend_request cfg m seq),
        ask (\<lambda>s.
          let target = ss_target s
          in do_all
               [upd (\<lambda>s. s\<lparr>ss_target := Some (case target of None \<Rightarrow> seq | Some t \<Rightarrow> max t seq)\<rparr>),
                when_act (target = None) (send_resend_request cfg)]),
        if msg_type m = ''A'' then after_logon cfg else when_act (msg_type m = ''5'') (begin_logout cfg ''Logout confirmed'')]"

definition on_heartbeat :: "fix_config \<Rightarrow> fix_message \<Rightarrow> unit act" where
  "on_heartbeat cfg m =
     do_all
       [upd (\<lambda>s.
          case get_field m 112 of
            None \<Rightarrow> s
          | Some i \<Rightarrow> if i \<in> set (ss_sync_ids s) then s\<lparr>ss_sync_ids := [], ss_synced := True\<rparr> else s),
        step_on cfg]"

definition on_test_request :: "fix_config \<Rightarrow> fix_message \<Rightarrow> nat \<Rightarrow> unit act" where
  "on_test_request cfg m seq =
     do_all
       [case get_field m 112 of
          None \<Rightarrow> send_reject cfg seq REJECT_REQUIRED_TAG_MISSING ''TestReqID missing'' (Some 112)
        | Some i \<Rightarrow> send_admin cfg ''0'' [(112, say i)],
        step_on cfg]"

definition lowered_text :: "nat \<Rightarrow> string" where
  "lowered_text n = ''attempt to lower sequence number, invalid value NewSeqNum='' @ nat_str n"

definition on_gap_fill :: "fix_config \<Rightarrow> fix_message \<Rightarrow> nat \<Rightarrow> unit act" where
  "on_gap_fill cfg m seq =
     (case required_seq m 36 of
        Inl _ \<Rightarrow> do_all [send_reject cfg seq REJECT_REQUIRED_TAG_MISSING ''NewSeqNo missing or invalid'' (Some 36), step_on cfg]
      | Inr n \<Rightarrow>
          if n \<le> seq then send_reject cfg seq REJECT_VALUE_INCORRECT (lowered_text n) (Some 36)
          else advance cfg False (Some n))"

definition on_sequence_reset_reset :: "fix_config \<Rightarrow> fix_message \<Rightarrow> nat \<Rightarrow> unit act" where
  "on_sequence_reset_reset cfg m seq =
     (case required_seq m 36 of
        Inl _ \<Rightarrow> send_reject cfg seq REJECT_REQUIRED_TAG_MISSING ''NewSeqNo missing or invalid'' (Some 36)
      | Inr n \<Rightarrow>
          ask (\<lambda>s.
            if n < ss_next_in s then send_reject cfg seq REJECT_VALUE_INCORRECT (lowered_text n) (Some 36)
            else if n = ss_next_in s then pure_act ()
            else do_all
              [when_act (ss_listener s) (listener_call False (LossReported (ss_next_in s) (Some (n - 1)))),
               advance cfg False (Some n)]))"

definition on_admin :: "fix_config \<Rightarrow> fix_message \<Rightarrow> nat \<Rightarrow> bool \<Rightarrow> unit act" where
  "on_admin cfg m seq dup =
     (let ty = msg_type m
      in if ty = ''4'' then on_gap_fill cfg m seq
         else if ty = ''3''
         then ask (\<lambda>s. do_all [when_act (ss_listener s) (listener_call False (RejectSeen m)), step_on cfg])
         else if dup then step_on cfg
         else if ty = ''A''
         then ask (\<lambda>s.
           if ss_state s = LogonSent then do_all [on_logon_confirmed cfg, step_on cfg, after_logon cfg] else step_on cfg)
         else if ty = ''0'' then on_heartbeat cfg m
         else if ty = ''1'' then on_test_request cfg m seq
         else if ty = ''2'' then do_all [on_resend_request cfg m seq, step_on cfg]
         else when_act (ty = ''5'') (do_all [step_on cfg, store_complete False True, begin_logout cfg ''Logout confirmed'']))"

definition obey_peer_reset :: "fix_config \<Rightarrow> unit act" where
  "obey_peer_reset cfg =
     ask (\<lambda>s0.
       do_all
         [when_act (ss_state s0 \<in> {LogonSent, Ready, Syncing}) (on_logon_confirmed cfg),
          upd (\<lambda>s. s\<lparr>ss_synced := False, ss_sync_ids := []\<rparr>),
          when_act (1 < ss_next_in s0 \<and> ss_listener s0) (listener_call False (LossReported (ss_next_in s0) None)),
          wait_lock,
          reset_numbers,
          advance cfg True (Some 2),
          send_admin_locked cfg ''A'' (logon_message cfg True)])"

definition on_logon_with_reset :: "fix_config \<Rightarrow> fix_message \<Rightarrow> nat \<Rightarrow> unit act" where
  "on_logon_with_reset cfg m seq =
     (if seq \<noteq> 1
      then bind_act (send_reject cfg seq REJECT_VALUE_INCORRECT ''ResetSeqNumFlag Logon must be 1'' (Some 34))
             (\<lambda>_. terminate cfg ''ResetSeqNumFlag Logon with MsgSeqNum other than 1'')
      else ask (\<lambda>s.
        do_all
          [if ss_awaiting s \<noteq> None \<and> ss_state s = LogonSent
           then do_all [advance cfg False (Some 2), on_logon_confirmed cfg]
           else obey_peer_reset cfg,
           after_logon cfg]))"

text \<open>The call of the application, with what it raised made a session Reject or the end of the connection.\<close>

definition deliver :: "fix_config \<Rightarrow> fix_message \<Rightarrow> nat \<Rightarrow> unit act" where
  "deliver cfg m seq =
     ask (\<lambda>s.
       if \<not> ss_listener s then step_on cfg
       else
         do_all
           [\<lambda>s. case listener_call False (Delivered m) s of
                  (s', Inr _) \<Rightarrow>
                    (case fm_defect m of
                       None \<Rightarrow> (s', Inr ())
                     | Some d \<Rightarrow> send_reject cfg seq (fd_reason d) (fd_text d) (fd_tag d) s')
                | (s', Inl (AppReject reason text tag)) \<Rightarrow> send_reject cfg seq reason text tag (note_event (Delivered m) s')
                | (s', Inl Internal) \<Rightarrow> (s', Inl (Disconnect ''application handler failed''))
                | (s', Inl e) \<Rightarrow> (s', Inl e),
            step_on cfg])"

definition handle_in_order :: "fix_config \<Rightarrow> fix_message \<Rightarrow> nat \<Rightarrow> int \<Rightarrow> unit act" where
  "handle_in_order cfg m seq sending_time =
     bind_act
       (if poss_dup m \<and> msg_type m \<noteq> ''4'' then check_orig_sending_time cfg m seq sending_time True else pure_act True)
       (\<lambda>good.
          if \<not> good then pure_act ()
          else if is_admin m
          then (case fm_defect m of
                  Some d \<Rightarrow> do_all [send_reject cfg seq (fd_reason d) (fd_text d) (fd_tag d), step_on cfg]
                | None \<Rightarrow> on_admin cfg m seq (poss_dup m))
          else deliver cfg m seq)"

definition handle_checked :: "fix_config \<Rightarrow> fix_message \<Rightarrow> nat \<Rightarrow> nat \<Rightarrow> int \<Rightarrow> unit act" where
  "handle_checked cfg m seq expected sending_time =
     ask (\<lambda>s.
       if ss_state s = LogoutSent \<and> msg_type m = ''5''
       then bind_act (when_act (seq = expected) (do_all [step_on cfg, store_complete False True])) (\<lambda>_. raise_act (Disconnect ''Logout confirmed''))
       else if ss_state s = LogonSent \<and> msg_type m = ''5'' then on_logon_refused cfg m
       else if ss_state s = LogonSent \<and> msg_type m \<noteq> ''A'' then terminate cfg ''first message not a logon''
       else if msg_type m = ''A'' \<and> get_field m 141 = Some ''Y'' then on_logon_with_reset cfg m seq
       else if msg_type m = ''4'' \<and> get_field m 123 \<noteq> Some ''Y'' then on_sequence_reset_reset cfg m seq
       else if seq < expected
       then if \<not> poss_dup m then fail_too_low cfg expected seq
            else bind_act (check_orig_sending_time cfg m seq sending_time False) (\<lambda>_. pure_act ())
       else if expected < seq then on_gap cfg m seq
       else handle_in_order cfg m seq sending_time)"

definition handle :: "fix_config \<Rightarrow> fix_message \<Rightarrow> unit act" where
  "handle cfg m =
     ask (\<lambda>s0.
       let expected = ss_next_in s0; seq = seq_of m
       in do_all
            [upd (\<lambda>s. note_event (Received m) (s\<lparr>ss_last_received := ss_mono s, ss_test_at := None\<rparr>)),
             if fm_begin m \<noteq> fc_begin cfg then terminate cfg (''Incorrect BeginString '' @ fm_begin m)
             else if seq = 0 then terminate cfg ''MsgSeqNum missing or invalid''
             else if get_field m 49 \<noteq> Some (fc_target cfg) \<or> get_field m 56 \<noteq> Some (fc_sender cfg)
             then bind_act
               (do_all [discard m seq, send_reject cfg seq REJECT_COMP_ID ''CompID problem'' None, when_act (seq = expected) (step_on cfg)])
               (\<lambda>_. terminate cfg ''Incorrect SenderCompID or TargetCompID'')
             else bind_act (check_sending_time cfg m seq expected) (\<lambda>t.
               case t of None \<Rightarrow> pure_act () | Some sending_time \<Rightarrow> handle_checked cfg m seq expected sending_time)])"

section \<open>The timer\<close>

definition silence_limit :: "fix_config \<Rightarrow> int" where
  "silence_limit cfg = fc_heartbeat cfg * 1200000"

definition resend_timeout :: "fix_config \<Rightarrow> int" where
  "resend_timeout cfg =
     (case fc_resend_timeout cfg of Some t \<Rightarrow> t | None \<Rightarrow> max (fc_heartbeat cfg * 2000000) 5000000)"

definition overdue :: "fix_session \<Rightarrow> bool" where
  "overdue s = (case ss_deadline s of None \<Rightarrow> False | Some d \<Rightarrow> d < ss_mono s)"

text \<open>One turn of \<open>_timer_loop\<close> after its sleep.\<close>

definition check_silence :: "fix_config \<Rightarrow> int \<Rightarrow> unit act" where
  "check_silence cfg now =
     ask (\<lambda>s.
       case ss_test_at s of
         Some t \<Rightarrow>
           if silence_limit cfg < now - t
           then do_all [suppress (send_admin cfg ''5'' [(58, say ''no response to TestRequest'')]), raise_act (Disconnect ''missed heartbeats'')]
           else pure_act ()
       | None \<Rightarrow>
           if silence_limit cfg < now - ss_last_received s
           then do_all
             [upd (\<lambda>s. s\<lparr>ss_counter := ss_counter s + 1, ss_test_at := Some now\<rparr>),
              ask (\<lambda>s. send_admin cfg ''1'' [(112, say (''TEST'' @ nat_str (ss_counter s)))])]
           else pure_act ())"

definition timer_tick :: "fix_config \<Rightarrow> unit act" where
  "timer_tick cfg =
     ask (\<lambda>s.
       let now = ss_mono s; state = ss_state s
       in if state \<in> {LogonSent, Syncing} \<and> overdue s
          then raise_act (Disconnect (''no answer during '' @ (if state = LogonSent then ''logon_sent'' else ''syncing'')))
          else if state = LogoutSent
          then if overdue s then raise_act (Disconnect ''no Logout confirmation in time'') else pure_act ()
          else if state \<notin> {Syncing, Ready} then pure_act ()
          else
            do_all
              [when_act (state = Syncing \<and> ss_sync_ids s \<noteq> [] \<and> SYNC_RETRY < now - ss_sync_sent s) (send_sync_request cfg),
               check_silence cfg now,
               ask (\<lambda>s. when_act (fc_heartbeat cfg * 1000000 \<le> now - ss_last_sent s) (send_admin cfg ''0'' [])),
               ask (\<lambda>s.
                 when_act (ss_target s \<noteq> None \<and> resend_timeout cfg < now - ss_resend_at s)
                   (if fc_max_resends cfg \<le> ss_resends s then raise_act (Disconnect ''message gap was not filled'')
                    else send_resend_request cfg))])"

section \<open>Connections\<close>

definition start_session :: "fix_session \<Rightarrow> fix_session" where
  "start_session s = s\<lparr>ss_failure := None, ss_next_in := ms_next_in (ss_store s), ss_state := Disconnected\<rparr>"

definition begin_serving :: "fix_config \<Rightarrow> unit act" where
  "begin_serving cfg =
     do_all
       [upd (\<lambda>s. s\<lparr>ss_last_received := ss_mono s, ss_last_sent := ss_mono s, ss_test_at := None, ss_sync_ids := [], ss_synced := False,
              ss_target := None, ss_resends := 0, ss_deadline := Some (ss_mono s + fc_logon_timeout cfg)\<rparr>),
        send_logon cfg]"

text \<open>\<open>_read_loop\<close>, over what the reads return; an empty read is the end of the stream.\<close>

fun handle_items :: "fix_config \<Rightarrow> parsed list \<Rightarrow> unit act" where
  "handle_items cfg [] = pure_act ()"
| "handle_items cfg (GarbledFrame _ # items) = handle_items cfg items"
| "handle_items cfg (Parsed m # items) = bind_act (handle cfg m) (\<lambda>_. handle_items cfg items)"

fun read_loop :: "fix_config \<Rightarrow> fix_parser \<Rightarrow> string list \<Rightarrow> unit act" where
  "read_loop cfg p [] = raise_act (Disconnect ''peer closed the connection'')"
| "read_loop cfg p (bytes # reads) =
     (if bytes = [] then raise_act (Disconnect ''peer closed the connection'')
      else case feed p bytes of (items, p') \<Rightarrow> bind_act (handle_items cfg items) (\<lambda>_. read_loop cfg p' reads))"

text \<open>How a connection ended: why it is tried again, or what ends the session for good.\<close>

definition served :: "ending \<Rightarrow> session_error option" where
  "served e =
     (case e of Terminal x \<Rightarrow> Some x | StoreFails \<Rightarrow> Some (SessionFailed ''FIX store failed'') | _ \<Rightarrow> None)"

definition on_disconnected :: "fix_session \<Rightarrow> fix_session" where
  "on_disconnected s = s\<lparr>ss_state := Disconnected\<rparr>"

definition fail_session :: "session_error \<Rightarrow> fix_session \<Rightarrow> fix_session" where
  "fail_session x s = s\<lparr>ss_failure := Some x, ss_state := FailedState\<rparr>"

definition end_connection :: "ending \<Rightarrow> fix_session \<Rightarrow> fix_session" where
  "end_connection e s = (case served e of Some x \<Rightarrow> fail_session x s | None \<Rightarrow> on_disconnected s)"

definition connection :: "fix_config \<Rightarrow> fix_parser \<Rightarrow> string list \<Rightarrow> fix_session \<Rightarrow> fix_session" where
  "connection cfg p reads s =
     (case do_all [begin_serving cfg, read_loop cfg p reads] (s\<lparr>ss_state := Connecting\<rparr>) of
        (s', Inl e) \<Rightarrow> end_connection e s'
      | (s', Inr _) \<Rightarrow> end_connection (Disconnect ''connection ended'') s')"

text \<open>The attempts \<open>_run\<close> makes, given whether each connection was ready before it ended.\<close>

datatype retry = GiveUp nat | Again_after nat

definition next_attempt :: "fix_config \<Rightarrow> bool \<Rightarrow> nat \<Rightarrow> nat \<times> retry" where
  "next_attempt cfg was_ready attempt =
     (let a = (if was_ready then 0 else attempt + 1)
      in (a, case fc_max_reconnects cfg of
               Some n \<Rightarrow> if n < a then GiveUp (a - 1) else Again_after (a - 1)
             | None \<Rightarrow> Again_after (a - 1)))"

text \<open>\<open>stop\<close>, up to the wait for the runner.\<close>

definition stop_begin :: "fix_config \<Rightarrow> unit act" where
  "stop_begin cfg =
     ask (\<lambda>s. when_act (ss_state s \<in> {Ready, Syncing}) (suppress (begin_logout cfg ''session stopping'')))"

definition stop_end :: "fix_session \<Rightarrow> fix_session" where
  "stop_end s = s\<lparr>ss_state := Stopped\<rparr>"

text \<open>What \<open>wait_ready\<close> decides each time it looks, with the time it has left.\<close>

definition ready_check :: "int \<Rightarrow> fix_session \<Rightarrow> (send_error + bool)" where
  "ready_check remaining s =
     (case ss_failure s of
        Some e \<Rightarrow> Inl (SessionDown e)
      | None \<Rightarrow>
          if ss_state s = Ready then Inr True
          else if ss_state s = Stopped \<or> remaining \<le> 0 then Inl (NotReady (ss_state s))
          else Inr False)"

section \<open>Properties\<close>



end
