(* ===== verification/FixResend.thy ===== *)
theory FixResend
  imports FixSession "HOL-Library.Sublist"
begin

text \<open>
  Answering a ResendRequest: the frames written are one unbroken chain over the numbers asked for, stored
  messages as they were first sent and gap fills for the rest. Also that a credential of the configuration
  does not survive \<open>scrub\<close>.
\<close>

section \<open>What a pause leaves alone\<close>

definition forward :: "fix_session \<Rightarrow> bool" where
  "forward s \<longleftrightarrow> (\<forall>a \<in> set (ss_script s). 0 \<le> an_wall a)"

definition kept :: "memory_store \<Rightarrow> bool" where
  "kept st \<longleftrightarrow> (\<forall>n r. ms_messages st n = Some r \<longrightarrow> sm_seq r = n)"

lemma kept_allocate: "kept st \<Longrightarrow> kept (fst (mem_allocate m st))"
  by (auto simp: kept_def mem_allocate_def Let_def split: option.splits if_splits)

lemma others_keep:
  "ss_log (fold (other_step l) os s) = ss_log s \<and> ss_script (fold (other_step l) os s) = ss_script s \<and>
   ss_now (fold (other_step l) os s) = ss_now s \<and>
   (l \<longrightarrow> ss_store (fold (other_step l) os s) = ss_store s) \<and>
   (kept (ss_store s) \<longrightarrow> kept (ss_store (fold (other_step l) os s)))"
proof (induction os arbitrary: s)
  case (Cons o' os)
  have "ss_log (other_step l o' s) = ss_log s \<and> ss_script (other_step l o' s) = ss_script s \<and> ss_now (other_step l o' s) = ss_now s \<and>
      (l \<longrightarrow> ss_store (other_step l o' s) = ss_store s) \<and> (kept (ss_store s) \<longrightarrow> kept (ss_store (other_step l o' s)))"
    by (cases o') (auto simp: other_step_def kept_allocate)
  then show ?case using Cons.IH [of "other_step l o' s"] by simp
qed simp

lemma pause_keeps:
  assumes "pause l s = (s1, out)" and "forward s"
  shows "ss_log s1 = ss_log s" "forward s1" "ss_now s \<le> ss_now s1" "l \<Longrightarrow> ss_store s1 = ss_store s"
    "kept (ss_store s) \<Longrightarrow> kept (ss_store s1)"
  using assms others_keep by (auto simp: pause_def forward_def split: list.splits)

section \<open>What is written\<close>

text \<open>The numbers an item takes: its own, or those up to where the gap fill moves the peer.\<close>

fun chain :: "nat \<Rightarrow> resent list \<Rightarrow> nat \<Rightarrow> bool" where
  "chain a [] c \<longleftrightarrow> a = c"
| "chain a (Again r # xs) c \<longleftrightarrow> sm_seq r = a \<and> chain (a + 1) xs c"
| "chain a (Gap x y # xs) c \<longleftrightarrow> x = a \<and> a < y \<and> chain y xs c"

definition shows_frame :: "resent \<Rightarrow> out_frame \<Rightarrow> bool" where
  "shows_frame x f \<longleftrightarrow>
     of_dup f \<and>
     (case x of
        Again r \<Rightarrow> of_seq f = sm_seq r \<and> of_type f = sm_type r \<and> of_body f = sm_body r \<and> of_orig f = Some (sm_time r)
      | Gap a b \<Rightarrow> of_seq f = a \<and> of_type f = ''4'' \<and>
          encode_fields DATA_FIELDS [(123, say ''Y''), (36, VInt (int b))] = Inr (of_body f))"

lemma bind_act_ok: "bind_act f g s = (s', Inr y) \<longleftrightarrow> (\<exists>s1 x. f s = (s1, Inr x) \<and> g x s1 = (s', Inr y))"
  by (auto simp: bind_act_def split: prod.splits sum.splits)

lemma lift_codec_ok: "lift_codec r s = (s', Inr y) \<longleftrightarrow> r = Inr y \<and> s' = s"
  by (auto simp: lift_codec_def raise_act_def pure_act_def split: sum.splits)

lemma ask_ok: "ask f s = f s s"
  by (simp add: ask_def)

lemma pure_ok: "pure_act x s = (s', Inr y) \<longleftrightarrow> s' = s \<and> y = x"
  by (auto simp: pure_act_def)

lemmas act_ok = bind_act_ok lift_codec_ok ask_ok pure_ok

lemma write_frame_ok:
  assumes "write_frame cfg f s = (s', Inr ())" and "forward s"
  shows "ss_log s' = Wrote f # ss_log s \<and> ss_store s' = ss_store s \<and> forward s' \<and> ss_now s \<le> ss_now s'"
proof -
  obtain s1 where p: "pause True (note_event (Wrote f) s) = (s1, Done)" and s': "s' = s1\<lparr>ss_last_sent := ss_mono s1\<rparr>"
    using assms(1) by (auto simp: write_frame_def act_ok split: prod.splits outcome.splits)
  have "forward (note_event (Wrote f) s)" using assms(2) by (simp add: forward_def note_event_def)
  from pause_keeps [OF p this] show ?thesis by (simp add: s' note_event_def forward_def)
qed

lemma write_resent_ok:
  assumes "write_resent cfg x s = (s', Inr ())" and "forward s"
  shows "\<exists>f. shows_frame x f \<and> ss_log s' = Wrote f # ss_log s \<and> ss_store s' = ss_store s \<and> forward s' \<and> ss_now s \<le> ss_now s'"
proof (cases x)
  case (Again r)
  then obtain t where "write_frame cfg \<lparr>of_seq = sm_seq r, of_type = sm_type r, of_body = sm_body r, of_dup = True,
      of_orig = Some (sm_time r), of_time = t\<rparr> s = (s', Inr ())"
    using assms(1) by (auto simp: write_resent_def act_ok)
  from write_frame_ok [OF this assms(2)] show ?thesis by (auto simp: shows_frame_def Again)
next
  case (Gap a b)
  then obtain t body where w: "write_frame cfg \<lparr>of_seq = a, of_type = ''4'', of_body = body, of_dup = True,
      of_orig = Some t, of_time = t\<rparr> s = (s', Inr ())"
      and body: "encode_fields DATA_FIELDS [(123, say ''Y''), (36, VInt (int b))] = Inr body"
    using assms(1) by (auto simp: write_resent_def act_ok)
  from write_frame_ok [OF w assms(2)] body show ?thesis by (auto simp: shows_frame_def Gap)
qed

text \<open>A stored message is gap-filled only when it is stale, and resent only when it is not.\<close>

definition stale_at :: "fix_config \<Rightarrow> int \<Rightarrow> stored_message \<Rightarrow> bool" where
  "stale_at cfg now r \<longleftrightarrow> (\<exists>t. parse_utc_timestamp (sm_time r) 52 = Inr t \<and> fc_stale cfg < now - t)"

lemma is_stale_ok: "is_stale cfg s r = Inr b \<Longrightarrow> b = stale_at cfg (ss_now s) r"
  by (auto simp: is_stale_def stale_at_def bind_result_def split: sum.splits)

lemma stale_later: "stale_at cfg a r \<Longrightarrow> a \<le> b \<Longrightarrow> stale_at cfg b r"
  by (auto simp: stale_at_def)

definition judged :: "fix_config \<Rightarrow> (nat \<rightharpoonup> stored_message) \<Rightarrow> int \<Rightarrow> int \<Rightarrow> resent \<Rightarrow> bool" where
  "judged cfg stored before after x =
     (case x of
        Again r \<Rightarrow> stored (sm_seq r) = Some r \<and> \<not> stale_at cfg before r
      | Gap a b \<Rightarrow> \<forall>k \<in> {a ..< b}. \<forall>r. stored k = Some r \<longrightarrow> stale_at cfg after r)"

lemma judged_wider: "judged cfg stored a b x \<Longrightarrow> a' \<le> a \<Longrightarrow> b \<le> b' \<Longrightarrow> judged cfg stored a' b' x"
  by (auto simp: judged_def stale_later split: resent.splits)

lemma chain_bounds:
  "chain a xs c \<Longrightarrow> a \<le> c \<and> (\<forall>x y. Gap x y \<in> set xs \<longrightarrow> a \<le> x \<and> y \<le> c)"
proof (induction a xs c rule: chain.induct)
  case (2 a r xs c)
  then have "a + 1 \<le> c" and "\<And>u v. Gap u v \<in> set xs \<Longrightarrow> a + 1 \<le> u \<and> v \<le> c" by auto
  then show ?case by fastforce
next
  case (3 a x y xs c)
  then have "y \<le> c" and "\<And>u v. Gap u v \<in> set xs \<Longrightarrow> y \<le> u \<and> v \<le> c" by auto
  then show ?case using 3(2) by fastforce
qed auto

text \<open>What a run of the loop wrote, judged no earlier than at \<open>t0\<close>.\<close>

definition answered :: "fix_config \<Rightarrow> (nat \<rightharpoonup> stored_message) \<Rightarrow> int \<Rightarrow> nat \<Rightarrow> nat \<Rightarrow> fix_session \<Rightarrow> fix_session \<Rightarrow> resent list \<Rightarrow> bool" where
  "answered cfg stored t0 a c s s' xs \<longleftrightarrow>
     chain a xs c \<and> list_all (judged cfg stored t0 (ss_now s')) xs \<and>
     (\<exists>fs. list_all2 shows_frame xs fs \<and> ss_log s' = map Wrote (rev fs) @ ss_log s) \<and>
     ss_store s' = ss_store s \<and> forward s' \<and> ss_now s \<le> ss_now s'"

lemma answered_nil: "forward s \<Longrightarrow> answered cfg stored t0 a a s s []"
  by (simp add: answered_def)

lemma answered_cons:
  assumes "write_resent cfg x s = (s1, Inr ())" and "forward s" and "answered cfg stored t0 b c s1 s' xs"
    and "judged cfg stored t0 (ss_now s) x" and "chain a [x] b"
  shows "answered cfg stored t0 a c s s' (x # xs)"
proof -
  obtain f where f: "shows_frame x f" "ss_log s1 = Wrote f # ss_log s" "ss_store s1 = ss_store s" "ss_now s \<le> ss_now s1"
    using write_resent_ok [OF assms(1,2)] by blast
  obtain fs where fs: "list_all2 shows_frame xs fs" "ss_log s' = map Wrote (rev fs) @ ss_log s1"
    using assms(3) by (auto simp: answered_def)
  have n: "ss_now s1 \<le> ss_now s'" using assms(3) by (simp add: answered_def)
  have "judged cfg stored t0 (ss_now s') x" by (rule judged_wider [OF assms(4)]) (use f(4) n in auto)
  moreover have "chain a (x # xs) c" using assms(3,5) by (cases x) (auto simp: answered_def)
  moreover have "list_all2 shows_frame (x # xs) (f # fs) \<and> ss_log s' = map Wrote (rev (f # fs)) @ ss_log s"
    using f fs by simp
  then have "\<exists>fs. list_all2 shows_frame (x # xs) fs \<and> ss_log s' = map Wrote (rev fs) @ ss_log s" by blast
  ultimately show ?thesis using assms(3) f n unfolding answered_def by simp
qed

lemma resend_loop_ok:
  assumes "resend_loop cfg stored e gap [a ..< e + 1] s = (s', Inr ())" and "forward s" and "a \<le> e + 1"
    and "\<forall>n r. stored n = Some r \<longrightarrow> sm_seq r = n"
    and "case gap of None \<Rightarrow> True | Some g \<Rightarrow> g < a \<and> (\<forall>k \<in> {g ..< a}. \<forall>r. stored k = Some r \<longrightarrow> stale_at cfg (ss_now s) r)"
    and "t0 \<le> ss_now s"
  shows "\<exists>xs. answered cfg stored t0 (case gap of None \<Rightarrow> a | Some g \<Rightarrow> g) (e + 1) s s' xs"
  using assms
proof (induction "e + 1 - a" arbitrary: a gap s)
  case 0
  then have a: "a = e + 1" by simp
  show ?case
  proof (cases gap)
    case None
    then have "s' = s" using 0 by (simp add: a act_ok)
    then show ?thesis using None a answered_nil [OF \<open>forward s\<close>, of cfg stored t0 a] by auto
  next
    case (Some g)
    then have w: "write_resent cfg (Gap g (e + 1)) s = (s', Inr ())" using 0 by (simp add: a)
    have "forward s'" using write_resent_ok [OF w \<open>forward s\<close>] by blast
    then have "answered cfg stored t0 (e + 1) (e + 1) s' s' []" by (rule answered_nil)
    from answered_cons [OF w \<open>forward s\<close> this, of g] show ?thesis
      using 0 Some a by (auto simp: judged_def)
  qed
next
  case (Suc d)
  have "a < e + 1" using Suc.hyps(2) by linarith
  then have u: "[a ..< e + 1] = a # [a + 1 ..< e + 1]" by (simp only: upt_conv_Cons Suc_eq_plus1)
  note run = Suc.prems(1) [unfolded u resend_loop.simps]
  have d: "d = e + 1 - (a + 1)" and a: "a + 1 \<le> e + 1" using Suc by linarith+
  have skip: ?case
    if loop: "resend_loop cfg stored e (if gap = None then Some a else gap) [a + 1 ..< e + 1] s = (s', Inr ())"
      and stale: "\<forall>r. stored a = Some r \<longrightarrow> stale_at cfg (ss_now s) r"
  proof -
    have "case if gap = None then Some a else gap of None \<Rightarrow> True
        | Some g \<Rightarrow> g < a + 1 \<and> (\<forall>k \<in> {g ..< a + 1}. \<forall>r. stored k = Some r \<longrightarrow> stale_at cfg (ss_now s) r)"
      using stale Suc.prems(5) by (cases gap) (auto simp: less_Suc_eq)
    from Suc.hyps(1) [OF d loop \<open>forward s\<close> a Suc.prems(4) this Suc.prems(6)] show ?thesis by (cases gap) auto
  qed
  show ?case
  proof (cases "stored a")
    case None
    then show ?thesis using run by (intro skip) (auto simp: act_ok simp del: upt_Suc)
  next
    case (Some r)
    obtain b where b: "is_stale cfg s r = Inr b" using run Some by (auto simp: act_ok simp del: upt_Suc)
    show ?thesis
    proof (cases b)
      case True
      then show ?thesis using run Some b is_stale_ok [OF b] by (intro skip) (auto simp: act_ok simp del: upt_Suc)
    next
      case False
      then have "\<not> stale_at cfg (ss_now s) r" using is_stale_ok [OF b] by simp
      then have j: "judged cfg stored t0 t (Again r)" for t
        using Some Suc.prems(4,6) stale_later [of cfg t0 r "ss_now s"] by (auto simp: judged_def)
      have seq: "chain a [Again r] (a + 1)" using Suc.prems(4) Some by simp
      obtain s1 s2 where g: "(case gap of None \<Rightarrow> pure_act () | Some g \<Rightarrow> write_resent cfg (Gap g a)) s = (s1, Inr ())"
          and w: "write_resent cfg (Again r) s1 = (s2, Inr ())"
          and l: "resend_loop cfg stored e None [a + 1 ..< e + 1] s2 = (s', Inr ())"
        using run Some b False by (auto simp: act_ok do_all.simps simp del: upt_Suc)
      have f1: "forward s1 \<and> ss_now s \<le> ss_now s1"
        using g write_resent_ok [of cfg _ s s1] \<open>forward s\<close> by (cases gap) (auto simp: act_ok)
      then have f2: "forward s2" "t0 \<le> ss_now s2" using write_resent_ok [OF w] Suc.prems(6) by fastforce+
      from Suc.hyps(1) [OF d l f2(1) a Suc.prems(4) _ f2(2)]
      obtain xs where "answered cfg stored t0 (a + 1) (e + 1) s2 s' xs" by auto
      then have ans: "answered cfg stored t0 a (e + 1) s1 s' (Again r # xs)"
        using f1 j seq by (intro answered_cons [OF w]) auto
      show ?thesis
      proof (cases gap)
        case None
        then show ?thesis using ans g by (auto simp: act_ok)
      next
        case (Some g')
        then have "write_resent cfg (Gap g' a) s = (s1, Inr ())" using g by simp
        from answered_cons [OF this \<open>forward s\<close> ans, of g'] show ?thesis
          using Suc.prems(5) Some by (auto simp: judged_def)
      qed
    qed
  qed
qed

section \<open>The answer to a request\<close>

lemma mem_messages_lookup:
  assumes "kept st"
  shows "map_of (map (\<lambda>r. (sm_seq r, r)) (mem_messages a b st)) n = (if a \<le> n \<and> n \<le> b then ms_messages st n else None)"
proof -
  have "map_of (map (\<lambda>r. (sm_seq r, r)) (List.map_filter (ms_messages st) ns)) n = (if n \<in> set ns then ms_messages st n else None)" for ns
    using assms by (induction ns) (auto simp: map_filter_simps kept_def split: option.split)
  then show ?thesis by (auto simp: mem_messages_def simp del: upt_Suc)
qed

lemma store_call_ok:
  assumes "store_call l evs f s = (s', Inr x)"
  shows "\<exists>s1. pause l s = (s1, Done) \<and> s' = s1\<lparr>ss_store := fst (f (ss_store s1)), ss_log := evs @ ss_log s1\<rparr> \<and> x = snd (f (ss_store s1))"
  using assms by (auto simp: store_call_def Let_def split: prod.splits outcome.splits if_splits)

text \<open>The last number asked for: 0 and what was never sent stand for the last number sent.\<close>

definition last_asked :: "nat \<Rightarrow> memory_store \<Rightarrow> nat" where
  "last_asked e st = (if e = 0 \<or> ms_next_out st - 1 < e then ms_next_out st - 1 else e)"

definition answers :: "fix_config \<Rightarrow> nat \<Rightarrow> nat \<Rightarrow> fix_session \<Rightarrow> fix_session \<Rightarrow> resent list \<Rightarrow> out_frame list \<Rightarrow> bool" where
  "answers cfg b c s s' xs fs \<longleftrightarrow>
     chain b xs (c + 1) \<and> list_all2 shows_frame xs fs \<and> ss_log s' = map Wrote (rev fs) @ ss_log s \<and>
     list_all (judged cfg (ms_messages (ss_store s')) (ss_now s) (ss_now s')) xs"

lemma resend_ok:
  assumes "resend cfg b e s = (s', Inr ())" and "kept (ss_store s)" and "forward s"
  shows "if b < 1 \<or> last_asked e (ss_store s') < b then ss_log s' = ss_log s
    else \<exists>xs fs. answers cfg b (last_asked e (ss_store s')) s s' xs fs"
proof -
  let ?read = "\<lambda>st. (st, ms_next_out st)"
  obtain s1 s2 n where lock: "wait_lock s = (s1, Inr ())" and read: "store_call True [] ?read s1 = (s2, Inr n)"
      and rest: "(let last = n - 1; e' = (if e = 0 \<or> last < e then last else e)
          in if b < 1 \<or> e' < b then pure_act ()
             else bind_act (store_call True [] (\<lambda>st. (st, mem_messages b e' st))) (\<lambda>ms.
               do_all
                 [resend_loop cfg (map_of (map (\<lambda>r. (sm_seq r, r)) ms)) e' None [b ..< e' + 1],
                  upd (\<lambda>s. if ss_state s = Syncing then s\<lparr>ss_deadline := Some (ss_mono s + fc_logon_timeout cfg)\<rparr> else s)])) s2
          = (s', Inr ())"
    using assms(1) by (auto simp: resend_def do_all.simps act_ok)
  obtain o1 where p1: "pause False s = (s1, o1)"
    using lock by (auto simp: wait_lock_def Let_def split: prod.splits outcome.splits)
  obtain s1' where p2: "pause True s1 = (s1', Done)" and s2: "s2 = s1'" and n: "n = ms_next_out (ss_store s2)"
    using store_call_ok [OF read] by auto
  note k1 = pause_keeps [OF p1 assms(3)]
  note k2 = pause_keeps [OF p2 k1(2)]
  let ?e = "last_asked e (ss_store s2)"
  have last: "(if e = 0 \<or> n - 1 < e then n - 1 else e) = ?e" by (simp add: n last_asked_def)
  note rest = rest [unfolded Let_def last]
  have kept2: "kept (ss_store s2)" using k1(5) k2(4) assms(2) by (simp add: s2)
  show ?thesis
  proof (cases "b < 1 \<or> ?e < b")
    case True
    then have "s' = s2" using rest by (auto simp: act_ok)
    then show ?thesis using True k1(1) k2(1) by (simp add: s2)
  next
    case False
    obtain s3 s4 ms where m: "store_call True [] (\<lambda>st. (st, mem_messages b ?e st)) s2 = (s3, Inr ms)"
        and loop: "resend_loop cfg (map_of (map (\<lambda>r. (sm_seq r, r)) ms)) ?e None [b ..< ?e + 1] s3 = (s4, Inr ())"
        and s': "s' = (if ss_state s4 = Syncing then s4\<lparr>ss_deadline := Some (ss_mono s4 + fc_logon_timeout cfg)\<rparr> else s4)"
      using rest False by (auto simp: act_ok do_all.simps upd_def simp del: upt_Suc)
    obtain s2' where p3: "pause True s2 = (s2', Done)" and s3: "s3 = s2'" and ms: "ms = mem_messages b ?e (ss_store s3)"
      using store_call_ok [OF m] by auto
    note k3 = pause_keeps [OF p3 k2(2) [folded s2]]
    have same: "ss_store s3 = ss_store s2" using k3(4) by (simp add: s3)
    let ?stored = "map_of (map (\<lambda>r. (sm_seq r, r)) ms)"
    have look: "?stored k = (if b \<le> k \<and> k \<le> ?e then ms_messages (ss_store s2) k else None)" for k
      unfolding ms same by (rule mem_messages_lookup [OF kept2])
    have key: "\<forall>k r. ?stored k = Some r \<longrightarrow> sm_seq r = k" using kept2 by (auto simp: look kept_def)
    have t: "ss_now s \<le> ss_now s3" using k1(3) k2(3) k3(3) by (simp add: s2 s3)
    from resend_loop_ok [OF loop k3(2) [folded s3] _ key _ t] False
    obtain xs where a: "answered cfg ?stored (ss_now s) b (?e + 1) s3 s4 xs" by auto
    then obtain fs where fs: "list_all2 shows_frame xs fs" "ss_log s4 = map Wrote (rev fs) @ ss_log s3"
      by (auto simp: answered_def)
    have "judged cfg (ms_messages (ss_store s2)) (ss_now s) (ss_now s4) x" if "x \<in> set xs" for x
    proof -
      have j: "judged cfg ?stored (ss_now s) (ss_now s4) x" using a that by (simp add: answered_def list_all_iff)
      show ?thesis
      proof (cases x)
        case (Again r)
        then show ?thesis using j by (auto simp: judged_def look split: if_splits)
      next
        case (Gap u v)
        then have "b \<le> u" "v \<le> ?e + 1" using a that chain_bounds [of b xs "?e + 1"] by (auto simp: answered_def)
        then show ?thesis using j Gap by (auto simp: judged_def look)
      qed
    qed
    moreover have "ss_store s' = ss_store s2" "ss_now s' = ss_now s4" "ss_log s' = ss_log s4"
      using a same by (auto simp: s' answered_def)
    moreover have "ss_log s3 = ss_log s" using k1(1) k2(1) k3(1) by (simp add: s2 s3)
    ultimately have "answers cfg b ?e s s' xs fs"
      using a fs by (simp add: answers_def answered_def list_all_iff)
    then show ?thesis using False \<open>ss_store s' = ss_store s2\<close> by auto
  qed
qed

section \<open>Credentials in texts from the peer\<close>

lemma REDACTED_stars: "set REDACTED = {CHR ''*''}" "REDACTED \<noteq> []"
  by (simp_all add: REDACTED_def)

lemma prefix_stars:
  assumes "prefix p (xs @ ys)" and "set xs = {CHR ''*''}" and "CHR ''*'' \<notin> set p"
  shows "p = []"
proof (cases p)
  case (Cons a q)
  obtain b ys' where xs: "xs = b # ys'" using assms(2) by (cases xs) auto
  then have "a = b" using assms(1) Cons by simp
  then show ?thesis using assms(2,3) xs Cons by auto
qed simp

lemma sublist_stars:
  assumes "sublist p (xs @ ys)" and "set xs \<subseteq> {CHR ''*''}" and "CHR ''*'' \<notin> set p" and "p \<noteq> []"
  shows "sublist p ys"
  using assms
proof (induction xs)
  case (Cons x xs)
  have "\<not> prefix p (x # xs @ ys)"
    using Cons.prems(2-4) prefix_stars [of p "[x]" "xs @ ys"] by auto
  then show ?case using Cons by (simp add: sublist_Cons_right)
qed simp

lemma replace_all_none: "s = [] \<or> old = [] \<Longrightarrow> replace_all old new s = s"
  by (subst replace_all.simps) simp

lemma replace_all_hit:
  "s \<noteq> [] \<Longrightarrow> old \<noteq> [] \<Longrightarrow> take (length old) s = old \<Longrightarrow> replace_all old new s = new @ replace_all old new (drop (length old) s)"
  by (subst replace_all.simps) simp

lemma replace_all_miss:
  "s \<noteq> [] \<Longrightarrow> old \<noteq> [] \<Longrightarrow> take (length old) s \<noteq> old \<Longrightarrow> replace_all old new s = hd s # replace_all old new (tl s)"
  by (subst replace_all.simps) simp

text \<open>What replacing leaves at the front of a text was there before.\<close>

lemma prefix_replaced:
  "prefix p (replace_all old REDACTED s) \<Longrightarrow> CHR ''*'' \<notin> set p \<Longrightarrow> prefix p s"
proof (induction old REDACTED s arbitrary: p rule: replace_all.induct)
  case (1 old s)
  consider "s = [] \<or> old = []" | "s \<noteq> []" "old \<noteq> []" "take (length old) s = old" | "s \<noteq> []" "old \<noteq> []" "take (length old) s \<noteq> old"
    by blast
  then show ?case
  proof cases
    case 1
    then show ?thesis using "1.prems" by (simp only: replace_all_none)
  next
    case 2
    have "prefix p (REDACTED @ replace_all old REDACTED (drop (length old) s))"
      using "1.prems"(1) unfolding replace_all_hit [OF 2] .
    then have "p = []" by (rule prefix_stars [OF _ REDACTED_stars(1) "1.prems"(2)])
    then show ?thesis by simp
  next
    case 3
    have "prefix p (hd s # replace_all old REDACTED (tl s))"
      using "1.prems"(1) unfolding replace_all_miss [OF 3] .
    then show ?thesis
    proof (cases p)
      case (Cons c q)
      then have "c = hd s" "prefix q (replace_all old REDACTED (tl s))" "CHR ''*'' \<notin> set q"
        using \<open>prefix p (hd s # replace_all old REDACTED (tl s))\<close> "1.prems" by auto
      then have "prefix q (tl s)" using "1.hyps"(2) 3 by blast
      then show ?thesis using Cons \<open>c = hd s\<close> 3 by (cases s) auto
    qed simp
  qed
qed

lemma replaced_free:
  assumes "\<not> sublist p s \<or> p = old" and "p \<noteq> []" and "CHR ''*'' \<notin> set p"
  shows "\<not> sublist p (replace_all old REDACTED s)"
  using assms
proof (induction old REDACTED s rule: replace_all.induct)
  case (1 old s)
  consider "s = [] \<or> old = []" | "s \<noteq> []" "old \<noteq> []" "take (length old) s = old" | "s \<noteq> []" "old \<noteq> []" "take (length old) s \<noteq> old"
    by blast
  then show ?case
  proof cases
    case 1
    then show ?thesis using "1.prems" by (auto simp: replace_all_none)
  next
    case 2
    have "\<not> sublist p (drop (length old) s) \<or> p = old"
      using "1.prems"(1) sublist_order.order.trans [OF _ sublist_drop [of "length old" s], of p] by argo
    then have "\<not> sublist p (replace_all old REDACTED (drop (length old) s))" using "1.hyps"(1) 2 "1.prems" by blast
    then show ?thesis
      unfolding replace_all_hit [OF 2] using sublist_stars [of p REDACTED] REDACTED_stars "1.prems" by blast
  next
    case 3
    have "\<not> sublist p (tl s) \<or> p = old"
      using "1.prems"(1) sublist_order.order.trans [OF _ sublist_drop [of 1 s], of p] by (simp only: drop_Suc One_nat_def drop0) argo
    then have "\<not> sublist p (replace_all old REDACTED (tl s))" using "1.hyps"(2) 3 "1.prems" by blast
    moreover have "\<not> prefix p (replace_all old REDACTED s)"
    proof
      assume "prefix p (replace_all old REDACTED s)"
      then have "prefix p s" using prefix_replaced "1.prems"(3) by blast
      then show False using "1.prems"(1) 3 by (auto simp: prefix_def)
    qed
    ultimately show ?thesis
      unfolding replace_all_miss [OF 3] by (simp add: sublist_Cons_right)
  qed
qed

lemma fold_replaced_free:
  "p \<noteq> [] \<Longrightarrow> CHR ''*'' \<notin> set p \<Longrightarrow> \<not> sublist p t \<or> p \<in> set ps \<Longrightarrow>
   \<not> sublist p (fold (\<lambda>secret t. replace_all secret REDACTED t) ps t)"
proof (induction ps arbitrary: t)
  case (Cons q ps)
  then show ?case using replaced_free [of p t q] Cons.IH [of "replace_all q REDACTED t"] by auto
qed simp

section \<open>Sending an application message\<close>

lemma pause_log: "pause l s = (s1, out) \<Longrightarrow> ss_log s1 = ss_log s \<and> (l \<longrightarrow> ss_store s1 = ss_store s)"
  using others_keep by (auto simp: pause_def split: list.splits)

definition undisturbed :: "fix_session \<Rightarrow> bool" where
  "undisturbed s \<longleftrightarrow> (\<forall>a \<in> set (ss_script s). an_others a = [])"

lemma pause_undisturbed: "pause l s = (s1, out) \<Longrightarrow> undisturbed s \<Longrightarrow> undisturbed s1 \<and> ss_store s1 = ss_store s"
  by (auto simp: pause_def undisturbed_def split: list.splits)

lemma wait_lock_log: "wait_lock s = (s1, r) \<Longrightarrow> ss_log s1 = ss_log s \<and> (undisturbed s \<longrightarrow> undisturbed s1 \<and> ss_store s1 = ss_store s)"
  by (auto simp: wait_lock_def Let_def dest: pause_log pause_undisturbed split: prod.splits outcome.splits)

lemma write_frame_tried:
  assumes "write_frame cfg f s = (s', r)" and "r = Inr () \<or> (\<exists>why. r = Inl (Disconnect why))"
  shows "ss_log s' = Wrote f # ss_log s \<and> ss_store s' = ss_store s"
proof (cases "frame_bytes cfg f")
  case (Inl e)
  then show ?thesis using assms by (auto simp: write_frame_def lift_codec_def bind_act_def raise_act_def)
next
  case (Inr b)
  obtain s1 out where p: "pause True (note_event (Wrote f) s) = (s1, out)" by fastforce
  from pause_log [OF p] show ?thesis
    using assms p Inr
    by (auto simp: write_frame_def lift_codec_def bind_act_def pure_act_def note_event_def Let_def split: outcome.splits)
qed

text \<open>The message as it is kept, and the frame first sent.\<close>

definition kept_message :: "nat \<Rightarrow> string \<Rightarrow> string \<Rightarrow> string \<Rightarrow> stored_message" where
  "kept_message n ty t body = \<lparr>sm_seq = n, sm_type = ty, sm_time = t, sm_body = body\<rparr>"

definition first_frame :: "stored_message \<Rightarrow> out_frame" where
  "first_frame r =
     \<lparr>of_seq = sm_seq r, of_type = sm_type r, of_body = sm_body r, of_dup = False, of_orig = None, of_time = sm_time r\<rparr>"

definition sent_and_kept :: "string \<Rightarrow> (int \<times> field_value) list \<Rightarrow> nat \<Rightarrow> fix_session \<Rightarrow> fix_session \<Rightarrow> bool" where
  "sent_and_kept ty fs n s s' \<longleftrightarrow>
     (\<exists>t body. encode_fields DATA_FIELDS fs = Inr body \<and>
        ms_messages (ss_store s') n = Some (kept_message n ty t body) \<and> n < ms_next_out (ss_store s') \<and>
        ss_log s' = Wrote (first_frame (kept_message n ty t body)) # ss_log s)"

lemma send_application_ok:
  assumes "send_application cfg ty fs s = (s', r)"
  shows "case r of
      Inr n \<Rightarrow> sent_and_kept ty fs n s s'
    | Inl (Ambiguous n) \<Rightarrow> sent_and_kept ty fs n s s'
    | Inl (OtherError _) \<Rightarrow> True
    | Inl _ \<Rightarrow> ss_log s' = ss_log s \<and> (undisturbed s \<longrightarrow> ss_store s' = ss_store s)"
proof (cases "encode_fields DATA_FIELDS fs")
  case (Inl e)
  then show ?thesis using assms by (auto simp: send_application_def)
next
  case body: (Inr body)
  obtain s1 w where lock: "wait_lock s = (s1, w)" by fastforce
  note k = wait_lock_log [OF lock]
  show ?thesis
  proof (cases w)
    case (Inl e)
    then show ?thesis using assms body lock by (auto simp: send_application_def)
  next
    case locked: (Inr u)
    show ?thesis
    proof (cases "require_ready s1")
      case (Inl e)
      then have "e = NotReady (ss_state s1) \<or> (\<exists>x. e = SessionDown x)" by (auto simp: require_ready_def split: option.splits if_splits)
      then show ?thesis using assms body lock locked Inl k by (auto simp: send_application_def)
    next
      case ready: (Inr v)
      have "\<exists>t. time_text s1 = Inr t"
        by (cases "date_of (nat (ss_now s1 div 1000) div 1000 div 60 div 60 div 24)")
          (simp add: time_text_def format_utc_timestamp_def Let_def)
      then obtain t where t: "time_text s1 = Inr t" by blast
      let ?m = "kept_message 0 ty t body"
      obtain s2 q where call: "store_call True [] (mem_allocate (Some ?m)) s1 = (s2, q)" by fastforce
      obtain s1' out where p: "pause True s1 = (s1', out)" by fastforce
      note kp = pause_log [OF p] pause_undisturbed [OF p]
      show ?thesis
      proof (cases q)
        case (Inl e)
        then show ?thesis
          using assms body lock locked ready t call kp k
          by (cases e) (auto simp: send_application_def kept_message_def store_call_def p Let_def split: outcome.splits if_splits prod.splits)
      next
        case (Inr n)
        then have st: "ss_store s2 = fst (mem_allocate (Some ?m) (ss_store s1))" "n = ms_next_out (ss_store s1)" "ss_log s2 = ss_log s"
          using call kp k by (auto simp: store_call_def p Let_def mem_allocate_def split: outcome.splits if_splits)
        let ?f = "first_frame (kept_message n ty t body)"
        obtain s3 x where w: "write_frame cfg ?f s2 = (s3, x)" by fastforce
        have r: "(s', r) = (case (s3, x) of (s3, Inl (Disconnect _)) \<Rightarrow> (s3, Inl (Ambiguous n)) | (s3, Inl e) \<Rightarrow> (s3, Inl (OtherError e))
            | (s3, Inr _) \<Rightarrow> (s3, Inr n))"
          using assms body lock locked ready t call Inr w
          by (simp add: send_application_def kept_message_def first_frame_def)
        have "sent_and_kept ty fs n s s3" if "x = Inr () \<or> (\<exists>why. x = Inl (Disconnect why))"
          using write_frame_tried [OF w that] st body
          by (auto simp: sent_and_kept_def mem_allocate_def Let_def kept_message_def)
        then show ?thesis using r by (cases x) (auto split: ending.splits)
      qed
    qed
  qed
qed

section \<open>Properties\<close>







end
