(* ===== verification/FixInbound.thy ===== *)
theory FixInbound
  imports FixSession
begin

text \<open>
  No inbound number is used up silently: every time the number the session expects next moves, each number
  passed over was an application message handled or reported, an administrative message, one the peer
  gap-filled, or reported as possibly lost. \<open>sound\<close> says this of a log, and the session keeps it on every
  schedule in which no store call is cut off after it took effect.
\<close>

section \<open>What a log accounts for\<close>

text \<open>The number expected next, and whether the last connection ended fully read, as stored last.\<close>

fun next_of :: "event list \<Rightarrow> nat" where
  "next_of [] = 1"
| "next_of (NextInStored n # es) = n"
| "next_of (NumbersReset # es) = 1"
| "next_of (_ # es) = next_of es"

fun complete_of :: "event list \<Rightarrow> bool" where
  "complete_of [] = False"
| "complete_of (CompleteStored b # es) = b"
| "complete_of (_ # es) = complete_of es"

text \<open>The events since the message being handled arrived, it included.\<close>

fun since_received :: "event list \<Rightarrow> event list" where
  "since_received [] = []"
| "since_received (Received m # es) = [Received m]"
| "since_received (e # es) = e # since_received es"

fun latest :: "event list \<Rightarrow> fix_message option" where
  "latest [] = None"
| "latest (Received m # es) = Some m"
| "latest (_ # es) = latest es"

definition is_gap_fill :: "fix_message \<Rightarrow> bool" where
  "is_gap_fill m \<longleftrightarrow> msg_type m = ''4'' \<and> get_field m 123 = Some ''Y''"

definition fills_number :: "fix_message \<Rightarrow> nat \<Rightarrow> bool" where
  "fills_number m k =
     (is_gap_fill m \<and> seq_of m \<le> k \<and> (case required_seq m 36 of Inl _ \<Rightarrow> False | Inr n \<Rightarrow> k < n))"

definition covered :: "event list \<Rightarrow> nat \<Rightarrow> bool" where
  "covered es k =
     list_ex (\<lambda>e. case e of
         Received m \<Rightarrow> (is_admin m \<and> seq_of m = k) \<or> fills_number m k
       | Delivered m \<Rightarrow> seq_of m = k
       | DiscardReported m \<Rightarrow> seq_of m = k
       | LossReported a b \<Rightarrow> a \<le> k \<and> (case b of None \<Rightarrow> True | Some b \<Rightarrow> k \<le> b)
       | _ \<Rightarrow> False) es"

text \<open>Before the numbers restart: nothing was read yet, all was read, or the application was told.\<close>

definition reset_known :: "event list \<Rightarrow> bool" where
  "reset_known es =
     (next_of es \<le> 1 \<or> complete_of es \<or> UnreadReported (next_of es) \<in> set (since_received es) \<or>
      LossReported (next_of es) None \<in> set (since_received es))"

fun sound :: "event list \<Rightarrow> bool" where
  "sound [] = True"
| "sound (NextInStored n # es) = (sound es \<and> (\<forall>k \<in> {next_of es ..< n}. covered (since_received es) k))"
| "sound (NumbersReset # es) = (sound es \<and> reset_known es)"
| "sound (_ # es) = sound es"

lemma sound_split: "sound (later @ es) \<Longrightarrow> sound es"
proof (induction later)
  case (Cons e later)
  then show ?case by (cases e) auto
qed simp

section \<open>Assertions about coroutines\<close>

definition triple :: "(fix_session \<Rightarrow> bool) \<Rightarrow> 'a act \<Rightarrow> ('a \<Rightarrow> fix_session \<Rightarrow> bool) \<Rightarrow> (fix_session \<Rightarrow> bool) \<Rightarrow> bool" where
  "triple P f Q E \<longleftrightarrow> (\<forall>s. P s \<longrightarrow> (case f s of (s', Inr x) \<Rightarrow> Q x s' | (s', Inl e) \<Rightarrow> E s'))"

lemma tripleD: "triple P f Q E \<Longrightarrow> P s \<Longrightarrow> (case f s of (s', Inr x) \<Rightarrow> Q x s' | (s', Inl e) \<Rightarrow> E s')"
  by (simp add: triple_def)

lemma triple_bind: "triple P f R E \<Longrightarrow> (\<And>x. triple (R x) (g x) Q E) \<Longrightarrow> triple P (bind_act f g) Q E"
  unfolding triple_def bind_act_def by (fastforce split: prod.splits sum.splits)

lemma triple_pure: "(\<And>s. P s \<Longrightarrow> Q x s) \<Longrightarrow> triple P (pure_act x) Q E"
  by (simp add: triple_def pure_act_def)

lemma triple_raise: "(\<And>s. P s \<Longrightarrow> E s) \<Longrightarrow> triple P (raise_act e) Q E"
  by (simp add: triple_def raise_act_def)

lemma triple_ask: "(\<And>s0. P s0 \<Longrightarrow> triple (\<lambda>s. P s \<and> s = s0) (f s0) Q E) \<Longrightarrow> triple P (ask f) Q E"
  by (fastforce simp: triple_def ask_def)

lemma triple_upd: "(\<And>s. P s \<Longrightarrow> Q () (f s)) \<Longrightarrow> triple P (upd f) Q E"
  by (simp add: triple_def upd_def)

lemma triple_weaken: "triple P f Q E \<Longrightarrow> (\<And>s. P' s \<Longrightarrow> P s) \<Longrightarrow> (\<And>x s. Q x s \<Longrightarrow> Q' x s) \<Longrightarrow> triple P' f Q' E"
  unfolding triple_def by (fastforce split: prod.splits sum.splits)

lemma triple_nil: "(\<And>s. P s \<Longrightarrow> Q () s) \<Longrightarrow> triple P (do_all []) Q E"
  by (simp add: triple_pure do_all.simps)

lemma triple_cons: "triple P f (\<lambda>_. R) E \<Longrightarrow> triple R (do_all fs) Q E \<Longrightarrow> triple P (do_all (f # fs)) Q E"
  by (simp add: triple_bind do_all.simps)

lemma triple_when: "(b \<Longrightarrow> triple P f Q E) \<Longrightarrow> (\<And>s. \<not> b \<Longrightarrow> P s \<Longrightarrow> Q () s) \<Longrightarrow> triple P (when_act b f) Q E"
  by (auto simp: when_act_def intro: triple_pure)

lemma triple_if: "(b \<Longrightarrow> triple P f Q E) \<Longrightarrow> (\<not> b \<Longrightarrow> triple P g Q E) \<Longrightarrow> triple P (if b then f else g) Q E"
  by simp

section \<open>Steps that leave the inbound numbers alone\<close>

definition idle_event :: "event \<Rightarrow> bool" where
  "idle_event e = (case e of Wrote _ \<Rightarrow> True | BecameReady \<Rightarrow> True | CompleteStored _ \<Rightarrow> True | _ \<Rightarrow> False)"

definition quiet :: "fix_session \<Rightarrow> fix_session \<Rightarrow> bool" where
  "quiet s s' \<longleftrightarrow>
     ss_next_in s' = ss_next_in s \<and> ms_next_in (ss_store s') = ms_next_in (ss_store s) \<and> ss_listener s' = ss_listener s \<and>
     (\<exists>k. ss_script s' = drop k (ss_script s)) \<and>
     (\<exists>es. ss_log s' = es @ ss_log s \<and> list_all idle_event es) \<and>
     (complete_of (ss_log s) = ms_complete (ss_store s) \<longrightarrow> complete_of (ss_log s') = ms_complete (ss_store s'))"

lemma quiet_refl [simp]: "quiet s s"
  by (auto simp: quiet_def intro: exI [of _ 0])

lemma quiet_trans:
  assumes "quiet s t" and "quiet t u"
  shows "quiet s u"
proof -
  obtain i es where 1: "ss_script t = drop i (ss_script s)" "ss_log t = es @ ss_log s" "list_all idle_event es"
    using assms(1) unfolding quiet_def by blast
  obtain j fs where 2: "ss_script u = drop j (ss_script t)" "ss_log u = fs @ ss_log t" "list_all idle_event fs"
    using assms(2) unfolding quiet_def by blast
  have "ss_script u = drop (i + j) (ss_script s)" "ss_log u = (fs @ es) @ ss_log s \<and> list_all idle_event (fs @ es)"
    using 1 2 by (simp_all add: add.commute)
  then show ?thesis using assms unfolding quiet_def by metis
qed

definition silent :: "'a act \<Rightarrow> bool" where
  "silent f \<longleftrightarrow> (\<forall>s. quiet s (fst (f s)))"

named_theorems silent_rules \<open>coroutines that leave the inbound numbers alone\<close>

lemma silentD: "silent f \<Longrightarrow> f s = (s', r) \<Longrightarrow> quiet s s'"
  unfolding silent_def by (metis fst_conv)

lemma silent_pure [silent_rules]: "silent (pure_act x)"
  by (simp add: silent_def pure_act_def)

lemma silent_raise [silent_rules]: "silent (raise_act e)"
  by (simp add: silent_def raise_act_def)

lemma silent_bind [silent_rules]: "silent f \<Longrightarrow> (\<And>x. silent (g x)) \<Longrightarrow> silent (bind_act f g)"
  unfolding silent_def bind_act_def
  by (auto split: prod.splits sum.splits) (metis fst_conv quiet_trans)+

lemma silent_ask [silent_rules]: "(\<And>s. silent (f s)) \<Longrightarrow> silent (ask f)"
  by (simp add: silent_def ask_def)

lemma silent_upd: "(\<And>s. quiet s (f s)) \<Longrightarrow> silent (upd f)"
  by (simp add: silent_def upd_def)

lemma silent_when [silent_rules]: "(b \<Longrightarrow> silent f) \<Longrightarrow> silent (when_act b f)"
  by (simp add: when_act_def silent_pure)

lemma silent_nil [silent_rules]: "silent (do_all [])"
  by (simp add: silent_pure do_all.simps)

lemma silent_cons [silent_rules]: "silent f \<Longrightarrow> silent (do_all fs) \<Longrightarrow> silent (do_all (f # fs))"
  by (simp add: silent_bind do_all.simps)

lemma silent_suppress [silent_rules]: "silent f \<Longrightarrow> silent (suppress f)"
  unfolding silent_def suppress_def by (auto split: prod.splits sum.splits ending.splits) (metis fst_conv)+

lemma silent_lift [silent_rules]: "silent (lift_codec r)"
  by (simp add: lift_codec_def silent_pure silent_raise split: sum.split)

text \<open>Fields a step may set without the numbers noticing.\<close>

lemma quiet_fields:
  assumes "ss_next_in s' = ss_next_in s" and "ms_next_in (ss_store s') = ms_next_in (ss_store s)"
    and "ms_complete (ss_store s') = ms_complete (ss_store s)" and "ss_listener s' = ss_listener s"
    and "ss_script s' = drop k (ss_script s)" and "ss_log s' = ss_log s"
  shows "quiet s s'"
  using assms by (auto simp: quiet_def)

lemma mem_allocate_keeps:
  "ms_next_in (fst (mem_allocate m st)) = ms_next_in st" "ms_complete (fst (mem_allocate m st)) = ms_complete st"
  by (simp_all add: mem_allocate_def Let_def split: option.split)

lemma quiet_other: "quiet s (other_step locked o' s)"
  by (auto simp: other_step_def mem_allocate_keeps split: other.split intro!: quiet_fields [where k = 0])

lemma quiet_others: "quiet s (fold (other_step locked) os s)"
  by (induction os arbitrary: s) (auto intro: quiet_trans quiet_other)

lemma quiet_pause: "quiet s (fst (pause locked s))"
proof (cases "ss_script s")
  case (Cons a rest)
  let ?t = "s\<lparr>ss_script := rest, ss_mono := ss_mono s + int (an_elapsed a), ss_now := ss_now s + an_wall a\<rparr>"
  have "quiet s ?t" by (rule quiet_fields [where k = 1]) (simp_all add: Cons)
  then show ?thesis using quiet_trans [OF _ quiet_others, of s ?t] by (simp add: pause_def Cons)
qed (simp add: pause_def)

lemma quiet_pauseD: "pause locked s = (s', out) \<Longrightarrow> quiet s s'"
  using quiet_pause by (metis fst_conv)

lemma silent_store_call [silent_rules]:
  assumes "\<And>st. ms_next_in (fst (f st)) = ms_next_in st"
    and "(\<forall>st. ms_complete (fst (f st)) = ms_complete st) \<and> evs = [] \<or> (\<exists>b. evs = [CompleteStored b] \<and> (\<forall>st. ms_complete (fst (f st)) = b))"
  shows "silent (store_call locked evs f)"
proof -
  have "quiet s (fst (store_call locked evs f s))" for s
  proof -
    obtain s1 out where p: "pause locked s = (s1, out)" by fastforce
    obtain st x where f: "f (ss_store s1) = (st, x)" by fastforce
    let ?a = "s1\<lparr>ss_store := st, ss_log := evs @ ss_log s1\<rparr>"
    have "ms_next_in st = ms_next_in (ss_store s1)" using assms(1) [of "ss_store s1"] f by simp
    moreover have "evs = [] \<and> ms_complete st = ms_complete (ss_store s1) \<or> (\<exists>b. evs = [CompleteStored b] \<and> ms_complete st = b)"
    proof -
      have f': "fst (f (ss_store s1)) = st" using f by simp
      show ?thesis unfolding f' [symmetric] using assms(2) by blast
    qed
    ultimately have "quiet s1 ?a" unfolding quiet_def
      by (auto simp: idle_event_def intro: exI [of _ 0])
    then have "quiet s ?a" using quiet_trans quiet_pauseD [OF p] by blast
    then show ?thesis using quiet_pauseD [OF p] by (auto simp: store_call_def p f Let_def split: outcome.split)
  qed
  then show ?thesis by (simp add: silent_def)
qed

lemma silent_wait_lock [silent_rules]: "silent wait_lock"
  by (auto simp: silent_def wait_lock_def split: prod.splits outcome.splits dest: quiet_pauseD)

lemma silent_write_frame [silent_rules]: "silent (write_frame cfg f)"
proof -
  have n: "quiet s (note_event (Wrote f) s)" for s
    by (auto simp: quiet_def note_event_def idle_event_def intro: exI [of _ 0] exI [of _ "[Wrote f]"])
  have u: "quiet s1 (s1\<lparr>ss_last_sent := ss_mono s1\<rparr>)" for s1 by (rule quiet_fields [where k = 0]) simp_all
  have w: "quiet s s1" if "pause True (note_event (Wrote f) s) = (s1, out)" for s s1 out
    using quiet_trans [OF n quiet_pauseD [OF that]] .
  have "silent (\<lambda>s. let (s1, out) = pause True (note_event (Wrote f) s)
       in case out of Done \<Rightarrow> (s1\<lparr>ss_last_sent := ss_mono s1\<rparr>, Inr ())
          | Raises _ \<Rightarrow> (s1, Inl (Disconnect ''write failed'')) | CutOff _ \<Rightarrow> (s1, Inl Cancelled))"
    using w by (auto simp: silent_def split: prod.splits outcome.splits intro: quiet_trans [OF _ u])
  then show ?thesis unfolding write_frame_def by (intro silent_bind silent_lift)
qed

lemma quiet_control:
  "quiet s (s\<lparr>ss_state := a, ss_deadline := b\<rparr>)" "quiet s (s\<lparr>ss_state := a\<rparr>)" "quiet s (s\<lparr>ss_deadline := b, ss_state := a\<rparr>)"
  by (rule quiet_fields [where k = 0], simp_all)+

lemma silent_send_admin_locked [silent_rules]: "silent (send_admin_locked cfg ty fs)"
  unfolding send_admin_locked_def by (intro silent_rules) (simp_all add: mem_allocate_keeps)

lemma silent_send_admin [silent_rules]: "silent (send_admin cfg ty fs)"
  unfolding send_admin_def by (intro silent_rules)

lemma silent_send_reject [silent_rules]: "silent (send_reject cfg n r t g)"
  unfolding send_reject_def by (rule silent_send_admin)

lemma silent_terminate [silent_rules]: "silent (terminate cfg t)"
  unfolding terminate_def by (intro silent_rules)

lemma silent_fail_too_low [silent_rules]: "silent (fail_too_low cfg a b)"
  unfolding fail_too_low_def Let_def by (intro silent_rules)

lemma silent_refused [silent_rules]: "silent (on_logon_refused cfg m)"
  unfolding on_logon_refused_def Let_def by (intro silent_rules)

lemma silent_begin_logout [silent_rules]: "silent (begin_logout cfg t)"
  unfolding begin_logout_def
  by (intro silent_rules silent_upd) (rule quiet_fields [where k = 0]; simp)

lemma silent_resend_request [silent_rules]: "silent (send_resend_request cfg)"
  unfolding send_resend_request_def
  by (intro silent_rules silent_upd) (rule quiet_fields [where k = 0]; simp)

lemma silent_sync_request [silent_rules]: "silent (send_sync_request cfg)"
  unfolding send_sync_request_def
  by (intro silent_rules silent_upd) (rule quiet_fields [where k = 0]; simp)

lemma silent_maybe_ready [silent_rules]: "silent maybe_ready"
proof -
  have "quiet s (note_event BecameReady (s\<lparr>ss_state := Ready\<rparr>))" for s
    by (auto simp: quiet_def note_event_def idle_event_def intro: exI [of _ 0] exI [of _ "[BecameReady]"])
  then show ?thesis unfolding maybe_ready_def by (intro silent_rules silent_upd)
qed

lemma silent_store_complete [silent_rules]: "silent (store_complete l b)"
  unfolding store_complete_def by (intro silent_rules) (simp_all add: mem_set_inbound_complete_def)

lemma silent_confirmed [silent_rules]: "silent (on_logon_confirmed cfg)"
  unfolding on_logon_confirmed_def by (intro silent_upd quiet_fields [where k = 0]) simp_all

lemma silent_after_logon [silent_rules]: "silent (after_logon cfg)"
  unfolding after_logon_def
  by (rule silent_rules)+ (auto split: option.split intro!: silent_rules silent_upd quiet_fields [where k = 0]
      simp: mem_set_reset_period_def)

lemma silent_write_resent [silent_rules]: "silent (write_resent cfg x)"
  unfolding write_resent_def by (cases x) (auto intro!: silent_rules)

lemma silent_resend_loop [silent_rules]: "silent (resend_loop cfg stored e gap seqs)"
proof (induction seqs arbitrary: gap)
  case Nil
  then show ?case by (cases gap) (auto intro!: silent_rules)
next
  case (Cons n seqs)
  show ?case
    unfolding resend_loop.simps
  proof (rule silent_bind)
    show "silent (case stored n of None \<Rightarrow> pure_act None
        | Some r \<Rightarrow> ask (\<lambda>s. bind_act (lift_codec (is_stale cfg s r)) (\<lambda>stale. pure_act (if stale then None else Some r))))"
      by (cases "stored n") (auto intro!: silent_rules)
    show "silent (case kept of None \<Rightarrow> resend_loop cfg stored e (if gap = None then Some n else gap) seqs
        | Some r \<Rightarrow> do_all [case gap of None \<Rightarrow> pure_act () | Some g \<Rightarrow> write_resent cfg (Gap g n), write_resent cfg (Again r),
            resend_loop cfg stored e None seqs])" for kept
      by (cases kept; cases gap) (auto intro!: silent_rules Cons.IH)
  qed
qed

lemma silent_resend [silent_rules]: "silent (resend cfg a b)"
proof -
  have "quiet s (if ss_state s = Syncing then s\<lparr>ss_deadline := Some (ss_mono s + fc_logon_timeout cfg)\<rparr> else s)" for s
    by (auto intro: quiet_fields [where k = 0])
  then show ?thesis
    unfolding resend_def Let_def
    by (intro silent_rules) (auto intro!: silent_rules silent_upd)
qed

lemma silent_on_resend_request [silent_rules]: "silent (on_resend_request cfg m n)"
  unfolding on_resend_request_def Let_def by (auto split: sum.split intro!: silent_rules)

lemma silent_on_gap [silent_rules]: "silent (on_gap cfg m n)"
  unfolding on_gap_def Let_def
  by (intro silent_rules) (auto intro!: silent_rules silent_upd quiet_fields [where k = 0])

section \<open>What stays true while a message is handled\<close>

definition uncut :: "fix_session \<Rightarrow> bool" where
  "uncut s \<longleftrightarrow> (\<forall>a \<in> set (ss_script s). an_outcome a \<noteq> CutOff True)"

definition good :: "fix_session \<Rightarrow> bool" where
  "good s \<longleftrightarrow>
     sound (ss_log s) \<and> next_of (ss_log s) = ms_next_in (ss_store s) \<and> ss_next_in s = ms_next_in (ss_store s) \<and>
     complete_of (ss_log s) = ms_complete (ss_store s) \<and> 1 \<le> ss_next_in s \<and> ss_listener s \<and> uncut s"

text \<open>Besides, the message being handled, the number expected, and what was logged for the message.\<close>

definition handling :: "fix_message option \<Rightarrow> nat \<Rightarrow> event set \<Rightarrow> fix_session \<Rightarrow> bool" where
  "handling m n X s \<longleftrightarrow> good s \<and> latest (ss_log s) = m \<and> ss_next_in s = n \<and> X \<subseteq> set (since_received (ss_log s))"

lemma handling_good: "handling m n X s \<Longrightarrow> good s"
  by (simp add: handling_def)

lemma handling_subset: "handling m n X s \<Longrightarrow> Y \<subseteq> X \<Longrightarrow> handling m n Y s"
  by (auto simp: handling_def)

lemma idle_log:
  "list_all idle_event es \<Longrightarrow> next_of (es @ lg) = next_of lg \<and> sound (es @ lg) = sound lg \<and>
     latest (es @ lg) = latest lg \<and> set (since_received lg) \<subseteq> set (since_received (es @ lg))"
proof (induction es)
  case (Cons e es)
  then show ?case by (cases e) (auto simp: idle_event_def)
qed simp

lemma quiet_uncut: "quiet s s' \<Longrightarrow> uncut s \<Longrightarrow> uncut s'"
  unfolding quiet_def uncut_def by (metis in_set_dropD)

lemma quiet_handling:
  assumes "quiet s s'" and "handling m n X s"
  shows "handling m n X s'"
proof -
  obtain es where es: "ss_log s' = es @ ss_log s" "list_all idle_event es" using assms(1) by (auto simp: quiet_def)
  show ?thesis
    using assms quiet_uncut [OF assms(1)] idle_log [OF es(2), of "ss_log s"]
    by (auto simp: handling_def good_def quiet_def es(1))
qed

lemma silent_triple: "silent f \<Longrightarrow> triple (handling m n X) f (\<lambda>_. handling m n X) good"
  unfolding triple_def
  by (auto split: prod.splits sum.splits dest!: silentD intro: quiet_handling handling_good)

lemma handling_mono: "X \<subseteq> Y \<Longrightarrow> handling m n Y s \<Longrightarrow> handling m n X s"
  by (auto simp: handling_def)

lemma pause_handling: "pause locked s = (s1, out) \<Longrightarrow> handling m n X s \<Longrightarrow> handling m n X s1"
  using quiet_handling [OF quiet_pauseD] by blast

lemma pause_uncut: "pause locked s = (s1, out) \<Longrightarrow> uncut s \<Longrightarrow> out \<noteq> CutOff True"
  by (auto simp: pause_def uncut_def split: list.splits)

text \<open>What the listener was told is on the log.\<close>

definition told :: "event \<Rightarrow> bool" where
  "told e = (case e of
       Delivered _ \<Rightarrow> True | DiscardReported _ \<Rightarrow> True | LossReported _ _ \<Rightarrow> True | UnreadReported _ \<Rightarrow> True
     | RejectSeen _ \<Rightarrow> True | _ \<Rightarrow> False)"

lemma note_handling:
  "told e \<Longrightarrow> handling m n X s \<Longrightarrow> handling m n (insert e X) (note_event e s)"
  by (cases e) (auto simp: told_def handling_def good_def note_event_def uncut_def)

lemma triple_listener:
  assumes "told e"
  shows "triple (handling m n X) (listener_call l e) (\<lambda>_. handling m n (insert e X)) good"
  unfolding triple_def listener_call_def
  by (auto split: prod.splits outcome.splits dest!: pause_handling simp: note_handling [OF assms] handling_good)

text \<open>The expected number moves: stored, then remembered.\<close>

definition accounted :: "fix_message option \<Rightarrow> event set \<Rightarrow> nat \<Rightarrow> bool" where
  "accounted m X k =
     ((case m of None \<Rightarrow> False | Some m \<Rightarrow> (is_admin m \<and> seq_of m = k) \<or> fills_number m k) \<or>
      (\<exists>e \<in> X. (\<exists>m. e = Delivered m \<and> seq_of m = k) \<or> (\<exists>m. e = DiscardReported m \<and> seq_of m = k) \<or>
         (\<exists>a b. e = LossReported a (Some b) \<and> a \<le> k \<and> k \<le> b)))"

lemma latest_in: "latest lg = Some m \<Longrightarrow> Received m \<in> set (since_received lg)"
  by (induction lg rule: latest.induct) auto

lemma accounted_covered:
  assumes "accounted m X k" and "latest lg = m" and "X \<subseteq> set (since_received lg)"
  shows "covered (since_received lg) k"
  using assms latest_in [of lg] unfolding accounted_def covered_def list_ex_iff
  by (force split: option.splits)

lemma triple_store_next:
  assumes "1 \<le> k" and "\<And>j. n \<le> j \<Longrightarrow> j < k \<Longrightarrow> accounted m X j"
    and q: "\<And>s. quiet s (f s)" and rest: "triple (handling m k X) (do_all fs) Q good"
  shows "triple (handling m n X) (do_all (store_call l [NextInStored k] (\<lambda>st. (mem_set_next_inbound k st, ())) #
      upd (\<lambda>s. f (s\<lparr>ss_next_in := k\<rparr>)) # fs)) Q good"
proof -
  have "case store_call l [NextInStored k] (\<lambda>st. (mem_set_next_inbound k st, ())) s of
      (s', Inr _) \<Rightarrow> handling m k X (f (s'\<lparr>ss_next_in := k\<rparr>)) | (s', Inl _) \<Rightarrow> good s'" if h: "handling m n X s" for s
  proof -
    obtain s1 out where p: "pause l s = (s1, out)" by fastforce
    have h1: "handling m n X s1" by (rule pause_handling [OF p h])
    have o: "out \<noteq> CutOff True" using pause_uncut [OF p] h by (simp add: handling_def good_def)
    let ?s = "s1\<lparr>ss_store := mem_set_next_inbound k (ss_store s1), ss_log := NextInStored k # ss_log s1, ss_next_in := k\<rparr>"
    have "covered (since_received (ss_log s1)) j" if "n \<le> j" "j < k" for j
      using accounted_covered [OF assms(2) [OF that]] h1 by (simp add: handling_def)
    then have "handling m k X ?s"
      using h1 assms(1) by (auto simp: handling_def good_def uncut_def mem_set_next_inbound_def)
    then have "handling m k X (f ?s)" by (rule quiet_handling [OF q])
    then show ?thesis using o handling_good [OF h1] by (auto simp: store_call_def p Let_def split: outcome.split)
  qed
  then show ?thesis
    using rest unfolding triple_def do_all.simps bind_act_def upd_def by (fastforce split: prod.splits sum.splits)
qed

lemma quiet_catch_up: "quiet s (catch_up cfg s)"
  by (auto simp: catch_up_def intro!: quiet_fields [where k = 0])

lemma triple_advance:
  assumes "\<And>s. handling m n X s \<Longrightarrow> 1 \<le> (case to of None \<Rightarrow> n + 1 | Some k \<Rightarrow> k)"
    and "\<And>j. n \<le> j \<Longrightarrow> j < (case to of None \<Rightarrow> n + 1 | Some k \<Rightarrow> k) \<Longrightarrow> accounted m X j"
  shows "triple (handling m n X) (advance cfg l to) (\<lambda>_. handling m (case to of None \<Rightarrow> n + 1 | Some k \<Rightarrow> k) X) good"
proof -
  let ?k = "case to of None \<Rightarrow> n + 1 | Some k \<Rightarrow> k"
  have s: "silent (do_all [ask (\<lambda>s. when_act (gap_closed s)
              (do_all [upd (\<lambda>s. s\<lparr>ss_target := None, ss_resends := 0\<rparr>),
                  when_act (ss_state s = Syncing \<and> \<not> ss_synced s) (send_sync_request cfg)])), maybe_ready])"
    by (intro silent_rules silent_upd) (rule quiet_fields [where k = 0]; simp)
  show ?thesis
    unfolding advance_def
  proof (rule triple_bind [where R = "\<lambda>k s. k = ?k \<and> handling m n X s"])
    show "triple (handling m n X) (ask (\<lambda>s. pure_act (case to of None \<Rightarrow> ss_next_in s + 1 | Some n \<Rightarrow> n)))
        (\<lambda>k s. k = ?k \<and> handling m n X s) good"
      by (auto simp: triple_def ask_def pure_act_def handling_def split: option.split)
    fix k
    show "triple (\<lambda>s. k = ?k \<and> handling m n X s)
        (do_all [store_call l [NextInStored k] (\<lambda>st. (mem_set_next_inbound k st, ())), upd (\<lambda>s. catch_up cfg (s\<lparr>ss_next_in := k\<rparr>)),
          ask (\<lambda>s. when_act (gap_closed s)
              (do_all [upd (\<lambda>s. s\<lparr>ss_target := None, ss_resends := 0\<rparr>),
                  when_act (ss_state s = Syncing \<and> \<not> ss_synced s) (send_sync_request cfg)])), maybe_ready])
        (\<lambda>_. handling m ?k X) good"
    proof (cases "k = ?k \<and> (\<exists>s. handling m n X s)")
      case True
      have "triple (handling m n X) (do_all (store_call l [NextInStored k] (\<lambda>st. (mem_set_next_inbound k st, ())) #
          upd (\<lambda>s. catch_up cfg (s\<lparr>ss_next_in := k\<rparr>)) # [ask (\<lambda>s. when_act (gap_closed s)
              (do_all [upd (\<lambda>s. s\<lparr>ss_target := None, ss_resends := 0\<rparr>),
                  when_act (ss_state s = Syncing \<and> \<not> ss_synced s) (send_sync_request cfg)])), maybe_ready]))
          (\<lambda>_. handling m k X) good"
        using True assms by (intro triple_store_next quiet_catch_up silent_triple [OF s]) auto
      then show ?thesis using True by (auto simp: triple_def)
    qed (auto simp: triple_def)
  qed
qed

lemma triple_step:
  "accounted m X n \<Longrightarrow> triple (handling m n X) (step_on cfg) (\<lambda>_. handling m (n + 1) X) good"
  unfolding step_on_def using triple_advance [of m n X None cfg False] by (auto simp: less_Suc_eq_le dest: le_antisym)

lemma triple_to:
  "1 \<le> k \<Longrightarrow> (\<And>j. n \<le> j \<Longrightarrow> j < k \<Longrightarrow> accounted m X j) \<Longrightarrow>
   triple (handling m n X) (advance cfg l (Some k)) (\<lambda>_. handling m k X) good"
  using triple_advance [of m n X "Some k" cfg l] by simp

lemma triple_handled: "triple P f (\<lambda>_. handling m n X) E \<Longrightarrow> triple P f (\<lambda>_. good) E"
  by (erule triple_weaken) (auto simp: handling_good)

lemma triple_silent: "silent f \<Longrightarrow> triple (handling m n X) f (\<lambda>_. good) good"
  by (rule triple_handled [OF silent_triple])

lemma triple_pre: "triple P f Q E \<Longrightarrow> triple (\<lambda>s. P s \<and> s = s0) f Q E"
  by (simp add: triple_def)

lemma triple_false: "(\<And>s. \<not> P s) \<Longrightarrow> triple P f Q E"
  by (simp add: triple_def)

section \<open>The handlers\<close>

text \<open>A message that is refused: an application message at the expected number is reported first.\<close>

lemma triple_discard:
  "triple (handling (Some m) n X) (discard m q)
     (\<lambda>_. handling (Some m) n (if q = n \<and> \<not> is_admin m then insert (DiscardReported m) X else X)) good"
proof (unfold discard_def, rule triple_ask)
  fix s0 assume h: "handling (Some m) n X s0"
  then have l: "ss_listener s0" "ss_next_in s0 = n" by (simp_all add: handling_def good_def)
  show "triple (\<lambda>s. handling (Some m) n X s \<and> s = s0)
      (when_act (ss_listener s0 \<and> q = ss_next_in s0 \<and> \<not> is_admin m) (listener_call False (DiscardReported m)))
      (\<lambda>_. handling (Some m) n (if q = n \<and> \<not> is_admin m then insert (DiscardReported m) X else X)) good"
  proof (rule triple_when)
    assume "ss_listener s0 \<and> q = ss_next_in s0 \<and> \<not> is_admin m"
    then show "triple (\<lambda>s. handling (Some m) n X s \<and> s = s0) (listener_call False (DiscardReported m))
        (\<lambda>_. handling (Some m) n (if q = n \<and> \<not> is_admin m then insert (DiscardReported m) X else X)) good"
      using triple_listener [of "DiscardReported m" "Some m" n X False] l
      by (auto simp: told_def elim: triple_weaken)
  qed (use l in auto)
qed

lemma accounted_by:
  "is_admin m \<Longrightarrow> accounted (Some m) X (seq_of m)"
  "Delivered m \<in> X \<Longrightarrow> accounted (Some m) X (seq_of m)"
  "DiscardReported m \<in> X \<Longrightarrow> accounted (Some m) X (seq_of m)"
  "fills_number m k \<Longrightarrow> accounted (Some m) X k"
  "LossReported a (Some b) \<in> X \<Longrightarrow> a \<le> k \<Longrightarrow> k \<le> b \<Longrightarrow> accounted l X k"
  by (auto simp: accounted_def)

lemma triple_refuse:
  assumes "b \<Longrightarrow> seq_of m = n"
  shows "triple (handling (Some m) n X) (do_all [discard m (seq_of m), send_reject cfg q r t g, when_act b (step_on cfg)]) (\<lambda>_. good) good"
proof -
  let ?X = "if seq_of m = n \<and> \<not> is_admin m then insert (DiscardReported m) X else X"
  have a: "accounted (Some m) ?X n" if b
  proof (cases "is_admin m")
    case True
    then show ?thesis using accounted_by(1) [OF True, of ?X] assms [OF that] by simp
  next
    case False
    then show ?thesis using accounted_by(3) [of m ?X] assms [OF that] by simp
  qed
  have "triple (handling (Some m) n ?X) (when_act b (step_on cfg)) (\<lambda>_. good) good"
  proof (rule triple_when)
    assume b
    show "triple (handling (Some m) n ?X) (step_on cfg) (\<lambda>_. good) good"
      by (rule triple_handled [OF triple_step [OF a [OF \<open>b\<close>]]])
  qed (rule handling_good)
  then show ?thesis
    by (intro triple_cons [OF triple_discard] triple_cons [OF silent_triple [OF silent_send_reject]])
      (auto intro: triple_cons triple_nil)
qed

lemma triple_refuse_then:
  assumes "b \<Longrightarrow> seq_of m = n" and "\<And>s. good s \<Longrightarrow> Q x s"
  shows "triple (handling (Some m) n X)
    (bind_act (do_all [discard m (seq_of m), send_reject cfg q r t g, when_act b (step_on cfg)]) (\<lambda>_. pure_act x)) Q good"
  by (rule triple_bind [OF triple_refuse]) (auto intro: triple_pure assms)

lemma good_silent: "silent f \<Longrightarrow> triple good f (\<lambda>_. good) good"
  unfolding triple_def
  by (auto split: prod.splits sum.splits dest!: silentD) (metis (no_types) handling_def handling_good quiet_handling empty_subsetI)+

lemma triple_terminate: "triple good (terminate cfg t) Q good"
proof -
  have "triple good (suppress (send_admin cfg ''5'' [(58, say t)])) (\<lambda>_. good) good"
    by (rule good_silent) (intro silent_rules)
  then show ?thesis unfolding terminate_def by (rule triple_bind) (auto intro: triple_raise)
qed

lemma triple_refuse_end:
  assumes "b \<Longrightarrow> seq_of m = n"
  shows "triple (handling (Some m) n X)
    (bind_act (do_all [discard m (seq_of m), send_reject cfg q r t g, when_act b (step_on cfg)]) (\<lambda>_. terminate cfg u)) Q good"
  by (rule triple_bind [OF triple_refuse [OF assms]]) (auto intro: triple_terminate)

lemma triple_sending_time:
  "triple (handling (Some m) n X) (check_sending_time cfg m (seq_of m) n)
     (\<lambda>t s. case t of None \<Rightarrow> good s | Some _ \<Rightarrow> handling (Some m) n X s) good"
proof (cases "get_field m 52")
  case None
  show ?thesis unfolding check_sending_time_def None option.case by (rule triple_refuse_then) simp_all
next
  case (Some raw)
  let ?stop = "bind_act (do_all [discard m (seq_of m), send_reject cfg (seq_of m) REJECT_SENDING_TIME ''SendingTime accuracy problem'' (Some 52),
      when_act (seq_of m = n) (step_on cfg)]) (\<lambda>_. terminate cfg ''SendingTime accuracy problem'')"
  have e: "triple (\<lambda>s. handling (Some m) n X s \<and> s = s0) ?stop Q good" for s0 Q
    by (rule triple_pre [OF triple_refuse_end]) simp
  have p: "triple (\<lambda>s. handling (Some m) n X s \<and> s = s0) (pure_act (Some t))
      (\<lambda>t s. case t of None \<Rightarrow> good s | Some _ \<Rightarrow> handling (Some m) n X s) good" for s0 t
    by (rule triple_pure) simp
  show ?thesis
    unfolding check_sending_time_def Some option.case Let_def
    by (rule triple_ask, cases "parse_utc_timestamp raw 52") (simp_all add: e p)
qed

lemma triple_orig_sending_time:
  assumes "adv \<Longrightarrow> seq_of m = n"
  shows "triple (handling (Some m) n X) (check_orig_sending_time cfg m (seq_of m) t adv)
     (\<lambda>b s. if b then handling (Some m) n X s else good s) good"
  unfolding check_orig_sending_time_def
  using assms
  by (cases "get_field m 122"; cases "parse_utc_timestamp (the (get_field m 122)) 122")
    (auto intro!: triple_refuse_then triple_pure intro: triple_refuse_end)

lemma triple_gap_fill:
  assumes "seq_of m = n" and "is_admin m" and "is_gap_fill m"
  shows "triple (handling (Some m) n X) (on_gap_fill cfg m (seq_of m)) (\<lambda>_. good) good"
proof (cases "required_seq m 36")
  case (Inl e)
  have "accounted (Some m) X n" using accounted_by(1) [OF assms(2)] assms(1) by simp
  then show ?thesis
    unfolding on_gap_fill_def Inl sum.case
    by (intro triple_cons [OF silent_triple [OF silent_send_reject]] triple_cons [OF triple_handled [OF triple_step]])
      (auto intro: triple_nil)
next
  case (Inr k)
  show ?thesis
  proof (cases "k \<le> seq_of m")
    case True
    then show ?thesis unfolding on_gap_fill_def Inr sum.case by (simp add: triple_silent silent_send_reject)
  next
    case False
    have "triple (handling (Some m) n X) (advance cfg False (Some k)) (\<lambda>_. handling (Some m) k X) good"
      by (rule triple_to) (use False assms Inr in \<open>auto intro!: accounted_by(4) simp: fills_number_def\<close>)
    then show ?thesis unfolding on_gap_fill_def Inr sum.case using False by (simp add: triple_handled)
  qed
qed

lemma triple_reset_reset: "triple (handling (Some m) n X) (on_sequence_reset_reset cfg m q) (\<lambda>_. good) good"
proof (cases "required_seq m 36")
  case (Inl e)
  then show ?thesis unfolding on_sequence_reset_reset_def by (simp add: triple_silent silent_send_reject)
next
  case (Inr k)
  have g: "triple (handling (Some m) n X)
      (do_all [when_act True (listener_call False (LossReported n (Some (k - 1)))), advance cfg False (Some k)]) (\<lambda>_. good) good"
    if "n < k"
  proof (intro triple_cons)
    show "triple (handling (Some m) n X) (when_act True (listener_call False (LossReported n (Some (k - 1)))))
        (\<lambda>_. handling (Some m) n (insert (LossReported n (Some (k - 1))) X)) good"
      by (rule triple_when) (auto intro: triple_listener simp: told_def)
    show "triple (handling (Some m) n (insert (LossReported n (Some (k - 1))) X)) (advance cfg False (Some k)) (\<lambda>_. good) good"
      using that by (intro triple_handled [OF triple_to]) (auto intro: accounted_by(5))
  qed (rule triple_nil)
  show ?thesis
    unfolding on_sequence_reset_reset_def Inr sum.case
  proof (rule triple_ask)
    fix s0 assume h: "handling (Some m) n X s0"
    then have n: "ss_next_in s0 = n" "ss_listener s0" by (simp_all add: handling_def good_def)
    show "triple (\<lambda>s. handling (Some m) n X s \<and> s = s0)
       (if k < ss_next_in s0 then send_reject cfg q REJECT_VALUE_INCORRECT (lowered_text k) (Some 36)
        else if k = ss_next_in s0 then pure_act ()
        else do_all [when_act (ss_listener s0) (listener_call False (LossReported (ss_next_in s0) (Some (k - 1)))),
                     advance cfg False (Some k)]) (\<lambda>_. good) good"
      by (rule triple_pre) (simp add: n triple_silent silent_send_reject silent_pure g [simplified])
  qed
qed

lemma listener_result:
  assumes "told e" and "listener_call l e s = (s', r)" and "handling m n X s"
  shows "handling m n (if is_ok r then insert e X else X) s'"
  using assms by (auto simp: listener_call_def note_handling split: prod.splits outcome.splits dest!: pause_handling)

lemma silentH: "silent f \<Longrightarrow> handling m n X s \<Longrightarrow> handling m n X (fst (f s))"
  unfolding silent_def by (rule quiet_handling) blast+

lemma triple_deliver:
  assumes "seq_of m = n"
  shows "triple (handling (Some m) n X) (deliver cfg m (seq_of m)) (\<lambda>_. good) good"
proof -
  let ?X = "insert (Delivered m) X"
  let ?call = "\<lambda>s. case listener_call False (Delivered m) s of
                  (s', Inr _) \<Rightarrow>
                    (case fm_defect m of
                       None \<Rightarrow> (s', Inr ())
                     | Some d \<Rightarrow> send_reject cfg (seq_of m) (fd_reason d) (fd_text d) (fd_tag d) s')
                | (s', Inl (AppReject reason text tag)) \<Rightarrow> send_reject cfg (seq_of m) reason text tag (note_event (Delivered m) s')
                | (s', Inl Internal) \<Rightarrow> (s', Inl (Disconnect ''application handler failed''))
                | (s', Inl e) \<Rightarrow> (s', Inl e)"
  have told: "told (Delivered m)" by (simp add: told_def)
  have r: "case send_reject cfg q a b c s of (s', Inr x) \<Rightarrow> handling (Some m) n Y s' | (s', Inl e) \<Rightarrow> good s'"
    if "handling (Some m) n Y s" for q a b c s Y
    using silent_triple [OF silent_send_reject [of cfg q a b c], of "Some m" n Y] that unfolding triple_def by simp
  have "triple (handling (Some m) n X) ?call (\<lambda>_. handling (Some m) n ?X) good"
    unfolding triple_def
  proof (intro allI impI)
    fix s assume h: "handling (Some m) n X s"
    obtain s' r where c: "listener_call False (Delivered m) s = (s', r)" by fastforce
    note l = listener_result [OF told c h]
    show "case ?call s of (s', Inr x) \<Rightarrow> handling (Some m) n ?X s' | (s', Inl e) \<Rightarrow> good s'"
    proof (cases r)
      case (Inl e)
      then show ?thesis
        using l r [OF note_handling [OF told, of "Some m" n X s']] by (cases e) (auto simp: c dest: handling_good)
    next
      case (Inr u)
      then show ?thesis using l r [of ?X s'] by (cases "fm_defect m") (auto simp: c)
    qed
  qed
  moreover have "accounted (Some m) ?X n" using accounted_by(2) [of m ?X] assms by simp
  then have "triple (handling (Some m) n ?X) (step_on cfg) (\<lambda>_. good) good" by (rule triple_handled [OF triple_step])
  then have "triple (handling (Some m) n ?X) (do_all [step_on cfg]) (\<lambda>_. good) good"
    by (rule triple_cons) (simp add: triple_nil)
  ultimately have d: "triple (handling (Some m) n X) (do_all [?call, step_on cfg]) (\<lambda>_. good) good"
    by (rule triple_cons)
  show ?thesis
    unfolding deliver_def
  proof (rule triple_ask)
    fix s0 assume "handling (Some m) n X s0"
    then have "ss_listener s0" by (simp add: handling_def good_def)
    then show "triple (\<lambda>s. handling (Some m) n X s \<and> s = s0)
        (if \<not> ss_listener s0 then step_on cfg else do_all [?call, step_on cfg]) (\<lambda>_. good) good"
      using triple_pre [OF d] by simp
  qed
qed

lemma triple_silent_then:
  "silent f \<Longrightarrow> triple (handling m n X) (do_all fs) Q good \<Longrightarrow> triple (handling m n X) (do_all (f # fs)) Q good"
  by (rule triple_cons [OF silent_triple])

lemma triple_step_then:
  assumes "accounted m X n" and "triple (handling m (n + 1) X) (do_all fs) Q good"
  shows "triple (handling m n X) (do_all (step_on cfg # fs)) Q good"
  by (rule triple_cons [OF triple_step [OF assms(1)] assms(2)])

lemma triple_done: "triple (handling m n X) (do_all []) (\<lambda>_. good) good"
  by (rule triple_nil) (rule handling_good)

lemma triple_admin:
  assumes "seq_of m = n" and "is_admin m" and "msg_type m = ''4'' \<Longrightarrow> is_gap_fill m"
  shows "triple (handling (Some m) n X) (on_admin cfg m (seq_of m) dup) (\<lambda>_. good) good"
proof -
  have a: "accounted (Some m) X n" for X using accounted_by(1) [OF assms(2)] assms(1) by simp
  have step: "triple (handling (Some m) n X) (step_on cfg) (\<lambda>_. good) good" for X
    by (rule triple_handled [OF triple_step [OF a]])
  have ended: "triple (handling (Some m) n X) (do_all [step_on cfg]) (\<lambda>_. good) good" for X
    by (rule triple_step_then [OF a triple_done])
  have reject: "triple (\<lambda>s. handling (Some m) n X s \<and> s = s0)
      (do_all [when_act (ss_listener s0) (listener_call False (RejectSeen m)), step_on cfg]) (\<lambda>_. good) good" for s0
  proof (rule triple_pre, rule triple_cons [OF _ ended])
    show "triple (handling (Some m) n X) (when_act (ss_listener s0) (listener_call False (RejectSeen m))) (\<lambda>_. handling (Some m) n X) good"
      by (rule triple_when)
        (auto intro!: triple_weaken [OF triple_listener [of "RejectSeen m" "Some m" n X False]] simp: told_def elim: handling_mono [rotated])
  qed
  have logon: "triple (\<lambda>s. handling (Some m) n X s \<and> s = s0)
      (if ss_state s0 = LogonSent then do_all [on_logon_confirmed cfg, step_on cfg, after_logon cfg] else step_on cfg) (\<lambda>_. good) good" for s0
    by (rule triple_pre) (auto intro!: triple_silent_then silent_rules triple_step_then a triple_done step)
  have beat: "triple (handling (Some m) n X) (on_heartbeat cfg m) (\<lambda>_. good) good"
    unfolding on_heartbeat_def
    by (intro triple_silent_then ended silent_upd) (auto intro!: quiet_fields [where k = 0] split: option.split)
  have test: "triple (handling (Some m) n X) (on_test_request cfg m (seq_of m)) (\<lambda>_. good) good"
    unfolding on_test_request_def
    by (intro triple_silent_then ended) (auto intro!: silent_rules split: option.split)
  show ?thesis
    unfolding on_admin_def Let_def
    by (auto intro!: triple_gap_fill [OF assms(1,2)] assms(3) triple_ask reject logon beat test step triple_when triple_silent_then
        triple_step_then triple_done silent_rules a handling_good)
qed

lemma triple_in_order:
  assumes "seq_of m = n" and "is_admin m \<Longrightarrow> msg_type m = ''4'' \<Longrightarrow> is_gap_fill m"
  shows "triple (handling (Some m) n X) (handle_in_order cfg m (seq_of m) t) (\<lambda>_. good) good"
  unfolding handle_in_order_def
proof (rule triple_bind [where R = "\<lambda>b s. if b then handling (Some m) n X s else good s"])
  show "triple (handling (Some m) n X)
      (if poss_dup m \<and> msg_type m \<noteq> ''4'' then check_orig_sending_time cfg m (seq_of m) t True else pure_act True)
      (\<lambda>b s. if b then handling (Some m) n X s else good s) good"
    using triple_orig_sending_time [of True m n X cfg t] assms(1) by (auto intro: triple_pure)
  have "triple (handling (Some m) n X)
      (do_all [send_reject cfg (seq_of m) (fd_reason d) (fd_text d) (fd_tag d), step_on cfg]) (\<lambda>_. good) good" if "is_admin m" for d
    using accounted_by(1) [OF that, of X] assms(1)
    by (intro triple_silent_then silent_rules triple_step_then triple_done) simp
  moreover have "triple (handling (Some m) n X) (on_admin cfg m (seq_of m) (poss_dup m)) (\<lambda>_. good) good" if "is_admin m"
    using assms that by (intro triple_admin)
  moreover have "triple (handling (Some m) n X) (deliver cfg m (seq_of m)) (\<lambda>_. good) good"
    using assms(1) by (rule triple_deliver)
  ultimately show "triple (\<lambda>s. if good' then handling (Some m) n X s else good s)
      (if \<not> good' then pure_act ()
       else if is_admin m
       then (case fm_defect m of
               Some d \<Rightarrow> do_all [send_reject cfg (seq_of m) (fd_reason d) (fd_text d) (fd_tag d), step_on cfg]
             | None \<Rightarrow> on_admin cfg m (seq_of m) (poss_dup m))
       else deliver cfg m (seq_of m)) (\<lambda>_. good) good" for good'
    by (cases good') (auto intro: triple_pure split: option.split)
qed

section \<open>Restarting the numbers\<close>

lemma pause_complete: "ms_complete (ss_store (fst (pause l s))) = ms_complete (ss_store s)"
proof -
  have "ms_complete (ss_store (fold (other_step l) os s)) = ms_complete (ss_store s)" for os s
    by (induction os arbitrary: s) (auto simp: other_step_def mem_allocate_keeps split: other.split)
  then show ?thesis by (simp add: pause_def split: list.split)
qed

text \<open>The reset is no loss that nobody knows of.\<close>

definition told_reset :: "nat \<Rightarrow> fix_session \<Rightarrow> bool" where
  "told_reset n s \<longleftrightarrow>
     n \<le> 1 \<or> ms_complete (ss_store s) \<or> UnreadReported n \<in> set (since_received (ss_log s)) \<or>
     LossReported n None \<in> set (since_received (ss_log s))"

lemma since_received_grows: "list_all idle_event es \<Longrightarrow> set (since_received lg) \<subseteq> set (since_received (es @ lg))"
  using idle_log by blast

lemma pause_told: "pause l s = (s1, out) \<Longrightarrow> told_reset n s \<Longrightarrow> told_reset n s1"
  using quiet_pauseD [of l s s1 out] pause_complete [of l s] since_received_grows
  unfolding told_reset_def quiet_def by (metis fst_conv in_mono)

lemma triple_reset_numbers:
  "triple (\<lambda>s. handling m n X s \<and> told_reset n s) reset_numbers (\<lambda>_. handling m 1 X) good"
  unfolding triple_def
proof (intro allI impI)
  fix s assume h: "handling m n X s \<and> told_reset n s"
  obtain s1 out where p: "pause True s = (s1, out)" by fastforce
  have h1: "handling m n X s1" "told_reset n s1" using pause_handling [OF p] pause_told [OF p] h by blast+
  have o: "out \<noteq> CutOff True" using pause_uncut [OF p] h by (simp add: handling_def good_def)
  let ?s = "s1\<lparr>ss_store := mem_reset_sequences (ss_store s1), ss_log := NumbersReset # ss_log s1, ss_next_in := 1, ss_target := None\<rparr>"
  have "reset_known (ss_log s1)" using h1 by (auto simp: reset_known_def told_reset_def handling_def good_def)
  then have "handling m 1 X ?s" using h1 by (auto simp: handling_def good_def uncut_def mem_reset_sequences_def)
  then show "case reset_numbers s of (s', Inr x) \<Rightarrow> handling m 1 X s' | (s', Inl e) \<Rightarrow> good s'"
    using o handling_good [OF h1(1)]
    by (auto simp: reset_numbers_def do_all.simps bind_act_def store_call_def upd_def pure_act_def p Let_def
        split: outcome.split sum.split)
qed

lemma triple_obey:
  assumes "seq_of m = 1" and "is_admin m"
  shows "triple (handling (Some m) n X) (obey_peer_reset cfg) (\<lambda>_. good) good"
  unfolding obey_peer_reset_def
proof (rule triple_ask)
  fix s0 assume "handling (Some m) n X s0"
  then have n: "ss_next_in s0 = n" "ss_listener s0" by (simp_all add: handling_def good_def)
  let ?Y = "if 1 < n then insert (LossReported n None) X else X"
  have a: "accounted (Some m) ?Y 1" using accounted_by(1) [OF assms(2), of ?Y] assms(1) by simp
  have c: "silent (when_act b (on_logon_confirmed cfg))" "silent (upd (\<lambda>s. s\<lparr>ss_synced := False, ss_sync_ids := []\<rparr>))" for b
    by (intro silent_rules silent_upd; auto intro!: quiet_fields [where k = 0])+
  have l: "triple (handling (Some m) n X) (when_act (1 < ss_next_in s0 \<and> ss_listener s0) (listener_call False (LossReported (ss_next_in s0) None)))
      (\<lambda>_. handling (Some m) n ?Y) good"
    by (rule triple_when) (auto simp: n told_def intro: triple_listener)
  have t: "told_reset n s" if "handling (Some m) n ?Y s" for s
    using that by (auto simp: told_reset_def handling_def split: if_splits)
  have r: "triple (handling (Some m) n ?Y) reset_numbers (\<lambda>_. handling (Some m) 1 ?Y) good"
    by (rule triple_weaken [OF triple_reset_numbers [of "Some m" n ?Y]]) (use t in auto)
  have adv: "triple (handling (Some m) 1 ?Y) (advance cfg True (Some 2)) (\<lambda>_. handling (Some m) 2 ?Y) good"
    by (rule triple_to) (use a in \<open>auto dest: le_antisym\<close>)
  show "triple (\<lambda>s. handling (Some m) n X s \<and> s = s0)
      (do_all [when_act (ss_state s0 \<in> {LogonSent, Ready, Syncing}) (on_logon_confirmed cfg),
          upd (\<lambda>s. s\<lparr>ss_synced := False, ss_sync_ids := []\<rparr>),
          when_act (1 < ss_next_in s0 \<and> ss_listener s0) (listener_call False (LossReported (ss_next_in s0) None)),
          wait_lock, reset_numbers, advance cfg True (Some 2), send_admin_locked cfg ''A'' (logon_message cfg True)]) (\<lambda>_. good) good"
    by (rule triple_pre)
      (intro triple_silent_then [OF c(1)] triple_silent_then [OF c(2)] triple_cons [OF l] triple_silent_then [OF silent_wait_lock]
        triple_cons [OF r] triple_cons [OF adv] triple_silent_then [OF silent_send_admin_locked] triple_done)
qed

lemma triple_logon_reset:
  assumes "seq_of m = q" and "is_admin m"
  shows "triple (handling (Some m) n X) (on_logon_with_reset cfg m q) (\<lambda>_. good) good"
proof (cases "q = 1")
  case True
  have a: "accounted (Some m) X 1" using accounted_by(1) [OF assms(2), of X] assms(1) True by simp
  have mine: "triple (\<lambda>s. handling (Some m) n X s \<and> s = s0) (do_all [advance cfg False (Some 2), on_logon_confirmed cfg]) (\<lambda>_. good) good"
    if h: "handling (Some m) n X s0" for s0
  proof -
    have "1 \<le> n" using h by (simp add: handling_def good_def)
    have "accounted (Some m) X j" if "n \<le> j" "j < 2" for j
    proof -
      have "j = 1" using \<open>1 \<le> n\<close> that by linarith
      then show ?thesis using a by simp
    qed
    then have "triple (handling (Some m) n X) (advance cfg False (Some 2)) (\<lambda>_. handling (Some m) 2 X) good"
      by (intro triple_to) simp_all
    then show ?thesis
      by (intro triple_pre) (rule triple_cons [OF _ triple_silent_then [OF silent_confirmed triple_done]])
  qed
  show ?thesis
    unfolding on_logon_with_reset_def using True
  proof (simp, intro triple_ask)
    fix s0 assume h: "handling (Some m) n X s0"
    have "triple (\<lambda>s. handling (Some m) n X s \<and> s = s0)
        (if ss_awaiting s0 \<noteq> None \<and> ss_state s0 = LogonSent then do_all [advance cfg False (Some 2), on_logon_confirmed cfg]
         else obey_peer_reset cfg) (\<lambda>_. good) good"
      using mine [OF h] triple_pre [OF triple_obey [OF _ assms(2)]] assms(1) True by simp
    moreover have "triple good (do_all [after_logon cfg]) (\<lambda>_. good) good"
      by (intro triple_cons [OF good_silent] silent_rules triple_nil)
    ultimately show "triple (\<lambda>s. handling (Some m) n X s \<and> s = s0)
        (do_all [if (\<exists>y. ss_awaiting s0 = Some y) \<and> ss_state s0 = LogonSent
          then do_all [advance cfg False (Some 2), on_logon_confirmed cfg] else obey_peer_reset cfg, after_logon cfg]) (\<lambda>_. good) good"
      by (intro triple_cons [where R = good and fs = "[after_logon cfg]"]) simp_all
  qed
next
  case False
  then show ?thesis
    unfolding on_logon_with_reset_def
    by (auto intro: triple_bind [OF triple_silent [OF silent_send_reject]] triple_terminate)
qed

section \<open>Any message, any stream, any history\<close>

lemma triple_checked:
  "triple (handling (Some m) n {}) (handle_checked cfg m (seq_of m) n t) (\<lambda>_. good) good"
proof -
  have admin: "is_admin m" if "msg_type m = ''A'' \<or> msg_type m = ''5''" using that by (auto simp: is_admin_def ADMIN_TYPES_def)
  have done': "triple (handling (Some m) n {})
      (bind_act (when_act (seq_of m = n) (do_all [step_on cfg, store_complete False True])) (\<lambda>_. raise_act (Disconnect ''Logout confirmed'')))
      (\<lambda>_. good) good" if "msg_type m = ''5''"
  proof (rule triple_bind [where R = "\<lambda>_. good"])
    show "triple (handling (Some m) n {}) (when_act (seq_of m = n) (do_all [step_on cfg, store_complete False True])) (\<lambda>_. good) good"
    proof (rule triple_when)
      assume "seq_of m = n"
      then have a: "accounted (Some m) {} n" using accounted_by(1) [OF admin, of "{}"] that by simp
      show "triple (handling (Some m) n {}) (do_all [step_on cfg, store_complete False True]) (\<lambda>_. good) good"
        by (rule triple_step_then [OF a triple_silent_then [OF silent_store_complete triple_done]])
    qed (rule handling_good)
  qed (rule triple_raise)
  have dup: "triple (handling (Some m) n {}) (bind_act (check_orig_sending_time cfg m (seq_of m) t False) (\<lambda>_. pure_act ())) (\<lambda>_. good) good"
    by (rule triple_bind [OF triple_orig_sending_time [of False m n "{}"]]) (auto intro: triple_pure handling_good split: if_splits)
  have refused: "triple (handling (Some m) n {}) (on_logon_refused cfg m) (\<lambda>_. good) good"
    "triple (handling (Some m) n {}) (terminate cfg u) (\<lambda>_. good) good"
    "triple (handling (Some m) n {}) (fail_too_low cfg n q) (\<lambda>_. good) good"
    "triple (handling (Some m) n {}) (on_gap cfg m q) (\<lambda>_. good) good" for u q
    by (intro triple_silent silent_rules)+
  have logon: "triple (handling (Some m) n {}) (on_logon_with_reset cfg m (seq_of m)) (\<lambda>_. good) good" if "msg_type m = ''A''"
    by (rule triple_logon_reset [OF HOL.refl admin]) (simp add: that)
  have order: "triple (handling (Some m) n {}) (handle_in_order cfg m (seq_of m) t) (\<lambda>_. good) good"
    if "seq_of m = n" "msg_type m = ''4'' \<Longrightarrow> get_field m 123 = Some ''Y''"
    using that by (intro triple_in_order) (simp_all add: is_gap_fill_def)
  show ?thesis
    unfolding handle_checked_def
    by (rule triple_ask, rule triple_pre, intro triple_if;
        (rule refused triple_reset_reset dup | (rule done' logon order; auto)))
qed

lemma triple_received:
  "triple (\<lambda>s. good s \<and> ss_next_in s = n)
     (upd (\<lambda>s. note_event (Received m) (s\<lparr>ss_last_received := ss_mono s, ss_test_at := None\<rparr>)))
     (\<lambda>_. handling (Some m) n {}) good"
  by (rule triple_upd) (auto simp: handling_def good_def note_event_def uncut_def)

lemma triple_handle: "triple good (handle cfg m) (\<lambda>_. good) good"
  unfolding handle_def Let_def
proof (rule triple_ask)
  fix s0 assume "good s0"
  let ?n = "ss_next_in s0"
  have c: "triple (handling (Some m) ?n {})
      (bind_act (check_sending_time cfg m (seq_of m) ?n) (\<lambda>t. case t of None \<Rightarrow> pure_act () | Some t \<Rightarrow> handle_checked cfg m (seq_of m) ?n t))
      (\<lambda>_. good) good"
    by (rule triple_bind [OF triple_sending_time]) (auto intro: triple_pure triple_checked split: option.split)
  have e: "triple (handling (Some m) ?n {}) (terminate cfg u) (\<lambda>_. good) good" for u
    by (intro triple_silent silent_rules)
  have f: "triple (handling (Some m) ?n {})
      (bind_act (do_all [discard m (seq_of m), send_reject cfg (seq_of m) REJECT_COMP_ID ''CompID problem'' None, when_act (seq_of m = ?n) (step_on cfg)])
         (\<lambda>_. terminate cfg ''Incorrect SenderCompID or TargetCompID'')) (\<lambda>_. good) good"
    by (rule triple_refuse_end) simp
  let ?body = "if fm_begin m \<noteq> fc_begin cfg then terminate cfg (''Incorrect BeginString '' @ fm_begin m)
        else if seq_of m = 0 then terminate cfg ''MsgSeqNum missing or invalid''
        else if get_field m 49 \<noteq> Some (fc_target cfg) \<or> get_field m 56 \<noteq> Some (fc_sender cfg)
        then bind_act
          (do_all [discard m (seq_of m), send_reject cfg (seq_of m) REJECT_COMP_ID ''CompID problem'' None, when_act (seq_of m = ?n) (step_on cfg)])
          (\<lambda>_. terminate cfg ''Incorrect SenderCompID or TargetCompID'')
        else bind_act (check_sending_time cfg m (seq_of m) ?n)
          (\<lambda>t. case t of None \<Rightarrow> pure_act () | Some t \<Rightarrow> handle_checked cfg m (seq_of m) ?n t)"
  have "triple (handling (Some m) ?n {}) ?body (\<lambda>_. good) good"
    by (intro triple_if c e f)
  then have "triple (handling (Some m) ?n {}) (do_all [?body]) (\<lambda>_. good) good"
    by (rule triple_cons) (simp add: triple_nil)
  then have "triple (\<lambda>s. good s \<and> ss_next_in s = ?n)
      (do_all [upd (\<lambda>s. note_event (Received m) (s\<lparr>ss_last_received := ss_mono s, ss_test_at := None\<rparr>)), ?body]) (\<lambda>_. good) good"
    by (rule triple_cons [OF triple_received])
  then show "triple (\<lambda>s. good s \<and> s = s0)
      (do_all [upd (\<lambda>s. note_event (Received m) (s\<lparr>ss_last_received := ss_mono s, ss_test_at := None\<rparr>)), ?body]) (\<lambda>_. good) good"
    by (rule triple_weaken) auto
qed

lemma triple_items: "triple good (handle_items cfg items) (\<lambda>_. good) good"
  by (induction cfg items rule: handle_items.induct) (auto intro: triple_pure triple_bind [OF triple_handle])

lemma triple_reads: "triple good (read_loop cfg p reads) (\<lambda>_. good) good"
proof (induction reads arbitrary: p)
  case (Cons bytes reads)
  then show ?case by (auto split: prod.split intro: triple_raise triple_bind [OF triple_items])
qed (auto intro: triple_raise)

lemma triple_report_unread:
  "triple (handling m n X) report_unread_before_reset (\<lambda>_ s. handling m n X s \<and> told_reset n s) good"
  unfolding report_unread_before_reset_def
proof (rule triple_ask)
  fix s0 assume h: "handling m n X s0"
  then have n: "ss_next_in s0 = n" "ss_listener s0" by (simp_all add: handling_def good_def)
  let ?Q = "\<lambda>s. handling m n X s \<and> told_reset n s"
  have read: "triple (handling m n X) (store_call True [] (\<lambda>st. (st, ms_complete st)))
      (\<lambda>c s. handling m n X s \<and> (c \<longrightarrow> told_reset n s)) good"
    unfolding triple_def
  proof (intro allI impI)
    fix s assume h: "handling m n X s"
    obtain s1 out where p: "pause True s = (s1, out)" by fastforce
    have "handling m n X s1" by (rule pause_handling [OF p h])
    moreover have "s1\<lparr>ss_store := ss_store s1, ss_log := ss_log s1\<rparr> = s1" by simp
    ultimately show "case store_call True [] (\<lambda>st. (st, ms_complete st)) s of
        (s', Inr c) \<Rightarrow> handling m n X s' \<and> (c \<longrightarrow> told_reset n s') | (s', Inl e) \<Rightarrow> good s'"
      by (auto simp: store_call_def p Let_def told_reset_def dest: handling_good split: outcome.split)
  qed
  have tell: "triple (\<lambda>s. handling m n X s \<and> (c \<longrightarrow> told_reset n s))
      (if c then pure_act () else ask (\<lambda>s. listener_call True (UnreadReported (ss_next_in s)))) (\<lambda>_. ?Q) good" for c
  proof (cases c)
    case False
    have "triple (\<lambda>s. handling m n X s \<and> s = s1) (listener_call True (UnreadReported (ss_next_in s1))) (\<lambda>_. ?Q) good"
      if "handling m n X s1" for s1
    proof -
      have "ss_next_in s1 = n" using that by (simp add: handling_def)
      moreover have "triple (handling m n X) (listener_call True (UnreadReported n)) (\<lambda>_. ?Q) good"
        by (rule triple_weaken [OF triple_listener [of "UnreadReported n" m n X True]])
          (auto simp: told_def told_reset_def handling_def)
      ultimately show ?thesis using triple_pre by simp
    qed
    then have "triple (handling m n X) (ask (\<lambda>s. listener_call True (UnreadReported (ss_next_in s)))) (\<lambda>_. ?Q) good"
      by (rule triple_ask)
    then show ?thesis using False by simp
  qed (auto intro: triple_pure)
  show "triple (\<lambda>s. handling m n X s \<and> s = s0)
      (if ss_next_in s0 \<le> 1 \<or> \<not> ss_listener s0 then pure_act ()
       else bind_act (store_call True [] (\<lambda>st. (st, ms_complete st)))
         (\<lambda>c. if c then pure_act () else ask (\<lambda>s. listener_call True (UnreadReported (ss_next_in s))))) (\<lambda>_. ?Q) good"
  proof (rule triple_pre, rule triple_if)
    assume "ss_next_in s0 \<le> 1 \<or> \<not> ss_listener s0"
    then show "triple (handling m n X) (pure_act ()) (\<lambda>_. ?Q) good" using n by (auto intro!: triple_pure simp: told_reset_def)
  qed (rule triple_bind [OF read tell])
qed

lemma triple_send_logon: "triple good (send_logon cfg) (\<lambda>_. good) good"
proof -
  have reset: "triple good (do_all [report_unread_before_reset, reset_numbers, upd (\<lambda>s. s\<lparr>ss_awaiting := Some period\<rparr>)]) (\<lambda>_. good) good" for period
    unfolding triple_def
  proof (intro allI impI)
    fix s assume "good s"
    then have h: "handling (latest (ss_log s)) (ss_next_in s) {} s" by (simp add: handling_def)
    have "triple (handling m n {}) (do_all [report_unread_before_reset, reset_numbers, upd (\<lambda>s. s\<lparr>ss_awaiting := Some period\<rparr>)]) (\<lambda>_. good) good" for m n
      by (rule triple_cons [OF triple_report_unread triple_cons [OF triple_reset_numbers triple_silent_then [OF _ triple_done]]])
        (intro silent_upd quiet_fields [where k = 0]; simp)
    then show "case do_all [report_unread_before_reset, reset_numbers, upd (\<lambda>s. s\<lparr>ss_awaiting := Some period\<rparr>)] s of
        (s', Inr x) \<Rightarrow> good s' | (s', Inl e) \<Rightarrow> good s'"
      using h unfolding triple_def by simp
  qed
  have period: "triple good
      (when_act (fc_reset_on_logon cfg)
        (let period = q in bind_act (store_call True [] (\<lambda>st. (st, ms_period st))) (\<lambda>last.
           when_act (Some period \<noteq> last)
             (do_all [report_unread_before_reset, reset_numbers, upd (\<lambda>s. s\<lparr>ss_awaiting := Some period\<rparr>)])))) (\<lambda>_. good) good" for q
  proof (rule triple_when)
    have "silent (store_call True [] (\<lambda>st. (st, ms_period st)))" by (intro silent_rules) simp_all
    then show "triple good (let period = q in bind_act (store_call True [] (\<lambda>st. (st, ms_period st))) (\<lambda>last.
           when_act (Some period \<noteq> last)
             (do_all [report_unread_before_reset, reset_numbers, upd (\<lambda>s. s\<lparr>ss_awaiting := Some period\<rparr>)]))) (\<lambda>_. good) good"
      unfolding Let_def by (intro triple_bind [OF good_silent] triple_when reset)
  qed
  have u: "silent (upd (\<lambda>s. s\<lparr>ss_awaiting := None\<rparr>))" "silent (upd (\<lambda>s. s\<lparr>ss_state := LogonSent\<rparr>))"
    by (intro silent_upd quiet_fields [where k = 0]; simp)+
  have l: "silent (ask (\<lambda>s. send_admin_locked cfg ''A'' (logon_message cfg (ss_awaiting s \<noteq> None))))"
    by (intro silent_rules)
  show ?thesis
    unfolding send_logon_def
    by (rule triple_cons [OF good_silent [OF u(1)]], rule triple_cons [OF good_silent [OF silent_wait_lock]],
        rule triple_cons [OF triple_ask [OF triple_pre [OF period]]], rule triple_cons [OF good_silent [OF silent_store_complete]],
        rule triple_cons [OF good_silent [OF u(2)]], rule triple_cons [OF good_silent [OF l]], rule triple_nil)
qed

lemma quiet_good: "quiet s s' \<Longrightarrow> good s \<Longrightarrow> good s'"
  using quiet_handling [of s s' "latest (ss_log s)" "ss_next_in s" "{}"] by (simp add: handling_def)

lemma connection_good:
  assumes "good s"
  shows "good (connection cfg p reads s)"
proof -
  let ?s = "s\<lparr>ss_state := Connecting\<rparr>"
  have g: "good ?s" by (rule quiet_good [OF quiet_fields [where k = 0] assms]) simp_all
  have serve: "triple good (begin_serving cfg) (\<lambda>_. good) good"
    unfolding begin_serving_def
    by (rule triple_cons [OF good_silent triple_cons [OF triple_send_logon triple_nil]])
      (intro silent_upd quiet_fields [where k = 0]; simp)
  have "triple good (do_all [read_loop cfg p reads]) (\<lambda>_. good) good"
    by (rule triple_cons [OF triple_reads]) (simp add: triple_nil)
  then have "triple good (do_all [begin_serving cfg, read_loop cfg p reads]) (\<lambda>_. good) good"
    by (rule triple_cons [OF serve])
  note r = tripleD [OF this g]
  have e: "good (end_connection x s')" if "good s'" for x s'
    by (rule quiet_good [OF quiet_fields [where k = 0] that], unfold end_connection_def fail_session_def on_disconnected_def; cases "served x"; simp)
  obtain s' x where c: "do_all [begin_serving cfg, read_loop cfg p reads] ?s = (s', x)" by fastforce
  then have "good s'" using r by (simp split: sum.splits)
  then show ?thesis using e by (cases x) (simp_all add: connection_def c)
qed

text \<open>The life of a session: it is started again, and it connects, with what its awaits and reads will meet.\<close>

datatype life = Restart | Connect "answer list" fix_parser "string list"

fun live :: "fix_config \<Rightarrow> life list \<Rightarrow> fix_session \<Rightarrow> fix_session" where
  "live cfg [] s = s"
| "live cfg (Restart # rest) s = live cfg rest (start_session s)"
| "live cfg (Connect script p reads # rest) s = live cfg rest (connection cfg p reads (s\<lparr>ss_script := script\<rparr>))"

definition uncut_life :: "life list \<Rightarrow> bool" where
  "uncut_life steps =
     list_all (\<lambda>x. case x of Restart \<Rightarrow> True | Connect script _ _ \<Rightarrow> list_all (\<lambda>a. an_outcome a \<noteq> CutOff True) script) steps"

lemma live_good: "good s \<Longrightarrow> uncut_life steps \<Longrightarrow> good (live cfg steps s)"
proof (induction cfg steps s rule: live.induct)
  case (2 cfg rest s)
  have "good (start_session s)" using 2(2) by (auto simp: good_def start_session_def uncut_def)
  then show ?case using 2 by (simp add: uncut_life_def)
next
  case (3 cfg script p reads rest s)
  have "good (s\<lparr>ss_script := script\<rparr>)" using 3(2,3) by (auto simp: good_def uncut_def uncut_life_def list_all_iff)
  then have "good (connection cfg p reads (s\<lparr>ss_script := script\<rparr>))" by (rule connection_good)
  then show ?case using 3 by (simp add: uncut_life_def)
qed simp

lemma new_session_good: "good (new_session i mono' now)"
  by (simp add: good_def new_session_def new_memory_store_def uncut_def)

lemma sound_advance: "sound (later @ NextInStored n # es) \<Longrightarrow> next_of es \<le> k \<Longrightarrow> k < n \<Longrightarrow> covered (since_received es) k"
  using sound_split [of later "NextInStored n # es"] by simp

lemma sound_reset: "sound (later @ NumbersReset # es) \<Longrightarrow> reset_known es"
  using sound_split [of later "NumbersReset # es"] by simp

section \<open>Properties\<close>

text \<open>C22: No inbound number is used up silently, in any life of a session: whatever the peer sends, whenever
  the other tasks run, calls fail or are cancelled and the process is restarted, each time the number
  expected next moves past numbers, every one of them was, while the same message was handled, an
  application message the application handled or was told is discarded, an administrative message,
  gap-filled by the peer, or reported as possibly lost; and the numbers restart at 1 only when nothing
  was read, all was read, or the application was told what may be lost. No store call may be cut off
  after it took effect.\<close>

theorem no_inbound_number_is_lost:
  assumes "uncut_life steps" and "ss_log (live cfg steps (new_session i m now)) = later @ e # earlier"
  shows "(\<forall>n. e = NextInStored n \<longrightarrow> (\<forall>k \<in> {next_of earlier ..< n}. covered (since_received earlier) k)) \<and>
    (e = NumbersReset \<longrightarrow> reset_known earlier)"
proof -
  have "good (live cfg steps (new_session i m now))" by (rule live_good [OF new_session_good assms(1)])
  then have "sound (later @ e # earlier)" using assms(2) by (simp add: good_def)
  then have "sound (e # earlier)" by (rule sound_split)
  then show ?thesis by (cases e) auto
qed

lemma no_inbound_number_is_lost_witness:
  "reset_known []"
proof -
  let ?cfg = "\<lparr>fc_begin = ''FIX.4.4'', fc_sender = ''ME'', fc_target = ''YOU'', fc_heartbeat = 30, fc_appl_ver = None,
      fc_username = None, fc_password = None, fc_logon = [], fc_reset_on_logon = True, fc_period = (\<lambda>_. ''P''),
      fc_logon_timeout = 1, fc_logout_timeout = 1, fc_skew = None, fc_stale = 1, fc_resend_timeout = None,
      fc_max_resends = 3, fc_max_reconnects = None\<rparr>"
  let ?a = "\<lparr>an_elapsed = 0, an_wall = 0, an_others = [], an_outcome = Done\<rparr>"
  let ?steps = "[Restart, Connect [?a, ?a, ?a, ?a\<lparr>an_outcome := Raises StoreFails\<rparr>] undefined []]"
  have u: "uncut_life ?steps" by (simp add: uncut_life_def)
  have l: "ss_log (live ?cfg ?steps (new_session ''i'' 0 0)) = [] @ NumbersReset # []"
    by (simp add: connection_def begin_serving_def send_logon_def report_unread_before_reset_def reset_numbers_def store_complete_def
        start_session_def new_session_def new_memory_store_def mem_reset_sequences_def ask_def upd_def bind_act_def pure_act_def
        when_act_def do_all.simps Let_def store_call_def wait_lock_def pause_def end_connection_def fail_session_def served_def)
  show ?thesis using no_inbound_number_is_lost [OF u l] by simp
qed

end
