(* ===== verification/FixValues.thy ===== *)
theory FixValues
  imports FixRoundtrip
begin

text \<open>
  Values of \<open>fix/message.py\<close> as text: a decimal is read back with its exact value, and a timestamp with
  its milliseconds.
\<close>

section \<open>Decimals\<close>

lemma digits_value_append: "digits_value (a @ b) = digits_value a * 10 ^ length b + digits_value b"
proof (induction b rule: rev_induct)
  case (snoc x b)
  then show ?case by (simp add: digits_value_def append_assoc [symmetric] algebra_simps del: append_assoc)
qed (simp add: digits_value_def)

lemma digits_value_all_zeros [simp]: "digits_value (replicate k CHR ''0'') = 0"
  using digits_value_zeros [of k "[]"] by (simp add: digits_value_def)

lemma chomp_digit: "s \<noteq> [] \<Longrightarrow> is_digit (last s) \<Longrightarrow> chomp s = s"
  by (auto simp: chomp_def is_digit_def)

lemma minus_not_digit [simp]: "\<not> is_digit CHR ''-''" "is_digit CHR ''0''"
  by (simp_all add: is_digit_def)

text \<open>A text of the two forms \<open>format_dec\<close> writes.\<close>

definition signed :: "bool \<Rightarrow> string \<Rightarrow> string" where
  "signed negative s = (if negative then CHR ''-'' # s else s)"

lemma parse_signed:
  assumes "whole \<noteq> []" and "list_all is_digit whole" and "list_all is_digit fraction"
    and "point = (if fraction = [] then [] else CHR ''.'' # fraction)"
  shows "parse_decimal (signed negative (whole @ point)) tag =
    Inr (Dec ((if negative then - 1 else 1) * int (digits_value (whole @ fraction))) (- int (length fraction)))"
proof -
  let ?u = "whole @ point"
  have "is_digit (last ?u)" using assms by (cases fraction rule: rev_cases; cases whole rule: rev_cases) auto
  then have c: "chomp (signed negative ?u) = signed negative ?u"
    using assms(1) by (intro chomp_digit) (auto simp: signed_def)
  have h: "hd ?u \<noteq> CHR ''-''" using assms(1,2) by (cases whole) auto
  have w: "takeWhile is_digit ?u = whole" "dropWhile is_digit ?u = point"
    using assms(2,4) by (auto simp: list_all_iff takeWhile_append dropWhile_append)
  show ?thesis
  proof (cases negative)
    case True
    then show ?thesis using assms c w unfolding parse_decimal_def Let_def c by (auto simp: signed_def)
  next
    case False
    then show ?thesis using assms c w h unfolding parse_decimal_def Let_def c by (auto simp: signed_def)
  qed
qed

lemma format_dec_signed:
  "format_dec (Dec c e) = signed (c < 0)
     (if 0 \<le> e then nat_str (nat \<bar>c\<bar>) @ (if c = 0 then [] else replicate (nat e) CHR ''0'')
      else if nat (- e) < length (nat_str (nat \<bar>c\<bar>))
      then take (length (nat_str (nat \<bar>c\<bar>)) - nat (- e)) (nat_str (nat \<bar>c\<bar>)) @ CHR ''.'' #
        drop (length (nat_str (nat \<bar>c\<bar>)) - nat (- e)) (nat_str (nat \<bar>c\<bar>))
      else ''0'' @ CHR ''.'' # (replicate (nat (- e) - length (nat_str (nat \<bar>c\<bar>))) CHR ''0'' @ nat_str (nat \<bar>c\<bar>)))"
  by (simp add: Let_def signed_def)

lemma signed_abs: "(if c < 0 then - 1 else 1) * \<bar>c\<bar> = (c :: int)"
  by simp

lemma list_all_nat_str [simp]: "list_all is_digit (nat_str n)"
  using nat_str_is_digit by (auto simp: list_all_iff)

lemma decimal_text:
  "\<exists>d. parse_decimal (format_dec (Dec c e)) tag = Inr d \<and> dval d = dval (Dec c e)"
proof -
  let ?ds = "nat_str (nat \<bar>c\<bar>)" and ?k = "nat (- e)"
  let ?n = "length ?ds"
  have sg: "(if c < 0 then - 1 else 1) * \<bar>c\<bar> = c" by simp
  consider "0 \<le> e" | "e < 0" "?k < ?n" | "e < 0" "?n \<le> ?k" by linarith
  then show ?thesis
  proof cases
    case 1
    let ?w = "?ds @ (if c = 0 then [] else replicate (nat e) CHR ''0'')"
    have v: "int (digits_value ?w) = \<bar>c\<bar> * 10 ^ (if c = 0 then 0 else nat e)"
      by (simp add: digits_value_append digits_value_nat_str) (simp add: digits_value_def)
    have w: "?w \<noteq> []" "list_all is_digit ?w" using nat_str_nonempty nat_str_is_digit by (auto simp: list_all_iff split: if_splits)
    have "format_dec (Dec c e) = signed (c < 0) (?w @ [])" using 1 by (simp only: format_dec_signed if_True append_Nil2)
    then have "parse_decimal (format_dec (Dec c e)) tag = Inr (Dec ((if c < 0 then - 1 else 1) * int (digits_value ?w)) 0)"
      using parse_signed [OF w, of "[]" "[]" "c < 0" tag] by simp
    moreover have "dval (Dec ((if c < 0 then - 1 else 1) * int (digits_value ?w)) 0) = dval (Dec c e)"
      using 1 unfolding v by (auto simp: power_int_def)
    ultimately show ?thesis by blast
  next
    case 2
    let ?w = "take (?n - ?k) ?ds" and ?f = "drop (?n - ?k) ?ds"
    have w: "?w \<noteq> []" "list_all is_digit ?w" "list_all is_digit ?f" "?f \<noteq> []"
      using 2 nat_str_is_digit nat_str_nonempty by (auto simp: list_all_iff dest: in_set_takeD in_set_dropD)
    have "format_dec (Dec c e) = signed (c < 0) (?w @ CHR ''.'' # ?f)"
      using 2 by (simp only: format_dec_signed not_le [symmetric] if_False if_True) simp
    then have "parse_decimal (format_dec (Dec c e)) tag =
        Inr (Dec ((if c < 0 then - 1 else 1) * int (digits_value (?w @ ?f))) (- int (length ?f)))"
      using parse_signed [OF w(1-3), of "CHR ''.'' # ?f" "c < 0" tag] w(4) by (simp only: if_False)
    moreover have "int (length ?f) = - e" using 2 by simp
    ultimately have "parse_decimal (format_dec (Dec c e)) tag = Inr (Dec c e)" by (simp add: digits_value_nat_str sg)
    then show ?thesis by blast
  next
    case 3
    let ?f = "replicate (?k - ?n) CHR ''0'' @ ?ds"
    have w: "''0'' \<noteq> []" "list_all is_digit ''0''" "list_all is_digit ?f" "?f \<noteq> []"
      using nat_str_is_digit nat_str_nonempty by (auto simp: list_all_iff)
    have "format_dec (Dec c e) = signed (c < 0) (''0'' @ CHR ''.'' # ?f)"
      using 3 by (simp only: format_dec_signed not_le [symmetric] if_False) (simp add: not_less)
    then have "parse_decimal (format_dec (Dec c e)) tag =
        Inr (Dec ((if c < 0 then - 1 else 1) * int (digits_value (''0'' @ ?f))) (- int (length ?f)))"
      using parse_signed [OF w(1-3), of "CHR ''.'' # ?f" "c < 0" tag] w(4) by (simp only: if_False)
    moreover have "digits_value (''0'' @ ?f) = nat \<bar>c\<bar>"
      using digits_value_zeros [of "Suc (?k - ?n)" ?ds] by (simp add: digits_value_nat_str)
    moreover have "int (length ?f) = - e" using 3 by simp
    ultimately have "parse_decimal (format_dec (Dec c e)) tag = Inr (Dec c e)" by (simp add: sg)
    then show ?thesis by blast
  qed
qed

section \<open>Dates\<close>

lemma days_before_year_most: "days_before_year y \<le> 366 * (y - 1)"
proof -
  have le: "365 * n + a - b + c \<le> 366 * n" if "c \<le> b" "b \<le> a" "a \<le> n" for n a b c :: nat using that by linarith
  show ?thesis unfolding days_before_year_def Let_def
    by (rule le) (rule div_le_mono2 div_le_dividend, simp_all?)+
qed

lemma int_div_less: "0 < d \<Longrightarrow> t < n * d \<Longrightarrow> t div d < (n :: int)"
proof (rule ccontr)
  assume d: "0 < d" "t < n * d" "\<not> t div d < n"
  then have "n * d \<le> t div d * d" by (simp add: mult_right_mono)
  then show False using d pos_mod_sign [OF d(1), of t] div_mult_mod_eq [of t d] by linarith
qed

lemma div_Suc_step: "0 < k \<Longrightarrow> Suc m div k = m div k + (if Suc m mod k = 0 then 1 else (0::nat))"
  by (simp add: div_Suc)

lemma year_length:
  assumes "1 \<le> y"
  shows "days_before_year (y + 1) = days_before_year y + sum_list (days_in_months y)"
proof -
  obtain m where m: "y = Suc m" using assms by (cases y) auto
  have le: "m div 100 \<le> m div 4" by (rule div_le_mono2) simp_all
  have leap: "is_leap (Suc m) \<longleftrightarrow> Suc m mod 4 = 0 \<and> (Suc m mod 100 \<noteq> 0 \<or> Suc m mod 400 = 0)" by (simp add: is_leap_def)
  have h: "Suc m mod 100 = 0 \<Longrightarrow> Suc m mod 4 = 0" "Suc m mod 400 = 0 \<Longrightarrow> Suc m mod 100 = 0" by presburger+
  have "sum_list (days_in_months y) = 365 + (if is_leap y then 1 else 0)" by (simp add: days_in_months_def)
  moreover have "days_before_year (y + 1) = 365 * Suc m + (m div 4 + (if Suc m mod 4 = 0 then 1 else 0)) -
      (m div 100 + (if Suc m mod 100 = 0 then 1 else 0)) + (m div 400 + (if Suc m mod 400 = 0 then 1 else 0))"
    unfolding m days_before_year_def Let_def by (simp only: add_diff_cancel_right' div_Suc_step zero_less_numeral)
  moreover have "days_before_year y = 365 * m + m div 4 - m div 100 + m div 400" by (simp add: m days_before_year_def)
  moreover have "365 * Suc n + (a + x) - (b + y) + (c + z) = 365 * n + a - b + c + (365 + w)"
    if "b \<le> a" "y \<le> x" "w + y = x + z" for n a b c w x y z :: nat
  proof -
    have "365 * Suc n + (a + x) - (b + y) = (365 * n + a - b) + 365 + (x - y)" using that by simp
    then show ?thesis using that by simp
  qed
  moreover have "(if Suc m mod 100 = 0 then 1 else 0) \<le> (if Suc m mod 4 = 0 then 1 else (0::nat))" using h by simp
  moreover have "(if is_leap y then 1 else 0) + (if Suc m mod 100 = 0 then 1 else 0) =
      (if Suc m mod 4 = 0 then 1 else 0) + (if Suc m mod 400 = 0 then 1 else (0::nat))"
    using h leap unfolding m by auto
  ultimately show ?thesis using le by metis
qed

lemma year_from_spec:
  "days_before_year y \<le> n \<Longrightarrow> y \<le> year_from y n \<and> days_before_year (year_from y n) \<le> n \<and> n < days_before_year (year_from y n + 1)"
proof (induction y n rule: year_from.induct)
  case (1 y n)
  show ?case
  proof (cases "n < days_before_year (y + 1)")
    case True
    then show ?thesis using "1.prems" by (simp add: year_from.simps [of y])
  next
    case False
    then have "year_from y n = year_from (y + 1) n" by (simp add: year_from.simps [of y])
    then show ?thesis using "1.IH" [OF False] False by simp
  qed
qed

lemma month_from_spec:
  "n < sum_list ks \<Longrightarrow>
   case month_from ks mo n of (mo', d) \<Rightarrow>
     mo \<le> mo' \<and> mo' < mo + length ks \<and> 1 \<le> d \<and> d \<le> ks ! (mo' - mo) \<and> sum_list (take (mo' - mo) ks) + (d - 1) = n"
proof (induction ks mo n rule: month_from.induct)
  case (2 k ks mo n)
  show ?case
  proof (cases "n < k")
    case False
    then have "n - k < sum_list ks" using "2.prems" by simp
    from "2.IH" [OF False this] False show ?thesis by (auto simp: nth_Cons' take_Cons' split: prod.splits)
  qed simp
qed simp

lemma days_before_year_mono: "1 \<le> x \<Longrightarrow> x \<le> y \<Longrightarrow> days_before_year x \<le> days_before_year y"
proof (induction y)
  case (Suc y)
  then show ?case using year_length [of y] by (cases "x = Suc y") auto
qed simp

lemma date_of_spec:
  assumes "date_of n = (y, mo, d)" and "n < days_before_year 10000"
  shows "valid_date y mo d \<and> day_number y mo d = n"
proof -
  let ?y0 = "n div 366 + 1"
  have start: "days_before_year ?y0 \<le> n" 
  proof -
    have "366 * (?y0 - 1) \<le> n" by simp
    then show ?thesis using days_before_year_most [of ?y0] by (rule order_trans [rotated])
  qed
  have y: "y = year_from ?y0 n" and md: "month_from (days_in_months y) 1 (n - days_before_year y) = (mo, d)"
    using assms(1) by (auto simp: date_of_def Let_def split: prod.splits)
  have yy: "1 \<le> y" "days_before_year y \<le> n" "n < days_before_year (y + 1)" using year_from_spec [OF start] by (auto simp: y)
  have "y \<le> 9999"
  proof (rule ccontr)
    assume "\<not> y \<le> 9999"
    then have "days_before_year 10000 \<le> days_before_year y" by (intro days_before_year_mono) simp_all
    then show False using yy assms(2) by simp
  qed
  have "n - days_before_year y < sum_list (days_in_months y)" using yy year_length by simp
  from month_from_spec [OF this, of 1] md yy \<open>y \<le> 9999\<close> show ?thesis
    by (auto simp: valid_date_def day_number_def days_before_month_def days_in_month_def days_in_months_def)
qed

section \<open>Timestamps\<close>

lemma is_number_digits: "list_all is_digit (pad k n)"
  using is_number_pad by (simp only: is_number_def)

lemma timestamp_groups_text:
  assumes "y < 10 ^ 4" and "mo < 10 ^ 2" and "d < 10 ^ 2" and "h < 10 ^ 2" and "mi < 10 ^ 2" and "s < 10 ^ 2" and "ms < 10 ^ 3"
  shows "timestamp_groups (pad 4 y @ pad 2 mo @ pad 2 d @ ''-'' @ pad 2 h @ '':'' @ pad 2 mi @ '':'' @ pad 2 s @ ''.'' @ pad 3 ms) =
    Some ([y, mo, d, h, mi, s], pad 3 ms)"
proof -
  let ?t = "pad 4 y @ pad 2 mo @ pad 2 d @ ''-'' @ pad 2 h @ '':'' @ pad 2 mi @ '':'' @ pad 2 s @ ''.'' @ pad 3 ms"
  have l: "length (pad 4 y) = 4" "length (pad 2 mo) = 2" "length (pad 2 d) = 2" "length (pad 2 h) = 2"
      "length (pad 2 mi) = 2" "length (pad 2 s) = 2" "length (pad 3 ms) = 3"
    using assms length_pad by auto
  have "is_digit (last (pad 3 ms))" using is_number_digits [of 3 ms] l(7) by (metis last_in_set length_0_conv list_all_iff zero_neq_numeral)
  then have c: "chomp ?t = ?t" using l(7) by (intro chomp_digit) (auto simp: last_append)
  show ?thesis
    unfolding timestamp_groups_def Let_def c
    using l by (simp add: nth_append is_number_digits)
qed

lemma timestamp_text:
  assumes "0 \<le> t" and "t \<le> MAX_MOMENT" and "format_utc_timestamp (Aware t) = Inr s"
  shows "parse_utc_timestamp s tag = Inr (t - t mod 1000)"
proof -
  define ms where "ms = nat (t div 1000)"
  define sec where "sec = ms div 1000"
  define mi where "mi = sec div 60"
  define h where "h = mi div 60"
  obtain y mo d where date: "date_of (h div 24) = (y, mo, d)" using prod_cases3 by blast
  have s: "s = pad 4 y @ pad 2 mo @ pad 2 d @ ''-'' @ pad 2 (h mod 24) @ '':'' @ pad 2 (mi mod 60) @ '':'' @
      pad 2 (sec mod 60) @ ''.'' @ pad 3 (ms mod 1000)"
    using assms(3) date by (simp add: format_utc_timestamp_def Let_def ms_def sec_def mi_def h_def)
  have day: "h div 24 < days_before_year 10000"
  proof -
    have "int (h div 24) = t div 86400000000"
      using assms(1) by (simp add: h_def mi_def sec_def ms_def zdiv_int div_mult2_eq [symmetric] zdiv_zmult2_eq [symmetric])
    also have "\<dots> < int (days_before_year 10000)" using assms(2) by (intro int_div_less) (simp_all add: MAX_MOMENT_def)
    finally show ?thesis by simp
  qed
  note spec = date_of_spec [OF date day]
  have b: "y < 10 ^ 4" "mo < 10 ^ 2" "d < 10 ^ 2"
    using spec by (auto simp: valid_date_def days_in_month_def days_in_months_def nth_Cons' split: if_splits)
  have g: "timestamp_groups s = Some ([y, mo, d, h mod 24, mi mod 60, sec mod 60], pad 3 (ms mod 1000))"
    unfolding s by (rule timestamp_groups_text) (use b in \<open>simp_all add: less_trans [OF mod_less_divisor]\<close>)
  have l: "length (pad 3 (ms mod 1000)) = 3" by (rule length_pad) simp_all
  have micros: "digits_value (take 6 (pad 3 (ms mod 1000) @ replicate (6 - length (pad 3 (ms mod 1000))) CHR ''0'')) = ms mod 1000 * 1000"
    using l by (simp add: digits_value_append)
  have sum: "(((int (h div 24) * 24 + int (h mod 24)) * 60 + int (mi mod 60)) * 60 + int (sec mod 60)) * 1000000 +
      int (ms mod 1000 * 1000) = t - t mod 1000"
  proof -
    have "int (h div 24) * 24 + int (h mod 24) = int h" "int h * 60 + int (mi mod 60) = int mi"
        "int mi * 60 + int (sec mod 60) = int sec" "int sec * 1000 + int (ms mod 1000) = int ms"
      unfolding h_def mi_def sec_def by (simp_all add: zdiv_int zmod_int)
    moreover have "int ms * 1000 = t - t mod 1000" using assms(1) by (simp add: ms_def minus_mod_eq_div_mult)
    ultimately show ?thesis by simp
  qed
  have "sec mod 60 \<noteq> 60" "sec mod 60 \<le> 59" "h mod 24 \<le> 23" "mi mod 60 \<le> 59" by (simp_all add: less_Suc_eq_le [symmetric])
  then show ?thesis using spec unfolding parse_utc_timestamp_def g
    by (simp add: Let_def micros sum [symmetric] del: take_append)
qed

lemma sample_date: "date_of 738945 = (2024, 3, 1)"
  by (simp add: date_of_def year_from.simps days_before_year_def days_in_months_def is_leap_def)

lemma sample_timestamp: "format_utc_timestamp (Aware 63844848000123456) = Inr ''20240301-00:00:00.123''"
  by (simp add: format_utc_timestamp_def Let_def sample_date pad_def nat_str.simps char_of_def bit_0)

section \<open>Properties\<close>

text \<open> A price keeps its exact value on the wire: every finite decimal is written without an exponent and
  read back as the same number, however many digits it has.\<close>

theorem decimal_text_roundtrip: "\<exists>d'. parse_decimal (format_dec d) tag = Inr d' \<and> dval d' = dval d"
  by (cases d) (metis decimal_text)



end
