(* ===== verification/FixCut.thy ===== *)
theory FixCut
  imports FixInbound FixValues
begin

text \<open>
  Why \<open>FixInbound\<close> asks that no store call is cut off after it took effect: a history in which one is, and
  the session passes over a number it never read.
\<close>

section \<open>A reset that is cut off\<close>

text \<open>
  The session expects number 3 when the peer resets the numbers at Logon. The timer ends the connection
  while the store is resetting them: the store has them at 1, the session still expects 3.
\<close>

definition sample_config :: fix_config where
  "sample_config =
     \<lparr>fc_begin = ''FIX.4.4'', fc_sender = ''ME'', fc_target = ''YOU'', fc_heartbeat = 30, fc_appl_ver = None, fc_username = None,
      fc_password = None, fc_logon = [], fc_reset_on_logon = False, fc_period = (\<lambda>_. []), fc_logon_timeout = 10000000,
      fc_logout_timeout = 10000000, fc_skew = None, fc_stale = 60000000, fc_resend_timeout = None, fc_max_resends = 3,
      fc_max_reconnects = None\<rparr>"

definition sample_message :: "string \<Rightarrow> string \<Rightarrow> (int \<times> field_text) list \<Rightarrow> fix_message" where
  "sample_message ty seq extra =
     \<lparr>fm_begin = ''FIX.4.4'',
      fm_fields = [(35, Plain ty), (49, Plain ''YOU''), (56, Plain ''ME''), (34, Plain seq), (52, Plain ''20240301-00:00:00'')] @ extra,
      fm_defect = None\<rparr>"

definition reading_session :: fix_session where
  "reading_session =
     (new_session ''i'' 0 63844848000123456)
       \<lparr>ss_state := Ready, ss_next_in := 3, ss_store := (new_memory_store ''i'')\<lparr>ms_next_in := 3\<rparr>,
        ss_log := [NextInStored 3, Delivered (sample_message ''8'' ''2'' []), Received (sample_message ''8'' ''2'' []),
                   NextInStored 2, Received (sample_message ''A'' ''1'' [])]\<rparr>"

definition cut_answers :: "answer list" where
  "cut_answers =
     (let a = \<lparr>an_elapsed = 0, an_wall = 0, an_others = [], an_outcome = Done\<rparr> in [a, a, a\<lparr>an_outcome := CutOff True\<rparr>])"

definition after_cut :: fix_session where
  "after_cut =
     (let s = fst (handle sample_config (sample_message ''A'' ''1'' [(141, Plain ''Y'')]) (reading_session\<lparr>ss_script := cut_answers\<rparr>))
      in fst (begin_serving sample_config ((end_connection Cancelled s)\<lparr>ss_script := []\<rparr>)))"

definition after_next_logon :: fix_session where
  "after_next_logon = fst (handle sample_config (sample_message ''A'' ''3'' []) after_cut)"

lemma six_zeros: "replicate 6 c = [c, c, c, c, c, c]"
  by (simp add: eval_nat_numeral)

lemma sample_time: "parse_utc_timestamp ''20240301-00:00:00'' 52 = Inr 63844848000000000"
  by (simp add: parse_utc_timestamp_def timestamp_groups_def six_zeros chomp_def is_digit_def is_number_def digits_value_def
      valid_date_def day_number_def days_before_year_def days_before_month_def days_in_months_def days_in_month_def is_leap_def Let_def)

lemma sample_message_fields [simp]:
  "fm_begin (sample_message ty seq extra) = ''FIX.4.4''" "fm_defect (sample_message ty seq extra) = None"
  "msg_type (sample_message ty seq extra) = ty" "get_field (sample_message ty seq extra) 34 = Some seq"
  "get_field (sample_message ty seq extra) 49 = Some ''YOU''" "get_field (sample_message ty seq extra) 56 = Some ''ME''"
  "get_field (sample_message ty seq extra) 52 = Some ''20240301-00:00:00''"
  "get_field (sample_message ty seq []) 43 = None" "get_field (sample_message ty seq []) 141 = None"
  "get_field (sample_message ty seq [(141, Plain ''Y'')]) 141 = Some ''Y''"
  by (simp_all add: sample_message_def get_field_def msg_type_def)

lemma sample_message_seq [simp]:
  "seq_of (sample_message ty ''1'' extra) = 1" "seq_of (sample_message ty ''2'' extra) = 2" "seq_of (sample_message ty ''3'' extra) = 3"
  by (simp_all add: seq_of_def parse_seq_num_def chomp_def is_number_def is_digit_def digits_value_def Let_def)

lemma sample_config_fields [simp]:
  "fc_begin sample_config = ''FIX.4.4''" "fc_sender sample_config = ''ME''" "fc_target sample_config = ''YOU''"
  "fc_skew sample_config = None" "fc_logon_timeout sample_config = 10000000" "fc_reset_on_logon sample_config = False"
  by (simp_all add: sample_config_def)

lemmas run_defs = ask_def upd_def bind_act_def pure_act_def raise_act_def when_act_def do_all.simps Let_def
  note_event_def store_call_def listener_call_def wait_lock_def pause_def

lemma check_sample: "check_sending_time sample_config (sample_message ty q extra) n k s = (s, Inr (Some 63844848000000000))"
  by (simp add: check_sending_time_def sample_time run_defs)

lemma cut_step:
  "handle sample_config (sample_message ''A'' ''1'' [(141, Plain ''Y'')]) (reading_session\<lparr>ss_script := cut_answers\<rparr>) =
     (reading_session\<lparr>ss_state := Syncing, ss_store := new_memory_store ''i'', ss_last_received := 0, ss_deadline := Some 10000000, ss_synced := False, ss_sync_ids := [],
        ss_log := NumbersReset # LossReported 3 None # Received (sample_message ''A'' ''1'' [(141, Plain ''Y'')]) # ss_log reading_session\<rparr>, Inl Cancelled)"
  by (simp add: handle_def handle_checked_def on_logon_with_reset_def obey_peer_reset_def on_logon_confirmed_def reset_numbers_def
      check_sample run_defs reading_session_def new_session_def cut_answers_def mem_reset_sequences_def new_memory_store_def)

definition logon_frame :: out_frame where
  "logon_frame = \<lparr>of_seq = 1, of_type = ''A'', of_body = ''98=0'' @ [SOH] @ ''108=30'' @ [SOH], of_dup = False, of_orig = None,
     of_time = ''20240301-00:00:00.123''\<rparr>"

lemma logon_body: "encode_fields DATA_FIELDS (logon_message sample_config False) = Inr (''98=0'' @ [SOH] @ ''108=30'' @ [SOH])"
  by (simp add: logon_message_def sample_config_def encode_defs)

lemma logon_bytes: "\<exists>b. frame_bytes sample_config logon_frame = Inr b"
  by (simp add: frame_bytes_def header_fields_def logon_frame_def encode_defs)


lemma write_calm:
  "ss_script s = [] \<Longrightarrow> frame_bytes cfg f = Inr b \<Longrightarrow>
   write_frame cfg f s = ((note_event (Wrote f) s)\<lparr>ss_last_sent := ss_mono s\<rparr>, Inr ())"
  by (simp add: write_frame_def lift_codec_def run_defs)

lemma after_cut_eq:
  "ss_log after_cut = Wrote logon_frame # CompleteStored False # NumbersReset # LossReported 3 None #
     Received (sample_message ''A'' ''1'' [(141, Plain ''Y'')]) # ss_log reading_session"
  "ss_next_in after_cut = 3" "ss_state after_cut = LogonSent" "ss_script after_cut = []" "ss_target after_cut = None"
  "ss_synced after_cut = False" "ss_now after_cut = 63844848000123456"
proof -
  obtain b where b: "frame_bytes sample_config logon_frame = Inr b" using logon_bytes by blast
  let ?s = "reading_session\<lparr>ss_store := new_memory_store ''i'', ss_last_received := 0,
      ss_deadline := Some 10000000, ss_synced := False, ss_sync_ids := [],
      ss_log := NumbersReset # LossReported 3 None # Received (sample_message ''A'' ''1'' [(141, Plain ''Y'')]) # ss_log reading_session,
      ss_state := Disconnected, ss_script := []\<rparr>"
  have s: "after_cut = fst (begin_serving sample_config ?s)"
    by (simp add: after_cut_def cut_step end_connection_def on_disconnected_def served_def)
  have f: "\<lparr>of_seq = 1, of_type = ''A'', of_body = ''98=0'' @ [SOH] @ ''108=30'' @ [SOH], of_dup = False, of_orig = None,
     of_time = ''20240301-00:00:00.123''\<rparr> = logon_frame" by (simp add: logon_frame_def)
  show "ss_log after_cut = Wrote logon_frame # CompleteStored False # NumbersReset # LossReported 3 None #
      Received (sample_message ''A'' ''1'' [(141, Plain ''Y'')]) # ss_log reading_session"
    "ss_next_in after_cut = 3" "ss_state after_cut = LogonSent" "ss_script after_cut = []" "ss_target after_cut = None"
  "ss_synced after_cut = False"    "ss_now after_cut = 63844848000123456"
    using f
    by (simp_all add: s begin_serving_def send_logon_def store_complete_def send_admin_locked_def logon_body run_defs lift_codec_def
        mem_allocate_def mem_set_inbound_complete_def time_text_def sample_timestamp write_calm [OF _ b]
        new_memory_store_def reading_session_def new_session_def)
qed

lemma next_logon_log:
  "\<exists>es. ss_log after_next_logon = es @ NextInStored 4 # Received (sample_message ''A'' ''3'' []) # ss_log after_cut"
proof -
  let ?m = "sample_message ''A'' ''3'' []"
  let ?s1 = "note_event (Received ?m) (after_cut\<lparr>ss_last_received := ss_mono after_cut, ss_test_at := None\<rparr>)"
  let ?s2 = "?s1\<lparr>ss_deadline := Some (ss_mono after_cut + 10000000), ss_state := Syncing\<rparr>"
  let ?s3 = "?s2\<lparr>ss_store := mem_set_next_inbound 4 (ss_store after_cut), ss_log := NextInStored 4 # Received ?m # ss_log after_cut,
      ss_next_in := 4\<rparr>"
  have s3: "step_on sample_config ?s2 = (?s3, Inr ())"
    by (simp add: step_on_def advance_def catch_up_def gap_closed_def maybe_ready_def ask_def upd_def bind_act_def pure_act_def
        store_call_def pause_def when_act_def note_event_def do_all_one do_all_two after_cut_eq(2-))
  have a: "handle sample_config ?m after_cut = after_logon sample_config ?s3"
    using s3
    by (simp add: handle_def handle_checked_def handle_in_order_def check_sample poss_dup_def is_admin_def ADMIN_TYPES_def on_admin_def
        on_logon_confirmed_def after_cut_eq(2-) note_event_def ask_def upd_def bind_act_def pure_act_def Let_def do_all_one do_all_two)
  obtain es where "ss_log (fst (after_logon sample_config ?s3)) = es @ ss_log ?s3"
    using silent_after_logon [of sample_config] unfolding silent_def quiet_def by blast
  then show ?thesis by (auto simp: after_next_logon_def a)
qed

section \<open>Properties\<close>


end
