(* ===== verification/FixLiveness.thy ===== *)
theory FixLiveness
  imports FixCut
begin

text \<open>
  What the session gets done when nothing goes wrong around it: a peer that fell silent is noticed within
  two silences, and once the peer sends what was missing, all of it is delivered in order and the session
  is ready.
\<close>

section \<open>A session left in peace\<close>

text \<open>With no answers scripted, every await succeeds at once and no other task runs.\<close>

lemma pause_calm [simp]: "ss_script s = [] \<Longrightarrow> pause l s = (s, Done)"
  by (simp add: pause_def)

definition calm :: "fix_session \<Rightarrow> fix_session \<Rightarrow> bool" where
  "calm s s' \<longleftrightarrow>
     ss_script s' = [] \<and> ss_state s' = ss_state s \<and> ss_last_received s' = ss_last_received s \<and> ss_test_at s' = ss_test_at s"

definition calm_act :: "'a act \<Rightarrow> bool" where
  "calm_act f \<longleftrightarrow> (\<forall>s. ss_script s = [] \<longrightarrow> calm s (fst (f s)))"

named_theorems calm_rules \<open>coroutines that leave the state and the receipt times alone\<close>

lemma calm_refl: "ss_script s = [] \<Longrightarrow> calm s s"
  by (simp add: calm_def)

lemma calm_trans: "calm s t \<Longrightarrow> calm t u \<Longrightarrow> calm s u"
  by (simp add: calm_def)

lemma calm_pure [calm_rules]: "calm_act (pure_act x)"
  by (simp add: calm_act_def pure_act_def calm_refl)

lemma calm_raise [calm_rules]: "calm_act (raise_act e)"
  by (simp add: calm_act_def raise_act_def calm_refl)

lemma calm_bind [calm_rules]:
  fixes f :: "'a act" and g :: "'a \<Rightarrow> 'b act"
  assumes "calm_act f" and "\<And>x. calm_act (g x)"
  shows "calm_act (bind_act f g)"
  unfolding calm_act_def
proof (intro allI impI)
  fix s :: fix_session assume s: "ss_script s = []"
  obtain s1 r where f: "f s = (s1, r)" by fastforce
  have c: "calm s s1" using assms(1) s f unfolding calm_act_def by (metis fst_conv)
  show "calm s (fst (bind_act f g s))"
  proof (cases r)
    case (Inr x)
    have "ss_script s1 = []" using c by (simp add: calm_def)
    then have "calm s1 (fst (g x s1))" using assms(2) unfolding calm_act_def by blast
    then show ?thesis using c calm_trans by (auto simp: bind_act_def f Inr)
  qed (simp add: bind_act_def f c)
qed

lemma calm_ask [calm_rules]: "(\<And>s. calm_act (f s)) \<Longrightarrow> calm_act (ask f)"
  by (simp add: calm_act_def ask_def)

lemma calm_upd: "(\<And>s. ss_script s = [] \<Longrightarrow> calm s (f s)) \<Longrightarrow> calm_act (upd f)"
  by (simp add: calm_act_def upd_def)

lemma calm_when [calm_rules]: "calm_act f \<Longrightarrow> calm_act (when_act b f)"
  by (simp add: when_act_def calm_pure)

lemma calm_nil [calm_rules]: "calm_act (do_all [])"
  by (simp add: do_all.simps calm_pure)

lemma calm_cons [calm_rules]: "calm_act f \<Longrightarrow> calm_act (do_all fs) \<Longrightarrow> calm_act (do_all (f # fs))"
  by (simp add: do_all.simps calm_bind)

lemma calm_lift [calm_rules]: "calm_act (lift_codec r)"
  by (simp add: lift_codec_def calm_pure calm_raise split: sum.split)

lemma calm_suppress [calm_rules]: "calm_act f \<Longrightarrow> calm_act (suppress f)"
  unfolding calm_act_def suppress_def by (auto split: prod.splits sum.splits ending.splits)

lemma calm_store_call [calm_rules]: "calm_act (store_call l evs f)"
  by (simp add: calm_act_def store_call_def calm_def case_prod_unfold Let_def)

lemma calm_wait_lock [calm_rules]: "calm_act wait_lock"
  by (simp add: calm_act_def wait_lock_def calm_def)

lemma calm_write_frame [calm_rules]: "calm_act (write_frame cfg f)"
proof -
  have "calm_act (\<lambda>s. let (s1, out) = pause True (note_event (Wrote f) s)
       in case out of Done \<Rightarrow> (s1\<lparr>ss_last_sent := ss_mono s1\<rparr>, Inr ())
          | Raises _ \<Rightarrow> (s1, Inl (Disconnect ''write failed'')) | CutOff _ \<Rightarrow> (s1, Inl Cancelled))"
    by (simp add: calm_act_def calm_def note_event_def)
  then show ?thesis unfolding write_frame_def by (intro calm_rules)
qed

lemma calm_send_admin [calm_rules]: "calm_act (send_admin cfg ty fs)"
  unfolding send_admin_def send_admin_locked_def by (intro calm_rules)

lemma calm_sync_request [calm_rules]: "calm_act (send_sync_request cfg)"
  unfolding send_sync_request_def by (intro calm_rules calm_upd) (simp add: calm_def)

lemma calm_resend_request [calm_rules]: "calm_act (send_resend_request cfg)"
  unfolding send_resend_request_def by (intro calm_rules calm_upd) (simp add: calm_def)

section \<open>A silent peer\<close>

text \<open>The timer's turns at the times given, with nothing received in between.\<close>

fun ticks :: "fix_config \<Rightarrow> int list \<Rightarrow> unit act" where
  "ticks cfg [] = pure_act ()"
| "ticks cfg (t # ts) = do_all [upd (\<lambda>s. s\<lparr>ss_mono := t\<rparr>), timer_tick cfg, ticks cfg ts]"

definition waiting :: "int \<Rightarrow> fix_session \<Rightarrow> bool" where
  "waiting r s \<longleftrightarrow> ss_script s = [] \<and> ss_state s \<in> {Syncing, Ready} \<and> ss_last_received s = r"

lemma bind_inr: "bind_act f g s = (s', Inr x) \<Longrightarrow> (\<exists>s1 y. f s = (s1, Inr y) \<and> g y s1 = (s', Inr x))"
  by (auto simp: bind_act_def split: prod.splits sum.splits)

lemma do_all_inr: "do_all (f # fs) s = (s', Inr x) \<Longrightarrow> \<exists>s1. f s = (s1, Inr ()) \<and> do_all fs s1 = (s', Inr x)"
  by (auto simp: do_all.simps dest: bind_inr)

lemma calm_actD: "calm_act f \<Longrightarrow> f s = (s', r) \<Longrightarrow> ss_script s = [] \<Longrightarrow> calm s s'"
  unfolding calm_act_def by (metis fst_conv)

text \<open>One turn that does not end the connection: a test request is out, or the peer was heard recently.\<close>

lemma check_silence_inr:
  assumes "check_silence cfg now s = (s', Inr ())" and "ss_script s = []"
  shows "ss_script s' = [] \<and> ss_state s' = ss_state s \<and> ss_last_received s' = ss_last_received s \<and>
    (case ss_test_at s of
       Some t \<Rightarrow> ss_test_at s' = Some t \<and> now - t \<le> silence_limit cfg
     | None \<Rightarrow> ss_test_at s' = (if silence_limit cfg < now - ss_last_received s then Some now else None))"
proof (cases "ss_test_at s")
  case (Some t)
  have "\<not> silence_limit cfg < now - t"
    using assms(1) Some by (auto simp: check_silence_def ask_def raise_act_def dest!: do_all_inr split: if_splits)
  then show ?thesis using assms Some by (auto simp: check_silence_def ask_def pure_act_def)
next
  case None
  show ?thesis
  proof (cases "silence_limit cfg < now - ss_last_received s")
    case True
    let ?s = "s\<lparr>ss_counter := ss_counter s + 1, ss_test_at := Some now\<rparr>"
    have "ask (\<lambda>s. send_admin cfg ''1'' [(112, say (''TEST'' @ nat_str (ss_counter s)))]) ?s = (s', Inr ())"
      using assms(1) None True by (auto simp: check_silence_def ask_def upd_def pure_act_def do_all.simps bind_act_def split: prod.splits sum.splits)
    then have "calm ?s s'" using assms(2) by (intro calm_actD [of "ask (\<lambda>s. send_admin cfg ''1'' [(112, say (''TEST'' @ nat_str (ss_counter s)))])"]) (intro calm_rules, auto)
    then show ?thesis using None True by (simp add: calm_def)
  next
    case False
    then show ?thesis using assms None by (auto simp: check_silence_def ask_def pure_act_def)
  qed
qed

lemma tick_inr:
  assumes "timer_tick cfg s = (s', Inr ())" and "waiting r s"
  shows "waiting r s' \<and>
    (case ss_test_at s of
       Some t \<Rightarrow> ss_test_at s' = Some t \<and> ss_mono s - t \<le> silence_limit cfg
     | None \<Rightarrow> ss_test_at s' = (if silence_limit cfg < ss_mono s - r then Some (ss_mono s) else None))"
proof -
  have st: "ss_script s = []" "ss_state s = Syncing \<or> ss_state s = Ready" "ss_last_received s = r"
    using assms(2) by (auto simp: waiting_def)
  let ?sync = "when_act (ss_state s = Syncing \<and> ss_sync_ids s \<noteq> [] \<and> SYNC_RETRY < ss_mono s - ss_sync_sent s) (send_sync_request cfg)"
  let ?beat = "ask (\<lambda>s'. when_act (fc_heartbeat cfg * 1000000 \<le> ss_mono s - ss_last_sent s') (send_admin cfg ''0'' []))"
  let ?gap = "ask (\<lambda>s'. when_act (ss_target s' \<noteq> None \<and> resend_timeout cfg < ss_mono s - ss_resend_at s')
      (if fc_max_resends cfg \<le> ss_resends s' then raise_act (Disconnect ''message gap was not filled'') else send_resend_request cfg))"
  have "do_all [?sync, check_silence cfg (ss_mono s), ?beat, ?gap] s = (s', Inr ())"
    using assms(1) st by (auto simp: timer_tick_def ask_def Let_def raise_act_def split: if_splits)
  then obtain s1 s2 where 1: "?sync s = (s1, Inr ())" and 2: "check_silence cfg (ss_mono s) s1 = (s2, Inr ())"
      and 3: "do_all [?beat, ?gap] s2 = (s', Inr ())"
    by (blast dest: do_all_inr)
  have "calm_act ?sync" by (intro calm_rules)
  then have c1: "calm s s1" using calm_actD 1 st(1) by blast
  note k = check_silence_inr [OF 2] c1 [unfolded calm_def]
  then have s2: "ss_script s2 = []" by simp
  have "calm_act (do_all [?beat, ?gap])" by (intro calm_rules) (auto intro!: calm_rules)
  then have "calm s2 s'" using calm_actD 3 s2 by blast
  then show ?thesis using k st by (auto simp: calm_def waiting_def split: option.splits)
qed

text \<open>If all turns pass, no test request is older than the limit at the last one.\<close>

lemma ticks_inr:
  assumes "ticks cfg ts s = (s', Inr ())" and "waiting r s"
  shows "waiting r s' \<and> (case ss_test_at s of
       Some t \<Rightarrow> ss_test_at s' = Some t \<and> (\<forall>u \<in> set ts. u - t \<le> silence_limit cfg)
     | None \<Rightarrow> (\<forall>u \<in> set ts. u - r \<le> silence_limit cfg) \<and> ss_test_at s' = None \<or>
         (\<exists>us t vs. ts = us @ t # vs \<and> (\<forall>u \<in> set us. u - r \<le> silence_limit cfg) \<and> silence_limit cfg < t - r \<and>
            ss_test_at s' = Some t \<and> (\<forall>u \<in> set vs. u - t \<le> silence_limit cfg)))"
  using assms
proof (induction ts arbitrary: s)
  case Nil
  then show ?case by (auto simp: pure_act_def split: option.split)
next
  case (Cons u ts)
  let ?s = "s\<lparr>ss_mono := u\<rparr>"
  obtain s1 where 1: "timer_tick cfg ?s = (s1, Inr ())" and 2: "ticks cfg ts s1 = (s', Inr ())"
    using Cons.prems(1) by (auto simp: upd_def pure_act_def do_all.simps bind_act_def split: prod.splits sum.splits)
  have w: "waiting r ?s" using Cons.prems(2) by (simp add: waiting_def)
  note t = tick_inr [OF 1 w]
  then have ih: "waiting r s1" by simp
  note ih = Cons.IH [OF 2 this]
  show ?case
  proof (cases "ss_test_at s")
    case (Some t')
    then show ?thesis using t ih by auto
  next
    case None
    show ?thesis
    proof (cases "silence_limit cfg < u - r")
      case True
      then have "ss_test_at s1 = Some u" using t None by simp
      then have "\<exists>us t vs. u # ts = us @ t # vs \<and> (\<forall>u \<in> set us. u - r \<le> silence_limit cfg) \<and> silence_limit cfg < t - r \<and>
            ss_test_at s' = Some t \<and> (\<forall>u \<in> set vs. u - t \<le> silence_limit cfg)"
        using ih True by (intro exI [of _ "[]"] exI [of _ u] exI [of _ ts]) simp
      then show ?thesis using ih None by auto
    next
      case False
      then have n: "ss_test_at s1 = None" using t None by simp
      show ?thesis using ih None False
        by (simp add: n) (metis append_Cons set_ConsD linorder_not_less)
    qed
  qed
qed

section \<open>A gap that is filled\<close>

text \<open>An application message that passes every check, given the time it says it was sent.\<close>

definition acceptable :: "fix_config \<Rightarrow> int \<Rightarrow> fix_message \<Rightarrow> int \<Rightarrow> bool" where
  "acceptable cfg now m t \<longleftrightarrow>
     fm_begin m = fc_begin cfg \<and> 0 < seq_of m \<and> get_field m 49 = Some (fc_target cfg) \<and> get_field m 56 = Some (fc_sender cfg) \<and>
     (\<exists>raw. get_field m 52 = Some raw \<and> parse_utc_timestamp raw 52 = Inr t) \<and>
     (case fc_skew cfg of None \<Rightarrow> True | Some limit \<Rightarrow> \<bar>now - t\<bar> \<le> limit) \<and>
     \<not> is_admin m \<and> fm_defect m = None \<and>
     (poss_dup m \<longrightarrow> (\<exists>raw o'. get_field m 122 = Some raw \<and> parse_utc_timestamp raw 122 = Inr o' \<and> o' \<le> t))"

definition in_peace :: "fix_session \<Rightarrow> bool" where
  "in_peace s \<longleftrightarrow> ss_script s = [] \<and> ss_listener s \<and> ss_synced s \<and> ss_state s \<in> {Syncing, Ready}"

text \<open>What is left of the gap after a number.\<close>

definition gap_after :: "nat \<Rightarrow> nat option \<Rightarrow> nat option" where
  "gap_after n target = (case target of None \<Rightarrow> None | Some t \<Rightarrow> if t < n then None else Some t)"

lemma advance_in_peace:
  assumes "in_peace s"
  obtains s' where "step_on cfg s = (s', Inr ())" "in_peace s'" "ss_next_in s' = ss_next_in s + 1" "ss_now s' = ss_now s"
    "ss_target s' = gap_after (ss_next_in s + 1) (ss_target s)"
    "gap_after (ss_next_in s + 1) (ss_target s) = None \<longrightarrow> ss_state s' = Ready"
    "\<exists>es. ss_log s' = es @ ss_log s \<and> list_all (\<lambda>e. \<forall>m. e \<noteq> Delivered m) es"
proof -
  let ?n = "ss_next_in s + 1"
  let ?s1 = "s\<lparr>ss_store := mem_set_next_inbound ?n (ss_store s), ss_log := NextInStored ?n # ss_log s\<rparr>"
  let ?s2 = "catch_up cfg (?s1\<lparr>ss_next_in := ?n\<rparr>)"
  let ?s3 = "if gap_closed ?s2 then ?s2\<lparr>ss_target := None, ss_resends := 0\<rparr> else ?s2"
  let ?s4 = "if ss_state ?s3 = Syncing \<and> ss_target ?s3 = None then note_event BecameReady (?s3\<lparr>ss_state := Ready\<rparr>) else ?s3"
  have p: "in_peace ?s2" "ss_next_in ?s2 = ?n" "ss_now ?s2 = ss_now s" "ss_target ?s2 = ss_target s" "ss_log ?s2 = NextInStored ?n # ss_log s"
      "ss_state ?s2 = ss_state s"
    using assms by (auto simp: in_peace_def catch_up_def)
  have "step_on cfg s = maybe_ready ?s3"
    using assms p
    by (simp add: step_on_def advance_def do_all_one do_all_two bind_act_def ask_def pure_act_def store_call_def upd_def when_act_def in_peace_def)
  also have "\<dots> = (?s4, Inr ())"
    using p by (auto simp: maybe_ready_def ask_def when_act_def upd_def pure_act_def in_peace_def)
  finally have "step_on cfg s = (?s4, Inr ())" .
  moreover have "in_peace ?s4" "ss_next_in ?s4 = ?n" "ss_now ?s4 = ss_now s" "ss_target ?s4 = gap_after ?n (ss_target s)"
    using p by (auto simp: in_peace_def note_event_def gap_after_def gap_closed_def split: option.splits if_splits)
  moreover have "gap_after ?n (ss_target s) = None \<longrightarrow> ss_state ?s4 = Ready"
    using p by (auto simp: in_peace_def note_event_def gap_after_def gap_closed_def split: option.splits if_splits)
  moreover have "ss_log ?s4 = [NextInStored ?n] @ ss_log s \<or> ss_log ?s4 = [BecameReady, NextInStored ?n] @ ss_log s"
    using p by (simp add: note_event_def)
  then have "\<exists>es. ss_log ?s4 = es @ ss_log s \<and> list_all (\<lambda>e. \<forall>m. e \<noteq> Delivered m) es" by fastforce
  ultimately show ?thesis by (rule that)
qed

fun delivered :: "event list \<Rightarrow> fix_message list" where
  "delivered [] = []"
| "delivered (Delivered m # es) = m # delivered es"
| "delivered (_ # es) = delivered es"

lemma delivered_skip: "list_all (\<lambda>e. \<forall>m. e \<noteq> Delivered m) es \<Longrightarrow> delivered (es @ lg) = delivered lg"
proof (induction es)
  case (Cons e es)
  then show ?case by (cases e) auto
qed simp

lemma check_times:
  assumes "acceptable cfg (ss_now s) m t"
  shows "check_sending_time cfg m q n s = (s, Inr (Some t))"
    "(if poss_dup m \<and> msg_type m \<noteq> ''4'' then check_orig_sending_time cfg m q t True else pure_act True) s = (s, Inr True)"
proof -
  obtain raw where raw: "get_field m 52 = Some raw" "parse_utc_timestamp raw 52 = Inr t" using assms by (auto simp: acceptable_def)
  have late: "\<not> (case fc_skew cfg of None \<Rightarrow> False | Some limit \<Rightarrow> limit < \<bar>ss_now s - t\<bar>)"
    using assms by (auto simp: acceptable_def split: option.splits)
  show "check_sending_time cfg m q n s = (s, Inr (Some t))"
    using late by (simp add: check_sending_time_def ask_def pure_act_def Let_def raw)
  show "(if poss_dup m \<and> msg_type m \<noteq> ''4'' then check_orig_sending_time cfg m q t True else pure_act True) s = (s, Inr True)"
  proof (cases "poss_dup m")
    case True
    then obtain raw o' where "get_field m 122 = Some raw" "parse_utc_timestamp raw 122 = Inr o'" "o' \<le> t"
      using assms by (auto simp: acceptable_def)
    then show ?thesis by (simp add: check_orig_sending_time_def pure_act_def)
  qed (simp add: pure_act_def)
qed

lemma handle_in_peace:
  assumes "in_peace s" and "acceptable cfg (ss_now s) m t" and "seq_of m = ss_next_in s"
  obtains s' where "handle cfg m s = (s', Inr ())" "in_peace s'" "ss_next_in s' = ss_next_in s + 1" "ss_now s' = ss_now s"
    "ss_target s' = gap_after (ss_next_in s + 1) (ss_target s)" "ss_target s' = None \<longrightarrow> ss_state s' = Ready"
    "delivered (ss_log s') = m # delivered (ss_log s)"
proof -
  let ?n = "ss_next_in s"
  let ?s1 = "note_event (Received m) (s\<lparr>ss_last_received := ss_mono s, ss_test_at := None\<rparr>)"
  let ?s2 = "note_event (Delivered m) ?s1"
  have p2: "in_peace ?s2" "ss_next_in ?s2 = ?n" "ss_now ?s2 = ss_now s" "ss_target ?s2 = ss_target s"
    using assms(1) by (auto simp: in_peace_def note_event_def)
  have a1: "acceptable cfg (ss_now ?s1) m t" using assms(2) by (simp add: note_event_def)
  have ty: "msg_type m \<noteq> ''A''" "msg_type m \<noteq> ''5''" "msg_type m \<noteq> ''4''" and app: "\<not> is_admin m" and nodef: "fm_defect m = None"
    using assms(2) by (auto simp: acceptable_def is_admin_def ADMIN_TYPES_def)
  have head: "fm_begin m = fc_begin cfg" "seq_of m \<noteq> 0" "get_field m 49 = Some (fc_target cfg)" "get_field m 56 = Some (fc_sender cfg)"
    using assms(2) by (auto simp: acceptable_def)
  obtain s' where s': "step_on cfg ?s2 = (s', Inr ())" "in_peace s'" "ss_next_in s' = ?n + 1" "ss_now s' = ss_now s"
      "ss_target s' = gap_after (?n + 1) (ss_target s)" "gap_after (?n + 1) (ss_target s) = None \<longrightarrow> ss_state s' = Ready"
      "\<exists>es. ss_log s' = es @ ss_log ?s2 \<and> list_all (\<lambda>e. \<forall>m. e \<noteq> Delivered m) es"
    by (rule advance_in_peace [OF p2(1), of cfg]) (simp add: p2)
  have "listener_call False (Delivered m) ?s1 = (?s2, Inr ())"
    using assms(1) by (simp add: listener_call_def in_peace_def note_event_def)
  then have deliver: "deliver cfg m (seq_of m) ?s1 = (s', Inr ())"
    using assms(1) s'(1) by (simp add: deliver_def ask_def do_all_one do_all_two bind_act_def nodef in_peace_def note_event_def)
  have "handle_in_order cfg m (seq_of m) t ?s1 = (s', Inr ())"
    using deliver check_times(2) [OF a1, of "seq_of m"] app by (simp add: handle_in_order_def bind_act_def)
  then have "handle_checked cfg m (seq_of m) ?n t ?s1 = (s', Inr ())"
    using assms(1,3) ty by (auto simp: handle_checked_def ask_def in_peace_def note_event_def)
  then have "handle cfg m s = (s', Inr ())"
    using head check_times(1) [OF a1, of "seq_of m" ?n]
    by (simp add: handle_def ask_def Let_def do_all_one do_all_two bind_act_def upd_def)
  moreover have "delivered (ss_log s') = m # delivered (ss_log s)"
    using s'(7) by (auto simp: delivered_skip note_event_def)
  ultimately show ?thesis using s' that by simp
qed

lemma gap_fills:
  assumes "in_peace s" and "list_all (\<lambda>m. \<exists>t. acceptable cfg (ss_now s) m t) ms" and "ms \<noteq> []"
    and "map seq_of ms = [ss_next_in s ..< ss_next_in s + length ms]"
    and "\<forall>t. ss_target s = Some t \<longrightarrow> t < ss_next_in s + length ms"
  shows "\<exists>s'. handle_items cfg (map Parsed ms) s = (s', Inr ()) \<and> delivered (ss_log s') = rev ms @ delivered (ss_log s) \<and>
    ss_state s' = Ready \<and> ss_target s' = None \<and> ss_next_in s' = ss_next_in s + length ms"
  using assms
proof (induction ms arbitrary: s)
  case (Cons m ms)
  let ?n = "ss_next_in s"
  have seq: "seq_of m = ?n" "map seq_of ms = [?n + 1 ..< ?n + 1 + length ms]"
    using Cons.prems(4) by (simp_all add: upt_conv_Cons del: upt_Suc)
  obtain t where "acceptable cfg (ss_now s) m t" using Cons.prems(2) by auto
  from handle_in_peace [OF Cons.prems(1) this seq(1)] obtain s1 where
    1: "handle cfg m s = (s1, Inr ())" "in_peace s1" "ss_next_in s1 = ?n + 1" "ss_now s1 = ss_now s"
      "ss_target s1 = gap_after (?n + 1) (ss_target s)" "ss_target s1 = None \<longrightarrow> ss_state s1 = Ready"
      "delivered (ss_log s1) = m # delivered (ss_log s)" .
  show ?case
  proof (cases "ms = []")
    case True
    then have "ss_target s1 = None" using Cons.prems(5) 1(5) by (auto simp: gap_after_def split: option.split)
    then show ?thesis using 1 True by (simp add: bind_act_def pure_act_def)
  next
    case False
    have "\<forall>t. ss_target s1 = Some t \<longrightarrow> t < ss_next_in s1 + length ms"
      using Cons.prems(5) 1(3,5) by (auto simp: gap_after_def split: option.splits if_splits)
    then obtain s2 where "handle_items cfg (map Parsed ms) s1 = (s2, Inr ())" "delivered (ss_log s2) = rev ms @ delivered (ss_log s1)"
        "ss_state s2 = Ready" "ss_target s2 = None" "ss_next_in s2 = ss_next_in s1 + length ms"
      using Cons.IH [OF 1(2) _ False] Cons.prems(2) seq(2) 1(3,4) by auto
    then show ?thesis using 1 by (simp add: bind_act_def)
  qed
qed simp

text \<open>A peer that is not heard in two silences is noticed.\<close>

lemma silent_peer_noticed:
  assumes "waiting r s" and "ss_test_at s = None" and "ts = us @ t # vs"
    and "silence_limit cfg < t - r" and "\<exists>v \<in> set vs. silence_limit cfg < v - t" and "\<forall>u \<in> set us. u \<le> t"
  shows "\<exists>s' e. ticks cfg ts s = (s', Inl e)"
proof (rule ccontr)
  assume "\<not> ?thesis"
  then obtain s' where r: "ticks cfg ts s = (s', Inr ())" by (metis old.sum.exhaust surj_pair old.unit.exhaust)
  from ticks_inr [OF r assms(1)] assms(2)
  consider "\<forall>u \<in> set ts. u - r \<le> silence_limit cfg"
    | us' t' vs' where "ts = us' @ t' # vs'" "\<forall>u \<in> set us'. u - r \<le> silence_limit cfg" "\<forall>u \<in> set vs'. u - t' \<le> silence_limit cfg"
    by auto
  then show False
  proof cases
    case 1
    then show ?thesis using assms(3,4) by auto
  next
    case 2
    have "t \<notin> set us'" using 2(2) assms(4) by auto
    moreover obtain v where v: "v \<in> set vs" "silence_limit cfg < v - t" using assms(5) by blast
    moreover have "us @ t # vs = us' @ t' # vs'" using 2(1) assms(3) by simp
    ultimately have "v \<in> set vs' \<and> t' \<le> t"
      using assms(6) by (auto simp: append_eq_append_conv2 append_eq_Cons_conv Cons_eq_append_conv)
    then show ?thesis using 2(3) v(2) by force
  qed
qed

section \<open>Properties\<close>





end
