(* ===== verification/Spec2Isabelle.thy ===== *)
theory Spec2Isabelle
  imports Accounting Book Books Calendars Journal OrderState Resilience ReconcileEvidence FixRoundtrip FixStoreRefine FixResend FixLiveness
begin

text \<open>
  A verification library for \<open>ismet\<close>, a Python library for market data and order management.
\<close>

end
